(* ===== verification/KPrelude.thy ===== *)
theory KPrelude
  imports "HOL-Library.Word" "HOL-Library.Monad_Syntax"
begin

text \<open>
  Prelude of the development: the machine's data types, C arrays as functions, table scans,
  counted loops in the option monad, and the rules about them that the component theories share.

  The target machine addresses 16-bit words: \<^verbatim>\<open>char\<close>, \<^verbatim>\<open>int\<close>, \<^verbatim>\<open>unsigned int\<close>, \<^verbatim>\<open>size_t\<close> and pointers
  all occupy one word, \<^verbatim>\<open>long\<close> two.  Memory cells are \<open>u16\<close>; loop counters, sizes and addresses
  are natural numbers on which wrap-around is written out (\<open>inc16\<close>, \<open>mod 65536\<close>).

  An operation that may fail to return to its caller has result type \<open>option\<close>: \<open>None\<close> stands for
  control never coming back (\<^verbatim>\<open>panic\<close>, which prints and loops forever, and endless waits) and for an
  access outside the object a pointer points into, after which the C program has no defined
  meaning.  The kernel's own error codes are ordinary return values.
\<close>

unbundle bit_operations_syntax

named_theorems kmonad \<open>rules that take the option monad of the kernel model apart\<close>

section \<open>Machine types\<close>

type_synonym u16 = "16 word"

text \<open>The contents of memory from a base pointer onwards.\<close>

type_synonym buf = "nat \<Rightarrow> u16"

definition inc16 :: "nat \<Rightarrow> nat" where
  "inc16 x = (x + 1) mod 65536"

lemma inc16_small: "x < 65535 \<Longrightarrow> inc16 x = Suc x"
  by (simp add: inc16_def)

lemma inc16_bound: "inc16 x < 65536"
  by (simp add: inc16_def)

text \<open>Decrementing wraps from zero to the largest word.\<close>

definition dec16 :: "nat \<Rightarrow> nat" where
  "dec16 x = (x + 65535) mod 65536"

lemma dec16_pos:
  assumes "0 < x" "x \<le> 65536"
  shows "dec16 x = x - 1"
proof -
  have "x + 65535 = (x - 1) + 65536" using assms(1) by linarith
  then have "dec16 x = ((x - 1) + 65536) mod 65536" unfolding dec16_def by (rule arg_cong)
  also have "\<dots> = (x - 1) mod 65536" by (rule mod_add_self2)
  also have "\<dots> = x - 1" using assms by (intro mod_less) linarith
  finally show ?thesis .
qed

text \<open>A \<^verbatim>\<open>long\<close> laid out in two words, low word first.\<close>

definition long_of :: "u16 \<Rightarrow> u16 \<Rightarrow> nat" where
  "long_of lo hi = unat lo + 65536 * unat hi"

definition long_lo :: "nat \<Rightarrow> u16" where
  "long_lo x = of_nat (x mod 65536)"

definition long_hi :: "nat \<Rightarrow> u16" where
  "long_hi x = of_nat (x div 65536)"

lemma unat_u16_less [simp]: "unat (x :: u16) < 65536"
  using unsigned_less [of x] by simp

lemma unat_of_nat_u16: "unat (of_nat x :: u16) = x mod 65536"
  by (simp add: unat_of_nat)

lemma unat_of_nat_u16_small [simp]: "x < 65536 \<Longrightarrow> unat (of_nat x :: u16) = x"
  by (simp add: unat_of_nat)

lemma sint_u16:
  "sint (i :: u16) = (if unat i < 32768 then int (unat i) else int (unat i) - 65536)"
proof -
  have wrap: "(int n + 32768) mod 65536 - 32768 = (if n < 32768 then int n else int n - 65536)"
    if "n < 65536" for n
  proof (cases "n < 32768")
    case False
    then have "(int n + 32768) mod 65536 = (int n - 32768 + 65536) mod 65536"
      by (simp add: add.commute)
    also have "\<dots> = int n - 32768" using that False by (simp only: mod_add_self2) simp
    finally show ?thesis using False by simp
  qed simp
  have "sint i = (int (unat i) + 32768) mod 65536 - 32768"
    unfolding sint_uint by (simp add: signed_take_bit_eq_take_bit_shift take_bit_eq_mod)
  then show ?thesis by (simp only: wrap [OF unat_u16_less])
qed

lemma unat_minus_u16: "i \<noteq> 0 \<Longrightarrow> unat (- i :: u16) = 65536 - unat i"
  using unat_sub_if_size [of 0 i] by (simp add: word_size unat_eq_0)

lemma long_of_bound: "long_of lo hi < 4294967296"
proof -
  have "unat lo \<le> 65535" "unat hi \<le> 65535"
    using unat_u16_less [of lo] unat_u16_less [of hi] by linarith+
  then show ?thesis by (simp add: long_of_def)
qed

lemma long_of_split [simp]: "x < 4294967296 \<Longrightarrow> long_of (long_lo x) (long_hi x) = x"
  by (simp add: long_of_def long_lo_def long_hi_def unat_of_nat_u16 div_less_iff_less_mult)

section \<open>Strings\<close>

text \<open>
  A string literal as the words the compiler emits for it, with its terminator.
\<close>

definition kstr :: "string \<Rightarrow> u16 list" where
  "kstr s = map (\<lambda>c. of_nat (of_char c)) s"

definition cstr :: "string \<Rightarrow> u16 list" where
  "cstr s = kstr s @ [0]"

lemma kstr_simps [simp]: "kstr [] = []" "kstr (c # s) = of_nat (of_char c) # kstr s"
  by (simp_all add: kstr_def)

section \<open>Copies between arrays\<close>

definition blit :: "buf \<Rightarrow> nat \<Rightarrow> u16 list \<Rightarrow> buf" where
  "blit d off xs = (\<lambda>i. if off \<le> i \<and> i < off + length xs then xs ! (i - off) else d i)"

definition slice :: "buf \<Rightarrow> nat \<Rightarrow> nat \<Rightarrow> u16 list" where
  "slice d off n = map d [off ..< off + n]"

lemma length_slice [simp]: "length (slice d off n) = n"
  by (simp add: slice_def)

lemma nth_slice [simp]: "k < n \<Longrightarrow> slice d off n ! k = d (off + k)"
  by (simp add: slice_def)

lemma slice_0 [simp]: "slice d off 0 = []"
  by (simp add: slice_def)

lemma slice_add: "slice d off (m + n) = slice d off m @ slice d (off + m) n"
  by (rule nth_equalityI) (auto simp: nth_append)

lemma slice_cong: "(\<And>i. off \<le> i \<Longrightarrow> i < off + n \<Longrightarrow> d i = d' i) \<Longrightarrow> slice d off n = slice d' off n"
  by (rule nth_equalityI) auto

lemma blit_Nil [simp]: "blit d off [] = d"
  by (rule ext) (auto simp: blit_def)

lemma blit_inside: "off \<le> i \<Longrightarrow> i < off + length xs \<Longrightarrow> blit d off xs i = xs ! (i - off)"
  by (simp add: blit_def)

lemma blit_outside: "i < off \<or> off + length xs \<le> i \<Longrightarrow> blit d off xs i = d i"
  by (auto simp: blit_def)

lemma slice_blit: "slice (blit d off xs) off (length xs) = xs"
  by (rule nth_equalityI) (auto simp: blit_def)

lemma blit_append: "blit d off (xs @ ys) = blit (blit d off xs) (off + length xs) ys"
  by (rule ext) (auto simp: blit_def nth_append)

section \<open>Table scans\<close>

text \<open>
  The kernel's tables are searched by a counted loop that stops at the first entry satisfying a
  condition.  \<open>scan P i k\<close> looks at the \<open>k\<close> entries from \<open>i\<close>; \<open>None\<close> is the loop running out.
\<close>

primrec scan :: "(nat \<Rightarrow> bool) \<Rightarrow> nat \<Rightarrow> nat \<Rightarrow> nat option" where
  "scan P i 0 = None"
| "scan P i (Suc k) = (if P i then Some i else scan P (Suc i) k)"

lemma scan_numeral [simp]:
  "scan P i (numeral k) = (if P i then Some i else scan P (Suc i) (pred_numeral k))"
  by (simp add: numeral_eq_Suc)

lemma scan_None_iff: "scan P i k = None \<longleftrightarrow> (\<forall>m. i \<le> m \<and> m < i + k \<longrightarrow> \<not> P m)"
proof (induction k arbitrary: i)
  case (Suc k)
  have "(\<forall>m. i \<le> m \<and> m < i + Suc k \<longrightarrow> \<not> P m) \<longleftrightarrow>
    \<not> P i \<and> (\<forall>m. Suc i \<le> m \<and> m < Suc i + k \<longrightarrow> \<not> P m)"
    by (metis Suc_leI add_Suc_right add_Suc_shift le_eq_less_or_eq less_add_Suc1 order_refl Suc_leD)
  then show ?case using Suc.IH [of "Suc i"] by simp
qed auto

lemma scan_SomeD:
  "scan P i k = Some j \<Longrightarrow> i \<le> j \<and> j < i + k \<and> P j \<and> (\<forall>m. i \<le> m \<and> m < j \<longrightarrow> \<not> P m)"
proof (induction k arbitrary: i)
  case (Suc k)
  show ?case
  proof (cases "P i")
    case False
    with Suc.prems have "scan P (Suc i) k = Some j" by simp
    from Suc.IH [OF this] False show ?thesis
      by (metis Suc_leD add_Suc_shift le_antisym not_less_eq_eq)
  qed (use Suc.prems in auto)
qed simp

lemma scan_SomeI:
  "i \<le> j \<Longrightarrow> j < i + k \<Longrightarrow> P j \<Longrightarrow> (\<And>m. i \<le> m \<Longrightarrow> m < j \<Longrightarrow> \<not> P m) \<Longrightarrow> scan P i k = Some j"
proof (induction k arbitrary: i)
  case (Suc k)
  show ?case
  proof (cases "i = j")
    case False
    with Suc.prems have "scan P (Suc i) k = Some j"
      by (intro Suc.IH) auto
    with False Suc.prems show ?thesis by simp
  qed (use Suc.prems in simp)
qed simp

lemma scan_ex: "i \<le> j \<Longrightarrow> j < i + k \<Longrightarrow> P j \<Longrightarrow> \<exists>m. scan P i k = Some m"
  using scan_None_iff [of P i k] by (cases "scan P i k") auto

lemma scan_Some_iff:
  "scan P 0 k = Some j \<longleftrightarrow> j < k \<and> P j \<and> (\<forall>m<j. \<not> P m)"
  using scan_SomeD [of P 0 k j] scan_SomeI [of 0 j k P] by auto

lemma scan_None: "scan P 0 k = None \<longleftrightarrow> (\<forall>m<k. \<not> P m)"
  by (simp add: scan_None_iff)

lemma scan_cong: "(\<And>m. i \<le> m \<Longrightarrow> m < i + k \<Longrightarrow> P m = Q m) \<Longrightarrow> scan P i k = scan Q i k"
  by (induction k arbitrary: i) auto

section \<open>The option monad\<close>

text \<open>\<open>require\<close> is the bounds or null check that the hardware does not make.\<close>

definition require :: "bool \<Rightarrow> unit option" where
  "require b = (if b then Some () else None)"

lemma require_simps [simp]: "require True = Some ()" "require False = None"
  by (simp_all add: require_def)

lemma require_Some [simp]: "require b = Some u \<longleftrightarrow> b"
  by (simp add: require_def)

lemma bind_Some_iff [kmonad]: "Option.bind m f = Some y \<longleftrightarrow> (\<exists>x. m = Some x \<and> f x = Some y)"
  by (rule Option.bind_eq_Some_conv)

text \<open>A counted loop \<^verbatim>\<open>for(i = lo; i < lo + k; i++)\<close> whose body may fail.\<close>

primrec forn :: "nat \<Rightarrow> nat \<Rightarrow> (nat \<Rightarrow> 's \<Rightarrow> 's option) \<Rightarrow> 's \<Rightarrow> 's option" where
  "forn i 0 body s = Some s"
| "forn i (Suc k) body s = Option.bind (body i s) (forn (Suc i) k body)"

lemma forn_numeral [simp]:
  "forn i (numeral k) body s = Option.bind (body i s) (forn (Suc i) (pred_numeral k) body)"
  by (simp add: numeral_eq_Suc)

text \<open>The same loop with a body that cannot fail.\<close>

primrec fort :: "nat \<Rightarrow> nat \<Rightarrow> (nat \<Rightarrow> 's \<Rightarrow> 's) \<Rightarrow> 's \<Rightarrow> 's" where
  "fort i 0 body s = s"
| "fort i (Suc k) body s = fort (Suc i) k body (body i s)"

lemma fort_numeral [simp]:
  "fort i (numeral k) body s = fort (Suc i) (pred_numeral k) body (body i s)"
  by (simp add: numeral_eq_Suc)

text \<open>The invariant rules of the two loops.\<close>

lemma forn_rule:
  assumes "I i s"
    and "\<And>m t. i \<le> m \<Longrightarrow> m < i + k \<Longrightarrow> I m t \<Longrightarrow> \<exists>t'. body m t = Some t' \<and> I (Suc m) t'"
  shows "\<exists>s'. forn i k body s = Some s' \<and> I (i + k) s'"
  using assms
proof (induction k arbitrary: i s)
  case (Suc k)
  from Suc.prems(2) [of i s] Suc.prems(1) obtain t where t: "body i s = Some t" "I (Suc i) t"
    by auto
  have "\<exists>s'. forn (Suc i) k body t = Some s' \<and> I (Suc i + k) s'"
    using t(2) Suc.prems(2) by (intro Suc.IH) auto
  with t show ?case by simp
qed simp

lemma forn_inv:
  assumes "forn i k body s = Some s'" "I i s"
    and "\<And>m t t'. i \<le> m \<Longrightarrow> m < i + k \<Longrightarrow> I m t \<Longrightarrow> body m t = Some t' \<Longrightarrow> I (Suc m) t'"
  shows "I (i + k) s'"
  using assms
proof (induction k arbitrary: i s)
  case (Suc k)
  from Suc.prems(1) obtain t where t: "body i s = Some t" "forn (Suc i) k body t = Some s'"
    by (auto simp: kmonad)
  have "I (Suc i) t" using Suc.prems(3) [of i s t] Suc.prems(2) t by simp
  from Suc.IH [OF t(2) this] Suc.prems(3) show ?case by simp
qed simp

lemma fort_inv:
  assumes "I i s" and "\<And>m t. i \<le> m \<Longrightarrow> m < i + k \<Longrightarrow> I m t \<Longrightarrow> I (Suc m) (body m t)"
  shows "I (i + k) (fort i k body s)"
  using assms
proof (induction k arbitrary: i s)
  case (Suc k)
  have "I (Suc i + k) (fort (Suc i) k body (body i s))"
    using Suc.prems by (intro Suc.IH) auto
  then show ?case by simp
qed simp

end
