(* ===== verification/Hw.thy ===== *)
theory Hw
  imports KPrelude
begin

text \<open>
  The hardware the kernel drives through port instructions: the two disks, the page table, the
  interrupt vector table and the output port, as the simulator's device classes give them
  (\<^verbatim>\<open>sim/sim.hpp\<close>: \<^verbatim>\<open>HDD\<close>, \<^verbatim>\<open>MMUTable\<close>, \<^verbatim>\<open>InterruptController\<close>, \<^verbatim>\<open>PORT\<close>), the demultiplexer that picks the
  device for a port, and the kernel's \<^verbatim>\<open>inb\<close> and \<^verbatim>\<open>outb\<close>.  The two serial lines are receive and
  transmit queues with the data and status ports of \<^verbatim>\<open>memmap.h\<close>: a status port reads non-zero
  while words are waiting.  Physical memory is an array of 4096-word frames.
\<close>

section \<open>A disk\<close>

record hdd =
  hd_data :: "nat \<Rightarrow> 8 word"
  hd_bytes :: nat
  hd_sector :: nat
  hd_state :: int
  hd_pos :: nat

abbreviation STATE_READING :: int where "STATE_READING \<equiv> 1"
abbreviation STATE_WRITING :: int where "STATE_WRITING \<equiv> 2"
abbreviation CMD_READ :: u16 where "CMD_READ \<equiv> 1"
abbreviation CMD_WRITE :: u16 where "CMD_WRITE \<equiv> 2"
abbreviation CMD_RESET :: u16 where "CMD_RESET \<equiv> 3"

definition hdd_write :: "nat \<Rightarrow> u16 \<Rightarrow> hdd \<Rightarrow> hdd" where
  "hdd_write addr val h =
     (if addr = 0 then
        if val = CMD_READ then h\<lparr>hd_state := - STATE_READING, hd_pos := 0\<rparr>
        else if val = CMD_WRITE then h\<lparr>hd_state := - STATE_WRITING, hd_pos := 0\<rparr>
        else if val = CMD_RESET then h\<lparr>hd_state := 0, hd_sector := 0, hd_pos := 0\<rparr>
        else h
      else if addr = 1 then
        if hd_state h < 0 then
          if hd_pos h = 0 then h\<lparr>hd_sector := unat val * 65536, hd_pos := hd_pos h + 1\<rparr>
          else if hd_pos h = 1 then
            h\<lparr>hd_sector := hd_sector h OR unat val, hd_pos := 0, hd_state := - hd_state h\<rparr>
          else h
        else if hd_state h = STATE_WRITING then
          if hd_pos h < 512 then
            let dest = hd_sector h * 512 + hd_pos h
            in h\<lparr>hd_data := (hd_data h)(dest := ucast (val AND 0xff),
                   dest + 1 := ucast (drop_bit 8 (val AND 0xff00))),
                 hd_pos := hd_pos h + 2\<rparr>
          else h\<lparr>hd_state := 0\<rparr>
        else h
      else h)"

definition hdd_read :: "nat \<Rightarrow> hdd \<Rightarrow> u16 \<times> hdd" where
  "hdd_read addr h =
     (if addr = 1 \<and> 0 \<le> hd_state h \<and> hd_state h = STATE_READING \<and> hd_pos h < 512 then
        let dest = hd_sector h * 512 + hd_pos h
        in if dest + 1 \<ge> hd_bytes h then (0, h)
           else
             let retval = ucast (hd_data h dest) OR push_bit 8 (ucast (hd_data h (dest + 1)));
                 pos = hd_pos h + 2
             in (retval, h\<lparr>hd_pos := pos, hd_state := (if pos = 512 then 0 else hd_state h)\<rparr>)
      else (0, h))"

section \<open>Ports\<close>

record hw =
  hw_hdd :: "nat \<Rightarrow> hdd"
  hw_rx :: "nat \<Rightarrow> u16 list"
  hw_tx :: "nat \<Rightarrow> u16 list"
  hw_gpio :: "u16 list"
  hw_mmu :: "nat \<Rightarrow> u16"
  hw_vec :: "nat \<Rightarrow> u16"
  hw_ram :: "nat \<Rightarrow> buf"

definition getIoRange :: "nat \<Rightarrow> nat" where
  "getIoRange a = drop_bit 5 (a AND 0x40e0)"

text \<open>The line and register of a serial port address.\<close>

definition uart_line :: "nat \<Rightarrow> nat" where
  "uart_line a = (a mod 32) div 2"

definition uart_write :: "nat \<Rightarrow> u16 \<Rightarrow> 'z hw_scheme \<Rightarrow> 'z hw_scheme" where
  "uart_write a val s =
     (if a mod 2 = 0 then s\<lparr>hw_tx := (hw_tx s)(uart_line a := hw_tx s (uart_line a) @ [val AND 0xff])\<rparr>
      else s)"

definition uart_read :: "nat \<Rightarrow> 'z hw_scheme \<Rightarrow> u16 \<times> 'z hw_scheme" where
  "uart_read a s =
     (case hw_rx s (uart_line a) of
        [] \<Rightarrow> (0, s)
      | c # cs \<Rightarrow> if a mod 2 = 0 then (c, s\<lparr>hw_rx := (hw_rx s)(uart_line a := cs)\<rparr>) else (1, s))"

definition mmu_index :: "nat \<Rightarrow> nat" where
  "mmu_index a = a mod 16384"

definition outb :: "nat \<Rightarrow> u16 \<Rightarrow> 'z hw_scheme \<Rightarrow> 'z hw_scheme" where
  "outb port val s =
     (if getIoRange port = 2 then uart_write port val s
      else if getIoRange port = 5 then s\<lparr>hw_gpio := hw_gpio s @ [val AND 0xff]\<rparr>
      else if getIoRange port = 3 then
        s\<lparr>hw_hdd := (hw_hdd s)(0 := hdd_write (port mod 32) val (hw_hdd s 0))\<rparr>
      else if getIoRange port = 6 then
        s\<lparr>hw_hdd := (hw_hdd s)(1 := hdd_write (port mod 32) val (hw_hdd s 1))\<rparr>
      else if bit port 14 then s\<lparr>hw_mmu := (hw_mmu s)(mmu_index port := val)\<rparr>
      else if getIoRange port = 1 then s\<lparr>hw_vec := (hw_vec s)(port mod 32 := val)\<rparr>
      else s)"

definition inb :: "nat \<Rightarrow> 'z hw_scheme \<Rightarrow> u16 \<times> 'z hw_scheme" where
  "inb port s =
     (if getIoRange port = 2 then uart_read port s
      else if getIoRange port = 5 then (0, s)
      else if getIoRange port = 3 then
        let (v, h) = hdd_read (port mod 32) (hw_hdd s 0) in (v, s\<lparr>hw_hdd := (hw_hdd s)(0 := h)\<rparr>)
      else if getIoRange port = 6 then
        let (v, h) = hdd_read (port mod 32) (hw_hdd s 1) in (v, s\<lparr>hw_hdd := (hw_hdd s)(1 := h)\<rparr>)
      else if bit port 14 then (hw_mmu s (mmu_index port), s)
      else if getIoRange port = 1 then (hw_vec s (port mod 32), s)
      else (0, s))"

section \<open>The port map\<close>

text \<open>The addresses of \<^verbatim>\<open>memmap.h\<close>.\<close>

abbreviation ATA_CONTROL_PORT :: nat where "ATA_CONTROL_PORT \<equiv> 0x60"
abbreviation ATA_DATA_PORT :: nat where "ATA_DATA_PORT \<equiv> 0x61"
abbreviation ATA_2_CONTROL_PORT :: nat where "ATA_2_CONTROL_PORT \<equiv> 0xC0"
abbreviation ATA_2_DATA_PORT :: nat where "ATA_2_DATA_PORT \<equiv> 0xC1"
abbreviation PORT_OUT :: nat where "PORT_OUT \<equiv> 0xA0"
abbreviation UART :: nat where "UART \<equiv> 0x40"
abbreviation UART_SR :: nat where "UART_SR \<equiv> 0x41"
abbreviation UART2 :: nat where "UART2 \<equiv> 0x42"
abbreviation UART2_SR :: nat where "UART2_SR \<equiv> 0x43"

lemma getIoRange_ports [simp]:
  "getIoRange 0x60 = 3" "getIoRange 0x61 = 3" "getIoRange 0xC0 = 6" "getIoRange 0xC1 = 6"
  "getIoRange 0xA0 = 5" "getIoRange 0x40 = 2" "getIoRange 0x41 = 2" "getIoRange 0x42 = 2"
  "getIoRange 0x43 = 2"
  by (simp_all add: getIoRange_def)

lemma outb_gpio [simp]: "outb PORT_OUT val s = s\<lparr>hw_gpio := hw_gpio s @ [val AND 0xff]\<rparr>"
  by (simp add: outb_def)

lemma uart_ports [simp]:
  "uart_line 0x40 = 0" "uart_line 0x41 = 0" "uart_line 0x42 = 1" "uart_line 0x43 = 1"
  by (simp_all add: uart_line_def)

lemma outb_uart [simp]:
  "outb UART val s = s\<lparr>hw_tx := (hw_tx s)(0 := hw_tx s 0 @ [val AND 0xff])\<rparr>"
  "outb UART2 val s = s\<lparr>hw_tx := (hw_tx s)(1 := hw_tx s 1 @ [val AND 0xff])\<rparr>"
  by (simp_all add: outb_def uart_write_def)

lemma outb_ata [simp]:
  "outb ATA_CONTROL_PORT val s = s\<lparr>hw_hdd := (hw_hdd s)(0 := hdd_write 0 val (hw_hdd s 0))\<rparr>"
  "outb ATA_DATA_PORT val s = s\<lparr>hw_hdd := (hw_hdd s)(0 := hdd_write 1 val (hw_hdd s 0))\<rparr>"
  "outb ATA_2_CONTROL_PORT val s = s\<lparr>hw_hdd := (hw_hdd s)(1 := hdd_write 0 val (hw_hdd s 1))\<rparr>"
  "outb ATA_2_DATA_PORT val s = s\<lparr>hw_hdd := (hw_hdd s)(1 := hdd_write 1 val (hw_hdd s 1))\<rparr>"
  by (simp_all add: outb_def)

lemma inb_ata [simp]:
  "inb ATA_DATA_PORT s = (fst (hdd_read 1 (hw_hdd s 0)),
     s\<lparr>hw_hdd := (hw_hdd s)(0 := snd (hdd_read 1 (hw_hdd s 0)))\<rparr>)"
  "inb ATA_2_DATA_PORT s = (fst (hdd_read 1 (hw_hdd s 1)),
     s\<lparr>hw_hdd := (hw_hdd s)(1 := snd (hdd_read 1 (hw_hdd s 1)))\<rparr>)"
  by (simp_all add: inb_def case_prod_beta)

section \<open>Sector transfers\<close>

text \<open>The words of a sector, low byte first.\<close>

definition hd_word :: "hdd \<Rightarrow> nat \<Rightarrow> nat \<Rightarrow> u16" where
  "hd_word h sec k = ucast (hd_data h (sec * 512 + 2 * k)) OR
     push_bit 8 (ucast (hd_data h (sec * 512 + 2 * k + 1)))"

definition hd_present :: "hdd \<Rightarrow> nat \<Rightarrow> bool" where
  "hd_present h sec \<longleftrightarrow> sec * 512 + 512 \<le> hd_bytes h"

primrec hdd_reads :: "nat \<Rightarrow> hdd \<Rightarrow> u16 list \<times> hdd" where
  "hdd_reads 0 h = ([], h)"
| "hdd_reads (Suc n) h = (let (v, h1) = hdd_read 1 h; (vs, h2) = hdd_reads n h1 in (v # vs, h2))"

lemma hdd_read_word:
  assumes "hd_state h = STATE_READING" "hd_pos h = 2 * k" "k < 256" "hd_present h (hd_sector h)"
  shows "hdd_read 1 h = (hd_word h (hd_sector h) k,
    h\<lparr>hd_pos := 2 * Suc k, hd_state := (if Suc k = 256 then 0 else STATE_READING)\<rparr>)"
proof -
  have "\<not> hd_bytes h \<le> Suc (hd_sector h * 512 + 2 * k)"
    using assms(3,4) by (simp add: hd_present_def)
  with assms show ?thesis by (auto simp: hdd_read_def hd_word_def Let_def)
qed

lemma hdd_reads_words:
  assumes "hd_state h = STATE_READING" "hd_pos h = 2 * k" "k + n = 256" "hd_present h (hd_sector h)" "0 < n"
  shows "\<exists>h'. hdd_reads n h = (map (hd_word h (hd_sector h)) [k ..< 256], h') \<and>
    hd_data h' = hd_data h \<and> hd_bytes h' = hd_bytes h"
  using assms
proof (induction n arbitrary: h k)
  case (Suc n)
  have k: "k < 256" using Suc.prems(3) by simp
  note rd = hdd_read_word [OF Suc.prems(1,2) k Suc.prems(4)]
  let ?h = "snd (hdd_read 1 h)"
  show ?case
  proof (cases "n = 0")
    case True
    then have "k = 255" using Suc.prems(3) by simp
    with rd True show ?thesis by (simp add: upt_rec)
  next
    case False
    have w: "hd_word ?h = hd_word h" using rd by (intro ext) (simp add: hd_word_def)
    from Suc.IH [of ?h "Suc k"] rd Suc.prems False
    obtain h' where h': "hdd_reads n ?h = (map (hd_word ?h (hd_sector ?h)) [Suc k ..< 256], h')"
      "hd_data h' = hd_data h" "hd_bytes h' = hd_bytes h"
      by (auto simp: hd_present_def)
    with rd w k show ?thesis
      by (auto simp: case_prod_beta upt_conv_Cons [of k 256] simp del: upt_rec_numeral)
  qed
qed simp

lemma byte_masks: "(0xff :: u16) = mask 8" "(0xff00 :: u16) = push_bit 8 (mask 8)"
  by (simp_all add: mask_eq_exp_minus_1)

lemma halves_word: "ucast (ucast (v AND 0xff) :: 8 word) OR
    push_bit 8 (ucast (ucast (drop_bit 8 v AND 0xff) :: 8 word)) = (v :: u16)"
proof (rule bit_word_eqI)
  fix n assume "n < LENGTH(16)"
  then have "n < 16" by simp
  then show "bit (ucast (ucast (v AND 0xff) :: 8 word) OR
    push_bit 8 (ucast (ucast (drop_bit 8 v AND 0xff) :: 8 word)) :: u16) n = bit v n"
    unfolding byte_masks by (cases "n < 8") (simp_all add: bit_simps not_less less_diff_conv2)
qed

lemma high_byte: "drop_bit 8 (v AND 0xff00) = drop_bit 8 (v :: u16) AND 0xff"
  by simp

text \<open>Writing a whole sector: \<open>hdd_writes\<close> feeds the words to the data register in order.\<close>

primrec hdd_writes :: "u16 list \<Rightarrow> hdd \<Rightarrow> hdd" where
  "hdd_writes [] h = h"
| "hdd_writes (v # vs) h = hdd_writes vs (hdd_write 1 v h)"

lemma sector_offset:
  assumes "m < 256" "k < 256"
  shows "sec * 512 + 2 * m = sec' * 512 + 2 * k \<longleftrightarrow> sec = sec' \<and> m = (k :: nat)"
    "sec * 512 + 2 * m \<noteq> Suc (sec' * 512 + 2 * k)"
proof -
  have "(sec * 512 + 2 * m) div 512 = sec" "(sec * 512 + 2 * m) mod 512 = 2 * m"
    "(sec' * 512 + 2 * k) div 512 = sec'" "(sec' * 512 + 2 * k) mod 512 = 2 * k"
    using assms by simp_all
  then show "sec * 512 + 2 * m = sec' * 512 + 2 * k \<longleftrightarrow> sec = sec' \<and> m = k"
    by (metis nat_mult_eq_cancel1 zero_less_numeral)
  have "even (sec * 512 + 2 * m)" "odd (Suc (sec' * 512 + 2 * k))" by simp_all
  then show "sec * 512 + 2 * m \<noteq> Suc (sec' * 512 + 2 * k)" by metis
qed

lemma hdd_write_word:
  assumes "hd_state h = STATE_WRITING" "hd_pos h = 2 * k" "k < 256"
  shows "hd_state (hdd_write 1 v h) = STATE_WRITING" "hd_pos (hdd_write 1 v h) = 2 * Suc k"
    "hd_sector (hdd_write 1 v h) = hd_sector h" "hd_bytes (hdd_write 1 v h) = hd_bytes h"
    "m < 256 \<Longrightarrow> hd_word (hdd_write 1 v h) sec m =
       (if sec = hd_sector h \<and> m = k then v else hd_word h sec m)"
proof -
  have h: "hdd_write (Suc 0) v h = (let dest = hd_sector h * 512 + 2 * k
      in h\<lparr>hd_data := (hd_data h)(dest := ucast (v AND 0xff),
             dest + 1 := ucast (drop_bit 8 (v AND 0xff00))), hd_pos := 2 * Suc k\<rparr>)"
    using assms by (simp add: hdd_write_def)
  show "hd_state (hdd_write 1 v h) = STATE_WRITING" "hd_pos (hdd_write 1 v h) = 2 * Suc k"
    "hd_sector (hdd_write 1 v h) = hd_sector h" "hd_bytes (hdd_write 1 v h) = hd_bytes h"
    using assms by (simp_all add: h Let_def)
  show "hd_word (hdd_write 1 v h) sec m = (if sec = hd_sector h \<and> m = k then v else hd_word h sec m)"
    if "m < 256"
  proof (cases "sec = hd_sector h \<and> m = k")
    case True
    then show ?thesis by (simp add: h Let_def hd_word_def high_byte halves_word)
  next
    case False
    let ?a = "sec * 512 + 2 * m" and ?b = "hd_sector h * 512 + 2 * k"
    have ne: "?a \<noteq> ?b" using False sector_offset(1) [OF that assms(3)] by blast
    have "?a \<noteq> Suc ?b" "?b \<noteq> Suc ?a"
      using sector_offset(2) [OF that assms(3)] sector_offset(2) [OF assms(3) that] by blast+
    then have "?a \<noteq> Suc ?b" "Suc ?a \<noteq> ?b" "Suc ?b \<noteq> ?a" by metis+
    with ne have "hd_word (hdd_write (Suc 0) v h) sec m = hd_word h sec m"
      by (simp add: h Let_def hd_word_def)
    with False show ?thesis by auto
  qed
qed

lemma hdd_writes_words:
  assumes "hd_state h = STATE_WRITING" "hd_pos h = 2 * k" "k + length vs \<le> 256"
  shows "hd_bytes (hdd_writes vs h) = hd_bytes h \<and> (\<forall>sec m. m < 256 \<longrightarrow>
    hd_word (hdd_writes vs h) sec m =
      (if sec = hd_sector h \<and> k \<le> m \<and> m < k + length vs then vs ! (m - k) else hd_word h sec m))"
  using assms
proof (induction vs arbitrary: h k)
  case (Cons v vs)
  have k: "k < 256" using Cons.prems(3) by simp
  note w = hdd_write_word [OF Cons.prems(1,2) k]
  from Cons.IH [of "hdd_write 1 v h" "Suc k"] Cons.prems w show ?case
    by (auto simp: nth_Cons' Suc_le_eq)
qed auto

text \<open>Addressing a sector: the command, then the high and the low word of its number.\<close>

lemma hdd_command:
  "hdd_write 0 CMD_READ h = h\<lparr>hd_state := - STATE_READING, hd_pos := 0\<rparr>"
  "hdd_write 0 CMD_WRITE h = h\<lparr>hd_state := - STATE_WRITING, hd_pos := 0\<rparr>"
  by (simp_all add: hdd_write_def)

lemma hdd_sector_hi:
  "hd_state h < 0 \<Longrightarrow> hd_pos h = 0 \<Longrightarrow>
   hdd_write (Suc 0) v h = h\<lparr>hd_sector := unat v * 65536, hd_pos := Suc 0\<rparr>"
  by (simp add: hdd_write_def)

lemma hdd_sector_lo:
  "hd_state h < 0 \<Longrightarrow> hd_pos h = Suc 0 \<Longrightarrow>
   hdd_write (Suc 0) v h = h\<lparr>hd_sector := hd_sector h OR unat v, hd_pos := 0, hd_state := - hd_state h\<rparr>"
  by (simp add: hdd_write_def)

lemma hdd_select:
  "hdd_write (Suc 0) lo (hdd_write (Suc 0) 0 (hdd_write 0 CMD_READ h)) =
    h\<lparr>hd_sector := unat lo, hd_pos := 0, hd_state := STATE_READING\<rparr>"
  "hdd_write (Suc 0) lo (hdd_write (Suc 0) 0 (hdd_write 0 CMD_WRITE h)) =
    h\<lparr>hd_sector := unat lo, hd_pos := 0, hd_state := STATE_WRITING\<rparr>"
  by (simp_all add: hdd_command hdd_sector_hi hdd_sector_lo)

end
