(* ===== verification/Blk.thy ===== *)
theory Blk
  imports Hw
begin

text \<open>
  Block devices: the driver table (\<^verbatim>\<open>blkdriver.c\<close>), the ATA driver (\<^verbatim>\<open>ata.c\<close>) over the simulated
  disks, and the block cache (\<^verbatim>\<open>blk.c\<close>).  A \<^verbatim>\<open>struct iblkdriver *\<close> is one of the two driver objects of
  the kernel, \<open>Ata_driver\<close> or \<open>Loop_driver\<close>; the functions behind it are passed to the cache as \<open>dops\<close>,
  because the loop driver calls the file system, which calls the cache.  A \<^verbatim>\<open>struct Block *\<close> is an
  index into the cache.
\<close>

datatype drvp = Ata_driver | Loop_driver

record major_driver_pair =
  bd_major :: nat
  bd_driver :: "drvp option"

record block =
  b_flags :: u16
  b_device :: u16
  b_n :: u16
  b_cnt :: u16
  b_data :: buf

record blk_st = hw +
  blkdrivers :: "nat \<Rightarrow> major_driver_pair"
  blockCache :: "nat \<Rightarrow> block"

record 's iblkdriver =
  drv_write :: "u16 \<Rightarrow> u16 \<Rightarrow> buf \<Rightarrow> 's \<Rightarrow> 's option"
  drv_read :: "u16 \<Rightarrow> u16 \<Rightarrow> buf \<Rightarrow> 's \<Rightarrow> (buf \<times> 's) option"

abbreviation MAX_BLK_DRIVERS :: nat where "MAX_BLK_DRIVERS \<equiv> 3"
abbreviation BAD_MAJOR :: nat where "BAD_MAJOR \<equiv> 0xffff"
abbreviation BLOCK_FREE :: u16 where "BLOCK_FREE \<equiv> 0"
abbreviation BLOCK_USED :: u16 where "BLOCK_USED \<equiv> 1"
abbreviation BLOCK_MODIFIED :: u16 where "BLOCK_MODIFIED \<equiv> 2"
abbreviation BLOCK_CACHE_SIZE :: nat where "BLOCK_CACHE_SIZE \<equiv> 16"

definition DEV_MAJOR :: "u16 \<Rightarrow> nat" where "DEV_MAJOR x = unat x div 256"
definition DEV_MINOR :: "u16 \<Rightarrow> nat" where "DEV_MINOR x = unat x mod 256"

section \<open>The driver table\<close>

definition getDriverEntry :: "nat \<Rightarrow> 'z blk_st_scheme \<Rightarrow> nat option" where
  "getDriverEntry major s = scan (\<lambda>i. bd_major (blkdrivers s i) = major) 0 MAX_BLK_DRIVERS"

definition getBlkDriver :: "u16 \<Rightarrow> 'z blk_st_scheme \<Rightarrow> drvp option" where
  "getBlkDriver device s = do {
     el \<leftarrow> getDriverEntry (DEV_MAJOR device) s;
     bd_driver (blkdrivers s el) }"

definition blkdrivers_init :: "'z blk_st_scheme \<Rightarrow> 'z blk_st_scheme" where
  "blkdrivers_init s = s\<lparr>blkdrivers := (\<lambda>i. if i < MAX_BLK_DRIVERS
     then \<lparr>bd_major = BAD_MAJOR, bd_driver = None\<rparr> else blkdrivers s i)\<rparr>"

definition regBlkDriver :: "u16 \<Rightarrow> drvp \<Rightarrow> 'z blk_st_scheme \<Rightarrow> 'z blk_st_scheme option" where
  "regBlkDriver device driver s = do {
     let maj = DEV_MAJOR device;
     require (getDriverEntry maj s = None);
     el \<leftarrow> getDriverEntry BAD_MAJOR s;
     Some (s\<lparr>blkdrivers := (blkdrivers s)(el := \<lparr>bd_major = maj, bd_driver = Some driver\<rparr>)\<rparr>) }"

section \<open>The ATA driver\<close>

definition ata_ctl_port :: "nat \<Rightarrow> nat option" where
  "ata_ctl_port device = (if device = 0 then Some ATA_CONTROL_PORT
     else if device = 1 then Some ATA_2_CONTROL_PORT else None)"

definition ata_data_port :: "nat \<Rightarrow> nat option" where
  "ata_data_port device = (if device = 0 then Some ATA_DATA_PORT
     else if device = 1 then Some ATA_2_DATA_PORT else None)"

definition ataInit :: "nat \<Rightarrow> 'z hw_scheme \<Rightarrow> 'z hw_scheme option" where
  "ataInit device s = do { ctl \<leftarrow> ata_ctl_port device; Some (outb ctl CMD_RESET s) }"

primrec ataReadDataBuffer :: "nat \<Rightarrow> nat \<Rightarrow> 'z hw_scheme \<Rightarrow> u16 list \<times> 'z hw_scheme" where
  "ataReadDataBuffer port 0 s = ([], s)"
| "ataReadDataBuffer port (Suc n) s =
     (let (v, s1) = inb port s; (vs, s2) = ataReadDataBuffer port n s1 in (v # vs, s2))"

primrec ataWriteDataBuffer :: "nat \<Rightarrow> u16 list \<Rightarrow> 'z hw_scheme \<Rightarrow> 'z hw_scheme" where
  "ataWriteDataBuffer port [] s = s"
| "ataWriteDataBuffer port (v # vs) s = ataWriteDataBuffer port vs (outb port v s)"

definition ataReadSectorsLBA :: "u16 \<Rightarrow> u16 \<Rightarrow> 'z hw_scheme \<Rightarrow> (u16 list \<times> 'z hw_scheme) option" where
  "ataReadSectorsLBA device_full Sector s = do {
     let device = DEV_MINOR device_full;
     ctl \<leftarrow> ata_ctl_port device;
     dat \<leftarrow> ata_data_port device;
     let s1 = outb ctl CMD_READ s;
     let s2 = outb dat 0 s1;
     let s3 = outb dat Sector s2;
     Some (ataReadDataBuffer dat 256 s3) }"

definition ataWriteSectorsLBA :: "u16 \<Rightarrow> u16 \<Rightarrow> u16 list \<Rightarrow> 'z hw_scheme \<Rightarrow> 'z hw_scheme option" where
  "ataWriteSectorsLBA device_full Sector Buffer s = do {
     let device = DEV_MINOR device_full;
     ctl \<leftarrow> ata_ctl_port device;
     dat \<leftarrow> ata_data_port device;
     let s1 = outb ctl CMD_WRITE s;
     let s2 = outb dat 0 s1;
     let s3 = outb dat Sector s2;
     Some (ataWriteDataBuffer dat Buffer s3) }"

definition ataGetDriver :: "'z blk_st_scheme iblkdriver" where
  "ataGetDriver = \<lparr>
     drv_write = (\<lambda>device n b s. ataWriteSectorsLBA device n (slice b 0 256) s),
     drv_read = (\<lambda>device n b s. do { (ws, s') \<leftarrow> ataReadSectorsLBA device n s; Some (blit b 0 ws, s') })\<rparr>"

section \<open>The block cache\<close>

definition blk_upd :: "nat \<Rightarrow> (block \<Rightarrow> block) \<Rightarrow> 'z blk_st_scheme \<Rightarrow> 'z blk_st_scheme" where
  "blk_upd i f s = s\<lparr>blockCache := (blockCache s)(i := f (blockCache s i))\<rparr>"

definition block_sync_entry ::
  "(drvp \<Rightarrow> 'z blk_st_scheme iblkdriver) \<Rightarrow> nat \<Rightarrow> 'z blk_st_scheme \<Rightarrow> 'z blk_st_scheme option" where
  "block_sync_entry dops i s =
     (let b = blockCache s i in
      if b_cnt b = 0 then do {
        s1 \<leftarrow> (if b_flags b = BLOCK_MODIFIED then do {
                 p \<leftarrow> getBlkDriver (b_device b) s;
                 drv_write (dops p) (b_device b) (b_n b) (b_data b) s }
               else Some s);
        Some (blk_upd i (b_flags_update (\<lambda>_. BLOCK_FREE)) s1) }
      else Some s)"

definition block_sync ::
  "(drvp \<Rightarrow> 'z blk_st_scheme iblkdriver) \<Rightarrow> 'z blk_st_scheme \<Rightarrow> 'z blk_st_scheme option" where
  "block_sync dops s = forn 0 BLOCK_CACHE_SIZE (block_sync_entry dops) s"

text \<open>The two table scans of \<^verbatim>\<open>bread\<close>.\<close>

definition cached :: "'z blk_st_scheme \<Rightarrow> u16 \<Rightarrow> u16 \<Rightarrow> nat option" where
  "cached s device n = scan (\<lambda>i. b_flags (blockCache s i) \<noteq> BLOCK_FREE \<and>
     b_device (blockCache s i) = device \<and> b_n (blockCache s i) = n) 0 BLOCK_CACHE_SIZE"

definition free_entry :: "'z blk_st_scheme \<Rightarrow> nat option" where
  "free_entry s = scan (\<lambda>i. b_flags (blockCache s i) = BLOCK_FREE) 0 BLOCK_CACHE_SIZE"

definition fetch ::
  "(drvp \<Rightarrow> 'z blk_st_scheme iblkdriver) \<Rightarrow> nat \<Rightarrow> u16 \<Rightarrow> u16 \<Rightarrow> 'z blk_st_scheme \<Rightarrow>
   'z blk_st_scheme option" where
  "fetch dops i device n s = do {
     let s1 = blk_upd i (\<lambda>b. b\<lparr>b_flags := BLOCK_USED, b_device := device, b_n := n, b_cnt := 1\<rparr>) s;
     p \<leftarrow> getBlkDriver device s1;
     (d, s2) \<leftarrow> drv_read (dops p) device n (b_data (blockCache s1 i)) s1;
     Some (blk_upd i (b_data_update (\<lambda>_. d)) s2) }"

partial_function (option) bread ::
  "(drvp \<Rightarrow> 'z blk_st_scheme iblkdriver) \<Rightarrow> u16 \<Rightarrow> u16 \<Rightarrow> 'z blk_st_scheme \<Rightarrow>
   (nat \<times> 'z blk_st_scheme) option" where
  "bread dops device n s =
     (case cached s device n of
        Some i \<Rightarrow> Some (i, blk_upd i (\<lambda>b. b\<lparr>b_cnt := b_cnt b + 1\<rparr>) s)
      | None \<Rightarrow>
          (case free_entry s of
             Some i \<Rightarrow> do { s' \<leftarrow> fetch dops i device n s; Some (i, s') }
           | None \<Rightarrow> do { s' \<leftarrow> block_sync dops s; bread dops device n s' }))"

definition bfree :: "nat \<Rightarrow> 'z blk_st_scheme \<Rightarrow> 'z blk_st_scheme" where
  "bfree i s = blk_upd i (\<lambda>b. b\<lparr>b_cnt := b_cnt b - 1\<rparr>) s"

definition block_init :: "'z blk_st_scheme \<Rightarrow> 'z blk_st_scheme" where
  "block_init s = fort 0 BLOCK_CACHE_SIZE (\<lambda>i. blk_upd i (b_flags_update (\<lambda>_. BLOCK_FREE))) s"


section \<open>The driver table\<close>

lemma getDriverEntry_reg:
  assumes "getDriverEntry (DEV_MAJOR device) s = None" "getDriverEntry BAD_MAJOR s = Some el"
  shows "getDriverEntry (DEV_MAJOR device)
    (s\<lparr>blkdrivers := (blkdrivers s)(el := \<lparr>bd_major = DEV_MAJOR device, bd_driver = d\<rparr>)\<rparr>) = Some el"
  using assms by (auto simp: getDriverEntry_def scan_Some_iff scan_None simp del: scan_numeral)

lemma DEV_MAJOR_small [simp]: "DEV_MAJOR d \<noteq> BAD_MAJOR"
proof -
  have "unat d div 256 < 256" using unat_u16_less [of d] by (simp add: div_less_iff_less_mult)
  then show ?thesis by (simp add: DEV_MAJOR_def)
qed

lemma regBlkDriver_lookup:
  "regBlkDriver device driver s = Some s' \<Longrightarrow> getBlkDriver device s' = Some driver"
  using getDriverEntry_reg [of device s]
  by (auto simp: regBlkDriver_def getBlkDriver_def kmonad Let_def)

section \<open>Sectors of the simulated disks\<close>

definition trunc :: "buf \<Rightarrow> buf" where
  "trunc b = (\<lambda>k. if k < 256 then b k else 0)"

lemma trunc_apply [simp]: "k < 256 \<Longrightarrow> trunc b k = b k"
  by (simp add: trunc_def)

lemma trunc_eq_iff: "trunc a = trunc b \<longleftrightarrow> (\<forall>k<256. a k = b k)"
  by (auto simp: trunc_def fun_eq_iff)

lemma trunc_trunc [simp]: "trunc (trunc b) = trunc b"
  by (auto simp: trunc_def)

lemma unat_eq_u16: "unat a = unat (b :: u16) \<Longrightarrow> a = b"
  by (rule unsigned_word_eqI)

definition ata_stored :: "(nat \<Rightarrow> hdd) \<Rightarrow> u16 \<Rightarrow> u16 \<Rightarrow> buf" where
  "ata_stored h d n = trunc (hd_word (h (unat d)) (unat n))"

definition ata_present :: "(nat \<Rightarrow> hdd) \<Rightarrow> u16 \<Rightarrow> u16 \<Rightarrow> bool" where
  "ata_present h d n \<longleftrightarrow> unat d < 2 \<and> hd_present (h (unat d)) (unat n)"

definition hdd_put :: "nat \<Rightarrow> hdd \<Rightarrow> 'z hw_scheme \<Rightarrow> 'z hw_scheme" where
  "hdd_put u h s = s\<lparr>hw_hdd := (hw_hdd s)(u := h)\<rparr>"

lemma hdd_put_simps [simp]:
  "hw_hdd (hdd_put u h s) = (hw_hdd s)(u := h)" "hdd_put u h (hdd_put u h' s) = hdd_put u h s"
  by (simp_all add: hdd_put_def)

lemma readDataBuffer_hdd:
  assumes "ata_data_port u = Some p"
  shows "ataReadDataBuffer p n s =
    (fst (hdd_reads n (hw_hdd s u)), hdd_put u (snd (hdd_reads n (hw_hdd s u))) s)"
proof (induction n arbitrary: s)
  case 0
  show ?case by (simp add: hdd_put_def)
next
  case (Suc n)
  from assms have "inb p s = (fst (hdd_read 1 (hw_hdd s u)), hdd_put u (snd (hdd_read 1 (hw_hdd s u))) s)"
    by (auto simp: ata_data_port_def hdd_put_def split: if_splits)
  then show ?case by (simp add: Suc.IH case_prod_beta Let_def)
qed

lemma writeDataBuffer_hdd:
  assumes "ata_data_port u = Some p"
  shows "ataWriteDataBuffer p vs s = hdd_put u (hdd_writes vs (hw_hdd s u)) s"
proof (induction vs arbitrary: s)
  case Nil
  show ?case by (simp add: hdd_put_def)
next
  case (Cons v vs)
  from assms have "outb p v s = hdd_put u (hdd_write 1 v (hw_hdd s u)) s"
    by (auto simp: ata_data_port_def hdd_put_def split: if_splits)
  then show ?case by (simp add: Cons.IH)
qed

lemma ata_ports:
  assumes "u < 2"
  obtains c p where "ata_ctl_port u = Some c" "ata_data_port u = Some p"
    "\<And>v (s :: 'z hw_scheme). outb c v s = s\<lparr>hw_hdd := (hw_hdd s)(u := hdd_write 0 v (hw_hdd s u))\<rparr>"
    "\<And>v (s :: 'z hw_scheme). outb p v s = s\<lparr>hw_hdd := (hw_hdd s)(u := hdd_write 1 v (hw_hdd s u))\<rparr>"
proof -
  from assms have "u = 0 \<or> u = 1" by linarith
  then show ?thesis
    using that by (auto simp: ata_ctl_port_def ata_data_port_def)
qed

lemma DEV_MINOR_small: "unat d < 2 \<Longrightarrow> DEV_MINOR d = unat d"
  by (simp add: DEV_MINOR_def)

lemma ata_read_ok:
  assumes "ata_present (hw_hdd s) d n"
  shows "\<exists>b' h. drv_read ataGetDriver d n b s = Some (b', s\<lparr>hw_hdd := h\<rparr>) \<and>
    trunc b' = ata_stored (hw_hdd s) d n \<and> ata_stored h = ata_stored (hw_hdd s) \<and>
    ata_present h = ata_present (hw_hdd s)"
proof -
  let ?u = "unat d"
  from assms have u: "?u < 2" "DEV_MINOR d = ?u" by (simp_all add: ata_present_def DEV_MINOR_small)
  obtain c p where port: "ata_ctl_port ?u = Some c" "ata_data_port ?u = Some p"
    "\<And>v (s :: 'a blk_st_scheme). outb c v s = s\<lparr>hw_hdd := (hw_hdd s)(?u := hdd_write 0 v (hw_hdd s ?u))\<rparr>"
    "\<And>v (s :: 'a blk_st_scheme). outb p v s = s\<lparr>hw_hdd := (hw_hdd s)(?u := hdd_write 1 v (hw_hdd s ?u))\<rparr>"
    using ata_ports [OF u(1)] by metis
  let ?h = "(hw_hdd s ?u)\<lparr>hd_sector := unat n, hd_pos := 0, hd_state := STATE_READING\<rparr>"
  have pres: "hd_present ?h (hd_sector ?h)" using assms by (simp add: ata_present_def hd_present_def)
  obtain h' where h': "hdd_reads 256 ?h = (map (hd_word ?h (unat n)) [0 ..< 256], h')"
    "hd_data h' = hd_data ?h" "hd_bytes h' = hd_bytes ?h"
    using hdd_reads_words [of ?h 0 256] pres by auto
  have hw: "hd_word ?h = hd_word (hw_hdd s ?u)" by (intro ext) (simp add: hd_word_def)
  have hw': "hd_word h' = hd_word (hw_hdd s ?u)" using h'(2) by (intro ext) (simp add: hd_word_def)
  let ?h2 = "(hw_hdd s)(?u := h')"
  have "ataReadSectorsLBA d n s = Some (map (hd_word (hw_hdd s ?u) (unat n)) [0 ..< 256],
      s\<lparr>hw_hdd := ?h2\<rparr>)"
    using port h'(1)
    by (simp add: ataReadSectorsLBA_def u Let_def hdd_select hw readDataBuffer_hdd [OF port(2)] hdd_put_def
        del: hdd_reads.simps upt_rec_numeral)
  then have rd: "drv_read ataGetDriver d n b s =
      Some (blit b 0 (map (hd_word (hw_hdd s ?u) (unat n)) [0 ..< 256]), s\<lparr>hw_hdd := ?h2\<rparr>)"
    by (simp add: ataGetDriver_def del: upt_rec_numeral)
  have "trunc (blit b 0 (map (hd_word (hw_hdd s ?u) (unat n)) [0 ..< 256])) =
      ata_stored (hw_hdd s) d n"
    unfolding ata_stored_def trunc_eq_iff by (simp add: blit_def del: upt_rec_numeral)
  moreover have "ata_stored ?h2 = ata_stored (hw_hdd s)"
    using hw' by (intro ext) (simp add: ata_stored_def)
  moreover have "ata_present ?h2 = ata_present (hw_hdd s)"
    using h'(3) by (intro ext) (simp add: ata_present_def hd_present_def)
  ultimately show ?thesis using rd by blast
qed

lemma ata_write_ok:
  assumes "ata_present (hw_hdd s) d n"
  shows "\<exists>h. drv_write ataGetDriver d n b s = Some (s\<lparr>hw_hdd := h\<rparr>) \<and>
    ata_stored h = (ata_stored (hw_hdd s))(d := (ata_stored (hw_hdd s) d)(n := trunc b)) \<and>
    ata_present h = ata_present (hw_hdd s)"
proof -
  let ?u = "unat d"
  from assms have u: "?u < 2" "DEV_MINOR d = ?u" by (simp_all add: ata_present_def DEV_MINOR_small)
  obtain c p where port: "ata_ctl_port ?u = Some c" "ata_data_port ?u = Some p"
    "\<And>v (s :: 'a blk_st_scheme). outb c v s = s\<lparr>hw_hdd := (hw_hdd s)(?u := hdd_write 0 v (hw_hdd s ?u))\<rparr>"
    "\<And>v (s :: 'a blk_st_scheme). outb p v s = s\<lparr>hw_hdd := (hw_hdd s)(?u := hdd_write 1 v (hw_hdd s ?u))\<rparr>"
    using ata_ports [OF u(1)] by metis
  let ?h = "(hw_hdd s ?u)\<lparr>hd_sector := unat n, hd_pos := 0, hd_state := STATE_WRITING\<rparr>"
  let ?h' = "hdd_writes (slice b 0 256) ?h"
  have hw: "hd_word ?h = hd_word (hw_hdd s ?u)" by (intro ext) (simp add: hd_word_def)
  have "hd_bytes ?h' = hd_bytes ?h" and w: "\<And>sec m. m < 256 \<Longrightarrow> hd_word ?h' sec m =
      (if sec = unat n then b m else hd_word (hw_hdd s ?u) sec m)"
    using hdd_writes_words [of ?h 0 "slice b 0 256"] by (auto simp: hw)
  moreover have "ataWriteSectorsLBA d n (slice b 0 256) s = Some (s\<lparr>hw_hdd := (hw_hdd s)(?u := ?h')\<rparr>)"
    using port
    by (simp add: ataWriteSectorsLBA_def u Let_def hdd_select writeDataBuffer_hdd [OF port(2)] hdd_put_def)
  moreover have "ata_stored ((hw_hdd s)(?u := ?h')) =
      (ata_stored (hw_hdd s))(d := (ata_stored (hw_hdd s) d)(n := trunc b))"
    by (intro ext) (auto simp: ata_stored_def trunc_def w dest: unat_eq_u16)
  ultimately show ?thesis
    by (intro exI [of _ "(hw_hdd s)(?u := ?h')"] conjI)
       (auto simp: ataGetDriver_def ata_present_def hd_present_def fun_eq_iff)
qed

end
