(* ===== verification/KString.thy ===== *)
theory KString
  imports KPrelude
begin

text \<open>
  The string routines of \<^verbatim>\<open>rl_os/kernel/string.c\<close>.  A C string argument is the list of the words
  from the pointer to the end of the object it points into; running off that list is \<open>None\<close>.
  Destinations are arrays (\<open>buf\<close>).  \<^verbatim>\<open>memcpy\<close>, which the kernel has in assembly, is \<open>blit\<close> and
  \<open>slice\<close> of the prelude.  Characters are signed 16-bit words.
\<close>

definition isdigit :: "u16 \<Rightarrow> bool" where
  "isdigit c \<longleftrightarrow> 48 \<le> sint c \<and> sint c \<le> 57"

fun atoi_loop :: "u16 list \<Rightarrow> u16 \<Rightarrow> u16 option" where
  "atoi_loop [] res = None"
| "atoi_loop (c # s) res = (if isdigit c then atoi_loop s (res * 10 + (c - 48)) else Some res)"

definition atoi :: "u16 list \<Rightarrow> u16 option" where
  "atoi s = atoi_loop s 0"

fun strcmp :: "u16 list \<Rightarrow> u16 list \<Rightarrow> u16 option" where
  "strcmp (c1 # s1) (c2 # s2) =
     (let d = c1 - c2 in if d \<noteq> 0 \<or> c1 = 0 then Some d else strcmp s1 s2)"
| "strcmp s1 s2 = None"

fun strlen :: "u16 list \<Rightarrow> nat option" where
  "strlen [] = None"
| "strlen (c # s) = (if c \<noteq> 0 then map_option Suc (strlen s) else Some 0)"

function reverse_loop :: "u16 list \<Rightarrow> int \<Rightarrow> int \<Rightarrow> u16 list" where
  "reverse_loop s i j =
     (if i < j then reverse_loop (s[nat i := s ! nat j, nat j := s ! nat i]) (i + 1) (j - 1) else s)"
  by pat_completeness auto
termination
  by (relation "measure (\<lambda>(s, i, j). nat (j - i))") auto

declare reverse_loop.simps [simp del]

definition reverse :: "u16 list \<Rightarrow> u16 list option" where
  "reverse s = do { n \<leftarrow> strlen s; Some (reverse_loop s 0 (int n - 1)) }"

text \<open>The digits of \<open>n\<close>, lowest first, as the do-while loop of \<^verbatim>\<open>itoa\<close> stores them.\<close>

fun itoa_digits :: "nat \<Rightarrow> u16 list" where
  "itoa_digits n = of_nat (n mod 10 + 48) # (if n div 10 > 0 then itoa_digits (n div 10) else [])"

declare itoa_digits.simps [simp del]

partial_function (option) itoa :: "u16 \<Rightarrow> u16 list option" where
  "itoa n =
     (if sint n < 0 then do { t \<leftarrow> itoa (- n); Some (45 # t) }
      else reverse (itoa_digits (unat n) @ [0]))"

fun strcpy_words :: "u16 list \<Rightarrow> u16 list option" where
  "strcpy_words [] = None"
| "strcpy_words (c # s) = (if c \<noteq> 0 then map_option (Cons c) (strcpy_words s) else Some [0])"

definition strcpy :: "buf \<Rightarrow> u16 list \<Rightarrow> buf option" where
  "strcpy dest src = do { ws \<leftarrow> strcpy_words src; Some (blit dest 0 ws) }"

fun strncpy_words :: "u16 list \<Rightarrow> nat \<Rightarrow> u16 list option" where
  "strncpy_words s 0 = Some []"
| "strncpy_words [] (Suc l) = None"
| "strncpy_words (c # s) (Suc l) =
     (if c = 0 then Some (0 # replicate l 0) else map_option (Cons c) (strncpy_words s l))"

definition strncpy :: "buf \<Rightarrow> u16 list \<Rightarrow> nat \<Rightarrow> buf option" where
  "strncpy d s l = do { ws \<leftarrow> strncpy_words s l; Some (blit d 0 ws) }"

primrec memset :: "buf \<Rightarrow> nat \<Rightarrow> u16 \<Rightarrow> nat \<Rightarrow> buf" where
  "memset dest p val 0 = dest"
| "memset dest p val (Suc k) = memset (dest(p := val)) (Suc p) val k"

fun memcmp_loop :: "u16 list \<Rightarrow> u16 list \<Rightarrow> nat \<Rightarrow> u16 option" where
  "memcmp_loop (a # p1) (b # p2) len =
     (if len - 1 \<noteq> 0 \<and> a = b then memcmp_loop p1 p2 (len - 1) else Some (a - b))"
| "memcmp_loop p1 p2 len = None"

definition memcmp :: "u16 list \<Rightarrow> u16 list \<Rightarrow> nat \<Rightarrow> u16 option" where
  "memcmp mem1 mem2 len = (if len = 0 then Some 0 else memcmp_loop mem1 mem2 len)"

section \<open>Terminated strings\<close>

text \<open>\<open>is_cstr s xs\<close>: the words at the pointer are the string \<open>xs\<close>, its terminator and a rest.\<close>

definition is_cstr :: "u16 list \<Rightarrow> u16 list \<Rightarrow> bool" where
  "is_cstr s xs \<longleftrightarrow> 0 \<notin> set xs \<and> (\<exists>rest. s = xs @ 0 # rest)"

lemma is_cstr_cstr: "0 \<notin> set (kstr t) \<Longrightarrow> is_cstr (cstr t) (kstr t)"
  by (simp add: is_cstr_def cstr_def)

lemma strlen_cstr: "is_cstr s xs \<Longrightarrow> strlen s = Some (length xs)"
  unfolding is_cstr_def by (induction xs arbitrary: s) auto

lemma strlen_Some: "strlen s = Some n \<Longrightarrow> is_cstr s (take n s)"
proof (induction s arbitrary: n rule: strlen.induct)
  case (2 c s)
  show ?case
  proof (cases "c = 0")
    case False
    with 2 obtain m where m: "strlen s = Some m" "n = Suc m" by auto
    from "2.IH" [OF False m(1)] False show ?thesis by (auto simp: is_cstr_def m)
  qed (use 2 in \<open>simp add: is_cstr_def\<close>)
qed simp

lemma strcpy_words_cstr: "is_cstr s xs \<Longrightarrow> strcpy_words s = Some (xs @ [0])"
  unfolding is_cstr_def by (induction xs arbitrary: s) auto

lemma strncpy_words_cstr:
  "is_cstr s xs \<Longrightarrow> strncpy_words s l = Some (take l (xs @ replicate l 0))"
  unfolding is_cstr_def
proof (induction xs arbitrary: s l)
  case Nil
  then show ?case by (cases l) auto
next
  case (Cons x xs)
  from Cons.prems obtain s' where s: "s = x # s'" and s': "0 \<notin> set xs \<and> (\<exists>rest. s' = xs @ 0 # rest)"
    and "x \<noteq> 0" by auto
  show ?case
  proof (cases l)
    case (Suc k)
    have "take k (xs @ replicate k 0) = take k (xs @ replicate (Suc k) 0)"
      by (simp only: take_append take_replicate) (simp add: min_def)
    with Cons.IH [OF s', of k] Suc s \<open>x \<noteq> 0\<close> show ?thesis by simp
  qed (simp add: s)
qed

lemma memset_blit: "memset dest p val k = blit dest p (replicate k val)"
proof (induction k arbitrary: dest p)
  case (Suc k)
  show ?case
    by (rule ext) (auto simp: Suc blit_def nth_Cons' not_le)
qed simp

section \<open>Comparison\<close>

lemma strcmp_step:
  "strcmp (c1 # s1) (c2 # s2) = (if c1 \<noteq> c2 \<or> c1 = 0 then Some (c1 - c2) else strcmp s1 s2)"
  by (simp add: Let_def)

lemma strcmp_cstr:
  "is_cstr s xs \<Longrightarrow> is_cstr t ys \<Longrightarrow> \<exists>d. strcmp s t = Some d \<and> (d = 0 \<longleftrightarrow> xs = ys)"
  unfolding is_cstr_def
proof (induction xs arbitrary: s ys t)
  case Nil
  then show ?case by (cases ys) (auto simp: strcmp_step simp del: strcmp.simps)
next
  case (Cons x xs)
  then obtain s' where s: "s = x # s'" "0 \<notin> set xs \<and> (\<exists>rest. s' = xs @ 0 # rest)" "x \<noteq> 0" by auto
  show ?case
  proof (cases ys)
    case Nil
    with Cons.prems s show ?thesis by (auto simp: strcmp_step simp del: strcmp.simps)
  next
    case (Cons y ys')
    with Cons.prems obtain t' where t: "t = y # t'" "0 \<notin> set ys' \<and> (\<exists>rest. t' = ys' @ 0 # rest)"
      by auto
    from Cons.IH [OF s(2) t(2)] s t Cons show ?thesis
      by (auto simp: strcmp_step simp del: strcmp.simps)
  qed
qed

lemma memcmp_loop_eq:
  "0 < len \<Longrightarrow> len \<le> length p1 \<Longrightarrow> len \<le> length p2 \<Longrightarrow>
   \<exists>d. memcmp_loop p1 p2 len = Some d \<and> (d = 0 \<longleftrightarrow> take len p1 = take len p2)"
proof (induction p1 p2 len rule: memcmp_loop.induct)
  case (1 a p1 b p2 len)
  then obtain k where k: "len = Suc k" by (cases len) auto
  show ?case
  proof (cases "k \<noteq> 0 \<and> a = b")
    case True
    with 1 k show ?thesis by simp
  next
    case False
    with k show ?thesis by (cases "k = 0") auto
  qed
qed auto

section \<open>Reversal\<close>

lemma reverse_loop_length [simp]: "length (reverse_loop s i j) = length s"
proof (induction s i j rule: reverse_loop.induct)
  case (1 s i j)
  show ?case using 1 by (subst reverse_loop.simps) auto
qed

lemma reverse_loop_nth:
  "0 \<le> i \<Longrightarrow> i \<le> j + 1 \<Longrightarrow> j < int (length s) \<Longrightarrow> k < length s \<Longrightarrow>
   reverse_loop s i j ! k = (if i \<le> int k \<and> int k \<le> j then s ! nat (i + j - int k) else s ! k)"
proof (induction s i j rule: reverse_loop.induct)
  case (1 s i j)
  show ?case
  proof (cases "i < j")
    case False
    then have "nat (i + j - int k) = k" if "i \<le> int k \<and> int k \<le> j" using that by linarith
    with False show ?thesis by (subst reverse_loop.simps) auto
  next
    case True
    let ?s = "s[nat i := s ! nat j, nat j := s ! nat i]"
    have IH: "reverse_loop ?s (i + 1) (j - 1) ! k =
        (if i + 1 \<le> int k \<and> int k \<le> j - 1 then ?s ! nat (i + j - int k) else ?s ! k)"
      using 1 True by simp
    have "reverse_loop s i j ! k = reverse_loop ?s (i + 1) (j - 1) ! k"
      using True by (subst reverse_loop.simps) simp
    also note IH
    also have "(if i + 1 \<le> int k \<and> int k \<le> j - 1 then ?s ! nat (i + j - int k) else ?s ! k) =
        (if i \<le> int k \<and> int k \<le> j then s ! nat (i + j - int k) else s ! k)"
      using True "1.prems" by (auto simp: nth_list_update nat_eq_iff eq_nat_nat_iff)
    finally show ?thesis .
  qed
qed

lemma reverse_loop_prefix:
  assumes "n \<le> length s"
  shows "reverse_loop s 0 (int n - 1) = rev (take n s) @ drop n s"
proof (rule nth_equalityI)
  show "length (reverse_loop s 0 (int n - 1)) = length (rev (take n s) @ drop n s)"
    using assms by simp
next
  fix k assume "k < length (reverse_loop s 0 (int n - 1))"
  then have k: "k < length s" by simp
  have "nat (int n - 1 - int k) = n - Suc k" if "k < n" using that by linarith
  then show "reverse_loop s 0 (int n - 1) ! k = (rev (take n s) @ drop n s) ! k"
    using reverse_loop_nth [of 0 "int n - 1" s k] assms k
    by (auto simp: nth_append rev_nth min_def)
qed

lemma reverse_cstr: "0 \<notin> set xs \<Longrightarrow> reverse (xs @ 0 # rest) = Some (rev xs @ 0 # rest)"
  using strlen_cstr [of "xs @ 0 # rest" xs]
  by (simp add: reverse_def is_cstr_def reverse_loop_prefix)

section \<open>Numbers\<close>

lemma itoa_digits_range: "d \<in> set (itoa_digits n) \<Longrightarrow> \<exists>k<10. d = of_nat (k + 48)"
proof (induction n rule: itoa_digits.induct)
  case (1 n)
  from "1.prems" have "d = of_nat (n mod 10 + 48) \<or> (n div 10 > 0 \<and> d \<in> set (itoa_digits (n div 10)))"
    by (subst (asm) itoa_digits.simps) (auto split: if_splits)
  then show ?case
  proof
    assume "d = of_nat (n mod 10 + 48)"
    then show ?thesis by (intro exI [of _ "n mod 10"]) simp
  qed (use "1.IH" in blast)
qed

lemma digit_word: "k < 10 \<Longrightarrow> (of_nat (k + 48) :: u16) \<noteq> 0 \<and> isdigit (of_nat (k + 48))"
proof -
  assume "k < 10"
  then have "k \<in> {0, 1, 2, 3, 4, 5, 6, 7, 8, 9}" by auto
  then show ?thesis by (auto simp: isdigit_def)
qed

lemma itoa_digits_nonzero: "0 \<notin> set (itoa_digits n)"
  using itoa_digits_range [of 0 n] digit_word by fastforce

lemma atoi_loop_append:
  "(\<And>c. c \<in> set xs \<Longrightarrow> isdigit c) \<Longrightarrow>
   atoi_loop (xs @ ys) r = atoi_loop ys (foldl (\<lambda>a c. a * 10 + (c - 48)) r xs)"
  by (induction xs arbitrary: r) auto

lemma foldl_digits: "foldl (\<lambda>a c. a * 10 + (c - 48)) 0 (rev (itoa_digits n)) = (of_nat n :: u16)"
proof (induction n rule: itoa_digits.induct)
  case (1 n)
  have n: "of_nat n = (of_nat (n div 10) * 10 + of_nat (n mod 10) :: u16)"
    by (metis div_mult_mod_eq of_nat_add of_nat_mult of_nat_numeral)
  show ?case
  proof (cases "n div 10 > 0")
    case True
    from "1.IH" [OF True] True show ?thesis
      by (subst itoa_digits.simps) (simp add: n)
  next
    case False
    then have "n div 10 = 0" by simp
    with n show ?thesis by (subst itoa_digits.simps) simp
  qed
qed

lemma itoa_nonneg: "0 \<le> sint n \<Longrightarrow> itoa n = Some (rev (itoa_digits (unat n)) @ [0])"
  using reverse_cstr [OF itoa_digits_nonzero, of "unat n" "[]"] by (subst itoa.simps) simp

lemma isdigit_0 [simp]: "\<not> isdigit 0"
  by (simp add: isdigit_def)

lemma itoa_neg:
  assumes "sint n < 0" "n \<noteq> 0x8000"
  shows "0 < sint (- n)" "itoa n = map_option (\<lambda>t. 45 # t) (itoa (- n))"
proof -
  have u: "32768 \<le> unat n" using assms(1) by (subst (asm) sint_u16) (auto split: if_splits)
  moreover have "unat n \<noteq> 32768" using assms(2) by (auto simp: word_unat_eq_iff)
  moreover have "(unat n + unat (- n)) mod 65536 = unat (n + - n)" by (simp only: unat_word_ariths) simp
  then have "(unat n + unat (- n)) mod 65536 = 0" by simp
  then obtain k where k: "unat n + unat (- n) = 65536 * k" by (auto elim: dvdE)
  then have "k = 1" using u unat_u16_less [of n] unat_u16_less [of "- n"] by linarith
  then have "unat n + unat (- n) = 65536" using k by simp
  ultimately have "unat (- n) < 32768 \<and> 0 < int (unat (- n))" using u unat_u16_less [of n] by linarith
  then show "0 < sint (- n)" unfolding sint_u16 by (simp only: if_True)
  show "itoa n = map_option (\<lambda>t. 45 # t) (itoa (- n))"
    using assms(1) by (subst itoa.simps) (simp split: Option.bind_split option.split)
qed

lemma atoi_digits:
  assumes "0 \<le> sint n"
  shows "atoi (rev (itoa_digits (unat n)) @ [0]) = Some n" "\<forall>c \<in> set (rev (itoa_digits (unat n))). isdigit c"
proof -
  show d: "\<forall>c \<in> set (rev (itoa_digits (unat n))). isdigit c" using itoa_digits_range digit_word by fastforce
  then show "atoi (rev (itoa_digits (unat n)) @ [0]) = Some n"
    using foldl_digits [of "unat n"] atoi_loop_append [of "rev (itoa_digits (unat n))" "[0]" 0] by (simp add: atoi_def)
qed

text \<open>
  C26.  Decimal text: for every \<^verbatim>\<open>int\<close> but the least, \<^verbatim>\<open>itoa\<close> terminates and stores the NUL-terminated digits of
  the absolute value, behind a minus sign for a negative number.  \<^verbatim>\<open>atoi\<close> reads the absolute value back from the
  digits, so it inverts \<^verbatim>\<open>itoa\<close> on the numbers that are not negative; it does not know the sign and gives 0 for a text that starts with one.
\<close>

theorem atoi_itoa:
  assumes "n \<noteq> 0x8000"
  shows "\<exists>s ds. itoa n = Some s \<and> is_cstr s (if 0 \<le> sint n then ds else 45 # ds) \<and> (\<forall>c \<in> set ds. isdigit c) \<and>
    atoi (ds @ [0]) = Some (if 0 \<le> sint n then n else - n) \<and> atoi s = Some (if 0 \<le> sint n then n else 0)"
proof (cases "0 \<le> sint n")
  case True
  have "is_cstr (rev (itoa_digits (unat n)) @ [0]) (rev (itoa_digits (unat n)))" using itoa_digits_nonzero by (auto simp: is_cstr_def)
  then show ?thesis using itoa_nonneg [OF True] atoi_digits [OF True] True by auto
next
  case False
  then have m: "0 \<le> sint (- n)" "itoa n = map_option (\<lambda>t. 45 # t) (itoa (- n))" using itoa_neg assms by (simp_all add: less_imp_le)
  let ?ds = "rev (itoa_digits (unat (- n)))"
  have "is_cstr (45 # ?ds @ [0]) (45 # ?ds)" using itoa_digits_nonzero by (auto simp: is_cstr_def)
  moreover have "atoi (45 # ?ds @ [0]) = Some 0" by (simp add: atoi_def isdigit_def)
  ultimately show ?thesis using m itoa_nonneg [OF m(1)] atoi_digits [OF m(1)] False by auto
qed

theorem atoi_itoa_witness:
  "(\<exists>s. itoa 1234 = Some s \<and> atoi s = Some 1234) \<and> (\<exists>s. itoa (- 5) = Some s \<and> atoi s = Some 0)"
  using atoi_itoa [of 1234] atoi_itoa [of "- 5"] by auto

text \<open>
  \<^verbatim>\<open>itoa\<close> of the smallest \<^verbatim>\<open>int\<close> never returns: \<open>-n\<close> is \<open>n\<close> again, so the function
  recurses without end, storing a minus sign each time.
\<close>

theorem itoa_min_int_diverges: "itoa 0x8000 = None"
proof (rule ccontr)
  assume "itoa 0x8000 \<noteq> None"
  then obtain s where s: "itoa 0x8000 = Some s" by auto
  have neg: "- 32768 = (32768 :: u16)" by transfer simp
  have step: "itoa 0x8000 = do { t \<leftarrow> itoa 0x8000; Some (45 # t) }"
    by (subst itoa.simps) (simp add: neg)
  from step s have "s = 45 # s" by simp
  then show False by simp
qed

end
