(* ===== verification/SlotSet.thy ===== *)
theory SlotSet
  imports KPrelude
begin

text \<open>
  The fixed-capacity element table of \<^verbatim>\<open>rl_os/kernel/set.c\<close>, which holds the open files and the mount
  table.  The arena is an array of \<open>capacity\<close> slots, each a used word followed by the element;
  the model views it as the used flag and the typed element of each slot, and a pointer to an
  element as its slot number.  \<^verbatim>\<open>panic\<close> is \<open>None\<close>.
\<close>

record 'e slot_set =
  set_capacity :: nat
  set_size :: nat
  set_used :: "nat \<Rightarrow> bool"
  set_el :: "nat \<Rightarrow> 'e"

definition set_clear :: "'e slot_set \<Rightarrow> 'e slot_set" where
  "set_clear self = self\<lparr>set_used := (\<lambda>i. \<not> i < set_capacity self \<and> set_used self i), set_size := 0\<rparr>"

definition set_create_static :: "nat \<Rightarrow> 'e slot_set \<Rightarrow> 'e slot_set" where
  "set_create_static capacity self = set_clear (self\<lparr>set_capacity := capacity\<rparr>)"

definition set_insert :: "'e slot_set \<Rightarrow> 'e \<Rightarrow> (nat \<times> 'e slot_set) option" where
  "set_insert self el = do {
     require (\<not> set_size self \<ge> set_capacity self);
     i \<leftarrow> scan (\<lambda>i. \<not> set_used self i) 0 (set_capacity self);
     Some (i, self\<lparr>set_size := inc16 (set_size self), set_used := (set_used self)(i := True),
                set_el := (set_el self)(i := el)\<rparr>) }"

text \<open>The loop of \<^verbatim>\<open>set_at\<close> and \<^verbatim>\<open>set_remove\<close>: the slot of the \<open>idx\<close>-th element in use.\<close>

primrec nth_used :: "(nat \<Rightarrow> bool) \<Rightarrow> nat \<Rightarrow> nat \<Rightarrow> nat \<Rightarrow> nat \<Rightarrow> nat option" where
  "nth_used used ii idx i 0 = None"
| "nth_used used ii idx i (Suc k) =
     (if used i then (if ii = idx then Some i else nth_used used (ii + 1) idx (Suc i) k)
      else nth_used used ii idx (Suc i) k)"

definition set_at :: "'e slot_set \<Rightarrow> nat \<Rightarrow> nat option" where
  "set_at self idx = do {
     require (\<not> idx \<ge> set_size self);
     nth_used (set_used self) 0 idx 0 (set_capacity self) }"

definition set_remove :: "'e slot_set \<Rightarrow> nat \<Rightarrow> 'e slot_set option" where
  "set_remove self idx = do {
     require (\<not> idx \<ge> set_size self);
     i \<leftarrow> nth_used (set_used self) 0 idx 0 (set_capacity self);
     Some (self\<lparr>set_size := set_size self - 1, set_used := (set_used self)(i := False)\<rparr>) }"

definition set_remove_by_element :: "'e slot_set \<Rightarrow> nat \<Rightarrow> 'e slot_set option" where
  "set_remove_by_element self el = do {
     require (\<not> el \<ge> set_capacity self);
     Some (self\<lparr>set_size := dec16 (set_size self), set_used := (set_used self)(el := False)\<rparr>) }"

section \<open>Invariant\<close>

definition set_live :: "'e slot_set \<Rightarrow> nat set" where
  "set_live self = {i. i < set_capacity self \<and> set_used self i}"

definition set_inv :: "'e slot_set \<Rightarrow> bool" where
  "set_inv self \<longleftrightarrow> set_capacity self < 65536 \<and> set_size self = card (set_live self)"

lemma finite_live [simp]: "finite (set_live self)"
  by (simp add: set_live_def)

lemma set_create_inv: "capacity < 65536 \<Longrightarrow> set_inv (set_create_static capacity self)"
  by (simp add: set_create_static_def set_clear_def set_inv_def set_live_def)

lemma set_create_live [simp]: "set_live (set_create_static capacity self) = {}"
  by (auto simp: set_create_static_def set_clear_def set_live_def)

lemma set_live_full: "set_live self \<subseteq> {..<set_capacity self}"
  by (auto simp: set_live_def)

lemma set_size_le: "set_inv self \<Longrightarrow> set_size self \<le> set_capacity self"
  using card_mono [OF _ set_live_full [of self]] by (simp add: set_inv_def)

lemma set_has_free:
  assumes "set_inv self" "set_size self < set_capacity self"
  shows "\<exists>i. i < set_capacity self \<and> \<not> set_used self i"
proof (rule ccontr)
  assume "\<not> ?thesis"
  then have "set_live self = {..<set_capacity self}" by (auto simp: set_live_def)
  with assms show False by (simp add: set_inv_def)
qed

lemma set_insert_None: "set_inv self \<Longrightarrow> set_insert self el = None \<longleftrightarrow> set_size self = set_capacity self"
  using set_size_le [of self] set_has_free [of self]
  by (cases "scan (\<lambda>i. \<not> set_used self i) 0 (set_capacity self)")
     (auto simp: set_insert_def scan_None require_def)

lemma set_insert_Some:
  assumes "set_insert self el = Some (i, self')"
  shows "i < set_capacity self" "\<not> set_used self i" "i \<notin> set_live self"
    "self' = self\<lparr>set_size := inc16 (set_size self), set_used := (set_used self)(i := True),
                set_el := (set_el self)(i := el)\<rparr>"
  using assms by (auto simp: set_insert_def kmonad scan_Some_iff set_live_def)

lemma set_insert_live:
  assumes "set_insert self el = Some (i, self')"
  shows "set_live self' = insert i (set_live self)"
  using set_insert_Some [OF assms] by (auto simp: set_live_def)

lemma set_insert_inv:
  assumes "set_inv self" "set_insert self el = Some (i, self')"
  shows "set_inv self'"
proof -
  have "set_size self < set_capacity self"
    using assms(2) by (auto simp: set_insert_def kmonad)
  with assms(1) set_insert_Some [OF assms(2)] set_insert_live [OF assms(2)] show ?thesis
    by (simp add: set_inv_def inc16_small)
qed

lemma set_remove_by_element_live:
  "set_remove_by_element self el = Some self' \<Longrightarrow> set_live self' = set_live self - {el}"
  by (auto simp: set_remove_by_element_def kmonad set_live_def split: if_splits)

lemma set_remove_by_element_inv:
  assumes "set_inv self" "el \<in> set_live self" "set_remove_by_element self el = Some self'"
  shows "set_inv self'"
proof -
  have "0 < card (set_live self)" using assms(2) by (auto simp: card_gt_0_iff)
  moreover have "card (set_live self) < 65536"
    using assms(1) set_size_le [OF assms(1)] by (simp add: set_inv_def)
  ultimately have "dec16 (card (set_live self)) = card (set_live self) - 1"
    by (intro dec16_pos) simp_all
  moreover from assms(3) have "set_size self' = dec16 (set_size self)"
    "set_capacity self' = set_capacity self"
    by (auto simp: set_remove_by_element_def kmonad)
  moreover have "card (set_live self') = card (set_live self) - 1"
    using assms(2) set_remove_by_element_live [OF assms(3)] by simp
  ultimately show ?thesis using assms(1) unfolding set_inv_def by metis
qed

section \<open>Enumeration\<close>

lemma nth_used_Some:
  "nth_used used ii idx i k = Some j \<Longrightarrow> ii \<le> idx \<Longrightarrow>
   i \<le> j \<and> j < i + k \<and> used j \<and> ii + card {m. i \<le> m \<and> m < j \<and> used m} = idx"
proof (induction k arbitrary: ii i)
  case (Suc k)
  have split: "{m. i \<le> m \<and> m < j \<and> used m} =
      (if used i then {i} else {}) \<union> {m. Suc i \<le> m \<and> m < j \<and> used m}" if "i < j" for j
    using that by (auto simp: le_less Suc_le_eq)
  show ?case
  proof (cases "used i \<and> ii = idx")
    case True
    with Suc.prems show ?thesis by auto
  next
    case False
    then obtain ii' where rec: "nth_used used ii' idx (Suc i) k = Some j" "ii' \<le> idx"
      and ii': "ii' = (if used i then Suc ii else ii)"
      using Suc.prems by (auto split: if_splits)
    from Suc.IH [OF rec] ii' split [of j] show ?thesis
      by (auto split: if_splits)
  qed
qed simp

lemma nth_used_None:
  "nth_used used ii idx i k = None \<Longrightarrow> ii \<le> idx \<Longrightarrow>
   ii + card {m. i \<le> m \<and> m < i + k \<and> used m} \<le> idx"
proof (induction k arbitrary: ii i)
  case 0
  have e: "{m. i \<le> m \<and> m < i \<and> used m} = {}" by auto
  from 0(2) show ?case by (simp only: add_0_right e card.empty)
next
  case (Suc k)
  have split: "{m. i \<le> m \<and> m < i + Suc k \<and> used m} =
      (if used i then {i} else {}) \<union> {m. Suc i \<le> m \<and> m < Suc i + k \<and> used m}"
    by (auto simp: le_less Suc_le_eq)
  from Suc.prems have rec: "nth_used used (if used i then Suc ii else ii) idx (Suc i) k = None"
    "(if used i then Suc ii else ii) \<le> idx" by (auto split: if_splits)
  from Suc.IH [OF rec] show ?case
    unfolding split by (auto split: if_splits)
qed

lemma set_at_Some:
  assumes "set_at self idx = Some i"
  shows "i \<in> set_live self" "card {m \<in> set_live self. m < i} = idx"
proof -
  from assms have "nth_used (set_used self) 0 idx 0 (set_capacity self) = Some i"
    by (auto simp: set_at_def kmonad)
  from nth_used_Some [OF this] have *: "i < set_capacity self \<and> set_used self i"
    "card {m. m < i \<and> set_used self m} = idx" by simp_all
  then show "i \<in> set_live self" by (simp add: set_live_def)
  have "{m \<in> set_live self. m < i} = {m. m < i \<and> set_used self m}"
    using * by (auto simp: set_live_def)
  with * show "card {m \<in> set_live self. m < i} = idx" by simp
qed

lemma set_at_total: "set_inv self \<Longrightarrow> idx < set_size self \<Longrightarrow> \<exists>i. set_at self idx = Some i"
  using nth_used_None [of "set_used self" 0 idx 0 "set_capacity self"]
  by (cases "nth_used (set_used self) 0 idx 0 (set_capacity self)")
     (auto simp: set_at_def set_inv_def set_live_def)

lemma set_at_remove: "set_remove self idx = Some self' \<longleftrightarrow> (\<exists>i. set_at self idx = Some i \<and>
    self' = self\<lparr>set_size := set_size self - 1, set_used := (set_used self)(i := False)\<rparr>)"
  by (auto simp: set_remove_def set_at_def kmonad)

section \<open>The contract of a slot table\<close>

text \<open>
  What the file system needs of the table: an insertion takes a slot nobody holds and leaves every
  other element where it is, a removal by pointer frees exactly that slot, and insertion fails
  only when every slot is in use.
\<close>

locale slot_table =
  fixes ins :: "'t \<Rightarrow> 'e \<Rightarrow> (nat \<times> 't) option"
    and del :: "'t \<Rightarrow> nat \<Rightarrow> 't option"
    and live :: "'t \<Rightarrow> nat set"
    and item :: "'t \<Rightarrow> nat \<Rightarrow> 'e"
    and room :: "'t \<Rightarrow> nat"
    and invar :: "'t \<Rightarrow> bool"
  assumes finite_live: "finite (live t)"
    and ins_None: "invar t \<Longrightarrow> ins t e = None \<longleftrightarrow> card (live t) = room t"
    and ins_fresh: "ins t e = Some (i, t') \<Longrightarrow> i \<notin> live t"
    and ins_live: "ins t e = Some (i, t') \<Longrightarrow> live t' = insert i (live t)"
    and ins_item: "ins t e = Some (i, t') \<Longrightarrow> item t' = (item t)(i := e)"
    and ins_room: "ins t e = Some (i, t') \<Longrightarrow> room t' = room t"
    and ins_invar: "invar t \<Longrightarrow> ins t e = Some (i, t') \<Longrightarrow> invar t'"
    and del_total: "i \<in> live t \<Longrightarrow> \<exists>t'. del t i = Some t'"
    and del_live: "del t i = Some t' \<Longrightarrow> live t' = live t - {i}"
    and del_item: "del t i = Some t' \<Longrightarrow> item t' = item t"
    and del_room: "del t i = Some t' \<Longrightarrow> room t' = room t"
    and del_invar: "invar t \<Longrightarrow> i \<in> live t \<Longrightarrow> del t i = Some t' \<Longrightarrow> invar t'"
begin

lemma ins_del:
  assumes "invar t" "ins t e = Some (i, t')"
  shows "\<exists>t''. del t' i = Some t'' \<and> live t'' = live t \<and> invar t''"
proof -
  have i: "i \<in> live t'" using ins_live [OF assms(2)] by simp
  then obtain t'' where d: "del t' i = Some t''" using del_total by blast
  moreover have "live t'' = live t"
    using del_live [OF d] ins_live [OF assms(2)] ins_fresh [OF assms(2)] by simp
  moreover have "invar t''" using del_invar [OF ins_invar [OF assms] i d] .
  ultimately show ?thesis by blast
qed

text \<open>Freeing any element makes room for another.\<close>

lemma del_ins:
  assumes "invar t" "i \<in> live t" "del t i = Some t'" "card (live t) \<le> room t"
  shows "\<exists>j t''. ins t' e = Some (j, t'')"
proof -
  have "0 < card (live t)" using assms(2) finite_live by (auto simp: card_gt_0_iff)
  then have "card (live t') \<noteq> room t'"
    using assms del_live [OF assms(3)] del_room [OF assms(3)] finite_live by simp
  then have "ins t' e \<noteq> None" using ins_None del_invar [OF assms(1-3)] by blast
  then show ?thesis by auto
qed

lemma ins_other: "ins t e = Some (i, t') \<Longrightarrow> j \<in> live t \<Longrightarrow> j \<in> live t' \<and> item t' j = item t j"
  using ins_fresh ins_live ins_item by (metis fun_upd_other insertCI)

end

interpretation slots: slot_table set_insert set_remove_by_element set_live set_el set_capacity set_inv
proof (unfold_locales, goal_cases)
  case (2 t e)
  then show ?case by (simp add: set_insert_None set_inv_def)
next
  case (3 t e i t')
  then show ?case by (rule set_insert_Some)
next
  case (4 t e i t')
  then show ?case by (rule set_insert_live)
next
  case (7 t e i t')
  then show ?case by (rule set_insert_inv)
next
  case (9 t i t')
  then show ?case by (rule set_remove_by_element_live)
next
  case (12 t i t')
  then show ?case by (rule set_remove_by_element_inv)
next
  case (5 t e i t')
  then show ?case using set_insert_Some(4) by fastforce
next
  case (6 t e i t')
  then show ?case using set_insert_Some(4) by fastforce
qed (auto simp: set_remove_by_element_def kmonad set_live_def)

section \<open>Tables in use\<close>

lemma set_remove_live: "set_remove self idx = Some t \<Longrightarrow> \<exists>i\<in>set_live self. set_live t = set_live self - {i} \<and>
    set_size t = set_size self - 1 \<and> set_capacity t = set_capacity self"
proof -
  assume "set_remove self idx = Some t"
  then obtain i where i: "set_at self idx = Some i"
    and t: "t = self\<lparr>set_size := set_size self - 1, set_used := (set_used self)(i := False)\<rparr>"
    by (auto simp: set_at_remove)
  have "set_live t = set_live self - {i}" by (auto simp: t set_live_def)
  moreover have "set_size t = set_size self - 1" "set_capacity t = set_capacity self" by (simp_all add: t)
  ultimately show ?thesis using set_at_Some(1) [OF i] by blast
qed

lemma set_remove_inv: "set_inv self \<Longrightarrow> set_remove self idx = Some t \<Longrightarrow> set_inv t"
proof -
  assume inv: "set_inv self" and "set_remove self idx = Some t"
  then obtain i where i: "i \<in> set_live self" and t: "set_live t = set_live self - {i}"
    "set_size t = set_size self - 1" "set_capacity t = set_capacity self"
    using set_remove_live by blast
  have "card (set_live t) = card (set_live self) - 1" unfolding t(1) using i by simp
  with inv t(2,3) show ?thesis by (simp add: set_inv_def)
qed

text \<open>
  The users' operations on a table; a removal by element is applied to the slot of an element in use.
\<close>

inductive set_step :: "'e slot_set \<Rightarrow> 'e slot_set \<Rightarrow> bool" where
  insert: "set_insert self el = Some (i, t) \<Longrightarrow> set_step self t"
| remove: "set_remove self idx = Some t \<Longrightarrow> set_step self t"
| release: "i \<in> set_live self \<Longrightarrow> set_remove_by_element self i = Some t \<Longrightarrow> set_step self t"

inductive set_reachable :: "nat \<Rightarrow> 'e slot_set \<Rightarrow> bool" for capacity where
  create: "set_reachable capacity (set_create_static capacity arena)"
| step: "set_reachable capacity self \<Longrightarrow> set_step self t \<Longrightarrow> set_reachable capacity t"

lemma set_step_inv: "set_step self t \<Longrightarrow> set_inv self \<Longrightarrow> set_inv t \<and> set_capacity t = set_capacity self"
proof (induction rule: set_step.induct)
  case (insert self el i t)
  note t = set_insert_Some(4) [OF insert(1)]
  have "set_capacity t = set_capacity self" unfolding t by simp
  then show ?case using set_insert_inv [OF insert(2,1)] by blast
next
  case (remove self idx t)
  then show ?case using set_remove_inv [OF remove(2,1)] set_remove_live [OF remove(1)] by blast
next
  case (release i self t)
  then show ?case using set_remove_by_element_inv [of self i t]
    by (auto simp: set_remove_by_element_def kmonad)
qed

text \<open>
  C18. In every state a table reaches from its creation by insertions, removals and releases of held
  elements, the recorded size is the number of slots in use, every index below it finds a slot in use
  and no two indexes find the same one; an insertion panics exactly when the capacity is reached.
\<close>

theorem slot_set_reachable:
  assumes "set_reachable capacity self" "capacity < 65536"
  shows "set_size self = card (set_live self) \<and> set_size self \<le> capacity \<and>
    (\<forall>idx < set_size self. \<exists>i\<in>set_live self. set_at self idx = Some i) \<and>
    (\<forall>idx idx' i. set_at self idx = Some i \<and> set_at self idx' = Some i \<longrightarrow> idx = idx') \<and>
    (set_insert self el = None) = (set_size self = capacity)"
proof -
  have inv: "set_inv self \<and> set_capacity self = capacity"
    using assms
  proof (induction rule: set_reachable.induct)
    case (create arena)
    then show ?case by (simp add: set_create_inv) (simp add: set_create_static_def set_clear_def)
  next
    case (step self t)
    then show ?case using set_step_inv by metis
  qed
  have inj: "idx = idx'" if "set_at self idx = Some i" "set_at self idx' = Some i" for idx idx' i
    using set_at_Some(2) [OF that(1)] set_at_Some(2) [OF that(2)] by simp
  from inv have "\<exists>i\<in>set_live self. set_at self idx = Some i" if "idx < set_size self" for idx
    using that set_at_total [of self idx] set_at_Some(1) [of self idx] by blast
  then show ?thesis
    using inv inj set_size_le [of self] set_insert_None [of self el]
    by (auto simp: set_inv_def)
qed

theorem slot_set_reachable_witness:
  "\<exists>self. set_reachable 2 self \<and> set_size self = card (set_live self) \<and> set_size self = 1 \<and>
     set_insert self (5 :: nat) \<noteq> None"
proof -
  let ?e = "set_create_static 2 \<lparr>set_capacity = 0, set_size = 0, set_used = (\<lambda>_. True), set_el = (\<lambda>_. 0 :: nat)\<rparr>"
  obtain i t where t: "set_insert ?e 7 = Some (i, t)" "set_size t = 1"
    by (simp add: set_insert_def set_create_static_def set_clear_def inc16_def)
  have r: "set_reachable 2 t"
    by (rule set_reachable.step [OF set_reachable.create set_step.insert [OF t(1)]])
  show ?thesis using slot_set_reachable [OF r, of 5] r t(2) by auto
qed

end
