(* ===== verification/Rlfs.thy ===== *)
theory Rlfs
  imports Blk KString SlotSet
begin

text \<open>
  The file system below the path level, \<^verbatim>\<open>rlfs3.c\<close>: formatting, the mount table, the block bitmap,
  nodes and their block indexes, reading and writing of node contents, directories.  A \<^verbatim>\<open>struct Block *\<close>
  is an index of the block cache, an \<^verbatim>\<open>off_t\<close> a natural number below \<open>2 ^ 32\<close>.  A pointer to words
  that are only read is the list of the words from the pointer to the end of their object;
  \<open>uninit\<close> is what fresh stack memory holds, \<open>rodata\<close> what follows a string literal.
\<close>

record fs_node =
  fn_dev :: u16
  fn_idx :: u16

record mtab_entry =
  mt_device_node :: fs_node
  mt_mount_point :: fs_node
  mt_fs_root :: fs_node

record stat =
  st_dev :: u16
  st_ino :: u16
  st_mode :: u16
  st_rdev :: u16
  st_size :: nat

record FILE =
  f_mode :: u16
  f_node :: fs_node
  f_size :: nat
  f_pos :: nat
  f_device :: u16
  f_flags :: u16
  f_refcnt :: u16

record loop_device_entry =
  ld_device_node :: fs_node
  ld_virtual_device_file :: fs_node

record fs_st = blk_st +
  openFiles :: "FILE slot_set"
  mtab :: "mtab_entry slot_set"
  fs_root :: fs_node
  loop_devs :: "nat \<Rightarrow> loop_device_entry"
  blockRequest :: u16
  uninit :: buf
  rodata :: buf

abbreviation MAX_FILES :: nat where "MAX_FILES \<equiv> 10"
abbreviation MAX_MOUNT_POINTS :: nat where "MAX_MOUNT_POINTS \<equiv> 5"
abbreviation DIRECT_INDEXES_CNT :: nat where "DIRECT_INDEXES_CNT \<equiv> 150"
abbreviation ROOT_NODE :: u16 where "ROOT_NODE \<equiv> 34"
abbreviation FS_OK :: u16 where "FS_OK \<equiv> 0"
abbreviation FS_NO_FILE :: u16 where "FS_NO_FILE \<equiv> 1"
abbreviation FS_NOT_A_DIR :: u16 where "FS_NOT_A_DIR \<equiv> 2"
abbreviation FS_FILE_EXISTS :: u16 where "FS_FILE_EXISTS \<equiv> 3"
abbreviation FS_NO_DIR :: u16 where "FS_NO_DIR \<equiv> 4"
abbreviation S_IFMT :: u16 where "S_IFMT \<equiv> 0xF000"
abbreviation S_IFREG :: u16 where "S_IFREG \<equiv> 0x8000"
abbreviation S_IFBLK :: u16 where "S_IFBLK \<equiv> 0x6000"
abbreviation S_IFDIR :: u16 where "S_IFDIR \<equiv> 0x4000"
abbreviation S_IFCHR :: u16 where "S_IFCHR \<equiv> 0x2000"

definition S_ISDIR :: "u16 \<Rightarrow> bool" where "S_ISDIR m \<longleftrightarrow> m AND S_IFMT = S_IFDIR"
definition S_ISCHR :: "u16 \<Rightarrow> bool" where "S_ISCHR m \<longleftrightarrow> m AND S_IFMT = S_IFCHR"
definition S_ISBLK :: "u16 \<Rightarrow> bool" where "S_ISBLK m \<longleftrightarrow> m AND S_IFMT = S_IFBLK"

text \<open>Arithmetic on \<^verbatim>\<open>off_t\<close>.\<close>

definition off_add :: "nat \<Rightarrow> nat \<Rightarrow> nat" where
  "off_add x y = (x + y) mod 4294967296"

text \<open>The memory at a string literal, and an uninitialised array.\<close>

definition literal :: "string \<Rightarrow> 'z fs_st_scheme \<Rightarrow> u16 list" where
  "literal c s = cstr c @ slice (rodata s) 0 64"

section \<open>Access to a held block\<close>

definition bdata :: "nat \<Rightarrow> 'z blk_st_scheme \<Rightarrow> buf" where
  "bdata i s = b_data (blockCache s i)"

definition bset :: "nat \<Rightarrow> nat \<Rightarrow> u16 \<Rightarrow> 'z blk_st_scheme \<Rightarrow> 'z blk_st_scheme" where
  "bset i k v = blk_upd i (\<lambda>b. b\<lparr>b_data := (b_data b)(k := v)\<rparr>)"

definition bcopy :: "nat \<Rightarrow> nat \<Rightarrow> u16 list \<Rightarrow> 'z blk_st_scheme \<Rightarrow> 'z blk_st_scheme" where
  "bcopy i off ws = blk_upd i (\<lambda>b. b\<lparr>b_data := blit (b_data b) off ws\<rparr>)"

definition bmark :: "nat \<Rightarrow> 'z blk_st_scheme \<Rightarrow> 'z blk_st_scheme" where
  "bmark i = blk_upd i (b_flags_update (\<lambda>_. BLOCK_MODIFIED))"

definition node_size :: "buf \<Rightarrow> nat" where
  "node_size d = long_of (d 1) (d 2)"

section \<open>The mount table\<close>

definition fs_mount :: "fs_node \<Rightarrow> fs_node \<Rightarrow> fs_node \<Rightarrow> 'z fs_st_scheme \<Rightarrow> 'z fs_st_scheme option" where
  "fs_mount wher mount_fs_root device_node s = do {
     (i, t) \<leftarrow> set_insert (mtab s) \<lparr>mt_device_node = device_node, mt_mount_point = wher,
       mt_fs_root = mount_fs_root\<rparr>;
     Some (s\<lparr>mtab := t\<rparr>) }"

text \<open>The search loop over the entries in use: position and slot of the first that satisfies \<open>P\<close>.\<close>

primrec mtab_find :: "(mtab_entry \<Rightarrow> bool) \<Rightarrow> mtab_entry slot_set \<Rightarrow> nat \<Rightarrow> nat \<Rightarrow> (nat \<times> nat) option option" where
  "mtab_find P m i 0 = Some None"
| "mtab_find P m i (Suc k) = do {
     ent \<leftarrow> set_at m i;
     if P (set_el m ent) then Some (Some (i, ent)) else mtab_find P m (Suc i) k }"

definition fs_umount :: "fs_node \<Rightarrow> 'z fs_st_scheme \<Rightarrow> 'z fs_st_scheme option" where
  "fs_umount device_node s = do {
     r \<leftarrow> mtab_find (\<lambda>e. fn_dev (mt_device_node e) = fn_dev device_node \<and>
            fn_idx (mt_device_node e) = fn_idx device_node) (mtab s) 0 (set_size (mtab s));
     (case r of
        Some (i, ent) \<Rightarrow> do { t \<leftarrow> set_remove (mtab s) i; Some (s\<lparr>mtab := t\<rparr>) }
      | None \<Rightarrow> Some s) }"

definition fs_mtab_seek :: "fs_node \<Rightarrow> 'z fs_st_scheme \<Rightarrow> mtab_entry option option" where
  "fs_mtab_seek mount_point s = do {
     r \<leftarrow> mtab_find (\<lambda>e. fn_dev (mt_mount_point e) = fn_dev mount_point \<and>
            fn_idx (mt_mount_point e) = fn_idx mount_point) (mtab s) 0 (set_size (mtab s));
     Some (map_option (\<lambda>(i, ent). set_el (mtab s) ent) r) }"

definition fs_mtab_rseek :: "fs_node \<Rightarrow> 'z fs_st_scheme \<Rightarrow> mtab_entry option option" where
  "fs_mtab_rseek root s = do {
     r \<leftarrow> mtab_find (\<lambda>e. fn_dev (mt_fs_root e) = fn_dev root \<and>
            fn_idx (mt_fs_root e) = fn_idx root) (mtab s) 0 (set_size (mtab s));
     Some (map_option (\<lambda>(i, ent). set_el (mtab s) ent) r) }"

section \<open>The block bitmap\<close>

text \<open>The two inner loops of \<^verbatim>\<open>fs_findFreeSector\<close>: the first clear bit of a bitmap block.\<close>

definition free_bit :: "buf \<Rightarrow> (nat \<times> nat) option" where
  "free_bit d = do {
     i \<leftarrow> scan (\<lambda>i. d i \<noteq> 0xffff \<and> scan (\<lambda>j. \<not> bit (d i) j) 0 16 \<noteq> None) 0 256;
     j \<leftarrow> scan (\<lambda>j. \<not> bit (d i) j) 0 16;
     Some (i, j) }"

primrec find_bitmap :: "(drvp \<Rightarrow> 'z blk_st_scheme iblkdriver) \<Rightarrow> u16 \<Rightarrow> nat \<Rightarrow> nat \<Rightarrow>
    'z blk_st_scheme \<Rightarrow> (u16 \<times> 'z blk_st_scheme) option" where
  "find_bitmap dops device cBitmap 0 s = Some (0, s)"
| "find_bitmap dops device cBitmap (Suc k) s = do {
     (b, s1) \<leftarrow> bread dops device (of_nat (cBitmap + 1)) s;
     (case free_bit (bdata b s1) of
        Some (i, j) \<Rightarrow> Some (of_nat (cBitmap * 4096 + i * 16 + j), bfree b s1)
      | None \<Rightarrow> find_bitmap dops device (Suc cBitmap) k (bfree b s1)) }"

definition fs_findFreeSector :: "(drvp \<Rightarrow> 'z blk_st_scheme iblkdriver) \<Rightarrow> u16 \<Rightarrow>
    'z blk_st_scheme \<Rightarrow> (u16 \<times> 'z blk_st_scheme) option" where
  "fs_findFreeSector dops device s = find_bitmap dops device 0 32 s"

definition fs_markSector :: "(drvp \<Rightarrow> 'z blk_st_scheme iblkdriver) \<Rightarrow> u16 \<Rightarrow> u16 \<Rightarrow> bool \<Rightarrow>
    'z blk_st_scheme \<Rightarrow> 'z blk_st_scheme option" where
  "fs_markSector dops device sect val s = do {
     let cBitmap = unat sect div 4096;
     let idx = (unat sect mod 4096) div 16;
     let pos = unat sect mod 16;
     (b, s1) \<leftarrow> bread dops device (of_nat (cBitmap + 1)) s;
     let s2 = (if val then bset b idx (set_bit pos (bdata b s1 idx)) s1
               else bset b idx (unset_bit pos (bdata b s1 idx)) s1);
     Some (bfree b (bmark b s2)) }"

definition fs_allocBlock :: "(drvp \<Rightarrow> 'z blk_st_scheme iblkdriver) \<Rightarrow> u16 \<Rightarrow>
    'z blk_st_scheme \<Rightarrow> (u16 \<times> 'z blk_st_scheme) option" where
  "fs_allocBlock dops device s = do {
     (newBlock, s1) \<leftarrow> fs_findFreeSector dops device s;
     s2 \<leftarrow> fs_markSector dops device newBlock True s1;
     Some (newBlock, s2) }"

definition fs_freeBlock :: "(drvp \<Rightarrow> 'z blk_st_scheme iblkdriver) \<Rightarrow> u16 \<Rightarrow> u16 \<Rightarrow>
    'z blk_st_scheme \<Rightarrow> 'z blk_st_scheme option" where
  "fs_freeBlock dops d b s = fs_markSector dops d b False s"

section \<open>Node contents\<close>

definition fs_stat :: "(drvp \<Rightarrow> 'z blk_st_scheme iblkdriver) \<Rightarrow> fs_node \<Rightarrow>
    'z blk_st_scheme \<Rightarrow> (stat \<times> 'z blk_st_scheme) option" where
  "fs_stat dops node s = do {
     (b, s1) \<leftarrow> bread dops (fn_dev node) (fn_idx node) s;
     let mode = bdata b s1 0;
     let len = node_size (bdata b s1);
     let res = \<lparr>st_dev = fn_dev node, st_ino = fn_idx node, st_mode = mode, st_rdev = 0, st_size = len\<rparr>;
     let res = (if S_ISCHR mode \<or> S_ISBLK mode then res\<lparr>st_rdev := of_nat len, st_size := 1\<rparr> else res);
     Some (res, bfree b s1) }"

definition getOrAllocBlockByOffset :: "(drvp \<Rightarrow> 'z blk_st_scheme iblkdriver) \<Rightarrow> u16 \<Rightarrow> nat \<Rightarrow> nat \<Rightarrow>
    'z blk_st_scheme \<Rightarrow> (u16 \<times> 'z blk_st_scheme) option" where
  "getOrAllocBlockByOffset dops device nodeBlock offset s =
     (if offset < DIRECT_INDEXES_CNT * 256 then
        let k = (offset div 256) mod 256 + 3; blk = bdata nodeBlock s k in
        if blk = 0 then do {
          (blk, s1) \<leftarrow> fs_allocBlock dops device s;
          Some (blk, bset nodeBlock k blk s1) }
        else Some (blk, s)
      else do {
        let offset = offset - DIRECT_INDEXES_CNT * 256;
        let iBlkOff = offset div 65536 + (DIRECT_INDEXES_CNT + 3);
        require (iBlkOff < 256);
        let iBlkIdx = bdata nodeBlock s iBlkOff;
        (iBlk, s3) \<leftarrow> (if iBlkIdx = 0 then do {
            (iBlkIdx, s1) \<leftarrow> fs_allocBlock dops device s;
            let s2 = bmark nodeBlock (bset nodeBlock iBlkOff iBlkIdx s1);
            (iBlk, s3) \<leftarrow> bread dops device iBlkIdx s2;
            Some (iBlk, bmark iBlk (fort 0 256 (\<lambda>i. bset iBlk i 0) s3)) }
          else bread dops device iBlkIdx s);
        let k = (offset div 256) mod 256;
        let retval = bdata iBlk s3 k;
        (retval, s4) \<leftarrow> (if retval = 0 then do {
            (r, s4) \<leftarrow> fs_allocBlock dops device s3;
            Some (r, bmark iBlk (bset iBlk k r s4)) }
          else Some (retval, s3));
        Some (retval, bfree iBlk s4) })"

lemma option_bind_cong [fundef_cong]:
  "x = y \<Longrightarrow> (\<And>a. y = Some a \<Longrightarrow> f a = g a) \<Longrightarrow> Option.bind x f = Option.bind y g"
  by (cases y) simp_all

text \<open>The loops of \<^verbatim>\<open>fs_read\<close> and \<^verbatim>\<open>fs_write\<close>; a step moves at least one word.\<close>

function fs_read_loop :: "(drvp \<Rightarrow> 'z blk_st_scheme iblkdriver) \<Rightarrow> u16 \<Rightarrow> nat \<Rightarrow> nat \<Rightarrow> nat \<Rightarrow> u16 list \<Rightarrow>
    'z blk_st_scheme \<Rightarrow> (u16 list \<times> 'z blk_st_scheme) option" where
  "fs_read_loop dops device nodeBlock offset len acc s =
     (if 0 < len then do {
        (cBlock, s1) \<leftarrow> getOrAllocBlockByOffset dops device nodeBlock offset s;
        let offsetInBlock = offset mod 256;
        let read_now = min len (256 - offsetInBlock);
        (currentBlock, s2) \<leftarrow> bread dops device cBlock s1;
        let ws = slice (bdata currentBlock s2) offsetInBlock read_now;
        fs_read_loop dops device nodeBlock (off_add offset read_now) (len - read_now) (acc @ ws)
          (bfree currentBlock s2) }
      else Some (acc, s))"
  by pat_completeness auto
termination
  by (relation "measure (\<lambda>(dops, device, nodeBlock, offset, len, acc, s). len)") auto

declare fs_read_loop.simps [simp del]

definition fs_read :: "(drvp \<Rightarrow> 'z blk_st_scheme iblkdriver) \<Rightarrow> fs_node \<Rightarrow> nat \<Rightarrow> nat \<Rightarrow>
    'z blk_st_scheme \<Rightarrow> (u16 list \<times> 'z blk_st_scheme) option" where
  "fs_read dops node offset len s = do {
     (nodeBlock, s1) \<leftarrow> bread dops (fn_dev node) (fn_idx node) s;
     let sz = node_size (bdata nodeBlock s1);
     if offset > sz then Some ([], s1)
     else do {
       let len = (if off_add offset len > sz then (sz - offset) mod 65536 else len);
       (ws, s2) \<leftarrow> fs_read_loop dops (fn_dev node) nodeBlock offset len [] s1;
       Some (ws, bfree nodeBlock s2) } }"

function fs_write_loop :: "(drvp \<Rightarrow> 'z blk_st_scheme iblkdriver) \<Rightarrow> u16 \<Rightarrow> nat \<Rightarrow> u16 \<Rightarrow> nat \<Rightarrow> nat \<Rightarrow>
    u16 list \<Rightarrow> 'z blk_st_scheme \<Rightarrow> (nat \<times> 'z blk_st_scheme) option" where
  "fs_write_loop dops device nodeBlock cBlock offset len buf s =
     (if 0 < len then do {
        let offsetInBlock = offset mod 256;
        let write_now = min len (256 - offsetInBlock);
        (currentBlock, s1) \<leftarrow> bread dops device cBlock s;
        require (write_now \<le> length buf);
        let s2 = bcopy currentBlock offsetInBlock (take write_now buf) s1;
        let offset' = off_add offset write_now;
        (cBlock', s3) \<leftarrow> getOrAllocBlockByOffset dops device nodeBlock offset' s2;
        fs_write_loop dops device nodeBlock cBlock' offset' (len - write_now) (drop write_now buf)
          (bfree currentBlock (bmark currentBlock s3)) }
      else Some (offset, s))"
  by pat_completeness auto
termination
  by (relation "measure (\<lambda>(dops, device, nodeBlock, cBlock, offset, len, buf, s). len)") auto

declare fs_write_loop.simps [simp del]

definition fs_write :: "(drvp \<Rightarrow> 'z blk_st_scheme iblkdriver) \<Rightarrow> fs_node \<Rightarrow> nat \<Rightarrow> nat \<Rightarrow> u16 list \<Rightarrow>
    'z blk_st_scheme \<Rightarrow> (nat \<times> 'z blk_st_scheme) option" where
  "fs_write dops node offset len buf s = do {
     (nodeBlock, s1) \<leftarrow> bread dops (fn_dev node) (fn_idx node) s;
     let sz = node_size (bdata nodeBlock s1);
     if offset > sz then Some (0, s1)
     else do {
       (cBlock, s2) \<leftarrow> getOrAllocBlockByOffset dops (fn_dev node) nodeBlock offset s1;
       (off', s3) \<leftarrow> fs_write_loop dops (fn_dev node) nodeBlock cBlock offset len buf s2;
       let s4 = (if off' > sz then bset nodeBlock 2 (long_hi off') (bset nodeBlock 1 (long_lo off') s3)
                 else s3);
       Some (len, bfree nodeBlock (bmark nodeBlock s4)) } }"

partial_function (option) reset_data :: "(drvp \<Rightarrow> 'z blk_st_scheme iblkdriver) \<Rightarrow> u16 \<Rightarrow> nat \<Rightarrow> nat \<Rightarrow> nat \<Rightarrow>
    'z blk_st_scheme \<Rightarrow> 'z blk_st_scheme option" where
  "reset_data dops device b len off s =
     (if off < len then do {
        (blk, s1) \<leftarrow> getOrAllocBlockByOffset dops device b off s;
        s2 \<leftarrow> fs_freeBlock dops device blk s1;
        reset_data dops device b len (off_add off 256) s2 }
      else Some s)"

primrec reset_index :: "(drvp \<Rightarrow> 'z blk_st_scheme iblkdriver) \<Rightarrow> u16 \<Rightarrow> nat \<Rightarrow> nat \<Rightarrow> nat \<Rightarrow>
    'z blk_st_scheme \<Rightarrow> 'z blk_st_scheme option" where
  "reset_index dops device b i 0 s = Some s"
| "reset_index dops device b i (Suc k) s =
     (if bdata b s i = 0 then Some s
      else do { s1 \<leftarrow> fs_freeBlock dops device (bdata b s i) s; reset_index dops device b (Suc i) k s1 })"

definition fs_reset :: "(drvp \<Rightarrow> 'z blk_st_scheme iblkdriver) \<Rightarrow> fs_node \<Rightarrow>
    'z blk_st_scheme \<Rightarrow> 'z blk_st_scheme option" where
  "fs_reset dops node s = do {
     (b, s1) \<leftarrow> bread dops (fn_dev node) (fn_idx node) s;
     s2 \<leftarrow> reset_data dops (fn_dev node) b (node_size (bdata b s1)) 0 s1;
     s3 \<leftarrow> reset_index dops (fn_dev node) b (DIRECT_INDEXES_CNT + 3) (255 - (DIRECT_INDEXES_CNT + 3)) s2;
     fs_freeBlock dops (fn_dev node) (fn_idx node) (bfree b s3) }"

section \<open>Directories\<close>

text \<open>A directory entry is 31 words of name and a node number; \<open>ent\<close> is the 32 words.\<close>

definition dirent_at :: "u16 list \<Rightarrow> 'z fs_st_scheme \<Rightarrow> u16 list" where
  "dirent_at ws s = slice (blit (uninit s) 0 ws) 0 32"

definition fs_readdir :: "(drvp \<Rightarrow> 'z fs_st_scheme iblkdriver) \<Rightarrow> fs_node \<Rightarrow> nat \<Rightarrow>
    'z fs_st_scheme \<Rightarrow> (u16 \<times> u16 list \<times> 'z fs_st_scheme) option" where
  "fs_readdir dops dir n s = do {
     (ws, s1) \<leftarrow> fs_read dops dir n 32 s;
     Some (if length ws = 32 then FS_OK else FS_NO_FILE, dirent_at ws s1, s1) }"

text \<open>The search loop of \<^verbatim>\<open>fs_finddir\<close>: the node number of the entry named \<open>what\<close>.\<close>

partial_function (option) find_entry :: "(drvp \<Rightarrow> 'z fs_st_scheme iblkdriver) \<Rightarrow> fs_node \<Rightarrow> u16 list \<Rightarrow>
    nat \<Rightarrow> nat \<Rightarrow> 'z fs_st_scheme \<Rightarrow> (u16 option \<times> 'z fs_st_scheme) option" where
  "find_entry dops wher what len i s =
     (if i < len then do {
        (ws, s1) \<leftarrow> fs_read dops wher i 32 s;
        let dEnt = dirent_at ws s1;
        c \<leftarrow> strcmp dEnt what;
        if c = 0 then Some (Some (dEnt ! 31), s1)
        else find_entry dops wher what len (off_add i 32) s1 }
      else Some (None, s))"

text \<open>
  \<^verbatim>\<open>fs_finddir\<close> returns its result code, the directory it ended up searching (\<^verbatim>\<open>*where\<close>, changed when
  \<^verbatim>\<open>".."\<close> leaves a mounted file system) and, when found, the node (\<^verbatim>\<open>*res\<close>).
\<close>

definition fs_finddir :: "(drvp \<Rightarrow> 'z fs_st_scheme iblkdriver) \<Rightarrow> fs_node \<Rightarrow> u16 list \<Rightarrow>
    'z fs_st_scheme \<Rightarrow> (u16 \<times> fs_node \<times> fs_node \<times> 'z fs_st_scheme) option" where
  "fs_finddir dops wher what s = do {
     c \<leftarrow> strcmp what (literal ''..'' s);
     wher \<leftarrow> (if c = 0 then do {
         m \<leftarrow> fs_mtab_rseek wher s;
         Some (case m of None \<Rightarrow> wher | Some e \<Rightarrow> mt_mount_point e) }
       else Some wher);
     (st, s1) \<leftarrow> fs_stat dops wher s;
     (r, s2) \<leftarrow> find_entry dops wher what (st_size st) 0 s1;
     (case r of
        None \<Rightarrow> Some (FS_NO_FILE, wher, wher, s2)
      | Some idx \<Rightarrow> do {
          let res = \<lparr>fn_dev = fn_dev wher, fn_idx = idx\<rparr>;
          m \<leftarrow> fs_mtab_seek res s2;
          Some (FS_OK, wher, case m of None \<Rightarrow> res | Some e \<Rightarrow> mt_fs_root e, s2) }) }"

definition fs_create :: "(drvp \<Rightarrow> 'z fs_st_scheme iblkdriver) \<Rightarrow> fs_node \<Rightarrow> u16 list \<Rightarrow> u16 \<Rightarrow> fs_node \<Rightarrow>
    'z fs_st_scheme \<Rightarrow> (u16 \<times> fs_node \<times> fs_node \<times> 'z fs_st_scheme) option" where
  "fs_create dops wher name flags res s = do {
     (st, s1) \<leftarrow> fs_stat dops wher s;
     if S_ISDIR (st_mode st) then do {
       (rv, wher, found, s2) \<leftarrow> fs_finddir dops wher name s1;
       if rv = FS_OK then Some (FS_FILE_EXISTS, wher, found, s2)
       else do {
         (newBlock, s3) \<leftarrow> fs_allocBlock dops (fn_dev wher) s2;
         (w1, s4) \<leftarrow> fs_write dops wher (st_size st) 31 name s3;
         (w2, s5) \<leftarrow> fs_write dops wher (off_add (st_size st) 31) 1 [newBlock] s4;
         (b, s6) \<leftarrow> bread dops (fn_dev wher) newBlock s5;
         let s7 = fort 1 255 (\<lambda>i. bset b i 0) (bset b 0 flags s6);
         Some (FS_OK, wher, res\<lparr>fn_idx := newBlock\<rparr>, bfree b (bmark b s7)) } }
     else Some (FS_NOT_A_DIR, wher, res, s1) }"

section \<open>Formatting and initialisation\<close>

definition mkfs_clear :: "(drvp \<Rightarrow> 'z blk_st_scheme iblkdriver) \<Rightarrow> u16 \<Rightarrow> nat \<Rightarrow>
    'z blk_st_scheme \<Rightarrow> 'z blk_st_scheme option" where
  "mkfs_clear dops device i s = do {
     (b, s1) \<leftarrow> bread dops device (of_nat i) s;
     Some (bfree b (bmark b (fort 0 256 (\<lambda>n. bset b n 0) s1))) }"

definition write_dot_entries :: "(drvp \<Rightarrow> 'z fs_st_scheme iblkdriver) \<Rightarrow> fs_node \<Rightarrow> u16 \<Rightarrow>
    'z fs_st_scheme \<Rightarrow> 'z fs_st_scheme option" where
  "write_dot_entries dops dir up s = do {
     (w1, s1) \<leftarrow> fs_write dops dir 0 31 (literal ''.'' s) s;
     (w2, s2) \<leftarrow> fs_write dops dir 31 1 [fn_idx dir] s1;
     (w3, s3) \<leftarrow> fs_write dops dir 32 31 (literal ''..'' s2) s2;
     (w4, s4) \<leftarrow> fs_write dops dir 63 1 [up] s3;
     Some s4 }"

definition fs_mkfs :: "(drvp \<Rightarrow> 'z fs_st_scheme iblkdriver) \<Rightarrow> u16 \<Rightarrow>
    'z fs_st_scheme \<Rightarrow> 'z fs_st_scheme option" where
  "fs_mkfs dops device s = do {
     (b, s1) \<leftarrow> bread dops device 0 s;
     let s2 = bfree b (bmark b (bcopy b 0 (cstr ''RLFS filesystem'') s1));
     s3 \<leftarrow> forn 1 34 (mkfs_clear dops device) s2;
     (b, s4) \<leftarrow> bread dops device 1 s3;
     let s5 = bfree b (bmark b (bset b 2 0x0007 (bset b 1 0xffff (bset b 0 0xffff s4))));
     (b, s6) \<leftarrow> bread dops device 34 s5;
     let s7 = fort 3 253 (\<lambda>n. bset b n 0) (bset b 2 0 (bset b 1 64 (bset b 0 S_IFDIR s6)));
     let s8 = bfree b (bmark b s7);
     s9 \<leftarrow> write_dot_entries dops \<lparr>fn_dev = device, fn_idx = 34\<rparr> 34 s8;
     block_sync dops s9 }"

definition fs_init_nodes :: "'z fs_st_scheme \<Rightarrow> 'z fs_st_scheme" where
  "fs_init_nodes s = s\<lparr>openFiles := set_create_static MAX_FILES (openFiles s),
     mtab := set_create_static MAX_MOUNT_POINTS (mtab s),
     fs_root := \<lparr>fn_dev = 0, fn_idx = ROOT_NODE\<rparr>\<rparr>"

end
