(* ===== verification/Cb.thy ===== *)
theory Cb
  imports KPrelude
begin

text \<open>
  The circular buffer of \<^verbatim>\<open>rl_os/kernel/cb.c\<close>, the queue under the terminals, the pipes and the
  pending wait-queue notifications.  The record is \<^verbatim>\<open>struct circular_buffer\<close>; the arena is the
  function \<open>cb_data\<close>.  The theory shows that the buffer implements a bounded first-in first-out
  queue that drops its oldest element when full, states that contract as the locale
  \<open>bounded_fifo\<close>, derives the facts about bursts of pushes and pops once, and interprets the
  locale on the code's operations.
\<close>

record circular_buffer =
  cb_r :: nat
  cb_w :: nat
  cb_capacity :: nat
  cb_size :: nat
  cb_data :: buf

definition cb_create_static :: "nat \<Rightarrow> buf \<Rightarrow> circular_buffer" where
  "cb_create_static capacity arena =
     \<lparr>cb_r = 0, cb_w = 0, cb_capacity = capacity, cb_size = 0, cb_data = arena\<rparr>"

definition cb_pop :: "circular_buffer \<Rightarrow> u16 \<times> circular_buffer" where
  "cb_pop cb =
     (if cb_size cb \<noteq> 0 then
        let rval = cb_data cb (cb_r cb);
            r = inc16 (cb_r cb);
            r' = (if r \<ge> cb_capacity cb then 0 else r)
        in (rval, cb\<lparr>cb_r := r', cb_size := cb_size cb - 1\<rparr>)
      else (0, cb))"

definition cb_push :: "circular_buffer \<Rightarrow> u16 \<Rightarrow> circular_buffer" where
  "cb_push cb val =
     (let d = (cb_data cb)(cb_w cb := val);
          w = inc16 (cb_w cb);
          w' = (if w \<ge> cb_capacity cb then 0 else w)
      in if cb_size cb < cb_capacity cb
         then cb\<lparr>cb_data := d, cb_w := w', cb_size := cb_size cb + 1\<rparr>
         else cb\<lparr>cb_data := d, cb_w := w', cb_r := w'\<rparr>)"

definition cb_clear :: "circular_buffer \<Rightarrow> circular_buffer" where
  "cb_clear cb = cb\<lparr>cb_size := 0, cb_w := 0, cb_r := 0\<rparr>"

section \<open>Invariant and abstraction\<close>

definition cb_inv :: "circular_buffer \<Rightarrow> bool" where
  "cb_inv cb \<longleftrightarrow> 0 < cb_capacity cb \<and> cb_capacity cb < 65536 \<and> cb_r cb < cb_capacity cb \<and>
     cb_size cb \<le> cb_capacity cb \<and> cb_w cb = (cb_r cb + cb_size cb) mod cb_capacity cb"

definition cb_list :: "circular_buffer \<Rightarrow> u16 list" where
  "cb_list cb = map (\<lambda>k. cb_data cb ((cb_r cb + k) mod cb_capacity cb)) [0 ..< cb_size cb]"

lemma length_cb_list [simp]: "length (cb_list cb) = cb_size cb"
  by (simp add: cb_list_def)

lemma wrap_inc: "x < c \<Longrightarrow> c < 65536 \<Longrightarrow> (if inc16 x \<ge> c then 0 else inc16 x) = Suc x mod c"
  by (auto simp: inc16_def mod_Suc)

lemma mod_add_inj:
  assumes eq: "(r + a) mod c = (r + b) mod c" and "a < c" "b < c"
  shows "a = (b :: nat)"
proof -
  have *: "x = y" if "(r + y) mod c = (r + x) mod c" "x \<le> y" "y < c" for x y :: nat
  proof -
    from that have "c dvd (r + y) - (r + x)"
      by (subst (asm) mod_eq_dvd_iff_nat) simp_all
    with that have "c dvd y - x" by simp
    with that show ?thesis using nat_dvd_not_less [of "y - x" c] by (cases "y = x") auto
  qed
  show ?thesis
    using * [of a b] * [of b a] assms by (cases "a \<le> b") auto
qed

lemma cb_create_inv: "0 < capacity \<Longrightarrow> capacity < 65536 \<Longrightarrow> cb_inv (cb_create_static capacity arena)"
  by (simp add: cb_inv_def cb_create_static_def)

lemma cb_create_list [simp]: "cb_list (cb_create_static capacity arena) = []"
  by (simp add: cb_list_def cb_create_static_def)

lemma cb_clear_inv: "cb_inv cb \<Longrightarrow> cb_inv (cb_clear cb)"
  by (simp add: cb_inv_def cb_clear_def)

lemma cb_clear_list [simp]: "cb_list (cb_clear cb) = []"
  by (simp add: cb_list_def cb_clear_def)

lemma cb_capacity_ops [simp]:
  "cb_capacity (cb_push cb v) = cb_capacity cb"
  "cb_capacity (snd (cb_pop cb)) = cb_capacity cb"
  "cb_capacity (cb_clear cb) = cb_capacity cb"
  "cb_capacity (cb_create_static n a) = n"
  by (simp_all add: cb_push_def cb_pop_def cb_clear_def cb_create_static_def Let_def)

text \<open>Under the invariant the operations are arithmetic modulo the capacity.\<close>

lemma cb_push_room:
  assumes "cb_inv cb" "cb_size cb < cb_capacity cb"
  shows "cb_push cb v = cb\<lparr>cb_data := (cb_data cb)(cb_w cb := v),
    cb_w := (cb_r cb + Suc (cb_size cb)) mod cb_capacity cb, cb_size := Suc (cb_size cb)\<rparr>"
proof -
  from assms have "cb_w cb < cb_capacity cb" "cb_capacity cb < 65536" by (simp_all add: cb_inv_def)
  from wrap_inc [OF this] have "(if inc16 (cb_w cb) \<ge> cb_capacity cb then 0 else inc16 (cb_w cb)) =
      (cb_r cb + Suc (cb_size cb)) mod cb_capacity cb"
    using assms by (simp add: cb_inv_def mod_Suc_eq)
  with assms show ?thesis by (simp only: cb_push_def Let_def if_True Suc_eq_plus1)
qed

lemma cb_push_full:
  assumes "cb_inv cb" "cb_size cb = cb_capacity cb"
  shows "cb_push cb v = cb\<lparr>cb_data := (cb_data cb)(cb_r cb := v),
    cb_w := Suc (cb_r cb) mod cb_capacity cb, cb_r := Suc (cb_r cb) mod cb_capacity cb\<rparr>"
proof -
  from assms have "cb_r cb < cb_capacity cb" "cb_capacity cb < 65536" by (simp_all add: cb_inv_def)
  moreover from assms have "cb_w cb = cb_r cb" by (simp add: cb_inv_def)
  ultimately show ?thesis
    using wrap_inc [of "cb_r cb" "cb_capacity cb"] assms
    by (simp only: cb_push_def Let_def less_irrefl if_False)
qed

lemma cb_pop_nonempty:
  assumes "cb_inv cb" "0 < cb_size cb"
  shows "cb_pop cb = (cb_data cb (cb_r cb),
    cb\<lparr>cb_r := Suc (cb_r cb) mod cb_capacity cb, cb_size := cb_size cb - 1\<rparr>)"
proof -
  from assms have "cb_r cb < cb_capacity cb" "cb_capacity cb < 65536" by (simp_all add: cb_inv_def)
  from wrap_inc [OF this] assms show ?thesis by (simp only: cb_pop_def Let_def) simp
qed

lemma cb_pop_empty: "cb_size cb = 0 \<Longrightarrow> cb_pop cb = (0, cb)"
  by (simp add: cb_pop_def)

lemma cb_size_le: "cb_inv cb \<Longrightarrow> cb_size cb \<le> cb_capacity cb"
  by (simp add: cb_inv_def)

lemma cb_push_inv: "cb_inv cb \<Longrightarrow> cb_inv (cb_push cb v)"
proof (cases "cb_size cb < cb_capacity cb")
  case False
  moreover assume "cb_inv cb"
  ultimately show ?thesis by (auto simp: cb_push_full cb_inv_def)
qed (simp add: cb_push_room, simp add: cb_inv_def)

lemma cb_push_room_list:
  assumes inv: "cb_inv cb" and room: "cb_size cb < cb_capacity cb"
  shows "cb_list (cb_push cb v) = cb_list cb @ [v]"
proof (rule nth_equalityI)
  show "length (cb_list (cb_push cb v)) = length (cb_list cb @ [v])"
    using assms by (simp add: cb_push_room)
next
  fix i assume "i < length (cb_list (cb_push cb v))"
  then have i: "i \<le> cb_size cb" using assms by (simp add: cb_push_room)
  have w: "(cb_r cb + i) mod cb_capacity cb = cb_w cb \<longleftrightarrow> i = cb_size cb"
    using inv room i mod_add_inj [of "cb_r cb" i "cb_capacity cb" "cb_size cb"]
    by (auto simp: cb_inv_def)
  show "cb_list (cb_push cb v) ! i = (cb_list cb @ [v]) ! i"
    using i w assms by (cases "i = cb_size cb")
      (simp_all add: cb_push_room cb_list_def nth_append del: upt_Suc)
qed

lemma cb_push_full_list:
  assumes inv: "cb_inv cb" and full: "cb_size cb = cb_capacity cb"
  shows "cb_list (cb_push cb v) = tl (cb_list cb) @ [v]"
proof (rule nth_equalityI)
  show "length (cb_list (cb_push cb v)) = length (tl (cb_list cb) @ [v])"
    using assms by (simp add: cb_push_full cb_inv_def)
next
  let ?c = "cb_capacity cb"
  fix i assume "i < length (cb_list (cb_push cb v))"
  then have i: "i < ?c" using assms by (simp add: cb_push_full)
  have r: "cb_r cb < ?c" using inv by (simp add: cb_inv_def)
  have idx: "(Suc (cb_r cb) mod ?c + i) mod ?c = (cb_r cb + Suc i) mod ?c"
    by (simp add: mod_add_left_eq)
  have last: "cb_list (cb_push cb v) ! i =
      (if (cb_r cb + Suc i) mod ?c = cb_r cb then v else cb_data cb ((cb_r cb + Suc i) mod ?c))"
    using i full assms idx by (simp add: cb_push_full cb_list_def)
  have tl: "tl (cb_list cb) ! i = cb_data cb ((cb_r cb + Suc i) mod ?c)" if "Suc i < ?c"
    using that full by (simp add: cb_list_def nth_tl)
  show "cb_list (cb_push cb v) ! i = (tl (cb_list cb) @ [v]) ! i"
  proof (cases "Suc i = ?c")
    case True
    then have "(cb_r cb + Suc i) mod ?c = cb_r cb" using r by simp
    with True full last show ?thesis by (simp add: nth_append del: mod_add_self2) auto
  next
    case False
    with i have "Suc i < ?c" by simp
    moreover have "(cb_r cb + Suc i) mod ?c \<noteq> cb_r cb"
      using r mod_add_inj [of "cb_r cb" "Suc i" ?c 0] \<open>Suc i < ?c\<close> by auto
    ultimately show ?thesis using tl last full by (simp add: nth_append less_diff_conv)
  qed
qed

lemma cb_pop_inv: "cb_inv cb \<Longrightarrow> cb_inv (snd (cb_pop cb))"
proof (cases "cb_size cb = 0")
  case False
  assume inv: "cb_inv cb"
  let ?c = "cb_capacity cb" and ?r = "cb_r cb"
  have "(Suc ?r mod ?c + (cb_size cb - 1)) mod ?c = (Suc ?r + (cb_size cb - 1)) mod ?c"
    by (rule mod_add_left_eq)
  also have "\<dots> = (?r + cb_size cb) mod ?c" using False by simp
  finally have idx: "(Suc ?r mod ?c + (cb_size cb - 1)) mod ?c = (?r + cb_size cb) mod ?c" .
  show ?thesis using False inv idx
    by (simp add: cb_pop_nonempty) (auto simp: cb_inv_def)
qed (simp add: cb_pop_empty)

lemma cb_pop_list: "cb_inv cb \<Longrightarrow> cb_list (snd (cb_pop cb)) = tl (cb_list cb)"
proof (cases "cb_size cb = 0")
  case False
  assume inv: "cb_inv cb"
  have idx: "(Suc (cb_r cb) mod cb_capacity cb + i) mod cb_capacity cb =
      (cb_r cb + Suc i) mod cb_capacity cb" for i
    by (simp add: mod_add_left_eq)
  from False inv show ?thesis
    by (intro nth_equalityI) (simp_all add: cb_pop_nonempty cb_list_def nth_tl idx less_diff_conv del: upt_Suc)
qed (simp add: cb_pop_empty cb_list_def)

lemma cb_pop_value:
  "cb_inv cb \<Longrightarrow> cb_list cb \<noteq> [] \<Longrightarrow> fst (cb_pop cb) = hd (cb_list cb)"
  by (subst (asm) length_0_conv [symmetric])
     (simp add: cb_pop_nonempty, simp add: cb_list_def hd_map cb_inv_def)

section \<open>The queue contract\<close>

text \<open>
  What the users of the buffer rely on: pushing into a queue with room appends, popping a
  non-empty queue takes the first element off, and a push into a full queue drops the oldest.
  The clients see only \<open>push\<close>, \<open>pop\<close>, the element count and the fixed capacity.
\<close>

locale bounded_fifo =
  fixes push :: "'q \<Rightarrow> u16 \<Rightarrow> 'q"
    and pop :: "'q \<Rightarrow> u16 \<times> 'q"
    and count :: "'q \<Rightarrow> nat"
    and room :: "'q \<Rightarrow> nat"
    and contents :: "'q \<Rightarrow> u16 list"
    and invar :: "'q \<Rightarrow> bool"
  assumes count: "invar q \<Longrightarrow> count q = length (contents q)"
    and room_push: "room (push q v) = room q"
    and room_pop: "room (snd (pop q)) = room q"
    and count_le: "invar q \<Longrightarrow> count q \<le> room q"
    and invar_push: "invar q \<Longrightarrow> invar (push q v)"
    and invar_pop: "invar q \<Longrightarrow> invar (snd (pop q))"
    and push_room: "invar q \<Longrightarrow> count q < room q \<Longrightarrow> contents (push q v) = contents q @ [v]"
    and push_full: "invar q \<Longrightarrow> count q = room q \<Longrightarrow> contents (push q v) = tl (contents q) @ [v]"
    and pop_contents: "invar q \<Longrightarrow> contents (snd (pop q)) = tl (contents q)"
    and pop_value: "invar q \<Longrightarrow> contents q \<noteq> [] \<Longrightarrow> fst (pop q) = hd (contents q)"
begin

text \<open>A burst of pushes, as an interrupt handler or a pipe write makes it.\<close>

lemma invar_pushes: "invar q \<Longrightarrow> invar (foldl push q xs)"
  by (induction xs arbitrary: q) (auto intro: invar_push)

lemma room_pushes: "room (foldl push q xs) = room q"
  by (induction xs arbitrary: q) (auto simp: room_push)

lemma pushes_room:
  "invar q \<Longrightarrow> count q + length xs \<le> room q \<Longrightarrow> contents (foldl push q xs) = contents q @ xs"
proof (induction xs arbitrary: q)
  case (Cons x xs)
  then have "contents (push q x) = contents q @ [x]" by (simp add: push_room)
  with Cons show ?case by (simp add: invar_push room_push count)
qed simp

text \<open>Whatever is pushed, the queue keeps the newest elements, as many as fit.\<close>

lemma pushes_newest:
  "invar q \<Longrightarrow> contents (foldl push q xs) =
     drop (length (contents q) + length xs - room q) (contents q @ xs)"
proof (induction xs arbitrary: q)
  case Nil
  then show ?case using count_le [of q] count [of q] by simp
next
  case (Cons x xs)
  have len: "length (contents q) \<le> room q" using Cons.prems count count_le by metis
  show ?case
  proof (cases "count q < room q")
    case True
    then have "contents (push q x) = contents q @ [x]" using Cons.prems by (simp add: push_room)
    then show ?thesis using Cons.IH [of "push q x"] Cons.prems by (simp add: invar_push room_push)
  next
    case False
    then have full: "length (contents q) = room q" using len Cons.prems by (simp add: count)
    then have eq: "contents (push q x) = tl (contents q) @ [x]"
      using Cons.prems by (simp add: push_full count)
    show ?thesis
    proof (cases "contents q")
      case Nil
      with Cons.IH [of "push q x"] Cons.prems eq full show ?thesis
        by (simp add: invar_push room_push)
    next
      case (Cons y ys)
      then have "room q = Suc (length ys)" using full by simp
      with Cons Cons.IH [of "push q x"] Cons.prems eq show ?thesis
        by (simp add: invar_push room_push)
    qed
  qed
qed

end

interpretation cbq: bounded_fifo cb_push cb_pop cb_size cb_capacity cb_list cb_inv
  by unfold_locales
     (auto simp: cb_size_le cb_push_inv cb_pop_inv cb_push_room_list cb_push_full_list
       cb_pop_list cb_pop_value)

section \<open>Sequences of operations\<close>

text \<open>
  The users' view: a sequence of pushes and pops, with the words the pops return.  The abstract queue
  is a list of at most \<open>cap\<close> words; a push drops the oldest word of a full list, a pop of the
  empty list yields 0.
\<close>

datatype cb_op = Push u16 | Pop

fun cb_run :: "cb_op list \<Rightarrow> circular_buffer \<Rightarrow> u16 list \<times> circular_buffer" where
  "cb_run [] cb = ([], cb)"
| "cb_run (Push v # ops) cb = cb_run ops (cb_push cb v)"
| "cb_run (Pop # ops) cb = (let (v, cb1) = cb_pop cb; (vs, cb2) = cb_run ops cb1 in (v # vs, cb2))"

fun queue_run :: "nat \<Rightarrow> cb_op list \<Rightarrow> u16 list \<Rightarrow> u16 list \<times> u16 list" where
  "queue_run cap [] q = ([], q)"
| "queue_run cap (Push v # ops) q = queue_run cap ops ((if length q < cap then q else tl q) @ [v])"
| "queue_run cap (Pop # ops) q =
     (let (vs, q') = queue_run cap ops (tl q) in ((if q = [] then 0 else hd q) # vs, q'))"

lemma cb_pop_fst: "cb_inv cb \<Longrightarrow> fst (cb_pop cb) = (if cb_list cb = [] then 0 else hd (cb_list cb))"
proof (cases "cb_size cb = 0")
  case True
  then show ?thesis by (simp add: cb_pop_empty cb_list_def)
next
  case False
  moreover assume "cb_inv cb"
  ultimately show ?thesis using cbq.pop_value [of cb] by (auto simp flip: length_0_conv)
qed

lemma cb_run_refines:
  "cb_inv cb \<Longrightarrow> fst (cb_run ops cb) = fst (queue_run (cb_capacity cb) ops (cb_list cb)) \<and>
   cb_list (snd (cb_run ops cb)) = snd (queue_run (cb_capacity cb) ops (cb_list cb)) \<and>
   cb_inv (snd (cb_run ops cb)) \<and> cb_capacity (snd (cb_run ops cb)) = cb_capacity cb"
proof (induction ops arbitrary: cb)
  case (Cons op ops)
  show ?case
  proof (cases op)
    case (Push v)
    have "cb_list (cb_push cb v) = (if cb_size cb < cb_capacity cb then cb_list cb else tl (cb_list cb)) @ [v]"
      using cbq.push_room [OF Cons.prems] cbq.push_full [OF Cons.prems] cb_size_le [OF Cons.prems] by auto
    with Push Cons.IH [OF cb_push_inv [OF Cons.prems]] show ?thesis by simp
  next
    case Pop
    with Cons.IH [OF cb_pop_inv [OF Cons.prems]] cb_pop_list [OF Cons.prems] cb_pop_fst [OF Cons.prems]
    show ?thesis by (simp add: case_prod_beta Let_def)
  qed
qed simp

text \<open>
  C17. From its creation on, the circular buffer behaves under every sequence of pushes and pops as a
  bounded queue that loses its oldest word when full: the same words come out, and the words left
  are the same.
\<close>

theorem cb_refines_queue:
  assumes "0 < capacity" "capacity < 65536"
  shows "fst (cb_run ops (cb_create_static capacity arena)) = fst (queue_run capacity ops []) \<and>
    cb_list (snd (cb_run ops (cb_create_static capacity arena))) = snd (queue_run capacity ops []) \<and>
    cb_size (snd (cb_run ops (cb_create_static capacity arena))) \<le> capacity"
  using cb_run_refines [OF cb_create_inv [OF assms, of arena], of ops]
    cb_size_le [of "snd (cb_run ops (cb_create_static capacity arena))"] by simp

theorem cb_refines_queue_witness:
  "fst (cb_run [Push 1, Push 2, Push 3, Pop, Pop, Pop] (cb_create_static 2 (\<lambda>_. 9))) = [2, 3, 0]"
  using cb_refines_queue [of 2 "[Push 1, Push 2, Push 3, Pop, Pop, Pop]" "\<lambda>_. 9"] by simp

end
