(* ===== verification/KState.thy ===== *)
theory KState
  imports Rlfs Cb
begin

text \<open>
  The kernel's global state: processes and the scheduler's variables (\<^verbatim>\<open>sched.c\<close>), the kernel task
  queue (\<^verbatim>\<open>kernel_worker.c\<close>), the wait queue (\<^verbatim>\<open>waitq.c\<close>), terminals (\<^verbatim>\<open>tty.c\<close>), pipes
  (\<^verbatim>\<open>piper.c\<close>), page and selector tables (\<^verbatim>\<open>mm.c\<close>), character devices (\<^verbatim>\<open>rlfs3.c\<close>).  A
  \<^verbatim>\<open>struct Process *\<close> is an index into \<open>procs\<close>, a \<^verbatim>\<open>FILE *\<close> a slot of \<open>openFiles\<close>, \<open>None\<close> the null
  pointer.  Entry 15 of \<open>procs\<close> is the memory behind the table read as a \<^verbatim>\<open>struct Process\<close>: the
  scheduler looks at it.  A device operation is a value of \<open>devfn\<close>, one for each function the
  kernel registers.
\<close>

record iframe =
  fr_SW :: u16
  fr_SP :: u16
  fr_highPC :: u16
  fr_BP :: u16
  fr_AP :: u16
  fr_S :: u16
  fr_D :: u16

record proc =
  p_pid :: u16
  p_state :: u16
  p_intFrame :: iframe
  p_mmuSelector :: u16
  p_cwd :: fs_node
  p_parent :: "nat option"
  p_retval :: u16
  p_openFiles :: "nat \<Rightarrow> nat option"
  p_cmd :: buf
  p_signalsPending :: u16
  p_waitingOn :: u16
  p_isThread :: u16

record KernelTask =
  kt_type :: u16
  kt_callerPid :: u16
  kt_args :: u16

record waitqEntry =
  wq_trigger :: u16
  wq_pid :: u16
  wq_type :: u16
  wq_scallStruct :: u16
  wq_fd :: nat
  wq_params :: buf

record pipefile =
  pf_used :: u16
  pf_readClosed :: u16
  pf_writeClosed :: u16
  pf_cb :: circular_buffer
  pf_openedAs :: "nat option"

datatype devfn = Tty_write | Tty_read | Tty_open | Tty_close | Tty_ioctl
  | Proc_file_write | Proc_file_read | Piper_write | Piper_read | Piper_open | Piper_close
  | Sched_file_write | Sched_file_read | Null_file_write | Null_file_read
  | Zero_file_write | Zero_file_read | Loop_ioctl

record devOpTable =
  dv_registered :: u16
  dv_write :: "devfn option"
  dv_read :: "devfn option"
  dv_open :: "devfn option"
  dv_close :: "devfn option"
  dv_ioctl :: "devfn option"

record extDevOpTable =
  ed_registered :: u16
  ed_driver :: "nat option"
  ed_driverPid :: u16
  ed_queue_user :: u16

record kst = fs_st +
  devList :: "nat \<Rightarrow> devOpTable"
  extDevList :: "nat \<Rightarrow> extDevOpTable"
  procs :: "nat \<Rightarrow> proc"
  currentTask :: nat
  cProc :: "nat option"
  nextPid :: u16
  ticks :: u16
  ticksToSwitch :: u16
  TIMESLICE :: u16
  schedMx :: u16
  sched_stack :: buf
  system_interrupt_stack :: buf
  decoder_stack :: buf
  mmu_stack :: buf
  kernelTaskQueue :: "nat \<Rightarrow> KernelTask"
  waitq :: "nat \<Rightarrow> waitqEntry"
  waitqPending :: circular_buffer
  uart_buffer :: "nat \<Rightarrow> circular_buffer"
  ttyOpenedAs :: "nat \<Rightarrow> nat option"
  pipes :: "nat \<Rightarrow> pipefile"
  pageMap :: "nat \<Rightarrow> u16"
  selectorMap :: "nat \<Rightarrow> u16"
  enable_copy_on_write :: bool

type_synonym dops = "drvp \<Rightarrow> kst iblkdriver"

abbreviation MAXPROC :: nat where "MAXPROC \<equiv> 15"
abbreviation MAX_FILES_PER_PROC :: nat where "MAX_FILES_PER_PROC \<equiv> 15"
abbreviation MAX_DEVS :: nat where "MAX_DEVS \<equiv> 10"
abbreviation MAX_QUEUE_SIZE :: nat where "MAX_QUEUE_SIZE \<equiv> 15"
abbreviation PROC_STATE_NONE :: u16 where "PROC_STATE_NONE \<equiv> 0"
abbreviation PROC_STATE_RUN :: u16 where "PROC_STATE_RUN \<equiv> 1"
abbreviation PROC_STATE_SLEEP :: u16 where "PROC_STATE_SLEEP \<equiv> 2"
abbreviation PROC_STATE_ZOMBIE :: u16 where "PROC_STATE_ZOMBIE \<equiv> 3"
abbreviation PROC_STATE_KWORKER :: u16 where "PROC_STATE_KWORKER \<equiv> 4"
abbreviation PROC_STATE_NEW :: u16 where "PROC_STATE_NEW \<equiv> 5"
abbreviation PROC_STATE_CONSTRUCT :: u16 where "PROC_STATE_CONSTRUCT \<equiv> 6"
abbreviation PROC_STATE_BLOCKED :: u16 where "PROC_STATE_BLOCKED \<equiv> 7"
abbreviation KERNEL_TASK_NONE :: u16 where "KERNEL_TASK_NONE \<equiv> 0"
abbreviation KERNEL_TASK_FORK :: u16 where "KERNEL_TASK_FORK \<equiv> 1"
abbreviation KERNEL_TASK_EXECVE :: u16 where "KERNEL_TASK_EXECVE \<equiv> 2"
abbreviation KERNEL_TASK_EXIT :: u16 where "KERNEL_TASK_EXIT \<equiv> 3"
abbreviation KERNEL_TASK_WAITPID :: u16 where "KERNEL_TASK_WAITPID \<equiv> 4"
abbreviation KERNEL_TASK_CLONE :: u16 where "KERNEL_TASK_CLONE \<equiv> 5"
abbreviation SIGKILL :: nat where "SIGKILL \<equiv> 3"
abbreviation SIGNUM :: nat where "SIGNUM \<equiv> 4"
abbreviation SIGPIPE :: nat where "SIGPIPE \<equiv> 5"

text \<open>Updating one process, one pipe.\<close>

definition proc_upd :: "nat \<Rightarrow> (proc \<Rightarrow> proc) \<Rightarrow> kst \<Rightarrow> kst" where
  "proc_upd i f s = s\<lparr>procs := (procs s)(i := f (procs s i))\<rparr>"

definition pipe_upd :: "nat \<Rightarrow> (pipefile \<Rightarrow> pipefile) \<Rightarrow> kst \<Rightarrow> kst" where
  "pipe_upd i f s = s\<lparr>pipes := (pipes s)(i := f (pipes s i))\<rparr>"

definition file_at :: "nat \<Rightarrow> 'z fs_st_scheme \<Rightarrow> FILE" where
  "file_at i s = set_el (openFiles s) i"

definition file_upd :: "nat \<Rightarrow> (FILE \<Rightarrow> FILE) \<Rightarrow> 'z fs_st_scheme \<Rightarrow> 'z fs_st_scheme" where
  "file_upd i f s = s\<lparr>openFiles := (openFiles s)\<lparr>set_el := (set_el (openFiles s))(i := f (set_el (openFiles s) i))\<rparr>\<rparr>"

text \<open>The interrupt frame at the start of an interrupt stack.\<close>

definition frame_words :: "iframe \<Rightarrow> u16 list" where
  "frame_words f = [fr_SW f, fr_SP f, fr_highPC f, fr_BP f, fr_AP f, fr_S f, fr_D f]"

definition frame_at :: "buf \<Rightarrow> iframe" where
  "frame_at d = \<lparr>fr_SW = d 0, fr_SP = d 1, fr_highPC = d 2, fr_BP = d 3, fr_AP = d 4, fr_S = d 5, fr_D = d 6\<rparr>"

lemma frame_at_blit [simp]: "frame_at (blit d 0 (frame_words f)) = f"
  by (simp add: frame_at_def frame_words_def blit_def)

lemma proc_upd_simps [simp]:
  "procs (proc_upd i f s) = (procs s)(i := f (procs s i))"
  "currentTask (proc_upd i f s) = currentTask s" "cProc (proc_upd i f s) = cProc s"
  "kernelTaskQueue (proc_upd i f s) = kernelTaskQueue s" "waitq (proc_upd i f s) = waitq s"
  "waitqPending (proc_upd i f s) = waitqPending s" "pageMap (proc_upd i f s) = pageMap s"
  "selectorMap (proc_upd i f s) = selectorMap s" "openFiles (proc_upd i f s) = openFiles s"
  "hw_mmu (proc_upd i f s) = hw_mmu s" "hw_ram (proc_upd i f s) = hw_ram s"
  "pipes (proc_upd i f s) = pipes s" "nextPid (proc_upd i f s) = nextPid s"
  "ticksToSwitch (proc_upd i f s) = ticksToSwitch s" "TIMESLICE (proc_upd i f s) = TIMESLICE s"
  "schedMx (proc_upd i f s) = schedMx s" "sched_stack (proc_upd i f s) = sched_stack s"
  "system_interrupt_stack (proc_upd i f s) = system_interrupt_stack s"
  "decoder_stack (proc_upd i f s) = decoder_stack s"
  by (simp_all add: proc_upd_def)

text \<open>A machine with all memory zero and empty serial lines, on the given disks.\<close>

definition zero_proc :: proc where
  "zero_proc = \<lparr>p_pid = 0, p_state = 0,
     p_intFrame = \<lparr>fr_SW = 0, fr_SP = 0, fr_highPC = 0, fr_BP = 0, fr_AP = 0, fr_S = 0, fr_D = 0\<rparr>,
     p_mmuSelector = 0, p_cwd = \<lparr>fn_dev = 0, fn_idx = 0\<rparr>, p_parent = None, p_retval = 0,
     p_openFiles = (\<lambda>_. None), p_cmd = (\<lambda>_. 0), p_signalsPending = 0, p_waitingOn = 0, p_isThread = 0\<rparr>"

definition zero_cb :: circular_buffer where
  "zero_cb = \<lparr>cb_r = 0, cb_w = 0, cb_capacity = 0, cb_size = 0, cb_data = (\<lambda>_. 0)\<rparr>"

definition zero_slots :: "'e \<Rightarrow> 'e slot_set" where
  "zero_slots e = \<lparr>set_capacity = 0, set_size = 0, set_used = (\<lambda>_. False), set_el = (\<lambda>_. e)\<rparr>"

definition power_on :: "(nat \<Rightarrow> hdd) \<Rightarrow> kst" where
  "power_on h = (let nd = \<lparr>fn_dev = 0, fn_idx = 0\<rparr> in \<lparr>
     hw_hdd = h, hw_rx = (\<lambda>_. []), hw_tx = (\<lambda>_. []), hw_gpio = [], hw_mmu = (\<lambda>_. 0),
     hw_vec = (\<lambda>_. 0), hw_ram = (\<lambda>_ _. 0),
     blkdrivers = (\<lambda>i. if i = 0 then \<lparr>bd_major = 0, bd_driver = Some Ata_driver\<rparr>
       else \<lparr>bd_major = BAD_MAJOR, bd_driver = None\<rparr>),
     blockCache = (\<lambda>_. \<lparr>b_flags = BLOCK_FREE, b_device = 0, b_n = 0, b_cnt = 0, b_data = (\<lambda>_. 0)\<rparr>),
     openFiles = zero_slots \<lparr>f_mode = 0, f_node = nd, f_size = 0, f_pos = 0, f_device = 0, f_flags = 0, f_refcnt = 0\<rparr>,
     mtab = zero_slots \<lparr>mt_device_node = nd, mt_mount_point = nd, mt_fs_root = nd\<rparr>,
     fs_root = nd, loop_devs = (\<lambda>_. \<lparr>ld_device_node = nd, ld_virtual_device_file = nd\<rparr>),
     blockRequest = 0, uninit = (\<lambda>_. 0), rodata = (\<lambda>_. 0),
     devList = (\<lambda>_. \<lparr>dv_registered = 0, dv_write = None, dv_read = None, dv_open = None, dv_close = None, dv_ioctl = None\<rparr>),
     extDevList = (\<lambda>_. \<lparr>ed_registered = 0, ed_driver = None, ed_driverPid = 0, ed_queue_user = 0\<rparr>),
     procs = (\<lambda>_. zero_proc), currentTask = 0, cProc = None, nextPid = 0, ticks = 0, ticksToSwitch = 0,
     TIMESLICE = 10, schedMx = 0, sched_stack = (\<lambda>_. 0), system_interrupt_stack = (\<lambda>_. 0),
     decoder_stack = (\<lambda>_. 0), mmu_stack = (\<lambda>_. 0),
     kernelTaskQueue = (\<lambda>_. \<lparr>kt_type = 0, kt_callerPid = 0, kt_args = 0\<rparr>),
     waitq = (\<lambda>_. \<lparr>wq_trigger = 0, wq_pid = 0, wq_type = 0, wq_scallStruct = 0, wq_fd = 0, wq_params = (\<lambda>_. 0)\<rparr>),
     waitqPending = zero_cb, uart_buffer = (\<lambda>_. zero_cb), ttyOpenedAs = (\<lambda>_. None),
     pipes = (\<lambda>_. \<lparr>pf_used = 0, pf_readClosed = 0, pf_writeClosed = 0, pf_cb = zero_cb, pf_openedAs = None\<rparr>),
     pageMap = (\<lambda>_. 0), selectorMap = (\<lambda>_. 0), enable_copy_on_write = False\<rparr>)"

lemma power_on_simps [simp]:
  "hw_hdd (power_on h) = h" "hw_rx (power_on h) l = []" "hw_mmu (power_on h) k = 0" "hw_ram (power_on h) k o' = 0"
  "procs (power_on h) i = zero_proc" "currentTask (power_on h) = 0" "cProc (power_on h) = None"
  "ticksToSwitch (power_on h) = 0" "TIMESLICE (power_on h) = 10" "schedMx (power_on h) = 0"
  "kt_type (kernelTaskQueue (power_on h) k) = 0" "wq_type (waitq (power_on h) k) = 0"
  "pageMap (power_on h) k = 0" "selectorMap (power_on h) k = 0" "blockRequest (power_on h) = 0"
  by (simp_all add: power_on_def Let_def)

lemma zero_proc_simps [simp]:
  "p_pid zero_proc = 0" "p_state zero_proc = 0" "p_mmuSelector zero_proc = 0" "p_signalsPending zero_proc = 0"
  "p_waitingOn zero_proc = 0" "p_isThread zero_proc = 0" "p_openFiles zero_proc fd = None" "p_parent zero_proc = None"
  by (simp_all add: zero_proc_def)

end
