(* ===== verification/Sched.thy ===== *)
theory Sched
  imports KState
begin

text \<open>
  Processes and scheduling: the spin lock (\<^verbatim>\<open>lock.c\<close>), \<^verbatim>\<open>sched.c\<close>, and the queue of tasks for the kernel
  worker (\<^verbatim>\<open>addKernelTask\<close> of \<^verbatim>\<open>kernel_worker.c\<close>).  A spin on a lock that is held never ends in the
  handler that spins, which is \<open>None\<close>.  \<^verbatim>\<open>resched\<close> receives the interrupt stack whose frame it swaps.
\<close>

section \<open>The lock\<close>

definition spinlock_init :: "u16 \<Rightarrow> u16" where "spinlock_init l = 0"

definition spinlock_lock :: "u16 \<Rightarrow> u16 option" where
  "spinlock_lock l = (if l = 1 then None else Some 1)"

definition spinlock_unlock :: "u16 \<Rightarrow> u16" where "spinlock_unlock l = 0"

definition lock_sched :: "kst \<Rightarrow> kst option" where
  "lock_sched s = do { l \<leftarrow> spinlock_lock (schedMx s); Some (s\<lparr>schedMx := l\<rparr>) }"

definition unlock_sched :: "kst \<Rightarrow> kst" where
  "unlock_sched s = s\<lparr>schedMx := spinlock_unlock (schedMx s)\<rparr>"

section \<open>The process table\<close>

definition sched_init :: "kst \<Rightarrow> kst" where
  "sched_init s = fort 0 MAXPROC (\<lambda>i. proc_upd i
     (\<lambda>p. p\<lparr>p_state := PROC_STATE_NONE, p_signalsPending := 0, p_isThread := 0\<rparr>))
     (s\<lparr>schedMx := spinlock_init (schedMx s)\<rparr>)"

definition sched_genPid :: "kst \<Rightarrow> u16 \<times> kst" where
  "sched_genPid s = (nextPid s + 1, s\<lparr>nextPid := nextPid s + 1\<rparr>)"

definition get_free_proc :: "kst \<Rightarrow> (nat option \<times> kst) option" where
  "get_free_proc s = do {
     s1 \<leftarrow> lock_sched s;
     (case scan (\<lambda>i. p_state (procs s1 i) = PROC_STATE_NONE) 0 MAXPROC of
        None \<Rightarrow> Some (None, unlock_sched s1)
      | Some i \<Rightarrow> Some (Some i, unlock_sched (proc_upd i (p_state_update (\<lambda>_. PROC_STATE_CONSTRUCT)) s1))) }"

definition run_proc :: "nat \<Rightarrow> kst \<Rightarrow> kst" where
  "run_proc p = proc_upd p (p_state_update (\<lambda>_. PROC_STATE_NEW))"

definition findProcByPid :: "u16 \<Rightarrow> kst \<Rightarrow> nat option" where
  "findProcByPid pid s =
     scan (\<lambda>i. p_pid (procs s i) = pid \<and> p_state (procs s i) \<noteq> PROC_STATE_NONE) 0 MAXPROC"

definition findProcByParent :: "nat \<Rightarrow> kst \<Rightarrow> nat option" where
  "findProcByParent pid s =
     scan (\<lambda>i. p_parent (procs s i) = Some pid \<and> p_state (procs s i) \<noteq> PROC_STATE_NONE) 0 MAXPROC"

section \<open>Kernel tasks\<close>

definition task_upd :: "nat \<Rightarrow> KernelTask \<Rightarrow> kst \<Rightarrow> kst" where
  "task_upd i t s = s\<lparr>kernelTaskQueue := (kernelTaskQueue s)(i := t)\<rparr>"

definition addKernelTask :: "u16 \<Rightarrow> u16 \<Rightarrow> u16 \<Rightarrow> kst \<Rightarrow> kst" where
  "addKernelTask task callerPid args s =
     (case scan (\<lambda>i. kt_type (kernelTaskQueue s i) = KERNEL_TASK_NONE) 0 MAX_QUEUE_SIZE of
        None \<Rightarrow> s
      | Some i \<Rightarrow> task_upd i \<lparr>kt_type = task, kt_callerPid = callerPid, kt_args = args\<rparr> s)"

section \<open>Signals and events\<close>

definition getSignalFromMask :: "u16 \<Rightarrow> nat" where
  "getSignalFromMask m = (case scan (\<lambda>i. bit m i) 0 SIGNUM of Some i \<Rightarrow> i | None \<Rightarrow> SIGNUM)"

definition sendSig :: "u16 \<Rightarrow> u16 \<Rightarrow> kst \<Rightarrow> kst option" where
  "sendSig pid sig s = do {
     s1 \<leftarrow> lock_sched s;
     let s2 = (case findProcByPid pid s1 of
        Some pt \<Rightarrow> proc_upd pt (p_signalsPending_update (\<lambda>m. m OR push_bit (unat sig) 1)) s1
      | None \<Rightarrow> s1);
     Some (unlock_sched s2) }"

definition sleep :: "nat \<Rightarrow> u16 \<Rightarrow> kst \<Rightarrow> kst option" where
  "sleep p event s = do {
     s1 \<leftarrow> lock_sched s;
     Some (unlock_sched (proc_upd p (\<lambda>q. q\<lparr>p_state := PROC_STATE_SLEEP, p_waitingOn := event\<rparr>) s1)) }"

definition wakeup :: "u16 \<Rightarrow> kst \<Rightarrow> kst option" where
  "wakeup event s = do {
     s1 \<leftarrow> lock_sched s;
     Some (unlock_sched (fort 0 MAXPROC (\<lambda>i t.
       if p_state (procs t i) = PROC_STATE_SLEEP \<and> p_waitingOn (procs t i) = event
       then proc_upd i (\<lambda>q. q\<lparr>p_state := PROC_STATE_RUN, p_waitingOn := 0\<rparr>) t else t) s1)) }"

section \<open>Switching tasks\<close>

datatype istack = Sched_stack | System_interrupt_stack | Decoder_stack

definition stack_get :: "istack \<Rightarrow> kst \<Rightarrow> buf" where
  "stack_get k s = (case k of Sched_stack \<Rightarrow> sched_stack s
     | System_interrupt_stack \<Rightarrow> system_interrupt_stack s | Decoder_stack \<Rightarrow> decoder_stack s)"

definition stack_set :: "istack \<Rightarrow> buf \<Rightarrow> kst \<Rightarrow> kst" where
  "stack_set k b s = (case k of Sched_stack \<Rightarrow> s\<lparr>sched_stack := b\<rparr>
     | System_interrupt_stack \<Rightarrow> s\<lparr>system_interrupt_stack := b\<rparr> | Decoder_stack \<Rightarrow> s\<lparr>decoder_stack := b\<rparr>)"

definition sched_start :: "kst \<Rightarrow> kst" where
  "sched_start s = s\<lparr>ticksToSwitch := TIMESLICE s\<rparr>"

definition resched_now :: "kst \<Rightarrow> kst" where
  "resched_now s = s\<lparr>ticksToSwitch := 1\<rparr>"

definition runnable :: "proc \<Rightarrow> bool" where
  "runnable p \<longleftrightarrow> p_state p = PROC_STATE_RUN \<or> p_state p = PROC_STATE_NEW \<or>
     (p_state p = PROC_STATE_SLEEP \<or> p_state p = PROC_STATE_BLOCKED) \<and> p_signalsPending p \<noteq> 0"

text \<open>The scan for the next task, wrapping behind entry \<^verbatim>\<open>MAXPROC\<close>.\<close>

partial_function (option) next_task :: "kst \<Rightarrow> nat \<Rightarrow> nat option" where
  "next_task s n =
     (if n \<noteq> currentTask s then
        let n' = (if n > MAXPROC then 0 else n) in
        if runnable (procs s n') then Some n' else next_task s (Suc n')
      else Some n)"

partial_function (option) select_task :: "nat \<Rightarrow> kst \<Rightarrow> (nat \<times> kst) option" where
  "select_task start s = do {
     n \<leftarrow> next_task s start;
     require (n \<le> MAXPROC);
     let p = procs s n;
     require (p_state p \<noteq> PROC_STATE_KWORKER);
     if p_signalsPending p \<noteq> 0 \<and> (getSignalFromMask (p_signalsPending p) = SIGKILL \<or>
         getSignalFromMask (p_signalsPending p) = SIGPIPE)
     then select_task (Suc n) (proc_upd n (p_state_update (\<lambda>_. PROC_STATE_KWORKER))
            (addKernelTask KERNEL_TASK_EXIT (p_pid p) 0 s))
     else Some (n, s) }"

definition save_frame :: "istack \<Rightarrow> kst \<Rightarrow> kst" where
  "save_frame t_stack s =
     (let c = currentTask s; st = p_state (procs s c) in
      if c < MAXPROC \<and> (st = PROC_STATE_RUN \<or> st = PROC_STATE_SLEEP \<or> st = PROC_STATE_KWORKER \<or>
           st = PROC_STATE_BLOCKED)
      then proc_upd c (p_intFrame_update (\<lambda>_. frame_at (stack_get t_stack s))) s else s)"

definition switch_to :: "istack \<Rightarrow> nat \<Rightarrow> kst \<Rightarrow> kst" where
  "switch_to t_stack n s =
     (let s1 = (if p_state (procs s n) = PROC_STATE_NEW
                then proc_upd n (p_state_update (\<lambda>_. PROC_STATE_RUN)) s else s);
          s2 = stack_set t_stack (blit (stack_get t_stack s1) 0 (frame_words (p_intFrame (procs s1 n)))) s1
      in s2\<lparr>currentTask := n, cProc := Some n, ticksToSwitch := TIMESLICE s2\<rparr>)"

definition resched :: "istack \<Rightarrow> kst \<Rightarrow> kst option" where
  "resched t_stack s = do {
     let s1 = save_frame t_stack s;
     (n, s2) \<leftarrow> select_task (Suc (currentTask s1)) s1;
     Some (switch_to t_stack n s2) }"

definition timer_interrupt :: "kst \<Rightarrow> kst option" where
  "timer_interrupt s =
     (let s1 = s\<lparr>ticks := ticks s + 1\<rparr> in
      if ticksToSwitch s1 \<noteq> 0 then
        let s2 = s1\<lparr>ticksToSwitch := ticksToSwitch s1 - 1\<rparr> in
        if ticksToSwitch s2 = 0 then resched Sched_stack s2 else Some s2
      else Some s1)"

section \<open>The process and scheduler device files\<close>

definition proc_row :: "proc \<Rightarrow> u16 list" where
  "proc_row p = [p_pid p, p_state p] @ slice (p_cmd p) 0 31 @ [0]"

definition proc_file_read :: "u16 \<Rightarrow> nat \<Rightarrow> kst \<Rightarrow> u16 list \<times> kst" where
  "proc_file_read minor n s =
     (concat (map (\<lambda>i. if p_state (procs s i) \<noteq> PROC_STATE_NONE then proc_row (procs s i) else [])
        [0 ..< MAXPROC]) @ [0], s)"

definition proc_file_write :: "u16 \<Rightarrow> u16 list \<Rightarrow> nat \<Rightarrow> kst \<Rightarrow> nat \<times> kst" where
  "proc_file_write minor buf n s = (0, s)"

definition sched_file_read :: "u16 \<Rightarrow> nat \<Rightarrow> kst \<Rightarrow> u16 list \<times> kst" where
  "sched_file_read minor n s = ([], s)"

definition sched_file_write :: "u16 \<Rightarrow> u16 list \<Rightarrow> nat \<Rightarrow> kst \<Rightarrow> (nat \<times> kst) option" where
  "sched_file_write minor buf n s = (case buf of [] \<Rightarrow> None | v # _ \<Rightarrow> Some (n, s\<lparr>TIMESLICE := v\<rparr>))"

end
