(* ===== verification/Waitq.thy ===== *)
theory Waitq
  imports Sched
begin

text \<open>
  The wait queue of \<^verbatim>\<open>waitq.c\<close>: processes blocked on a file, and the pending notifications, a
  circular buffer that interrupt handlers fill and the kernel worker drains.
\<close>

abbreviation WAITQ_LENGTH :: nat where "WAITQ_LENGTH \<equiv> 15"
abbreviation WAITQ_PENDING_LENGTH :: nat where "WAITQ_PENDING_LENGTH \<equiv> 200"
abbreviation WAITQ_TYPE_NONE :: u16 where "WAITQ_TYPE_NONE \<equiv> 0"
abbreviation WAITQ_TYPE_FILE :: u16 where "WAITQ_TYPE_FILE \<equiv> 1"

definition wq_upd :: "nat \<Rightarrow> (waitqEntry \<Rightarrow> waitqEntry) \<Rightarrow> kst \<Rightarrow> kst" where
  "wq_upd i f s = s\<lparr>waitq := (waitq s)(i := f (waitq s i))\<rparr>"

definition waitq_init :: "kst \<Rightarrow> kst" where
  "waitq_init s = (fort 0 WAITQ_LENGTH (\<lambda>i. wq_upd i (wq_type_update (\<lambda>_. WAITQ_TYPE_NONE))) s)
     \<lparr>waitqPending := cb_create_static WAITQ_PENDING_LENGTH (cb_data (waitqPending s))\<rparr>"

text \<open>
  \<open>res\<close> is \<^verbatim>\<open>*res\<close>: \<open>None\<close> the null pointer, \<open>Some 15\<close> the end of the table.  The result is the new
  \<^verbatim>\<open>*res\<close> and whether it points to a waiter.
\<close>

definition waitqGetNextWaiter :: "u16 \<Rightarrow> nat option \<Rightarrow> kst \<Rightarrow> bool \<times> nat" where
  "waitqGetNextWaiter what res s =
     (let i = (case res of None \<Rightarrow> 0 | Some i \<Rightarrow> i) in
      case scan (\<lambda>k. wq_type (waitq s k) \<noteq> WAITQ_TYPE_NONE \<and> wq_trigger (waitq s k) = what)
             i (WAITQ_LENGTH - i) of
        Some k \<Rightarrow> (True, k)
      | None \<Rightarrow> (False, WAITQ_LENGTH))"

definition waitqAddEntry :: "u16 \<Rightarrow> u16 \<Rightarrow> u16 \<Rightarrow> u16 \<Rightarrow> nat \<Rightarrow> buf \<Rightarrow> kst \<Rightarrow> kst option" where
  "waitqAddEntry who what type scallStruct fd params s = do {
     i \<leftarrow> scan (\<lambda>i. wq_type (waitq s i) = WAITQ_TYPE_NONE) 0 WAITQ_LENGTH;
     Some (wq_upd i (\<lambda>e.
       let e1 = e\<lparr>wq_pid := who, wq_trigger := what, wq_type := type, wq_scallStruct := scallStruct\<rparr>
       in if type = WAITQ_TYPE_FILE then e1\<lparr>wq_fd := fd,
            wq_params := (wq_params e1)(1 := params 1, 2 := params 2, 3 := params 3)\<rparr> else e1) s) }"

definition waitqNotify :: "u16 \<Rightarrow> kst \<Rightarrow> kst option" where
  "waitqNotify what s = do {
     require (cb_size (waitqPending s) < cb_capacity (waitqPending s));
     Some (s\<lparr>waitqPending := cb_push (waitqPending s) what\<rparr>) }"

end
