(* ===== verification/Tty.thy ===== *)
theory Tty
  imports Waitq
begin

text \<open>
  The terminals of \<^verbatim>\<open>tty.c\<close>: the receive interrupts move words from the serial line into a circular
  buffer and notify the waiters of the terminal's node; a read of an empty buffer asks the caller
  to block.
\<close>

abbreviation UART_BUFFER_SIZE :: nat where "UART_BUFFER_SIZE \<equiv> 500"

definition uart_init :: "kst \<Rightarrow> kst" where
  "uart_init s = s\<lparr>uart_buffer := (uart_buffer s)
     (0 := cb_create_static UART_BUFFER_SIZE (cb_data (uart_buffer s 0)),
      1 := cb_create_static UART_BUFFER_SIZE (cb_data (uart_buffer s 1)))\<rparr>"

text \<open>The receive loop of the two handlers: \<open>line\<close> is the serial line, \<open>got\<close> the flag.\<close>

partial_function (option) uart_receive :: "nat \<Rightarrow> nat \<Rightarrow> nat \<Rightarrow> bool \<Rightarrow> kst \<Rightarrow> (bool \<times> kst) option" where
  "uart_receive sr dr line got s =
     (let (st, s1) = inb sr s in
      if st \<noteq> 0 then
        let (c, s2) = inb dr s1 in
        uart_receive sr dr line True
          (s2\<lparr>uart_buffer := (uart_buffer s2)(line := cb_push (uart_buffer s2 line) c)\<rparr>)
      else Some (got, s1))"

definition uart_interrupt :: "kst \<Rightarrow> kst option" where
  "uart_interrupt s = do {
     (got, s1) \<leftarrow> uart_receive UART_SR UART 0 False s;
     if got then do { f \<leftarrow> ttyOpenedAs s1 0; waitqNotify (fn_idx (f_node (file_at f s1))) s1 }
     else Some s1 }"

definition uart2_interrupt :: "kst \<Rightarrow> kst option" where
  "uart2_interrupt s = do {
     (got, s1) \<leftarrow> uart_receive UART2_SR UART2 1 False s;
     if got then do { f \<leftarrow> ttyOpenedAs s1 1; waitqNotify (fn_idx (f_node (file_at f s1))) s1 }
     else Some s1 }"

definition tty_open :: "u16 \<Rightarrow> nat \<Rightarrow> kst \<Rightarrow> kst option" where
  "tty_open minor fd s = do {
     require (unat minor < 2);
     Some (s\<lparr>ttyOpenedAs := (ttyOpenedAs s)(unat minor := Some fd)\<rparr>) }"

definition tty_close :: "u16 \<Rightarrow> nat \<Rightarrow> kst \<Rightarrow> kst" where
  "tty_close minor fd s = s"

text \<open>Taking up to \<open>n\<close> words off a buffer, the loop of \<^verbatim>\<open>tty_read\<close> and \<^verbatim>\<open>piper_read\<close>.\<close>

primrec cb_take :: "nat \<Rightarrow> circular_buffer \<Rightarrow> u16 list \<times> circular_buffer" where
  "cb_take 0 cb = ([], cb)"
| "cb_take (Suc n) cb =
     (if cb_size cb = 0 then ([], cb)
      else let (c, cb1) = cb_pop cb; (cs, cb2) = cb_take n cb1 in (c # cs, cb2))"

definition tty_read :: "u16 \<Rightarrow> nat \<Rightarrow> kst \<Rightarrow> (u16 list \<times> kst) option" where
  "tty_read minor n s = do {
     require (unat minor < 2);
     let (ws, cb) = cb_take n (uart_buffer s (unat minor));
     let s1 = s\<lparr>uart_buffer := (uart_buffer s)(unat minor := cb)\<rparr>;
     Some (ws, if ws \<noteq> [] then s1 else s1\<lparr>blockRequest := 1\<rparr>) }"

fun tty_put :: "bool \<Rightarrow> u16 list \<Rightarrow> kst \<Rightarrow> kst" where
  "tty_put second [] s = s"
| "tty_put second (c # cs) s = tty_put second cs (if second then outb UART2 c s else outb UART c s)"

definition tty_write :: "u16 \<Rightarrow> u16 list \<Rightarrow> nat \<Rightarrow> kst \<Rightarrow> (nat \<times> kst) option" where
  "tty_write minor buf n s = do {
     require (n \<le> length buf);
     Some (n, tty_put (minor \<noteq> 0) (take n buf) s) }"

definition tty_ioctl :: "u16 \<Rightarrow> u16 \<Rightarrow> kst \<Rightarrow> u16 \<times> nat \<times> kst" where
  "tty_ioctl minor request s = (0, 0, s)"

end
