(* ===== verification/Piper.thy ===== *)
theory Piper
  imports Tty
begin

text \<open>
  The pipes of \<^verbatim>\<open>piper.c\<close>: three circular buffers with open and closed ends.  The word
  \<^verbatim>\<open>blockRequest\<close> tells the caller to block (1) or to raise \<^verbatim>\<open>SIGPIPE\<close> (2).
\<close>

abbreviation MAX_PIPES :: nat where "MAX_PIPES \<equiv> 3"
abbreviation PIPE_MAX_LENGTH :: nat where "PIPE_MAX_LENGTH \<equiv> 256"
abbreviation O_RDONLY :: u16 where "O_RDONLY \<equiv> 0"
abbreviation O_WRONLY :: u16 where "O_WRONLY \<equiv> 1"

text \<open>\<^verbatim>\<open>piper_init\<close> after its \<^verbatim>\<open>k_mkdir\<close>.\<close>

definition piper_init_pipes :: "kst \<Rightarrow> kst" where
  "piper_init_pipes s = fort 0 MAX_PIPES (\<lambda>i. pipe_upd i (\<lambda>p. p\<lparr>
     pf_cb := cb_create_static PIPE_MAX_LENGTH (cb_data (pf_cb p)),
     pf_used := 0, pf_readClosed := 0, pf_writeClosed := 0\<rparr>)) s"

definition piper_getFreePipe :: "kst \<Rightarrow> nat option" where
  "piper_getFreePipe s = scan (\<lambda>i. pf_used (pipes s i) = 0) 0 MAX_PIPES"

definition notify_pipe :: "nat \<Rightarrow> kst \<Rightarrow> kst option" where
  "notify_pipe p s = do {
     f \<leftarrow> pf_openedAs (pipes s p);
     waitqNotify (fn_idx (f_node (file_at f s))) s }"

definition piper_read :: "u16 \<Rightarrow> nat \<Rightarrow> kst \<Rightarrow> (u16 list \<times> kst) option" where
  "piper_read minor n s = do {
     let p = unat minor;
     require (p < MAX_PIPES);
     s1 \<leftarrow> (if cb_size (pf_cb (pipes s p)) = cb_capacity (pf_cb (pipes s p))
            then notify_pipe p s else Some s);
     let sz_read = (if n > cb_size (pf_cb (pipes s1 p)) then cb_size (pf_cb (pipes s1 p)) else n);
     let (ws, cb) = cb_take sz_read (pf_cb (pipes s1 p));
     let s2 = pipe_upd p (pf_cb_update (\<lambda>_. cb)) s1;
     Some (ws, if sz_read = 0 \<and> pf_writeClosed (pipes s2 p) = 0 then s2\<lparr>blockRequest := 1\<rparr> else s2) }"

definition piper_write :: "u16 \<Rightarrow> u16 list \<Rightarrow> nat \<Rightarrow> kst \<Rightarrow> (nat \<times> kst) option" where
  "piper_write minor buf n s = do {
     let p = unat minor;
     require (p < MAX_PIPES);
     if pf_readClosed (pipes s p) \<noteq> 0 then Some (0, s\<lparr>blockRequest := 2\<rparr>)
     else do {
       s1 \<leftarrow> (if cb_size (pf_cb (pipes s p)) = 0 then notify_pipe p s else Some s);
       let cb = pf_cb (pipes s1 p);
       let free = cb_capacity cb - cb_size cb;
       let sz_write = (if n > free then free else n);
       require (sz_write \<le> length buf);
       let s2 = pipe_upd p (pf_cb_update (\<lambda>cb. foldl cb_push cb (take sz_write buf))) s1;
       Some (sz_write, if sz_write = 0 then s2\<lparr>blockRequest := 1\<rparr> else s2) } }"

definition piper_close :: "u16 \<Rightarrow> nat \<Rightarrow> kst \<Rightarrow> kst option" where
  "piper_close minor fd s = do {
     let p = unat minor;
     require (p < MAX_PIPES);
     let mode = f_mode (file_at fd s);
     let s1 = (if mode = O_RDONLY then pipe_upd p (pf_readClosed_update (\<lambda>_. 1)) s
               else if mode = O_WRONLY then pipe_upd p (pf_writeClosed_update (\<lambda>_. 1)) s else s);
     Some (if pf_readClosed (pipes s1 p) \<noteq> 0 \<and> pf_writeClosed (pipes s1 p) \<noteq> 0
       then pipe_upd p (\<lambda>q. q\<lparr>pf_used := 0, pf_cb := cb_clear (pf_cb q), pf_readClosed := 0,
              pf_writeClosed := 0\<rparr>) s1 else s1) }"

definition piper_open :: "u16 \<Rightarrow> nat \<Rightarrow> kst \<Rightarrow> kst option" where
  "piper_open minor fd s = do {
     let p = unat minor;
     require (p < MAX_PIPES);
     Some (pipe_upd p (\<lambda>q. q\<lparr>pf_used := 1, pf_openedAs := Some fd\<rparr>) s) }"

end
