(* ===== verification/Mm.thy ===== *)
theory Mm
  imports KState
begin

text \<open>
  Memory management, \<^verbatim>\<open>mm.c\<close>: the page tables behind the MMU ports, page reference counts and
  selectors, copy on write, and access to user memory through the kernel's page window.  A page
  table entry has the frame number in its low 13 bits and the flags in the high three.  The kernel
  runs under selector 0, so the address \<^verbatim>\<open>(window << 12) | offset\<close> lies in the frame that entry
  \<open>window\<close> of selector 0's data table names.
\<close>

abbreviation pageMapSize :: nat where "pageMapSize \<equiv> 4096"
abbreviation mmuSelectorNum :: nat where "mmuSelectorNum \<equiv> 64"
abbreviation FREE_PAGE_MARK :: u16 where "FREE_PAGE_MARK \<equiv> 0x1fff"
abbreviation MMU_TABLE_FLAGS_MASK :: u16 where "MMU_TABLE_FLAGS_MASK \<equiv> 0xe000"
abbreviation MMU_TABLE_NO_FLAGS_MASK :: u16 where "MMU_TABLE_NO_FLAGS_MASK \<equiv> 0x1fff"
abbreviation PAGE_FLAG_READ_ONLY :: u16 where "PAGE_FLAG_READ_ONLY \<equiv> 1"

section \<open>Page table entries\<close>

definition mmu_port :: "u16 \<Rightarrow> u16 \<Rightarrow> u16 \<Rightarrow> nat" where
  "mmu_port process pageno s_code =
     unat (push_bit 8 process OR push_bit 12 s_code OR (pageno AND 0xff) OR push_bit 14 1)"

definition mmu_write_table :: "u16 \<Rightarrow> u16 \<Rightarrow> u16 \<Rightarrow> u16 \<Rightarrow> kst \<Rightarrow> kst" where
  "mmu_write_table process pageno s_code entry s = outb (mmu_port process pageno s_code) entry s"

definition mmu_write_table_flags :: "u16 \<Rightarrow> u16 \<Rightarrow> u16 \<Rightarrow> u16 \<Rightarrow> kst \<Rightarrow> kst" where
  "mmu_write_table_flags process pageno s_code flags s =
     (let (entry, s1) = inb (mmu_port process pageno s_code) s
      in outb (mmu_port process pageno s_code) (entry AND MMU_TABLE_NO_FLAGS_MASK OR push_bit 13 flags) s1)"

definition mmu_read_table :: "u16 \<Rightarrow> u16 \<Rightarrow> u16 \<Rightarrow> kst \<Rightarrow> u16" where
  "mmu_read_table process pageno s_code s =
     fst (inb (mmu_port process pageno s_code) s) AND MMU_TABLE_NO_FLAGS_MASK"

definition mmu_read_table_flags :: "u16 \<Rightarrow> u16 \<Rightarrow> u16 \<Rightarrow> kst \<Rightarrow> u16" where
  "mmu_read_table_flags process pageno s_code s =
     drop_bit 13 (fst (inb (mmu_port process pageno s_code) s) AND MMU_TABLE_FLAGS_MASK)"

section \<open>Pages and selectors\<close>

definition page_upd :: "u16 \<Rightarrow> (u16 \<Rightarrow> u16) \<Rightarrow> kst \<Rightarrow> kst option" where
  "page_upd pageno f s = do {
     require (unat pageno < pageMapSize);
     Some (s\<lparr>pageMap := (pageMap s)(unat pageno := f (pageMap s (unat pageno)))\<rparr>) }"

definition mmu_mark_page :: "u16 \<Rightarrow> u16 \<Rightarrow> kst \<Rightarrow> kst option" where
  "mmu_mark_page pageno flag = page_upd pageno (\<lambda>_. flag)"

definition mmu_inc_page_refcnt :: "u16 \<Rightarrow> kst \<Rightarrow> kst option" where
  "mmu_inc_page_refcnt pageno = page_upd pageno (\<lambda>c. c + 1)"

definition mmu_dec_page_refcnt :: "u16 \<Rightarrow> kst \<Rightarrow> kst option" where
  "mmu_dec_page_refcnt pageno = page_upd pageno (\<lambda>c. c - 1)"

definition mmu_get_page_refcnt :: "u16 \<Rightarrow> kst \<Rightarrow> u16 option" where
  "mmu_get_page_refcnt pageno s = do {
     require (unat pageno < pageMapSize);
     Some (pageMap s (unat pageno)) }"

text \<open>The searches stop at the end of their tables; running on behind them is \<open>None\<close>.\<close>

definition mmu_get_free_page :: "kst \<Rightarrow> u16 option" where
  "mmu_get_free_page s = map_option of_nat (scan (\<lambda>i. pageMap s i = 0) 0 pageMapSize)"

definition mmu_mark_selector :: "u16 \<Rightarrow> u16 \<Rightarrow> kst \<Rightarrow> kst option" where
  "mmu_mark_selector selector flag s = do {
     require (unat selector < mmuSelectorNum);
     Some (s\<lparr>selectorMap := (selectorMap s)(unat selector := flag)\<rparr>) }"

definition mmu_get_free_selector :: "kst \<Rightarrow> u16 option" where
  "mmu_get_free_selector s = map_option of_nat (scan (\<lambda>i. selectorMap s i = 0) 0 mmuSelectorNum)"

section \<open>Kernel access to frames\<close>

definition frame_of :: "u16 \<Rightarrow> kst \<Rightarrow> nat" where
  "frame_of window s = unat (mmu_read_table 0 window 0 s)"

definition win_get :: "u16 \<Rightarrow> nat \<Rightarrow> kst \<Rightarrow> u16" where
  "win_get window off s = hw_ram s (frame_of window s) off"

definition ram_upd :: "nat \<Rightarrow> (buf \<Rightarrow> buf) \<Rightarrow> kst \<Rightarrow> kst" where
  "ram_upd fr f s = s\<lparr>hw_ram := (hw_ram s)(fr := f (hw_ram s fr))\<rparr>"

definition win_put :: "u16 \<Rightarrow> nat \<Rightarrow> u16 \<Rightarrow> kst \<Rightarrow> kst" where
  "win_put window off v s = ram_upd (frame_of window s) (\<lambda>b. b(off := v)) s"

definition mmu_copy_pages :: "u16 \<Rightarrow> u16 \<Rightarrow> u16 \<Rightarrow> u16 \<Rightarrow> u16 \<Rightarrow> kst \<Rightarrow> kst" where
  "mmu_copy_pages p_src p_dst processToMap whereToMapSrc whereToMapDst s =
     (let s1 = mmu_write_table processToMap whereToMapSrc 0 p_src s;
          s2 = mmu_write_table processToMap whereToMapDst 0 p_dst s1
      in ram_upd (frame_of whereToMapDst s2)
           (\<lambda>b. blit b 0 (slice (hw_ram s2 (frame_of whereToMapSrc s2)) 0 4096)) s2)"

definition check_and_fix_page :: "nat \<Rightarrow> u16 \<Rightarrow> u16 \<Rightarrow> bool \<Rightarrow> kst \<Rightarrow> (bool \<times> kst) option" where
  "check_and_fix_page p pageno is_code wr s =
     (let sel = p_mmuSelector (procs s p); flags = mmu_read_table_flags sel pageno is_code s in
      if flags \<noteq> 0 \<and> flags AND PAGE_FLAG_READ_ONLY \<noteq> 0 \<and> wr then do {
        let src_page = mmu_read_table sel pageno is_code s;
        refcnt \<leftarrow> mmu_get_page_refcnt src_page s;
        if refcnt > 1 then do {
          s1 \<leftarrow> mmu_dec_page_refcnt src_page s;
          target_page \<leftarrow> mmu_get_free_page s1;
          s2 \<leftarrow> mmu_mark_page target_page 1 s1;
          let s3 = mmu_write_table sel pageno is_code target_page s2;
          let s4 = mmu_copy_pages src_page target_page 0 14 15 s3;
          Some (True, mmu_write_table_flags sel pageno is_code 0 s4) }
        else Some (False, mmu_write_table_flags sel pageno is_code 0 s) }
      else Some (False, s))"

definition mmu_interrupt :: "kst \<Rightarrow> kst option" where
  "mmu_interrupt s = do {
     let failedPage = mmu_stack s 7;
     let pageno = failedPage AND 0x7f;
     let is_code = (if failedPage AND 0x80 \<noteq> 0 then 1 else 0);
     p \<leftarrow> cProc s;
     (r, s1) \<leftarrow> check_and_fix_page p pageno is_code True s;
     Some s1 }"

definition mmu_init :: "kst \<Rightarrow> kst" where
  "mmu_init s =
     (let s1 = s\<lparr>pageMap := (\<lambda>i. if i < pageMapSize then 0 else pageMap s i),
                 selectorMap := (\<lambda>i. if i < mmuSelectorNum then 0 else selectorMap s i)\<rparr>;
          s2 = fort 0 mmuSelectorNum (\<lambda>i. fort 0 128 (\<lambda>j t.
                 mmu_write_table (of_nat i) (of_nat j) 1 FREE_PAGE_MARK
                   (mmu_write_table (of_nat i) (of_nat j) 0 FREE_PAGE_MARK t))) s1;
          s3 = fort 0 16 (\<lambda>i t.
                 let t2 = mmu_write_table 0 (of_nat i) 1 (of_nat i)
                            (mmu_write_table 0 (of_nat i) 0 (of_nat i) t)
                 in t2\<lparr>pageMap := (pageMap t2)(i := 1)\<rparr>) s2
      in s3\<lparr>selectorMap := (selectorMap s3)(0 := 1)\<rparr>)"

section \<open>User memory\<close>

definition getPage :: "nat \<Rightarrow> u16 \<Rightarrow> kst \<Rightarrow> u16" where
  "getPage p addr s = mmu_read_table (p_mmuSelector (procs s p)) (drop_bit 12 addr) 0 s"

definition page_offset :: "u16 \<Rightarrow> nat" where
  "page_offset addr = unat (addr AND 0xfff)"

text \<open>The page switch at the head of the loops: fix the page, then map it into the window.\<close>

definition map_user :: "nat \<Rightarrow> u16 \<Rightarrow> u16 \<Rightarrow> u16 \<Rightarrow> bool \<Rightarrow> kst \<Rightarrow> kst option" where
  "map_user p addr processToMap whereToMap wr s = do {
     (r, s1) \<leftarrow> check_and_fix_page p (drop_bit 12 addr) 0 wr s;
     Some (mmu_write_table processToMap whereToMap 0 (getPage p addr s1) s1) }"

definition ugetc :: "nat \<Rightarrow> u16 \<Rightarrow> u16 \<Rightarrow> u16 \<Rightarrow> kst \<Rightarrow> (u16 \<times> kst) option" where
  "ugetc p addr processToMap whereToMap s = do {
     s1 \<leftarrow> map_user p addr processToMap whereToMap False s;
     Some (win_get whereToMap (page_offset addr) s1, s1) }"

definition uputc :: "nat \<Rightarrow> u16 \<Rightarrow> u16 \<Rightarrow> u16 \<Rightarrow> u16 \<Rightarrow> kst \<Rightarrow> kst option" where
  "uputc p addr processToMap whereToMap val s = do {
     s1 \<leftarrow> map_user p addr processToMap whereToMap True s;
     Some (win_put whereToMap (page_offset addr) val s1) }"

primrec ugets_loop :: "nat \<Rightarrow> u16 \<Rightarrow> u16 \<Rightarrow> bool \<Rightarrow> nat \<Rightarrow> u16 \<Rightarrow> u16 \<Rightarrow> kst \<Rightarrow> (u16 list \<times> kst) option" where
  "ugets_loop p processToMap whereToMap nullTerminated 0 addr pageno_u s = Some ([], s)"
| "ugets_loop p processToMap whereToMap nullTerminated (Suc n) addr pageno_u s = do {
     s1 \<leftarrow> (if drop_bit 12 addr \<noteq> pageno_u then map_user p addr processToMap whereToMap False s else Some s);
     let c = win_get whereToMap (page_offset addr) s1;
     if nullTerminated \<and> c = 0 then Some ([c], s1)
     else do {
       (cs, s2) \<leftarrow> ugets_loop p processToMap whereToMap nullTerminated n (addr + 1) (drop_bit 12 addr) s1;
       Some (c # cs, s2) } }"

definition ugets :: "nat \<Rightarrow> u16 \<Rightarrow> u16 \<Rightarrow> u16 \<Rightarrow> nat \<Rightarrow> bool \<Rightarrow> kst \<Rightarrow> (u16 list \<times> kst) option" where
  "ugets p addr processToMap whereToMap len nullTerminated s =
     ugets_loop p processToMap whereToMap nullTerminated len addr 0xffff s"

primrec uputs_loop :: "nat \<Rightarrow> u16 \<Rightarrow> u16 \<Rightarrow> bool \<Rightarrow> nat \<Rightarrow> u16 \<Rightarrow> u16 \<Rightarrow> u16 list \<Rightarrow> kst \<Rightarrow> (nat \<times> kst) option" where
  "uputs_loop p processToMap whereToMap nullTerminated 0 addr pageno_u ws s = Some (0, s)"
| "uputs_loop p processToMap whereToMap nullTerminated (Suc n) addr pageno_u ws s = do {
     s1 \<leftarrow> (if drop_bit 12 addr \<noteq> pageno_u then map_user p addr processToMap whereToMap True s else Some s);
     (case ws of [] \<Rightarrow> None
      | c # cs \<Rightarrow>
          let s2 = win_put whereToMap (page_offset addr) c s1 in
          if nullTerminated \<and> c = 0 then Some (1, s2)
          else do {
            (k, s3) \<leftarrow> uputs_loop p processToMap whereToMap nullTerminated n (addr + 1) (drop_bit 12 addr) cs s2;
            Some (Suc k, s3) }) }"

definition uputs :: "nat \<Rightarrow> u16 \<Rightarrow> u16 \<Rightarrow> u16 \<Rightarrow> nat \<Rightarrow> bool \<Rightarrow> u16 list \<Rightarrow> kst \<Rightarrow> (nat \<times> kst) option" where
  "uputs p addr processToMap whereToMap len nullTerminated ws s =
     uputs_loop p processToMap whereToMap nullTerminated len addr 0xffff ws s"

primrec umemset_loop :: "nat \<Rightarrow> u16 \<Rightarrow> u16 \<Rightarrow> nat \<Rightarrow> u16 \<Rightarrow> u16 \<Rightarrow> u16 \<Rightarrow> kst \<Rightarrow> kst option" where
  "umemset_loop p processToMap whereToMap 0 addr pageno_u v s = Some s"
| "umemset_loop p processToMap whereToMap (Suc n) addr pageno_u v s = do {
     s1 \<leftarrow> (if drop_bit 12 addr \<noteq> pageno_u then map_user p addr processToMap whereToMap True s else Some s);
     umemset_loop p processToMap whereToMap n (addr + 1) (drop_bit 12 addr) v
       (win_put whereToMap (page_offset addr) v s1) }"

definition umemset :: "nat \<Rightarrow> u16 \<Rightarrow> u16 \<Rightarrow> u16 \<Rightarrow> nat \<Rightarrow> u16 \<Rightarrow> kst \<Rightarrow> (nat \<times> kst) option" where
  "umemset p addr processToMap whereToMap len v s = do {
     s1 \<leftarrow> umemset_loop p processToMap whereToMap len addr 0xffff v s;
     Some (len, s1) }"

section \<open>Releasing the pages of a process\<close>

text \<open>One table: entries from \<open>pageno\<close> up to the first free one.\<close>

primrec free_pages :: "u16 \<Rightarrow> u16 \<Rightarrow> nat \<Rightarrow> nat \<Rightarrow> kst \<Rightarrow> kst option" where
  "free_pages sel s_code pageno 0 s = Some s"
| "free_pages sel s_code pageno (Suc k) s =
     (let src_page = mmu_read_table sel (of_nat pageno) s_code s in
      if src_page = FREE_PAGE_MARK then Some s
      else do {
        s1 \<leftarrow> mmu_dec_page_refcnt src_page s;
        free_pages sel s_code (Suc pageno) k
          (mmu_write_table sel (of_nat pageno) s_code FREE_PAGE_MARK s1) })"

definition freeProcessPages :: "nat \<Rightarrow> kst \<Rightarrow> kst option" where
  "freeProcessPages p s = do {
     let sel = p_mmuSelector (procs s p);
     s1 \<leftarrow> free_pages sel 1 0 128 s;
     free_pages sel 0 0 16 s1 }"

section \<open>The null and zero devices\<close>

definition null_file_read :: "u16 \<Rightarrow> nat \<Rightarrow> kst \<Rightarrow> u16 list \<times> kst" where
  "null_file_read minor n s = ([], s)"

definition null_file_write :: "u16 \<Rightarrow> u16 list \<Rightarrow> nat \<Rightarrow> kst \<Rightarrow> nat \<times> kst" where
  "null_file_write minor buf n s = (n, s)"

definition zero_file_read :: "u16 \<Rightarrow> nat \<Rightarrow> kst \<Rightarrow> u16 list \<times> kst" where
  "zero_file_read minor n s = (replicate n 0, s)"

definition zero_file_write :: "u16 \<Rightarrow> u16 list \<Rightarrow> nat \<Rightarrow> kst \<Rightarrow> nat \<times> kst" where
  "zero_file_write minor buf n s = (n, s)"

end
