(* ===== verification/Kstdio.thy ===== *)
theory Kstdio
  imports Hw KString
begin

text \<open>
  The kernel's formatted output, \<^verbatim>\<open>rl_os/kernel/kstdio.c\<close>.  \<^verbatim>\<open>prints\<close>, \<^verbatim>\<open>printi\<close> and \<^verbatim>\<open>print\<close> emit their
  characters one at a time through \<^verbatim>\<open>printchar\<close>, to the output port or to a string; the model
  returns the list of emitted characters (its length is the C functions' character count), and
  \<open>printf\<close> and \<open>sprintf\<close> send that list where \<^verbatim>\<open>printchar\<close> does.  The variable arguments are a list
  of words and string pointers; taking one too many, or one of the wrong kind, is \<open>None\<close>, as is
  scanning past the format's terminator.
\<close>

definition putc :: "u16 \<Rightarrow> 'z hw_scheme \<Rightarrow> 'z hw_scheme" where
  "putc c s = outb PORT_OUT c s"

fun puts :: "u16 list \<Rightarrow> 'z hw_scheme \<Rightarrow> 'z hw_scheme option" where
  "puts [] s = None"
| "puts (c # cs) s = (if c \<noteq> 0 then puts cs (putc c s) else Some s)"

definition putDigit :: "u16 \<Rightarrow> 'z hw_scheme \<Rightarrow> 'z hw_scheme" where
  "putDigit a s = (if sint a < 0 then putc (48 + - a) (putc 45 s) else putc (48 + a) s)"

definition putNum :: "u16 \<Rightarrow> 'z hw_scheme \<Rightarrow> 'z hw_scheme option" where
  "putNum a s = do { buffer \<leftarrow> itoa a; require (length buffer \<le> 20); puts buffer s }"

datatype pad = Pad (pad_right: bool) (pad_zero: bool)

definition prints :: "u16 list \<Rightarrow> int \<Rightarrow> pad \<Rightarrow> u16 list option" where
  "prints str width p = do {
     len \<leftarrow> strlen str;
     let width' = (if width > 0 then (if int len \<ge> width then 0 else width - int len) else width);
     let padchar = (if width > 0 \<and> pad_zero p then 48 else 32);
     let before = (if pad_right p then [] else replicate (nat width') padchar);
     let after = (if pad_right p then replicate (nat width') padchar else []);
     Some (before @ take len str @ after)
   }"

text \<open>The digit loop of \<^verbatim>\<open>printi\<close>: \<open>acc\<close> is the string built so far, growing downwards.\<close>

function printi_digits :: "nat \<Rightarrow> nat \<Rightarrow> u16 \<Rightarrow> u16 list \<Rightarrow> u16 list" where
  "printi_digits u b letbase acc =
     (if u = 0 \<or> b < 2 then acc
      else let t = of_nat (u mod b);
               t' = (if u mod b \<ge> 10 then t + (letbase - 48 - 10) else t)
           in printi_digits (u div b) b letbase ((t' + 48) # acc))"
  by pat_completeness auto
termination
  by (relation "measure (\<lambda>(u, b, l, a). u)") auto

declare printi_digits.simps [simp del]

definition printi :: "u16 \<Rightarrow> nat \<Rightarrow> bool \<Rightarrow> int \<Rightarrow> pad \<Rightarrow> u16 \<Rightarrow> u16 list option" where
  "printi i b sg width p letbase =
     (if i = 0 then prints [48, 0] width p
      else
        let neg = (sg \<and> b = 10 \<and> sint i < 0);
            u = (if neg then - i else i);
            s = printi_digits (unat u) b letbase [0]
        in if neg then
             if width \<noteq> 0 \<and> pad_zero p then map_option (Cons 45) (prints s (width - 1) p)
             else prints (45 # s) width p
           else prints s width p)"

datatype varg = Vint u16 | Vstr "u16 list" | Vnull

text \<open>The field specification between a percent sign and its conversion letter.\<close>

fun skip_zeros :: "u16 list \<Rightarrow> bool \<times> u16 list" where
  "skip_zeros (c # cs) = (if c = 48 then (True, snd (skip_zeros cs)) else (False, c # cs))"
| "skip_zeros [] = (False, [])"

fun read_width :: "int \<Rightarrow> u16 list \<Rightarrow> int \<times> u16 list" where
  "read_width w (c # cs) = (if isdigit c then read_width (w * 10 + (sint c - 48)) cs else (w, c # cs))"
| "read_width w [] = (w, [])"

lemma skip_zeros_length: "length (snd (skip_zeros cs)) \<le> length cs"
  by (induction cs rule: skip_zeros.induct) auto

lemma read_width_length: "length (snd (read_width w cs)) \<le> length cs"
  by (induction w cs rule: read_width.induct) auto

definition read_spec :: "u16 list \<Rightarrow> int \<times> pad \<times> u16 list" where
  "read_spec fmt =
     (let (right, f1) = (case fmt of c # cs \<Rightarrow> if c = 45 then (True, cs) else (False, fmt) | [] \<Rightarrow> (False, fmt));
          (zero, f2) = skip_zeros f1;
          (width, f3) = read_width 0 f2
      in (width, Pad right zero, f3))"

lemma read_spec_length: "length (snd (snd (read_spec fmt))) \<le> length fmt"
proof -
  have 1: "length (snd (case fmt of c # cs \<Rightarrow> if c = 45 then (True, cs) else (False, fmt) | [] \<Rightarrow> (False, fmt)))
      \<le> length fmt" by (auto split: list.split)
  show ?thesis
    unfolding read_spec_def
    using 1 skip_zeros_length read_width_length
    by (auto simp: Let_def split: prod.splits) (metis le_trans snd_conv)
qed

text \<open>One conversion: the characters it emits and the arguments left.\<close>

definition convert :: "u16 \<Rightarrow> int \<Rightarrow> pad \<Rightarrow> varg list \<Rightarrow> (u16 list \<times> varg list) option" where
  "convert c width p args =
     (if c = 115 then (case args of
          Vstr s # rest \<Rightarrow> do { o1 \<leftarrow> prints s width p; Some (o1, rest) }
        | Vnull # rest \<Rightarrow> do { o1 \<leftarrow> prints (cstr ''(null)'') width p; Some (o1, rest) }
        | _ \<Rightarrow> None)
      else if c = 100 then (case args of
          Vint i # rest \<Rightarrow> do { o1 \<leftarrow> printi i 10 True width p 97; Some (o1, rest) } | _ \<Rightarrow> None)
      else if c = 120 then (case args of
          Vint i # rest \<Rightarrow> do { o1 \<leftarrow> printi i 16 False width p 97; Some (o1, rest) } | _ \<Rightarrow> None)
      else if c = 88 then (case args of
          Vint i # rest \<Rightarrow> do { o1 \<leftarrow> printi i 16 False width p 65; Some (o1, rest) } | _ \<Rightarrow> None)
      else if c = 117 then (case args of
          Vint i # rest \<Rightarrow> do { o1 \<leftarrow> printi i 10 False width p 97; Some (o1, rest) } | _ \<Rightarrow> None)
      else if c = 99 then (case args of
          Vint i # rest \<Rightarrow> do { o1 \<leftarrow> prints [i, 0] width p; Some (o1, rest) } | _ \<Rightarrow> None)
      else Some ([], args))"

function print :: "u16 list \<Rightarrow> varg list \<Rightarrow> u16 list option" where
  "print [] args = None"
| "print (c # format) args =
     (if c = 0 then Some []
      else if c = 37 then
        (case format of
           [] \<Rightarrow> None
         | d # rest \<Rightarrow>
             if d = 0 then Some []
             else if d = 37 then map_option (Cons d) (print rest args)
             else case read_spec format of
                    (width, p, []) \<Rightarrow> None
                  | (width, p, e # rest') \<Rightarrow> do {
                      (o1, args') \<leftarrow> convert e width p args;
                      o2 \<leftarrow> print rest' args';
                      Some (o1 @ o2) })
      else map_option (Cons c) (print format args))"
  by pat_completeness auto
termination
proof (relation "measure (\<lambda>(f, a). length f)", goal_cases)
  case (3 c format args d rest x1 xa y e rest' x y')
  then show ?case using read_spec_length [of format] by (auto dest!: sym [of "(_, _)"])
qed auto

definition emit :: "u16 list \<Rightarrow> 'z hw_scheme \<Rightarrow> 'z hw_scheme" where
  "emit cs s = foldl (\<lambda>t c. putc c t) s cs"

definition printf :: "u16 list \<Rightarrow> varg list \<Rightarrow> 'z hw_scheme \<Rightarrow> (nat \<times> 'z hw_scheme) option" where
  "printf format args s = do { cs \<leftarrow> print format args; Some (length cs, emit cs s) }"

definition sprintf :: "buf \<Rightarrow> u16 list \<Rightarrow> varg list \<Rightarrow> (nat \<times> buf) option" where
  "sprintf out format args = do { cs \<leftarrow> print format args; Some (length cs, blit out 0 (cs @ [0])) }"

section \<open>What is printed\<close>

lemma prints_cstr:
  assumes "is_cstr s xs"
  shows "prints s width p = Some (let fill = replicate (nat width - length xs)
      (if pad_zero p then 48 else 32) in if pad_right p then xs @ fill else fill @ xs)"
proof -
  have "take (length xs) s = xs" using assms by (auto simp: is_cstr_def)
  moreover have "nat (width - int (length xs)) = nat width - length xs" by simp
  ultimately show ?thesis
    using strlen_cstr [OF assms] by (auto simp: prints_def Let_def)
qed

lemma prints_length:
  "is_cstr s xs \<Longrightarrow> \<exists>cs. prints s width p = Some cs \<and> length cs = max (length xs) (nat width)"
  by (auto simp: prints_cstr Let_def)

lemma printi_digits_decimal:
  "0 < u \<Longrightarrow> printi_digits u 10 l acc = rev (itoa_digits u) @ acc"
proof (induction u arbitrary: acc rule: less_induct)
  case (less u)
  show ?case
  proof (cases "u div 10 = 0")
    case True
    then have "u < 10" by simp
    from True have "itoa_digits u = [of_nat (u mod 10 + 48)]"
      by (subst itoa_digits.simps) simp
    moreover have "printi_digits 0 10 l xs = xs" for xs by (subst printi_digits.simps) simp
    ultimately show ?thesis
      using True \<open>u < 10\<close> less.prems by (subst printi_digits.simps) (simp add: Let_def)
  next
    case False
    then have "itoa_digits u = of_nat (u mod 10 + 48) # itoa_digits (u div 10)"
      by (subst itoa_digits.simps) simp
    moreover have "u div 10 < u" "(10 \<le> u mod 10) = False" using less.prems by (simp_all add: not_le)
    ultimately show ?thesis
      using less.IH [of "u div 10"] False less.prems
      by (subst printi_digits.simps) (simp add: Let_def)
  qed
qed

lemma plain_pad: "is_cstr s xs \<Longrightarrow> prints s 0 (Pad False False) = Some xs"
  by (simp add: prints_cstr)

text \<open>
  The kernel has two decimal converters, \<^verbatim>\<open>itoa\<close> and the \<^verbatim>\<open>%d\<close> conversion of \<^verbatim>\<open>print\<close>.  They
  agree on every \<^verbatim>\<open>int\<close> except the smallest one, where \<^verbatim>\<open>itoa\<close> does not return: \<^verbatim>\<open>%d\<close> prints exactly
  the characters that \<^verbatim>\<open>itoa\<close> stores before its terminator.
\<close>

theorem percent_d_is_itoa:
  assumes "i \<noteq> 0x8000"
  shows "\<exists>ds. print (cstr ''%d'') [Vint i] = Some ds \<and> itoa i = Some (ds @ [0])"
proof -
  have pr: "print (cstr ''%d'') [Vint i] = printi i 10 True 0 (Pad False False) 97"
    by (cases "printi i 10 True 0 (Pad False False) 97")
       (simp_all add: cstr_def read_spec_def convert_def isdigit_def)
  consider (zero) "i = 0" | (pos) "i \<noteq> 0" "0 \<le> sint i" | (neg) "sint i < 0" by fastforce
  then show ?thesis
  proof cases
    case zero
    have "itoa_digits 0 = [48]" by (subst itoa_digits.simps) simp
    then have "itoa 0 = Some [48, 0]" using itoa_nonneg [of 0] by simp
    with zero show ?thesis
      using plain_pad [of "[48, 0]" "[48]"] unfolding pr by (simp add: printi_def is_cstr_def)
  next
    case pos
    then have u: "0 < unat i" by (simp add: unat_gt_0)
    with pos show ?thesis
      using plain_pad [of "rev (itoa_digits (unat i)) @ [0]"] itoa_digits_nonzero [of "unat i"]
      by (simp only: pr) (simp add: printi_def Let_def printi_digits_decimal itoa_nonneg is_cstr_def)
  next
    case neg
    then have i0: "i \<noteq> 0" by auto
    have "unat i \<noteq> 32768"
    proof
      assume "unat i = 32768"
      then have "unat i = unat (0x8000 :: u16)" by simp
      then have "i = 0x8000" by (rule unsigned_word_eqI)
      with assms show False by simp
    qed
    then have "0 \<le> sint (- i)"
      using neg i0 by (auto simp: sint_u16 unat_minus_u16 split: if_splits)
    then have it: "itoa i = Some (45 # rev (itoa_digits (unat (- i))) @ [0])"
      using neg itoa_nonneg [of "- i"] by (subst itoa.simps) simp
    have "0 < unat (- i)" using i0 by (simp add: unat_gt_0)
    with it i0 neg show ?thesis
      using plain_pad [of "45 # rev (itoa_digits (unat (- i))) @ [0]"]
        itoa_digits_nonzero [of "unat (- i)"]
      by (simp only: pr) (simp add: printi_def Let_def printi_digits_decimal is_cstr_def)
  qed
qed

theorem percent_d_is_itoa_witness:
  "\<exists>ds. print (cstr ''%d'') [Vint (- 42)] = Some ds \<and> itoa (- 42) = Some (ds @ [0])"
  by (rule percent_d_is_itoa) simp

lemma emit_gpio: "hw_gpio (emit cs s) = hw_gpio s @ map (\<lambda>c. c AND 0xff) cs"
  by (induction cs arbitrary: s) (simp_all add: emit_def putc_def)

lemma print_literal:
  "0 \<notin> set xs \<Longrightarrow> 37 \<notin> set xs \<Longrightarrow> print (xs @ 0 # rest) args = Some xs"
  by (induction xs) auto

end
