(* ===== verification/Kfile.thy ===== *)
theory Kfile
  imports Rlfs Piper Mm Kstdio
begin

text \<open>
  Files by path and by \<^verbatim>\<open>FILE *\<close>: path lookup, open files, directories, device nodes, mounting
  (\<^verbatim>\<open>rlfs3.c\<close> from \<^verbatim>\<open>k_unlink\<close> on), the dispatch to device operations, and the loop device
  (\<^verbatim>\<open>loop.c\<close>).  Every function that may touch a disk takes the drivers' operations \<open>dops\<close>; \<open>kdops n\<close>
  ties them for a kernel in which loop devices are nested at most \<open>n\<close> deep.
\<close>

abbreviation O_APPEND :: u16 where "O_APPEND \<equiv> 4"
abbreviation O_CREAT :: u16 where "O_CREAT \<equiv> 256"

section \<open>Path lookup\<close>

fun skip_slashes :: "u16 list \<Rightarrow> u16 list option" where
  "skip_slashes [] = None"
| "skip_slashes (c # cs) = (if c = 47 then skip_slashes cs else Some (c # cs))"

text \<open>A path component: the words up to a slash or the terminator, and the rest.\<close>

fun component :: "u16 list \<Rightarrow> (u16 list \<times> u16 list) option" where
  "component [] = None"
| "component (c # cs) =
     (if c = 47 \<or> c = 0 then Some ([], c # cs)
      else do { (w, r) \<leftarrow> component cs; Some (c # w, r) })"

partial_function (option) lookup_loop :: "dops \<Rightarrow> u16 list \<Rightarrow> fs_node \<Rightarrow> fs_node \<Rightarrow> kst \<Rightarrow>
    (u16 \<times> fs_node \<times> fs_node \<times> kst) option" where
  "lookup_loop dops rest res parent s = do {
     r \<leftarrow> skip_slashes rest;
     if hd r = 0 then Some (FS_OK, parent, res, s)
     else do {
       (w, r2) \<leftarrow> component r;
       require (length w < 32);
       (rv, wher, found, s1) \<leftarrow> fs_finddir dops res (w @ [0]) s;
       if rv \<noteq> FS_OK then Some (if hd r2 \<noteq> 0 then FS_NO_DIR else FS_NO_FILE, res, wher, s1)
       else if hd r2 = 0 then Some (FS_OK, res, found, s1)
       else lookup_loop dops r2 found res s1 } }"

definition fs_lookup :: "dops \<Rightarrow> u16 list \<Rightarrow> kst \<Rightarrow> (u16 \<times> fs_node \<times> fs_node \<times> kst) option" where
  "fs_lookup dops name s = do {
     require (name \<noteq> []);
     start \<leftarrow> (if hd name = 47 then Some (fs_root s)
               else do { c \<leftarrow> cProc s; Some (p_cwd (procs s c)) });
     if hd name = 0 then Some (FS_OK, start, start, s)
     else lookup_loop dops name start start s }"

text \<open>The last component of a path, found by stepping back from its terminator.\<close>

primrec crop_from :: "u16 list \<Rightarrow> nat \<Rightarrow> nat" where
  "crop_from name 0 = (if name ! 0 = 47 then 1 else 0)"
| "crop_from name (Suc k) = (if name ! Suc k = 47 then Suc (Suc k) else crop_from name k)"

definition crop :: "u16 list \<Rightarrow> u16 list option" where
  "crop name = do { n \<leftarrow> strlen name; Some (drop (crop_from name n) name) }"

section \<open>Device operations\<close>

definition call_write :: "devfn \<Rightarrow> u16 \<Rightarrow> u16 list \<Rightarrow> nat \<Rightarrow> kst \<Rightarrow> (nat \<times> kst) option" where
  "call_write f minor buf n s = (case f of
     Tty_write \<Rightarrow> tty_write minor buf n s
   | Proc_file_write \<Rightarrow> Some (proc_file_write minor buf n s)
   | Piper_write \<Rightarrow> piper_write minor buf n s
   | Sched_file_write \<Rightarrow> sched_file_write minor buf n s
   | Null_file_write \<Rightarrow> Some (null_file_write minor buf n s)
   | Zero_file_write \<Rightarrow> Some (zero_file_write minor buf n s)
   | _ \<Rightarrow> None)"

definition call_read :: "devfn \<Rightarrow> u16 \<Rightarrow> nat \<Rightarrow> kst \<Rightarrow> (u16 list \<times> kst) option" where
  "call_read f minor n s = (case f of
     Tty_read \<Rightarrow> tty_read minor n s
   | Proc_file_read \<Rightarrow> Some (proc_file_read minor n s)
   | Piper_read \<Rightarrow> piper_read minor n s
   | Sched_file_read \<Rightarrow> Some (sched_file_read minor n s)
   | Null_file_read \<Rightarrow> Some (null_file_read minor n s)
   | Zero_file_read \<Rightarrow> Some (zero_file_read minor n s)
   | _ \<Rightarrow> None)"

definition call_open :: "devfn \<Rightarrow> u16 \<Rightarrow> nat \<Rightarrow> kst \<Rightarrow> kst option" where
  "call_open f minor fd s = (case f of
     Tty_open \<Rightarrow> tty_open minor fd s | Piper_open \<Rightarrow> piper_open minor fd s | _ \<Rightarrow> None)"

definition call_close :: "devfn \<Rightarrow> u16 \<Rightarrow> nat \<Rightarrow> kst \<Rightarrow> kst option" where
  "call_close f minor fd s = (case f of
     Tty_close \<Rightarrow> Some (tty_close minor fd s) | Piper_close \<Rightarrow> piper_close minor fd s | _ \<Rightarrow> None)"

definition loop_ioctl :: "dops \<Rightarrow> u16 \<Rightarrow> u16 \<Rightarrow> u16 list \<Rightarrow> nat \<Rightarrow> kst \<Rightarrow> (u16 \<times> nat \<times> kst) option" where
  "loop_ioctl dops minor request buf fd s =
     (if request = 0 then do {
        require (unat minor < 3);
        let node = f_node (file_at fd s);
        let s1 = s\<lparr>loop_devs := (loop_devs s)(unat minor := (loop_devs s (unat minor))\<lparr>ld_device_node := node\<rparr>)\<rparr>;
        (rv, parent, res, s2) \<leftarrow> fs_lookup dops buf s1;
        let s3 = s2\<lparr>loop_devs := (loop_devs s2)(unat minor :=
          (loop_devs s2 (unat minor))\<lparr>ld_virtual_device_file := res\<rparr>)\<rparr>;
        Some (uninit s 0, 0, s3) }
      else Some (uninit s 0, 0, s))"

definition call_ioctl :: "dops \<Rightarrow> devfn \<Rightarrow> u16 \<Rightarrow> u16 \<Rightarrow> u16 list \<Rightarrow> nat \<Rightarrow> kst \<Rightarrow> (u16 \<times> nat \<times> kst) option" where
  "call_ioctl dops f minor request buf fd s = (case f of
     Tty_ioctl \<Rightarrow> Some (tty_ioctl minor request s)
   | Loop_ioctl \<Rightarrow> loop_ioctl dops minor request buf fd s
   | _ \<Rightarrow> None)"

definition dev_entry :: "u16 \<Rightarrow> kst \<Rightarrow> devOpTable option" where
  "dev_entry device s = do { require (DEV_MAJOR device < MAX_DEVS); Some (devList s (DEV_MAJOR device)) }"

definition dev_minor :: "u16 \<Rightarrow> u16" where
  "dev_minor device = device AND 0xff"

definition k_regDevice :: "nat \<Rightarrow> devfn option \<Rightarrow> devfn option \<Rightarrow> devfn option \<Rightarrow> devfn option \<Rightarrow>
    devfn option \<Rightarrow> kst \<Rightarrow> kst" where
  "k_regDevice major w r opn c i s =
     (if major < MAX_DEVS then s\<lparr>devList := (devList s)(major := \<lparr>dv_registered = 1, dv_write = w,
        dv_read = r, dv_open = opn, dv_close = c, dv_ioctl = i\<rparr>)\<rparr> else s)"

definition k_regExternalDeviceCallback :: "nat \<Rightarrow> u16 \<Rightarrow> u16 \<Rightarrow> u16 \<Rightarrow> kst \<Rightarrow> kst option" where
  "k_regExternalDeviceCallback p major queue_user type s = do {
     let localMajor = unat (major AND 0x7f);
     require (localMajor < MAX_DEVS);
     Some (s\<lparr>extDevList := (extDevList s)(localMajor := \<lparr>ed_registered = 1, ed_driver = Some p,
       ed_driverPid = p_pid (procs s p), ed_queue_user = queue_user\<rparr>)\<rparr>) }"

definition fs_init :: "kst \<Rightarrow> kst" where
  "fs_init s = fort 0 MAX_DEVS (\<lambda>i t. t\<lparr>devList := (devList t)(i := (devList t i)\<lparr>dv_registered := 0\<rparr>),
     extDevList := (extDevList t)(i := (extDevList t i)\<lparr>ed_registered := 0\<rparr>)\<rparr>) (fs_init_nodes s)"

section \<open>Open files\<close>

definition fs_open :: "dops \<Rightarrow> fs_node \<Rightarrow> u16 \<Rightarrow> kst \<Rightarrow> (nat \<times> kst) option" where
  "fs_open dops node mode s = do {
     (st, s1) \<leftarrow> fs_stat dops node s;
     let f = \<lparr>f_mode = mode, f_node = node, f_size = st_size st,
              f_pos = (if mode AND O_APPEND \<noteq> 0 then st_size st else 0),
              f_device = st_rdev st, f_flags = st_mode st, f_refcnt = 1\<rparr>;
     s2 \<leftarrow> (if mode = O_WRONLY \<and> \<not> S_ISCHR (st_mode st) \<and> \<not> S_ISBLK (st_mode st)
            then fs_reset dops node s1 else Some s1);
     (fp, t) \<leftarrow> set_insert (openFiles s2) f;
     let s3 = s2\<lparr>openFiles := t\<rparr>;
     s4 \<leftarrow> (if S_ISCHR (st_mode st) \<or> S_ISBLK (st_mode st) then do {
              ops \<leftarrow> dev_entry (st_rdev st) s3;
              (case dv_open ops of None \<Rightarrow> Some s3 | Some g \<Rightarrow> call_open g (dev_minor (st_rdev st)) fp s3) }
            else Some s3);
     Some (fp, s4) }"

definition blkdev_read :: "dops \<Rightarrow> nat \<Rightarrow> nat \<Rightarrow> kst \<Rightarrow> (u16 list \<times> kst) option" where
  "blkdev_read dops fd n s = do {
     let pos = f_pos (file_at fd s);
     let off_in_blk = pos mod 256;
     let sz_to_read = (if (off_in_blk + n) mod 65536 > 256 then 256 - off_in_blk else n);
     (b, s1) \<leftarrow> bread dops (f_device (file_at fd s)) (of_nat (pos div 256)) s;
     require (off_in_blk + sz_to_read \<le> 256);
     let ws = slice (bdata b s1) off_in_blk sz_to_read;
     Some (ws, file_upd fd (f_pos_update (\<lambda>p. off_add p sz_to_read)) (bfree b s1)) }"

definition blkdev_write :: "dops \<Rightarrow> nat \<Rightarrow> u16 list \<Rightarrow> nat \<Rightarrow> kst \<Rightarrow> (nat \<times> kst) option" where
  "blkdev_write dops fd buf n s = do {
     let pos = f_pos (file_at fd s);
     let off_in_blk = pos mod 256;
     let sz_to_write = (if (off_in_blk + n) mod 65536 > 256 then 256 - off_in_blk else n);
     (b, s1) \<leftarrow> bread dops (f_device (file_at fd s)) (of_nat (pos div 256)) s;
     require (off_in_blk + sz_to_write \<le> 256 \<and> sz_to_write \<le> length buf);
     let s2 = bcopy b off_in_blk (take sz_to_write buf) s1;
     Some (sz_to_write, file_upd fd (f_pos_update (\<lambda>p. off_add p sz_to_write)) s2) }"

definition k_write :: "dops \<Rightarrow> nat \<Rightarrow> u16 list \<Rightarrow> nat \<Rightarrow> kst \<Rightarrow> (nat \<times> kst) option" where
  "k_write dops fd buf n s =
     (let f = file_at fd s in
      if S_ISBLK (f_flags f) then blkdev_write dops fd buf n s
      else if S_ISCHR (f_flags f) then do {
        ops \<leftarrow> dev_entry (f_device f) s;
        g \<leftarrow> dv_write ops;
        call_write g (dev_minor (f_device f)) buf n s }
      else do {
        (written, s1) \<leftarrow> fs_write dops (f_node f) (f_pos f) n buf s;
        Some (written, file_upd fd (f_pos_update (\<lambda>p. off_add p written)) s1) })"

definition k_read :: "dops \<Rightarrow> nat \<Rightarrow> nat \<Rightarrow> kst \<Rightarrow> (u16 list \<times> kst) option" where
  "k_read dops fd n s =
     (let f = file_at fd s in
      if S_ISBLK (f_flags f) then blkdev_read dops fd n s
      else if S_ISCHR (f_flags f) then
        let major = DEV_MAJOR (f_device f) in
        if major < 16 \<and> major < MAX_DEVS \<and> dv_registered (devList s major) \<noteq> 0 then do {
          g \<leftarrow> dv_read (devList s major);
          call_read g (dev_minor (f_device f)) n s }
        else Some ([], s)
      else do {
        let sz = (if off_add n (f_pos f) > f_size f
                  then (f_size f + 4294967296 - f_pos f) mod 65536 else n);
        (ws, s1) \<leftarrow> fs_read dops (f_node f) (f_pos f) sz s;
        Some (ws, file_upd fd (f_pos_update (\<lambda>p. off_add p (length ws))) s1) })"

definition k_isEOF :: "nat \<Rightarrow> kst \<Rightarrow> bool" where
  "k_isEOF fd s \<longleftrightarrow> f_pos (file_at fd s) \<ge> f_size (file_at fd s)"

definition k_open :: "dops \<Rightarrow> u16 list \<Rightarrow> u16 \<Rightarrow> kst \<Rightarrow> (nat option \<times> kst) option" where
  "k_open dops name mode s = do {
     (rv, parent, file, s1) \<leftarrow> fs_lookup dops name s;
     if rv \<noteq> FS_NO_DIR then
       if rv = FS_OK then do { (fp, s2) \<leftarrow> fs_open dops file mode s1; Some (Some fp, s2) }
       else do {
         nm \<leftarrow> crop name;
         if mode AND O_WRONLY \<noteq> 0 \<or> mode AND O_APPEND \<noteq> 0 \<or> mode AND O_CREAT \<noteq> 0 then do {
           (rv, parent, file, s2) \<leftarrow> fs_create dops parent nm S_IFREG file s1;
           (fp, s3) \<leftarrow> fs_open dops file mode s2;
           Some (Some fp, s3) }
         else Some (None, s1) }
     else Some (None, s1) }"

definition stat_words :: "stat \<Rightarrow> u16 list" where
  "stat_words st = [st_dev st, st_ino st, st_mode st, 0, 0, 0, st_rdev st, long_lo (st_size st),
     long_hi (st_size st), 0, 0, 0]"

text \<open>\<^verbatim>\<open>k_stat\<close> fills a fresh \<^verbatim>\<open>struct stat\<close> of the caller's, given here by its twelve words.\<close>

definition k_stat :: "dops \<Rightarrow> u16 list \<Rightarrow> kst \<Rightarrow> (u16 \<times> u16 list \<times> kst) option" where
  "k_stat dops name s = do {
     (rv, parent, nd, s1) \<leftarrow> fs_lookup dops name s;
     if rv = FS_OK then do { (st, s2) \<leftarrow> fs_stat dops nd s1; Some (0, stat_words st, s2) }
     else Some (- 1, (slice (uninit s1) 0 12)[2 := 0], s1) }"

definition k_close :: "nat \<Rightarrow> kst \<Rightarrow> kst option" where
  "k_close fd s = do {
     let s1 = file_upd fd (f_refcnt_update (\<lambda>c. c - 1)) s;
     let f = file_at fd s1;
     if f_refcnt f = 0 then do {
       s2 \<leftarrow> (if S_ISCHR (f_flags f) then do {
               ops \<leftarrow> dev_entry (f_device f) s1;
               (case dv_close ops of None \<Rightarrow> Some s1 | Some g \<Rightarrow> call_close g (dev_minor (f_device f)) fd s1) }
             else Some s1);
       t \<leftarrow> set_remove_by_element (openFiles s2) fd;
       Some (s2\<lparr>openFiles := t\<rparr>) }
     else Some s1 }"

definition k_seek :: "nat \<Rightarrow> nat \<Rightarrow> kst \<Rightarrow> kst" where
  "k_seek fd pos s = file_upd fd (\<lambda>f. if f_size f < pos then f\<lparr>f_pos := f_size f\<rparr> else f\<lparr>f_pos := pos\<rparr>) s"

definition k_opendir :: "dops \<Rightarrow> u16 list \<Rightarrow> kst \<Rightarrow> (nat option \<times> kst) option" where
  "k_opendir dops dirname s = do {
     (rv, parent, d_inode, s1) \<leftarrow> fs_lookup dops dirname s;
     if rv \<noteq> FS_OK then Some (None, s1)
     else do { (fp, s2) \<leftarrow> fs_open dops d_inode 114 s1; Some (Some fp, s2) } }"

partial_function (option) k_readdir :: "dops \<Rightarrow> nat \<Rightarrow> kst \<Rightarrow> (u16 list \<times> kst) option" where
  "k_readdir dops dir s =
     (if f_size (file_at dir s) > f_pos (file_at dir s) then do {
        (rv, res, s1) \<leftarrow> fs_readdir dops (f_node (file_at dir s)) (f_pos (file_at dir s)) s;
        let s2 = file_upd dir (f_pos_update (\<lambda>p. off_add p 32)) s1;
        if res ! 31 = 0 then k_readdir dops dir s2 else Some (res, s2) }
      else Some ((slice (uninit s) 0 32)[31 := 0], s))"

section \<open>Creating and removing names\<close>

definition k_mkdir :: "dops \<Rightarrow> u16 list \<Rightarrow> kst \<Rightarrow> (u16 \<times> kst) option" where
  "k_mkdir dops path s = do {
     n \<leftarrow> strlen path;
     require (0 < n);
     let path = (if path ! (n - 1) = 47 then path[n - 1 := 0] else path);
     (rv, parent, dir, s1) \<leftarrow> fs_lookup dops path s;
     if rv = FS_OK then Some (FS_FILE_EXISTS, s1)
     else if rv = FS_NO_DIR then Some (FS_NO_DIR, s1)
     else do {
       nm \<leftarrow> crop path;
       (rv, parent, dir, s2) \<leftarrow> fs_create dops parent nm S_IFDIR dir s1;
       s3 \<leftarrow> write_dot_entries dops dir (fn_idx parent) s2;
       Some (0, s3) } }"

definition k_mknod :: "dops \<Rightarrow> u16 list \<Rightarrow> u16 \<Rightarrow> u16 \<Rightarrow> u16 \<Rightarrow> kst \<Rightarrow> (u16 \<times> kst) option" where
  "k_mknod dops path type major minor s = do {
     (rv, parent, devNode, s1) \<leftarrow> fs_lookup dops path s;
     if rv = FS_OK then Some (FS_FILE_EXISTS, s1)
     else if rv = FS_NO_DIR then Some (FS_NO_DIR, s1)
     else do {
       nm \<leftarrow> crop path;
       let type = (if type = 99 then S_IFCHR else S_IFBLK);
       (rv, parent, devNode, s2) \<leftarrow> fs_create dops parent nm type devNode s1;
       (b, s3) \<leftarrow> bread dops (fn_dev devNode) (fn_idx devNode) s2;
       Some (0, bfree b (bmark b (bset b 1 (push_bit 8 major OR (minor AND 0xff)) s3))) } }"

text \<open>\<^verbatim>\<open>k_mkfifo\<close> also returns the caller's path buffer, which it fills when the path is empty.\<close>

definition k_mkfifo :: "dops \<Rightarrow> u16 list \<Rightarrow> kst \<Rightarrow> (u16 \<times> u16 list \<times> kst) option" where
  "k_mkfifo dops path s = do {
     current_pipe_id \<leftarrow> piper_getFreePipe s;
     require (path \<noteq> []);
     path \<leftarrow> (if hd path = 0 then do {
         (k, d) \<leftarrow> sprintf (\<lambda>i. path ! i) (cstr ''/tmp/%d.pipe'') [Vint (of_nat current_pipe_id)];
         Some (slice d 0 (length path)) }
       else Some path);
     (rv, s1) \<leftarrow> k_mknod dops path 99 2 (of_nat current_pipe_id) s;
     Some (rv, path, s1) }"

partial_function (option) unlink_entry :: "dops \<Rightarrow> fs_node \<Rightarrow> u16 \<Rightarrow> nat \<Rightarrow> nat \<Rightarrow> kst \<Rightarrow> (u16 \<times> kst) option" where
  "unlink_entry dops parent idx sz parentOff s =
     (if sz > parentOff then do {
        (rv, res, s1) \<leftarrow> fs_readdir dops parent parentOff s;
        if res ! 31 = idx then do {
          (w, s2) \<leftarrow> fs_write dops parent parentOff 32 (res[31 := 0, 0 := 0]) s1;
          Some (0, s2) }
        else unlink_entry dops parent idx sz (off_add parentOff 32) s1 }
      else Some (- 1, s))"

definition k_unlink :: "dops \<Rightarrow> u16 list \<Rightarrow> kst \<Rightarrow> (u16 \<times> kst) option" where
  "k_unlink dops name s = do {
     (rv, parent, nd, s1) \<leftarrow> fs_lookup dops name s;
     if rv = FS_OK then do {
       s2 \<leftarrow> fs_reset dops nd s1;
       (parentSt, s3) \<leftarrow> fs_stat dops parent s2;
       unlink_entry dops parent (fn_idx nd) (st_size parentSt) 0 s3 }
     else Some (- 1, s1) }"

definition k_ioctl :: "dops \<Rightarrow> nat \<Rightarrow> u16 \<Rightarrow> u16 list \<Rightarrow> kst \<Rightarrow> (u16 \<times> nat \<times> kst) option" where
  "k_ioctl dops fd request buf s =
     (let f = file_at fd s in
      if S_ISCHR (f_flags f) \<or> S_ISBLK (f_flags f) then do {
        ops \<leftarrow> dev_entry (f_device f) s;
        (case dv_ioctl ops of
           Some g \<Rightarrow> call_ioctl dops g (dev_minor (f_device f)) request buf fd s
         | None \<Rightarrow> Some (- 1, 0, s)) }
      else Some (- 1, 0, s))"

definition k_mount :: "dops \<Rightarrow> u16 list \<Rightarrow> u16 list \<Rightarrow> kst \<Rightarrow> (u16 \<times> kst) option" where
  "k_mount dops device_file mount_point s = do {
     (rv, p1, device_file_inode, s1) \<leftarrow> fs_lookup dops device_file s;
     if rv \<noteq> FS_OK then Some (0, s1)
     else do {
       (rv, p2, mount_point_inode, s2) \<leftarrow> fs_lookup dops mount_point s1;
       if rv \<noteq> FS_OK then Some (0, s2)
       else do {
         (st, s3) \<leftarrow> fs_stat dops device_file_inode s2;
         s4 \<leftarrow> fs_mount mount_point_inode \<lparr>fn_dev = st_rdev st, fn_idx = ROOT_NODE\<rparr> device_file_inode s3;
         Some (0, s4) } } }"

definition k_umount :: "dops \<Rightarrow> u16 list \<Rightarrow> kst \<Rightarrow> (u16 \<times> kst) option" where
  "k_umount dops device_file s = do {
     (rv, p, device_file_inode, s1) \<leftarrow> fs_lookup dops device_file s;
     if rv \<noteq> FS_OK then Some (0, s1)
     else do { s2 \<leftarrow> fs_umount device_file_inode s1; Some (0, s2) } }"

section \<open>Blocking reads and writes\<close>

abbreviation IOBUF_SIZE :: nat where "IOBUF_SIZE \<equiv> 1024"

definition wait_params :: "u16 \<Rightarrow> u16 \<Rightarrow> u16 \<Rightarrow> buf" where
  "wait_params dest n rw = (\<lambda>k. if k = 1 then dest else if k = 2 then n else if k = 3 then rw else 0)"

text \<open>The common tail: block the caller, and store the result in its request structure.\<close>

definition block_caller :: "nat \<Rightarrow> u16 \<Rightarrow> kst \<Rightarrow> kst option" where
  "block_caller p caller s = do {
     let s1 = proc_upd p (p_state_update (\<lambda>_. PROC_STATE_BLOCKED)) s;
     c \<leftarrow> cProc s1;
     if p_pid (procs s1 c) = caller then resched System_interrupt_stack s1 else Some s1 }"

definition put_result :: "nat \<Rightarrow> u16 \<Rightarrow> nat \<Rightarrow> kst \<Rightarrow> kst option" where
  "put_result p scallStruct retval s = do {
     (ws, s1) \<leftarrow> ugets p scallStruct 0 14 4 False s;
     (k, s2) \<leftarrow> uputs p scallStruct 0 14 4 False (ws[2 := of_nat retval]) s1;
     Some s2 }"

definition try_k_read :: "dops \<Rightarrow> nat \<Rightarrow> u16 \<Rightarrow> u16 \<Rightarrow> u16 \<Rightarrow> u16 \<Rightarrow> kst \<Rightarrow> (nat \<times> kst) option" where
  "try_k_read dops fd dest n caller scallStruct s = do {
     p \<leftarrow> findProcByPid caller s;
     (ws, s1) \<leftarrow> k_read dops fd (unat n) s;
     let retval = length ws;
     require (retval \<le> IOBUF_SIZE);
     (k, s2) \<leftarrow> uputs p dest 0 14 retval False ws s1;
     s3 \<leftarrow> (if retval = 0 \<and> blockRequest s2 \<noteq> 0 then do {
         s3 \<leftarrow> waitqAddEntry caller (fn_idx (f_node (file_at fd s2))) WAITQ_TYPE_FILE scallStruct fd
                (wait_params dest n 0) (s2\<lparr>blockRequest := 0\<rparr>);
         block_caller p caller s3 }
       else Some s2);
     s4 \<leftarrow> put_result p scallStruct retval s3;
     Some (retval, s4) }"

definition try_k_write :: "dops \<Rightarrow> nat \<Rightarrow> u16 \<Rightarrow> u16 \<Rightarrow> u16 \<Rightarrow> u16 \<Rightarrow> kst \<Rightarrow> (nat \<times> kst) option" where
  "try_k_write dops fd src n caller scallStruct s = do {
     p \<leftarrow> findProcByPid caller s;
     require (unat n \<le> IOBUF_SIZE);
     (ws, s1) \<leftarrow> ugets p src 0 14 (unat n) False s;
     (retval, s2) \<leftarrow> k_write dops fd ws (unat n) s1;
     s3 \<leftarrow> (if retval = 0 \<and> blockRequest s2 \<noteq> 0 then do {
         s3 \<leftarrow> (if blockRequest s2 = 1 then
                  waitqAddEntry caller (fn_idx (f_node (file_at fd s2))) WAITQ_TYPE_FILE scallStruct fd
                    (wait_params src n 1) (s2\<lparr>blockRequest := 0\<rparr>)
                else if blockRequest s2 = 2 then sendSig caller (of_nat SIGPIPE) s2
                else Some s2);
         block_caller p caller s3 }
       else Some s2);
     s4 \<leftarrow> put_result p scallStruct retval s3;
     Some (retval, s4) }"

section \<open>The loop device\<close>

definition loop_read_block :: "dops \<Rightarrow> u16 \<Rightarrow> u16 \<Rightarrow> buf \<Rightarrow> kst \<Rightarrow> (buf \<times> kst) option" where
  "loop_read_block dops device block b s = do {
     require (DEV_MINOR device < 3);
     (ws, s1) \<leftarrow> fs_read dops (ld_virtual_device_file (loop_devs s (DEV_MINOR device)))
                  (unat (block * 256)) 256 s;
     Some (blit b 0 ws, s1) }"

definition loop_write_block :: "dops \<Rightarrow> u16 \<Rightarrow> u16 \<Rightarrow> buf \<Rightarrow> kst \<Rightarrow> kst option" where
  "loop_write_block dops device block b s = do {
     require (DEV_MINOR device < 3);
     (n, s1) \<leftarrow> fs_write dops (ld_virtual_device_file (loop_devs s (DEV_MINOR device)))
                 (unat (block * 256)) 256 (slice b 0 256) s;
     Some s1 }"

definition loop_get_driver :: "dops \<Rightarrow> kst iblkdriver" where
  "loop_get_driver dops = \<lparr>drv_write = loop_write_block dops, drv_read = loop_read_block dops\<rparr>"

primrec kdops :: "nat \<Rightarrow> dops" where
  "kdops 0 = (\<lambda>d. case d of Ata_driver \<Rightarrow> ataGetDriver
     | Loop_driver \<Rightarrow> \<lparr>drv_write = (\<lambda>_ _ _ _. None), drv_read = (\<lambda>_ _ _ _. None)\<rparr>)"
| "kdops (Suc n) = (\<lambda>d. case d of Ata_driver \<Rightarrow> ataGetDriver | Loop_driver \<Rightarrow> loop_get_driver (kdops n))"

end
