(* ===== verification/Exec.thy ===== *)
theory Exec
  imports Kfile
begin

text \<open>
  Creating processes and loading programs: \<^verbatim>\<open>fork.c\<close> and \<^verbatim>\<open>execve.c\<close>.  \<^verbatim>\<open>do_fork\<close> copies the process
  record and either copies its pages or shares them read-only; \<^verbatim>\<open>do_execve\<close> replaces the pages of a
  process with those of a \<^verbatim>\<open>REXE\<close> file and builds its argument block.
\<close>

section \<open>Fork\<close>

text \<open>Copying a table: \<open>k\<close> entries from \<open>pageno\<close>, up to the first free one.\<close>

primrec fork_copy :: "u16 \<Rightarrow> u16 \<Rightarrow> u16 \<Rightarrow> nat \<Rightarrow> nat \<Rightarrow> kst \<Rightarrow> kst option" where
  "fork_copy sel new_sel s_code pageno 0 s = Some s"
| "fork_copy sel new_sel s_code pageno (Suc k) s =
     (let src_page = mmu_read_table sel (of_nat pageno) s_code s in
      if src_page = FREE_PAGE_MARK then Some s
      else do {
        target_page \<leftarrow> mmu_get_free_page s;
        s1 \<leftarrow> mmu_mark_page target_page 1 s;
        let s2 = mmu_copy_pages src_page target_page 0 14 15 s1;
        fork_copy sel new_sel s_code (Suc pageno) k
          (mmu_write_table new_sel (of_nat pageno) s_code target_page s2) })"

text \<open>Sharing a table: both entries become read-only and the page has one more user.\<close>

primrec fork_share :: "u16 \<Rightarrow> u16 \<Rightarrow> u16 \<Rightarrow> nat \<Rightarrow> nat \<Rightarrow> kst \<Rightarrow> kst option" where
  "fork_share sel new_sel s_code pageno 0 s = Some s"
| "fork_share sel new_sel s_code pageno (Suc k) s =
     (let src_page = mmu_read_table sel (of_nat pageno) s_code s in
      if src_page = FREE_PAGE_MARK then Some s
      else do {
        s1 \<leftarrow> mmu_inc_page_refcnt src_page s;
        let s2 = mmu_write_table new_sel (of_nat pageno) s_code src_page s1;
        let s3 = mmu_write_table_flags sel (of_nat pageno) s_code PAGE_FLAG_READ_ONLY s2;
        fork_share sel new_sel s_code (Suc pageno) k
          (mmu_write_table_flags new_sel (of_nat pageno) s_code PAGE_FLAG_READ_ONLY s3) })"

definition fork_pages :: "nat \<Rightarrow> nat \<Rightarrow> kst \<Rightarrow> kst option" where
  "fork_pages p new_p s =
     (let sel = p_mmuSelector (procs s p); new_sel = p_mmuSelector (procs s new_p);
          data = (if p_pid (procs s p) = 0 then 14 else 16) in
      if \<not> enable_copy_on_write s \<or> p_pid (procs s p) = 0 then do {
        s1 \<leftarrow> fork_copy sel new_sel 1 0 128 s;
        fork_copy sel new_sel 0 0 data s1 }
      else do {
        s1 \<leftarrow> fork_share sel new_sel 1 0 128 s;
        fork_share sel new_sel 0 0 data s1 })"

definition fork_files :: "nat \<Rightarrow> kst \<Rightarrow> kst" where
  "fork_files p s = fort 0 MAX_FILES_PER_PROC (\<lambda>fd t.
     case p_openFiles (procs t p) fd of
       Some f \<Rightarrow> file_upd f (f_refcnt_update (\<lambda>c. c + 1)) t
     | None \<Rightarrow> t) s"

definition do_fork :: "nat \<Rightarrow> bool \<Rightarrow> kst \<Rightarrow> (nat option \<times> kst) option" where
  "do_fork p clone s = do {
     (np, s1) \<leftarrow> get_free_proc s;
     (case np of
        None \<Rightarrow> Some (None, s1)
      | Some new_p \<Rightarrow> do {
          let s2 = proc_upd new_p (\<lambda>_. (procs s1 p)\<lparr>p_state := PROC_STATE_CONSTRUCT\<rparr>) s1;
          let (pid, s3) = sched_genPid s2;
          let s4 = proc_upd new_p (\<lambda>q. q\<lparr>p_pid := pid, p_parent := Some p\<rparr>) s3;
          s5 \<leftarrow> (if \<not> clone then do {
                    sel \<leftarrow> mmu_get_free_selector s4;
                    mmu_mark_selector sel 1 (proc_upd new_p (p_mmuSelector_update (\<lambda>_. sel)) s4) }
                 else Some (proc_upd new_p (p_mmuSelector_update (\<lambda>_. p_mmuSelector (procs s4 p))) s4));
          let s6 = proc_upd new_p (\<lambda>q. q\<lparr>p_isThread := (if clone then 1 else 0),
            p_intFrame := (p_intFrame q)\<lparr>fr_SW := (fr_SW (p_intFrame q) AND 0xff00)
              OR (p_mmuSelector q AND 0x00ff)\<rparr>\<rparr>) s5;
          s7 \<leftarrow> (if \<not> clone then fork_pages p new_p s6 else Some s6);
          Some (Some new_p, fork_files p s7) }) }"

section \<open>The argument block\<close>

text \<open>Offsets in the block: argc, argv, envp, five envp pointers and entries, fifteen argv pointers.\<close>

abbreviation ENVP_PTRS :: nat where "ENVP_PTRS \<equiv> 3"
abbreviation ENVP_ENTRIES :: nat where "ENVP_ENTRIES \<equiv> 8"
abbreviation ARGV_PTRS :: nat where "ARGV_PTRS \<equiv> 158"
abbreviation ARGV_ENTRIES :: nat where "ARGV_ENTRIES \<equiv> 173"
abbreviation ARGV_BUFFER_SIZE :: nat where "ARGV_BUFFER_SIZE \<equiv> 256"

partial_function (option) copy_argv :: "nat \<Rightarrow> u16 \<Rightarrow> u16 \<Rightarrow> nat \<Rightarrow> nat \<Rightarrow> buf \<Rightarrow> kst \<Rightarrow>
    (nat \<times> nat \<times> buf \<times> kst) option" where
  "copy_argv tp p off i t b s = do {
     (pp, s1) \<leftarrow> ugetc tp p 0 14 s;
     if pp = 0 then Some (i, t, b, s1)
     else do {
       (ws, s2) \<leftarrow> ugets tp pp 0 14 1024 True s1;
       require (t + length ws \<le> ARGV_BUFFER_SIZE \<and> ARGV_PTRS + i < ARGV_BUFFER_SIZE);
       copy_argv tp (p + 1) off (Suc i) (t + length ws + 1)
         ((blit b t ws)(ARGV_PTRS + i := of_nat t + off)) s2 } }"

definition parseArgs :: "u16 \<Rightarrow> u16 \<Rightarrow> buf \<Rightarrow> u16 \<Rightarrow> nat \<Rightarrow> kst \<Rightarrow> (nat \<times> buf \<times> kst) option" where
  "parseArgs argv_in envp_in b off tp s = do {
     let b1 = blit b 0 (replicate ARGV_ENTRIES 0);
     let b2 = b1(1 := of_nat ARGV_PTRS + off, 2 := of_nat ENVP_PTRS + off);
     let b3 = fort 0 5 (\<lambda>i c. c(ENVP_PTRS + i := of_nat (ENVP_ENTRIES + i * 30) + off)) b2;
     (e, s1) \<leftarrow> ugetc tp envp_in 0 14 s;
     (i, t, b4, s2) \<leftarrow> (if argv_in \<noteq> 0 then copy_argv tp argv_in off 0 ARGV_ENTRIES b3 s1
                        else Some (0, ARGV_ENTRIES, b3, s1));
     require (ARGV_PTRS + i < ARGV_BUFFER_SIZE);
     Some (t, b4(ARGV_PTRS + i := 0, 0 := of_nat i), s2) }"

section \<open>Exec\<close>

text \<open>Reading the nine header words; \<open>None\<close> inside the result is the short file.\<close>

partial_function (option) read_header :: "dops \<Rightarrow> nat \<Rightarrow> u16 list \<Rightarrow> kst \<Rightarrow> (u16 list option \<times> kst) option" where
  "read_header dops fd acc s =
     (if length acc \<noteq> 9 then do {
        (ws, s1) \<leftarrow> k_read dops fd (9 - length acc) s;
        require (length acc + length ws \<le> 9);
        if k_isEOF fd s1 then do { s2 \<leftarrow> k_close fd s1; Some (None, s2) }
        else read_header dops fd (acc @ ws) s1 }
      else Some (Some acc, s))"

partial_function (option) fill_page :: "dops \<Rightarrow> nat \<Rightarrow> nat \<Rightarrow> nat \<Rightarrow> kst \<Rightarrow> kst option" where
  "fill_page dops fd read_now chunk_read s =
     (if read_now \<noteq> chunk_read then do {
        (ws, s1) \<leftarrow> k_read dops fd (read_now - chunk_read) s;
        require (chunk_read + length ws \<le> 4096);
        fill_page dops fd read_now (length ws)
          (ram_upd (frame_of 14 s1) (\<lambda>b. blit b chunk_read ws) s1) }
      else Some s)"

text \<open>The two loading loops; the result includes the next page number.\<close>

partial_function (option) load_segment :: "dops \<Rightarrow> nat \<Rightarrow> nat \<Rightarrow> u16 \<Rightarrow> nat \<Rightarrow> nat \<Rightarrow> nat \<Rightarrow> kst \<Rightarrow>
    (nat \<times> kst) option" where
  "load_segment dops p fd s_code tot cnt pageno s =
     (if cnt < tot then do {
        let read_now = min (tot - cnt) 0x1000;
        target_page \<leftarrow> mmu_get_free_page s;
        s1 \<leftarrow> mmu_mark_page target_page 1 s;
        let s2 = mmu_write_table 0 14 0 target_page s1;
        let s3 = mmu_write_table (p_mmuSelector (procs s2 p)) (of_nat pageno) s_code target_page s2;
        s4 \<leftarrow> fill_page dops fd read_now 0 s3;
        load_segment dops p fd s_code tot (off_add cnt read_now) (Suc pageno) s4 }
      else Some (pageno, s))"

primrec alloc_data_pages :: "nat \<Rightarrow> nat \<Rightarrow> nat \<Rightarrow> kst \<Rightarrow> kst option" where
  "alloc_data_pages p pageno 0 s = Some s"
| "alloc_data_pages p pageno (Suc k) s = do {
     target_page \<leftarrow> mmu_get_free_page s;
     s1 \<leftarrow> mmu_mark_page target_page 1 s;
     alloc_data_pages p (Suc pageno) k
       (mmu_write_table (p_mmuSelector (procs s1 p)) (of_nat pageno) 0 target_page s1) }"

definition user_frame :: "u16 \<Rightarrow> u16 \<Rightarrow> u16 \<Rightarrow> iframe \<Rightarrow> iframe" where
  "user_frame sel sp ap f = f\<lparr>fr_SP := sp, fr_AP := ap, fr_BP := ap, fr_highPC := 0, fr_D := 0, fr_S := 0,
     fr_SW := 0x4000 OR 0x1000 OR 0x2000 OR (sel AND 0xff)\<rparr>"

definition do_execve :: "dops \<Rightarrow> nat \<Rightarrow> u16 list \<Rightarrow> kst \<Rightarrow> (u16 \<times> kst) option" where
  "do_execve dops p req s = do {
     let s0 = proc_upd p (p_state_update (\<lambda>_. PROC_STATE_CONSTRUCT)) s;
     (fname, s1) \<leftarrow> ugets p (req ! 1) 0 14 100 True s0;
     let filename = fname @ slice (uninit s1) 0 (100 - length fname);
     (fd, s2) \<leftarrow> k_open dops filename 114 s1;
     (case fd of
        None \<Rightarrow> Some (1, s2)
      | Some fd \<Rightarrow> do {
          (hdr, s3) \<leftarrow> read_header dops fd [] s2;
          (case hdr of
             None \<Rightarrow> Some (1, s3)
           | Some header \<Rightarrow> do {
               c \<leftarrow> memcmp header (kstr ''REXE'') 4;
               if c \<noteq> 0 then do { s4 \<leftarrow> k_close fd s3; Some (1, s4) }
               else do {
                 let sizeData = header ! 8;
                 let stack_placement = sizeData;
                 (off, argvBuffer, s4) \<leftarrow> parseArgs (req ! 2) (req ! 3) (uninit s3) stack_placement p s3;
                 s5 \<leftarrow> freeProcessPages p s4;
                 (n1, s6) \<leftarrow> load_segment dops p fd 1 (long_of (header ! 6) (header ! 5)) 0 0 s5;
                 (n2, s7) \<leftarrow> load_segment dops p fd 0 (unat sizeData) 0 0 s6;
                 s8 \<leftarrow> alloc_data_pages p n2 (16 - n2) s7;
                 s9 \<leftarrow> k_close fd s8;
                 require (off \<le> ARGV_BUFFER_SIZE);
                 (k, s10) \<leftarrow> uputs p stack_placement 0 14 off False (slice argvBuffer 0 off) s9;
                 Some (0, proc_upd p (\<lambda>q. q\<lparr>
                   p_intFrame := user_frame (p_mmuSelector q) (stack_placement + of_nat off) stack_placement
                     (p_intFrame q),
                   p_cmd := blit (p_cmd q) 0 (take 32 filename),
                   p_state := PROC_STATE_NEW\<rparr>) s10) } }) }) }"

end
