(* ===== verification/Worker.thy ===== *)
theory Worker
  imports Exec
begin

text \<open>
  The kernel worker, \<^verbatim>\<open>kernel_worker.c\<close>: the process that carries out fork, clone, exec, wait and
  exit requests from the task queue and serves the wait queue.  One round of its endless loop is
  \<open>kernel_worker_round\<close>.  A task stays queued until the handler sets its type to none.
\<close>

abbreviation WNOHANG :: u16 where "WNOHANG \<equiv> 1"

definition finish_task :: "nat \<Rightarrow> kst \<Rightarrow> kst" where
  "finish_task i s = task_upd i ((kernelTaskQueue s i)\<lparr>kt_type := KERNEL_TASK_NONE\<rparr>) s"

definition set_state :: "nat \<Rightarrow> u16 \<Rightarrow> kst \<Rightarrow> kst" where
  "set_state p st = proc_upd p (p_state_update (\<lambda>_. st))"

text \<open>Reading a request structure of \<open>n\<close> words, and writing it back.\<close>

definition get_req :: "nat \<Rightarrow> u16 \<Rightarrow> nat \<Rightarrow> kst \<Rightarrow> (u16 list \<times> kst) option" where
  "get_req p addr n s = ugets p addr 0 14 n False s"

definition put_req :: "nat \<Rightarrow> u16 \<Rightarrow> u16 list \<Rightarrow> kst \<Rightarrow> kst option" where
  "put_req p addr ws s = do { (k, s1) \<leftarrow> uputs p addr 0 14 (length ws) False ws s; Some s1 }"

definition kernel_worker_init :: "kst \<Rightarrow> kst option" where
  "kernel_worker_init s = do {
     let s1 = fort 0 MAX_QUEUE_SIZE (\<lambda>i t. task_upd i ((kernelTaskQueue t i)\<lparr>kt_type := KERNEL_TASK_NONE\<rparr>) t) s;
     (np, s2) \<leftarrow> get_free_proc s1;
     p \<leftarrow> np;
     cmd \<leftarrow> strcpy (p_cmd (procs s2 p)) (cstr ''[kernel_worker]'');
     let s3 = proc_upd p (\<lambda>q. q\<lparr>p_cmd := cmd, p_pid := 0, p_state := PROC_STATE_RUN, p_mmuSelector := 0,
                p_cwd := fs_root s2\<rparr>) s2;
     Some (s3\<lparr>cProc := Some p\<rparr>) }"

section \<open>The task handlers\<close>

definition do_kernel_task_fork :: "nat \<Rightarrow> kst \<Rightarrow> kst option" where
  "do_kernel_task_fork i s =
     (case findProcByPid (kt_callerPid (kernelTaskQueue s i)) s of
        None \<Rightarrow> Some s
      | Some p \<Rightarrow> do {
          (np, s1) \<leftarrow> do_fork p False s;
          let args = kt_args (kernelTaskQueue s1 i);
          s2 \<leftarrow> (if args \<noteq> 0 then do {
                   (req, t1) \<leftarrow> get_req p args 2 s1;
                   new_p \<leftarrow> np;
                   put_req p args (req[1 := p_pid (procs t1 new_p)]) t1 }
                 else Some s1);
          let s3 = set_state p PROC_STATE_RUN (finish_task i s2);
          if p_pid (procs s3 p) \<noteq> 0 then do { new_p \<leftarrow> np; Some (run_proc new_p s3) } else Some s3 })"

definition do_kernel_task_clone :: "nat \<Rightarrow> kst \<Rightarrow> kst option" where
  "do_kernel_task_clone i s =
     (case findProcByPid (kt_callerPid (kernelTaskQueue s i)) s of
        None \<Rightarrow> Some s
      | Some p \<Rightarrow> do {
          (np, s1) \<leftarrow> do_fork p True s;
          new_p \<leftarrow> np;
          let args = kt_args (kernelTaskQueue s1 i);
          (fn_addr, stack_placement, arg, s2) \<leftarrow> (if args \<noteq> 0 then do {
              (req, t1) \<leftarrow> get_req p args 5 s1;
              t2 \<leftarrow> put_req p args (req[4 := p_pid (procs t1 new_p)]) t1;
              Some (req ! 1, req ! 2, req ! 3, t2) }
            else Some (0, 0, 0, s1));
          s3 \<leftarrow> put_req new_p stack_placement [arg] s2;
          let s4 = proc_upd new_p (\<lambda>q. q\<lparr>
            p_intFrame := (p_intFrame q)\<lparr>fr_SP := stack_placement + 1, fr_AP := stack_placement,
              fr_BP := stack_placement + 1, fr_highPC := fn_addr, fr_D := 0, fr_S := 0,
              fr_SW := 0x4000 OR 0x1000 OR 0x2000 OR (p_mmuSelector q AND 0xff)\<rparr>,
            p_isThread := 1,
            p_cmd := blit (p_cmd q) 0 (slice (p_cmd (procs s3 p)) 0 32)\<rparr>) s3;
          Some (set_state p PROC_STATE_RUN (set_state new_p PROC_STATE_RUN (finish_task i s4))) })"

definition do_kernel_task_execve :: "dops \<Rightarrow> nat \<Rightarrow> kst \<Rightarrow> kst option" where
  "do_kernel_task_execve dops i s =
     (case findProcByPid (kt_callerPid (kernelTaskQueue s i)) s of
        None \<Rightarrow> Some s
      | Some p \<Rightarrow> do {
          (req, s1) \<leftarrow> get_req p (kt_args (kernelTaskQueue s i)) 4 s;
          (rv, s2) \<leftarrow> do_execve dops p req s1;
          Some (run_proc p (finish_task i s2)) })"

definition waitpid_none :: "nat \<Rightarrow> nat \<Rightarrow> u16 list \<Rightarrow> kst \<Rightarrow> kst option" where
  "waitpid_none i p req s =
     (if req ! 3 = WNOHANG then
        put_req p (kt_args (kernelTaskQueue s i)) (req[1 := 0]) (finish_task i (set_state p PROC_STATE_RUN s))
      else Some s)"

definition do_kernel_task_waitpid :: "nat \<Rightarrow> kst \<Rightarrow> kst option" where
  "do_kernel_task_waitpid i s =
     (case findProcByPid (kt_callerPid (kernelTaskQueue s i)) s of
        None \<Rightarrow> Some s
      | Some p \<Rightarrow> do {
          (req, s1) \<leftarrow> get_req p (kt_args (kernelTaskQueue s i)) 4 s;
          (case (if 0 < sint (req ! 1) then findProcByPid (req ! 1) s1 else findProcByParent p s1) of
             None \<Rightarrow> waitpid_none i p req s1
           | Some child \<Rightarrow>
               if p_state (procs s1 child) \<noteq> PROC_STATE_ZOMBIE then waitpid_none i p req s1
               else do {
                 let s2 = set_state p PROC_STATE_RUN (set_state child PROC_STATE_NONE s1);
                 let req = req[1 := p_pid (procs s2 child)];
                 s3 \<leftarrow> put_req p (req ! 2) [p_retval (procs s2 child)] s2;
                 s4 \<leftarrow> put_req p (kt_args (kernelTaskQueue s3 i)) req s3;
                 Some (finish_task i s4) }) })"

definition close_files :: "nat \<Rightarrow> kst \<Rightarrow> kst option" where
  "close_files p s = forn 0 MAX_FILES_PER_PROC (\<lambda>j t.
     case p_openFiles (procs t p) j of
       None \<Rightarrow> Some t
     | Some f \<Rightarrow> do {
         t1 \<leftarrow> k_close f t;
         Some (proc_upd p (\<lambda>q. q\<lparr>p_openFiles := (p_openFiles q)(j := None)\<rparr>) t1) }) s"

definition do_kernel_task_exit :: "nat \<Rightarrow> kst \<Rightarrow> kst option" where
  "do_kernel_task_exit i s =
     (case findProcByPid (kt_callerPid (kernelTaskQueue s i)) s of
        None \<Rightarrow> Some (finish_task i s)
      | Some p \<Rightarrow> do {
          (req, s1) \<leftarrow> get_req p (kt_args (kernelTaskQueue s i)) 2 s;
          let s2 = finish_task i (proc_upd p (\<lambda>q. q\<lparr>p_retval := req ! 1, p_state := PROC_STATE_ZOMBIE\<rparr>) s1);
          if p_isThread (procs s2 p) = 0 then do {
            s3 \<leftarrow> close_files p s2;
            s4 \<leftarrow> freeProcessPages p s3;
            mmu_mark_selector (p_mmuSelector (procs s4 p)) 0 s4 }
          else Some s2 })"

definition run_task :: "dops \<Rightarrow> nat \<Rightarrow> kst \<Rightarrow> kst option" where
  "run_task dops i s =
     (let t = kt_type (kernelTaskQueue s i) in
      if t = KERNEL_TASK_FORK then do_kernel_task_fork i s
      else if t = KERNEL_TASK_EXECVE then do_kernel_task_execve dops i s
      else if t = KERNEL_TASK_EXIT then do_kernel_task_exit i s
      else if t = KERNEL_TASK_WAITPID then do_kernel_task_waitpid i s
      else if t = KERNEL_TASK_CLONE then do_kernel_task_clone i s
      else Some s)"

section \<open>Serving the wait queue\<close>

definition processWaitQEntry :: "dops \<Rightarrow> nat \<Rightarrow> kst \<Rightarrow> kst option" where
  "processWaitQEntry dops e s = do {
     p \<leftarrow> findProcByPid (wq_pid (waitq s e)) s;
     if wq_type (waitq s e) = WAITQ_TYPE_FILE then do {
       let s1 = set_state p PROC_STATE_RUN s;
       let w = waitq s1 e;
       (r, s2) \<leftarrow> (if wq_params w 3 \<noteq> 0
         then try_k_write dops (wq_fd w) (wq_params w 1) (wq_params w 2) (p_pid (procs s1 p)) (wq_scallStruct w) s1
         else try_k_read dops (wq_fd w) (wq_params w 1) (wq_params w 2) (p_pid (procs s1 p)) (wq_scallStruct w) s1);
       Some s2 }
     else Some s }"

text \<open>The loop over the waiters of one notification; \<open>e\<close> is the loop's pointer into the table.\<close>

partial_function (option) serve_waiters :: "dops \<Rightarrow> u16 \<Rightarrow> nat option \<Rightarrow> kst \<Rightarrow> (nat option \<times> kst) option" where
  "serve_waiters dops what e s =
     (let (found, k) = waitqGetNextWaiter what e s in
      if found then do {
        s1 \<leftarrow> processWaitQEntry dops k s;
        serve_waiters dops what (Some k) (wq_upd k (wq_type_update (\<lambda>_. WAITQ_TYPE_NONE)) s1) }
      else Some (Some k, s))"

partial_function (option) serve_pending :: "dops \<Rightarrow> nat option \<Rightarrow> kst \<Rightarrow> kst option" where
  "serve_pending dops e s =
     (if cb_size (waitqPending s) \<noteq> 0 then do {
        let (what, cb) = cb_pop (waitqPending s);
        (e', s1) \<leftarrow> serve_waiters dops what e (s\<lparr>waitqPending := cb\<rparr>);
        serve_pending dops e' s1 }
      else Some s)"

definition processWaiting :: "dops \<Rightarrow> kst \<Rightarrow> kst option" where
  "processWaiting dops s = serve_pending dops None s"

definition kernel_worker_round :: "dops \<Rightarrow> kst \<Rightarrow> kst option" where
  "kernel_worker_round dops s = do {
     s1 \<leftarrow> processWaiting dops s;
     forn 0 MAX_QUEUE_SIZE (run_task dops) s1 }"

end
