(* ===== verification/Sys.thy ===== *)
theory Sys
  imports Worker
begin

text \<open>
  System calls and start-up: the handlers of \<^verbatim>\<open>sys_fs.c\<close> and \<^verbatim>\<open>sys_proc.c\<close>, the dispatch of
  \<^verbatim>\<open>sys.c\<close> and the boot sequence of \<^verbatim>\<open>kernel_main.c\<close>.  A request structure in user memory is read as a
  list of words whose first is the call number; the handler stores its results in it and writes it
  back.  The handlers run on behalf of \<^verbatim>\<open>cProc\<close>.
\<close>

section \<open>Request structures, user strings and descriptors\<close>

definition cur_req :: "u16 \<Rightarrow> nat \<Rightarrow> kst \<Rightarrow> (nat \<times> u16 list \<times> kst) option" where
  "cur_req scall n s = do {
     c \<leftarrow> cProc s;
     (req, s1) \<leftarrow> get_req c scall n s;
     Some (c, req, s1) }"

text \<open>A string copied into an uninitialised kernel buffer of \<open>n\<close> words.\<close>

definition user_string :: "nat \<Rightarrow> u16 \<Rightarrow> nat \<Rightarrow> kst \<Rightarrow> (u16 list \<times> kst) option" where
  "user_string c addr n s = do {
     (ws, s1) \<leftarrow> ugets c addr 0 14 n True s;
     Some (ws @ slice (uninit s1) 0 (n - length ws), s1) }"

text \<open>The descriptor table of the caller; an index outside it is not checked by the code.\<close>

definition fd_get :: "nat \<Rightarrow> u16 \<Rightarrow> kst \<Rightarrow> nat option option" where
  "fd_get c fd s = do {
     require (unat fd < MAX_FILES_PER_PROC);
     Some (p_openFiles (procs s c) (unat fd)) }"

definition fd_set :: "nat \<Rightarrow> nat \<Rightarrow> nat option \<Rightarrow> kst \<Rightarrow> kst" where
  "fd_set c fd f = proc_upd c (\<lambda>q. q\<lparr>p_openFiles := (p_openFiles q)(fd := f)\<rparr>)"

definition free_fd :: "nat \<Rightarrow> nat \<Rightarrow> kst \<Rightarrow> nat option" where
  "free_fd c from s = scan (\<lambda>fd. p_openFiles (procs s c) fd = None) from (MAX_FILES_PER_PROC - from)"

section \<open>File system calls\<close>

definition sys_sync :: "dops \<Rightarrow> u16 \<Rightarrow> kst \<Rightarrow> kst option" where
  "sys_sync dops scall s = block_sync dops s"

definition sys_write :: "dops \<Rightarrow> u16 \<Rightarrow> kst \<Rightarrow> kst option" where
  "sys_write dops scall s = do {
     (c, req, s1) \<leftarrow> cur_req scall 4 s;
     f \<leftarrow> fd_get c (req ! 1) s1;
     fd \<leftarrow> f;
     (r, s2) \<leftarrow> try_k_write dops fd (req ! 3) (req ! 2) (p_pid (procs s1 c)) scall s1;
     Some s2 }"

definition sys_read :: "dops \<Rightarrow> u16 \<Rightarrow> kst \<Rightarrow> kst option" where
  "sys_read dops scall s = do {
     (c, req, s1) \<leftarrow> cur_req scall 4 s;
     f \<leftarrow> fd_get c (req ! 1) s1;
     fd \<leftarrow> f;
     (r, s2) \<leftarrow> try_k_read dops fd (req ! 3) (req ! 2) (p_pid (procs s1 c)) scall s1;
     Some s2 }"

definition sys_mount :: "dops \<Rightarrow> u16 \<Rightarrow> kst \<Rightarrow> kst option" where
  "sys_mount dops scall s = do {
     (c, req, s1) \<leftarrow> cur_req scall 5 s;
     (dev_path, s2) \<leftarrow> user_string c (req ! 1) 512 s1;
     (mount_point_path, s3) \<leftarrow> user_string c (req ! 2) 512 s2;
     (res, s4) \<leftarrow> k_mount dops dev_path mount_point_path s3;
     put_req c scall (req[4 := res]) s4 }"

definition sys_umount :: "dops \<Rightarrow> u16 \<Rightarrow> kst \<Rightarrow> kst option" where
  "sys_umount dops scall s = do {
     (c, req, s1) \<leftarrow> cur_req scall 3 s;
     (mount_point_path, s2) \<leftarrow> user_string c (req ! 1) 512 s1;
     (res, s3) \<leftarrow> k_umount dops mount_point_path s2;
     put_req c scall (req[2 := res]) s3 }"

definition sys_mkdir :: "dops \<Rightarrow> u16 \<Rightarrow> kst \<Rightarrow> kst option" where
  "sys_mkdir dops scall s = do {
     (c, req, s1) \<leftarrow> cur_req scall 3 s;
     (path, s2) \<leftarrow> user_string c (req ! 1) 1024 s1;
     (res, s3) \<leftarrow> k_mkdir dops path s2;
     put_req c scall (req[2 := res]) s3 }"

definition sys_mkfifo :: "dops \<Rightarrow> u16 \<Rightarrow> kst \<Rightarrow> kst option" where
  "sys_mkfifo dops scall s = do {
     (c, req, s1) \<leftarrow> cur_req scall 3 s;
     (path, s2) \<leftarrow> user_string c (req ! 1) 1024 s1;
     (res, path', s3) \<leftarrow> k_mkfifo dops path s2;
     put_req c scall (req[2 := res]) s3 }"

text \<open>\<^verbatim>\<open>sys_mknod\<close> picks the type before the request is fetched.\<close>

definition sys_mknod :: "dops \<Rightarrow> u16 \<Rightarrow> kst \<Rightarrow> kst option" where
  "sys_mknod dops scall s = do {
     let mode = uninit s 2;
     let type = (if mode AND S_IFCHR \<noteq> 0 then 99 else if mode AND S_IFBLK \<noteq> 0 then 98 else uninit s 6);
     (c, req, s1) \<leftarrow> cur_req scall 6 s;
     (path, s2) \<leftarrow> user_string c (req ! 1) 1024 s1;
     (res, s3) \<leftarrow> k_mknod dops path type (req ! 3) (req ! 4) s2;
     put_req c scall (req[5 := res]) s3 }"

definition sys_pipe :: "dops \<Rightarrow> u16 \<Rightarrow> kst \<Rightarrow> kst option" where
  "sys_pipe dops scall s = do {
     (c, req, s1) \<leftarrow> cur_req scall 3 s;
     (rv, newPath, s2) \<leftarrow> k_mkfifo dops ((slice (uninit s1) 0 100)[0 := 0]) s1;
     (req1, from, s3) \<leftarrow> (case free_fd c 0 s2 of
          Some fd \<Rightarrow> do {
            (f, t) \<leftarrow> k_open dops newPath O_WRONLY s2;
            Some (req[2 := of_nat fd], fd, fd_set c fd f t) }
        | None \<Rightarrow> Some (req, MAX_FILES_PER_PROC, s2));
     (req2, s4) \<leftarrow> (case free_fd c from s3 of
          Some fd \<Rightarrow> do {
            (f, t) \<leftarrow> k_open dops newPath O_RDONLY s3;
            Some (req1[1 := of_nat fd], fd_set c fd f t) }
        | None \<Rightarrow> Some (req1, s3));
     put_req c scall req2 s4 }"

definition sys_unlink :: "dops \<Rightarrow> u16 \<Rightarrow> kst \<Rightarrow> kst option" where
  "sys_unlink dops scall s = do {
     (c, req, s1) \<leftarrow> cur_req scall 3 s;
     (path, s2) \<leftarrow> user_string c (req ! 1) 1024 s1;
     (rv, st, s3) \<leftarrow> k_stat dops path s2;
     (res, s4) \<leftarrow> (if S_ISDIR (st ! 2) then Some (- 1, s3) else k_unlink dops path s3);
     put_req c scall (req[2 := res]) s4 }"

definition sys_stat :: "dops \<Rightarrow> u16 \<Rightarrow> kst \<Rightarrow> kst option" where
  "sys_stat dops scall s = do {
     (c, req, s1) \<leftarrow> cur_req scall 3 s;
     (fname, s2) \<leftarrow> user_string c (req ! 1) 1024 s1;
     (rv, st, s3) \<leftarrow> k_stat dops fname s2;
     s4 \<leftarrow> put_req c (req ! 2) st s3;
     put_req c scall req s4 }"

definition sys_ioctl :: "dops \<Rightarrow> u16 \<Rightarrow> kst \<Rightarrow> kst option" where
  "sys_ioctl dops scall s = do {
     (c, req, s1) \<leftarrow> cur_req scall 5 s;
     (buf, s2) \<leftarrow> ugets c (req ! 4) 0 14 1024 False s1;
     f \<leftarrow> fd_get c (req ! 1) s2;
     fd \<leftarrow> f;
     (retval, sz, s3) \<leftarrow> k_ioctl dops fd (req ! 2) buf s2;
     s4 \<leftarrow> (if sz \<noteq> 0 then do {
              require (sz \<le> 12);
              put_req c (req ! 4) (slice (uninit s3) 0 sz) s3 }
            else Some s3);
     put_req c scall (req[3 := retval]) s4 }"

definition sys_fstat :: "dops \<Rightarrow> u16 \<Rightarrow> kst \<Rightarrow> kst option" where
  "sys_fstat dops scall s = do {
     (c, req, s1) \<leftarrow> cur_req scall 3 s;
     f \<leftarrow> fd_get c (req ! 1) s1;
     fd \<leftarrow> f;
     (st, s2) \<leftarrow> fs_stat dops (f_node (file_at fd s1)) s1;
     s3 \<leftarrow> put_req c (req ! 2) (stat_words st) s2;
     put_req c scall req s3 }"

definition sys_open :: "dops \<Rightarrow> u16 \<Rightarrow> kst \<Rightarrow> kst option" where
  "sys_open dops scall s = do {
     (c, req, s1) \<leftarrow> cur_req scall 3 s;
     (fname, s2) \<leftarrow> user_string c (req ! 1) 1024 s1;
     (req1, s3) \<leftarrow> (case free_fd c 0 s2 of
          Some fd \<Rightarrow> do {
            (f, t) \<leftarrow> k_open dops fname (req ! 2) s2;
            Some (req[2 := of_nat fd], fd_set c fd f t) }
        | None \<Rightarrow> Some (req[2 := - 1], s2));
     put_req c scall req1 s3 }"

definition sys_close :: "u16 \<Rightarrow> kst \<Rightarrow> kst option" where
  "sys_close scall s = do {
     (c, req, s1) \<leftarrow> cur_req scall 2 s;
     let fd = req ! 1;
     (res, s2) \<leftarrow> (if 0 \<le> sint fd \<and> sint fd < 15 then
         (case p_openFiles (procs s1 c) (unat fd) of
            Some f \<Rightarrow> do { t \<leftarrow> k_close f s1; Some (0, fd_set c (unat fd) None t) }
          | None \<Rightarrow> Some (- 1, s1))
       else Some (- 1, s1));
     put_req c scall (req[1 := res]) s2 }"

definition sys_dup :: "u16 \<Rightarrow> kst \<Rightarrow> kst option" where
  "sys_dup scall s = do {
     (c, req, s1) \<leftarrow> cur_req scall 3 s;
     f \<leftarrow> fd_get c (req ! 1) s1;
     (res, s2) \<leftarrow> (case f of
          None \<Rightarrow> Some (- 1, s1)
        | Some old \<Rightarrow>
            (case free_fd c 0 s1 of
               Some fd \<Rightarrow> Some (of_nat fd, file_upd old (f_refcnt_update (\<lambda>r. r + 1)) (fd_set c fd (Some old) s1))
             | None \<Rightarrow> Some (- 1, s1)));
     put_req c scall (req[2 := res]) s2 }"

definition sys_dup2 :: "u16 \<Rightarrow> kst \<Rightarrow> kst option" where
  "sys_dup2 scall s = do {
     (c, req, s1) \<leftarrow> cur_req scall 4 s;
     let oldfd = req ! 1;
     let newfd = req ! 2;
     f \<leftarrow> fd_get c oldfd s1;
     (res, s2) \<leftarrow> (case f of
          None \<Rightarrow> Some (- 1, s1)
        | Some old \<Rightarrow>
            if sint newfd < 0 \<or> 15 < sint newfd then Some (- 1, s1)
            else if oldfd = newfd then Some (newfd, s1)
            else do {
              g \<leftarrow> fd_get c newfd s1;
              s2 \<leftarrow> (case g of Some f' \<Rightarrow> k_close f' s1 | None \<Rightarrow> Some s1);
              h \<leftarrow> fd_get c oldfd s2;
              old' \<leftarrow> h;
              Some (uninit s2 0, file_upd old' (f_refcnt_update (\<lambda>r. r + 1)) (fd_set c (unat oldfd) (Some old') s2)) });
     put_req c scall (req[3 := res]) s2 }"

section \<open>Process calls\<close>

definition sys_regrpc :: "u16 \<Rightarrow> kst \<Rightarrow> kst option" where
  "sys_regrpc scall s = do {
     (c, req, s1) \<leftarrow> cur_req scall 4 s;
     s2 \<leftarrow> k_regExternalDeviceCallback c (req ! 2) (req ! 1) (req ! 3) s1;
     put_req c scall req s2 }"

definition sys_kill :: "u16 \<Rightarrow> kst \<Rightarrow> kst option" where
  "sys_kill scall s = do {
     (c, req, s1) \<leftarrow> cur_req scall 3 s;
     s2 \<leftarrow> sendSig (req ! 1) (req ! 2) s1;
     put_req c scall req s2 }"

definition sys_chdir :: "dops \<Rightarrow> u16 \<Rightarrow> kst \<Rightarrow> kst option" where
  "sys_chdir dops scall s = do {
     (c, req, s1) \<leftarrow> cur_req scall 3 s;
     (path, s2) \<leftarrow> user_string c (req ! 1) 1024 s1;
     (rv, st, s3) \<leftarrow> k_stat dops path s2;
     let (res, s4) = (if S_ISDIR (st ! 2)
       then (0, proc_upd c (p_cwd_update (\<lambda>_. \<lparr>fn_dev = st ! 0, fn_idx = st ! 1\<rparr>)) s3)
       else (- 1, s3));
     put_req c scall (req[2 := res]) s4 }"

text \<open>The calls that hand the request to the kernel worker and give up the processor.\<close>

definition defer_to_worker :: "u16 \<Rightarrow> u16 \<Rightarrow> kst \<Rightarrow> kst option" where
  "defer_to_worker task scall s = do {
     c \<leftarrow> cProc s;
     resched System_interrupt_stack
       (set_state c PROC_STATE_KWORKER (addKernelTask task (p_pid (procs s c)) scall s)) }"

definition sys_fork :: "u16 \<Rightarrow> kst \<Rightarrow> kst option" where
  "sys_fork scall s = defer_to_worker KERNEL_TASK_FORK scall s"

definition sys_clone :: "u16 \<Rightarrow> kst \<Rightarrow> kst option" where
  "sys_clone scall s = defer_to_worker KERNEL_TASK_CLONE scall s"

definition sys_execve :: "u16 \<Rightarrow> kst \<Rightarrow> kst option" where
  "sys_execve scall s = defer_to_worker KERNEL_TASK_EXECVE scall s"

definition sys_waitpid :: "u16 \<Rightarrow> kst \<Rightarrow> kst option" where
  "sys_waitpid scall s = defer_to_worker KERNEL_TASK_WAITPID scall s"

definition sys_exit :: "u16 \<Rightarrow> kst \<Rightarrow> kst option" where
  "sys_exit scall s = defer_to_worker KERNEL_TASK_EXIT scall s"

definition sys_yield :: "u16 \<Rightarrow> kst \<Rightarrow> kst option" where
  "sys_yield scall s = resched System_interrupt_stack s"

section \<open>Dispatch\<close>

definition sys_none :: "u16 \<Rightarrow> kst \<Rightarrow> kst option" where
  "sys_none scall s = do { c \<leftarrow> cProc s; (id, s1) \<leftarrow> ugetc c scall 0 14 s; Some s1 }"

definition sys_table :: "dops \<Rightarrow> nat \<Rightarrow> u16 \<Rightarrow> kst \<Rightarrow> kst option" where
  "sys_table dops n =
     (if n = 1 then sys_exit else if n = 2 then sys_fork else if n = 3 then sys_read dops
      else if n = 4 then sys_write dops else if n = 5 then sys_open dops else if n = 6 then sys_close
      else if n = 7 then sys_waitpid else if n = 10 then sys_unlink dops else if n = 11 then sys_execve
      else if n = 12 then sys_chdir dops else if n = 14 then sys_mknod dops else if n = 18 then sys_stat dops
      else if n = 21 then sys_mount dops else if n = 22 then sys_umount dops
      else if n = 28 then sys_fstat dops else if n = 36 then sys_sync dops else if n = 37 then sys_kill
      else if n = 39 then sys_mkdir dops else if n = 41 then sys_dup else if n = 42 then sys_pipe dops
      else if n = 54 then sys_ioctl dops else if n = 63 then sys_dup2 else if n = 67 then sys_clone
      else if n = 68 then sys_mkfifo dops else if n = 69 then sys_yield else if n = 70 then sys_regrpc
      else sys_none)"

definition system_interrupt :: "dops \<Rightarrow> kst \<Rightarrow> kst option" where
  "system_interrupt dops s = do {
     let fr = frame_at (system_interrupt_stack s);
     c \<leftarrow> cProc s;
     (scall, s1) \<leftarrow> ugetc c (fr_AP fr) 0 14 s;
     (scall_id, s2) \<leftarrow> ugetc c scall 0 14 s1;
     if 0 \<le> sint scall_id \<and> sint scall_id < 71 then sys_table dops (unat scall_id) scall s2
     else sys_none scall s2 }"

definition decoder_interrupt :: "kst \<Rightarrow> kst option" where
  "decoder_interrupt s = do {
     c \<leftarrow> cProc s;
     s1 \<leftarrow> sendSig (p_pid (procs s c)) (of_nat SIGKILL) s;
     resched Decoder_stack s1 }"

section \<open>Boot\<close>

definition piper_init :: "dops \<Rightarrow> kst \<Rightarrow> kst option" where
  "piper_init dops s = do {
     (rv, s1) \<leftarrow> k_mkdir dops (literal ''/tmp'' s) s;
     Some (piper_init_pipes s1) }"

definition mk_dev :: "dops \<Rightarrow> string \<Rightarrow> u16 \<Rightarrow> u16 \<Rightarrow> u16 \<Rightarrow> kst \<Rightarrow> kst option" where
  "mk_dev dops path type major minor s = do {
     (rv, s1) \<leftarrow> k_mknod dops (literal path s) type major minor s;
     Some s1 }"

definition init_interrupts :: "(nat \<Rightarrow> u16) \<Rightarrow> kst \<Rightarrow> kst" where
  "init_interrupts vector s =
     outb 0x20 (vector 0) (outb 0x23 (vector 3) (outb 0x27 (vector 7) (outb 0x24 (vector 4)
       (outb 0x25 (vector 5) (outb 0x26 (vector 6) s)))))"

definition register_devices :: "kst \<Rightarrow> kst" where
  "register_devices s =
     k_regDevice 7 None None None None (Some Loop_ioctl)
     (k_regDevice 6 (Some Zero_file_write) (Some Zero_file_read) None None None
     (k_regDevice 5 (Some Null_file_write) (Some Null_file_read) None None None
     (k_regDevice 4 (Some Sched_file_write) (Some Sched_file_read) None None None
     (k_regDevice 3 (Some Piper_write) (Some Piper_read) (Some Piper_open) (Some Piper_close) None
     (k_regDevice 2 (Some Proc_file_write) (Some Proc_file_read) None None None
     (k_regDevice 1 (Some Tty_write) (Some Tty_read) (Some Tty_open) (Some Tty_close) (Some Tty_ioctl)
     (k_regDevice 0 None None None None None s)))))))"

definition open_console :: "dops \<Rightarrow> nat \<Rightarrow> u16 \<Rightarrow> kst \<Rightarrow> kst option" where
  "open_console dops fd mode s = do {
     (f, s1) \<leftarrow> k_open dops (literal ''/dev/tty'' s) mode s;
     Some (fd_set 0 fd f s1) }"

text \<open>
  \<^verbatim>\<open>kernel_main\<close> up to the call of the kernel worker.  \<open>vector\<close> gives the addresses of the interrupt
  entries, \<open>req\<close> the address of the exec request on the kernel's stack, both chosen by the linker.
\<close>

definition kernel_main :: "dops \<Rightarrow> (nat \<Rightarrow> u16) \<Rightarrow> u16 \<Rightarrow> kst \<Rightarrow> kst option" where
  "kernel_main dops vector req s0 = do {
     s1 \<leftarrow> ataInit 0 s0;
     s2 \<leftarrow> ataInit 1 s1;
     s3 \<leftarrow> regBlkDriver 0 Ata_driver (blkdrivers_init s2);
     s4 \<leftarrow> regBlkDriver (push_bit 8 7) Loop_driver s3;
     let s5 = sched_init (mmu_init (uart_init (fs_init (block_init s4))));
     s6 \<leftarrow> piper_init dops s5;
     s7 \<leftarrow> kernel_worker_init (waitq_init s6);
     let s8 = register_devices s7;
     (rv, s9) \<leftarrow> k_mkdir dops (literal ''/dev'' s8) s8;
     s10 \<leftarrow> mk_dev dops ''/dev/tty'' 99 1 0 s9;
     s11 \<leftarrow> mk_dev dops ''/dev/tty2'' 99 1 1 s10;
     s12 \<leftarrow> mk_dev dops ''/dev/proc'' 99 2 0 s11;
     s13 \<leftarrow> mk_dev dops ''/dev/schedctl'' 99 4 0 s12;
     s14 \<leftarrow> mk_dev dops ''/dev/null'' 99 5 0 s13;
     s15 \<leftarrow> mk_dev dops ''/dev/zero'' 99 6 0 s14;
     s16 \<leftarrow> mk_dev dops ''/dev/hda'' 98 0 0 s15;
     s17 \<leftarrow> mk_dev dops ''/dev/hdb'' 98 0 1 s16;
     s18 \<leftarrow> mk_dev dops ''/dev/loop'' 98 7 0 s17;
     let s19 = addKernelTask KERNEL_TASK_EXECVE 1 req (addKernelTask KERNEL_TASK_FORK 0 0 s18);
     s20 \<leftarrow> open_console dops 0 114 s19;
     s21 \<leftarrow> open_console dops 1 119 s20;
     s22 \<leftarrow> open_console dops 2 119 s21;
     Some (init_interrupts vector (sched_start s22)) }"

end
