(* ===== verification/Cache.thy ===== *)
theory Cache
  imports Blk
begin

text \<open>
  The block cache against the disks behind it.  \<open>cview\<close> is what a reader of the cache sees of a
  block, \<open>pins\<close> how many holders it has; \<open>cache_inv\<close> says that an entry not marked modified agrees
  with its disk and that no block is cached twice.  The driver's contract is the locale
  \<open>sector_driver\<close>; the theorems about \<open>bread\<close>, \<open>block_sync\<close> and \<open>bfree\<close> are proved in it once and
  interpreted on the ATA driver, under whose view they are restated for the file system.
\<close>

type_synonym disks = "nat \<Rightarrow> hdd"

definition cview :: "(disks \<Rightarrow> u16 \<Rightarrow> u16 \<Rightarrow> buf) \<Rightarrow> 'z blk_st_scheme \<Rightarrow> u16 \<Rightarrow> u16 \<Rightarrow> buf" where
  "cview stored s d n = (case cached s d n of Some i \<Rightarrow> trunc (b_data (blockCache s i))
     | None \<Rightarrow> stored (hw_hdd s) d n)"

definition pins :: "'z blk_st_scheme \<Rightarrow> u16 \<Rightarrow> u16 \<Rightarrow> u16" where
  "pins s d n = (case cached s d n of Some i \<Rightarrow> b_cnt (blockCache s i) | None \<Rightarrow> 0)"

definition pinned :: "'z blk_st_scheme \<Rightarrow> (u16 \<times> u16) set" where
  "pinned s = {(d, n). pins s d n \<noteq> 0}"

definition uniq :: "'z blk_st_scheme \<Rightarrow> bool" where
  "uniq s \<longleftrightarrow> (\<forall>i<16. \<forall>j<16. b_flags (blockCache s i) \<noteq> BLOCK_FREE \<and>
     b_flags (blockCache s j) \<noteq> BLOCK_FREE \<and> b_device (blockCache s i) = b_device (blockCache s j) \<and>
     b_n (blockCache s i) = b_n (blockCache s j) \<longrightarrow> i = j)"

definition entry_ok :: "(disks \<Rightarrow> u16 \<Rightarrow> u16 \<Rightarrow> buf) \<Rightarrow> (disks \<Rightarrow> u16 \<Rightarrow> u16 \<Rightarrow> bool) \<Rightarrow> disks \<Rightarrow>
    block \<Rightarrow> bool" where
  "entry_ok stored present h b \<longleftrightarrow> b_flags b = BLOCK_FREE \<or>
     present h (b_device b) (b_n b) \<and> (b_flags b = BLOCK_MODIFIED \<or>
       b_flags b = BLOCK_USED \<and> (b_cnt b = 0 \<longrightarrow> trunc (b_data b) = stored h (b_device b) (b_n b)))"

text \<open>Held blocks whose new contents have not been marked modified yet.\<close>

definition unmarked :: "(disks \<Rightarrow> u16 \<Rightarrow> u16 \<Rightarrow> buf) \<Rightarrow> 'z blk_st_scheme \<Rightarrow> (u16 \<times> u16) set" where
  "unmarked stored s = {(d, n). \<exists>i. cached s d n = Some i \<and> b_flags (blockCache s i) \<noteq> BLOCK_MODIFIED \<and>
     trunc (b_data (blockCache s i)) \<noteq> stored (hw_hdd s) d n}"

definition cache_inv :: "(disks \<Rightarrow> u16 \<Rightarrow> u16 \<Rightarrow> buf) \<Rightarrow> (disks \<Rightarrow> u16 \<Rightarrow> u16 \<Rightarrow> bool) \<Rightarrow>
    'z blk_st_scheme \<Rightarrow> bool" where
  "cache_inv stored present s \<longleftrightarrow> uniq s \<and> (\<forall>i<16. entry_ok stored present (hw_hdd s) (blockCache s i))"

definition served :: "(disks \<Rightarrow> u16 \<Rightarrow> u16 \<Rightarrow> bool) \<Rightarrow> (drvp \<Rightarrow> 'z blk_st_scheme iblkdriver) \<Rightarrow>
    'z blk_st_scheme iblkdriver \<Rightarrow> 'z blk_st_scheme \<Rightarrow> bool" where
  "served present dops D s \<longleftrightarrow>
     (\<forall>d n. present (hw_hdd s) d n \<longrightarrow> (\<exists>p. getBlkDriver d s = Some p \<and> dops p = D))"

text \<open>A step that only moves blocks between cache and disk.\<close>

definition cache_step :: "(disks \<Rightarrow> u16 \<Rightarrow> u16 \<Rightarrow> buf) \<Rightarrow> (disks \<Rightarrow> u16 \<Rightarrow> u16 \<Rightarrow> bool) \<Rightarrow>
    'z blk_st_scheme \<Rightarrow> 'z blk_st_scheme \<Rightarrow> bool" where
  "cache_step stored present s s' \<longleftrightarrow>
     s' = s\<lparr>hw_hdd := hw_hdd s', blockCache := blockCache s'\<rparr> \<and>
     cview stored s' = cview stored s \<and> present (hw_hdd s') = present (hw_hdd s) \<and> pins s' = pins s \<and>
     unmarked stored s' = unmarked stored s \<and>
     (\<forall>d n. pins s d n \<noteq> 0 \<longrightarrow> cached s' d n = cached s d n)"

section \<open>Looking a block up\<close>

lemma cached_SomeD:
  assumes "cached s d n = Some i"
  shows "i < 16" "b_flags (blockCache s i) \<noteq> BLOCK_FREE" "b_device (blockCache s i) = d"
    "b_n (blockCache s i) = n"
  using assms by (auto simp: cached_def scan_Some_iff simp del: scan_numeral)

lemma cached_None: "cached s d n = None \<longleftrightarrow> (\<forall>i<16. b_flags (blockCache s i) \<noteq> BLOCK_FREE \<longrightarrow>
    \<not> (b_device (blockCache s i) = d \<and> b_n (blockCache s i) = n))"
  unfolding cached_def scan_None by blast

lemma uniqD:
  "uniq s \<Longrightarrow> i < 16 \<Longrightarrow> j < 16 \<Longrightarrow> b_flags (blockCache s i) \<noteq> BLOCK_FREE \<Longrightarrow>
   b_flags (blockCache s j) \<noteq> BLOCK_FREE \<Longrightarrow> b_device (blockCache s i) = b_device (blockCache s j) \<Longrightarrow>
   b_n (blockCache s i) = b_n (blockCache s j) \<Longrightarrow> i = j"
  unfolding uniq_def by blast

lemma cached_eq:
  assumes "uniq s"
  shows "cached s d n = Some i \<longleftrightarrow> i < 16 \<and> b_flags (blockCache s i) \<noteq> BLOCK_FREE \<and>
    b_device (blockCache s i) = d \<and> b_n (blockCache s i) = n"
proof
  assume i: "i < 16 \<and> b_flags (blockCache s i) \<noteq> BLOCK_FREE \<and>
    b_device (blockCache s i) = d \<and> b_n (blockCache s i) = n"
  then obtain j where j: "cached s d n = Some j"
    using cached_None [of s d n] by (cases "cached s d n") blast+
  have "j = i" using cached_SomeD [OF j] i by (intro uniqD [OF assms]) auto
  with j show "cached s d n = Some i" by simp
qed (use cached_SomeD in blast)

lemma blk_upd_simps [simp]:
  "hw_hdd (blk_upd i f s) = hw_hdd s" "blkdrivers (blk_upd i f s) = blkdrivers s"
  "blockCache (blk_upd i f s) = (blockCache s)(i := f (blockCache s i))"
  by (simp_all add: blk_upd_def)

lemma getBlkDriver_cong: "blkdrivers s' = blkdrivers s \<Longrightarrow> getBlkDriver d s' = getBlkDriver d s"
  by (simp add: getBlkDriver_def getDriverEntry_def)

lemma served_cong:
  "served present dops D s \<Longrightarrow> blkdrivers s' = blkdrivers s \<Longrightarrow>
   present (hw_hdd s') = present (hw_hdd s) \<Longrightarrow> served present dops D s'"
  unfolding served_def using getBlkDriver_cong [of s' s] by simp

lemma cache_step_blkdrivers:
  assumes "cache_step stored present s s'"
  shows "blkdrivers s' = blkdrivers s"
proof -
  from assms have "s' = s\<lparr>hw_hdd := hw_hdd s', blockCache := blockCache s'\<rparr>"
    unfolding cache_step_def by blast
  from arg_cong [OF this, of blkdrivers] show ?thesis by simp
qed

section \<open>Changing one entry\<close>

lemma cached_keep:
  assumes "blockCache s' = (blockCache s)(i := b)" "b_flags b \<noteq> BLOCK_FREE"
    "b_flags (blockCache s i) \<noteq> BLOCK_FREE" "b_device b = b_device (blockCache s i)"
    "b_n b = b_n (blockCache s i)"
  shows "cached s' = cached s"
  unfolding cached_def using assms by (intro ext scan_cong) auto

lemma uniq_upd:
  assumes "blockCache s' = (blockCache s)(i := b)" "uniq s"
    and "\<And>j. j < 16 \<Longrightarrow> j \<noteq> i \<Longrightarrow> b_flags b \<noteq> BLOCK_FREE \<Longrightarrow> b_flags (blockCache s j) \<noteq> BLOCK_FREE \<Longrightarrow>
      b_device b = b_device (blockCache s j) \<Longrightarrow> b_n b = b_n (blockCache s j) \<Longrightarrow> False"
  shows "uniq s'"
  unfolding uniq_def
proof (intro allI impI, elim conjE)
  fix p q
  assume *: "p < 16" "q < 16" "b_flags (blockCache s' p) \<noteq> BLOCK_FREE"
    "b_flags (blockCache s' q) \<noteq> BLOCK_FREE" "b_device (blockCache s' p) = b_device (blockCache s' q)"
    "b_n (blockCache s' p) = b_n (blockCache s' q)"
  show "p = q"
  proof (cases "p = i")
    case True
    show ?thesis
    proof (rule ccontr)
      assume "p \<noteq> q"
      with True * assms(1) show False by (intro assms(3) [of q]) auto
    qed
  next
    case False
    show ?thesis
    proof (cases "q = i")
      case True
      with False * assms(1) have False by (intro assms(3) [of p]) auto
      then show ?thesis ..
    next
      case q: False
      with False * assms(1) show ?thesis by (intro uniqD [OF assms(2)]) auto
    qed
  qed
qed

lemma uniq_keep:
  assumes "blockCache s' = (blockCache s)(i := b)" "i < 16" "b_flags (blockCache s i) \<noteq> BLOCK_FREE"
    "b_device b = b_device (blockCache s i)" "b_n b = b_n (blockCache s i)" "uniq s"
  shows "uniq s'"
  using assms by (intro uniq_upd [OF assms(1,6)]) (metis uniqD)

lemma uniq_free:
  assumes "blockCache s' = (blockCache s)(i := b)" "b_flags b = BLOCK_FREE" "uniq s"
  shows "uniq s'"
  by (rule uniq_upd [OF assms(1,3)]) (simp add: assms(2))

lemma cached_free:
  assumes "blockCache s' = (blockCache s)(i := b)" "b_flags b = BLOCK_FREE" "uniq s"
  shows "cached s' d n = (if cached s d n = Some i then None else cached s d n)"
proof -
  have "cached s' d n = Some j \<longleftrightarrow> cached s d n = Some j \<and> j \<noteq> i" for j
    unfolding cached_eq [OF uniq_free [OF assms]] cached_eq [OF assms(3)] using assms(1,2) by auto
  then show ?thesis by (metis not_Some_eq option.inject)
qed

lemma uniq_fill:
  assumes "blockCache s' = (blockCache s)(i := b)" "cached s (b_device b) (b_n b) = None" "uniq s"
  shows "uniq s'"
  by (rule uniq_upd [OF assms(1,3)]) (metis assms(2) cached_None)

lemma cached_fill:
  assumes "blockCache s' = (blockCache s)(i := b)" "cached s (b_device b) (b_n b) = None" "uniq s"
    "i < 16" "b_flags (blockCache s i) = BLOCK_FREE" "b_flags b \<noteq> BLOCK_FREE"
  shows "cached s' d n = (if d = b_device b \<and> n = b_n b then Some i else cached s d n)"
proof -
  have "cached s' d n = Some j \<longleftrightarrow>
      (if d = b_device b \<and> n = b_n b then j = i else cached s d n = Some j)" for j
    unfolding cached_eq [OF uniq_fill [OF assms(1-3)]] cached_eq [OF assms(3)]
    using assms(2) [unfolded cached_None] assms(1,4,5,6) by auto
  then show ?thesis by (metis not_Some_eq option.inject)
qed

section \<open>Cache steps\<close>

lemma cache_step_refl [simp]: "cache_step stored present s s"
  by (simp add: cache_step_def)

lemma cache_step_trans:
  assumes "cache_step stored present s t" "cache_step stored present t u"
  shows "cache_step stored present s u"
proof -
  from assms(1) have t: "t = s\<lparr>hw_hdd := hw_hdd t, blockCache := blockCache t\<rparr>"
    unfolding cache_step_def by blast
  from assms(2) have "u = t\<lparr>hw_hdd := hw_hdd u, blockCache := blockCache u\<rparr>"
    unfolding cache_step_def by blast
  also have "\<dots> = s\<lparr>hw_hdd := hw_hdd u, blockCache := blockCache u\<rparr>"
    by (subst t) simp
  finally show ?thesis using assms unfolding cache_step_def by auto
qed

lemma cache_step_served:
  "cache_step stored present s s' \<Longrightarrow> served present dops D s \<Longrightarrow> served present dops D s'"
  using served_cong [of present dops D s s'] cache_step_blkdrivers [of stored present s s']
  by (simp add: cache_step_def)

lemma cache_invD:
  assumes "cache_inv stored present s" "i < 16" "b_flags (blockCache s i) \<noteq> BLOCK_FREE"
  shows "present (hw_hdd s) (b_device (blockCache s i)) (b_n (blockCache s i))"
    "b_flags (blockCache s i) \<noteq> BLOCK_MODIFIED \<Longrightarrow> b_cnt (blockCache s i) = 0 \<Longrightarrow>
     trunc (b_data (blockCache s i)) = stored (hw_hdd s) (b_device (blockCache s i)) (b_n (blockCache s i))"
  using assms unfolding cache_inv_def entry_ok_def by blast+

lemma cache_inv_uniq: "cache_inv stored present s \<Longrightarrow> uniq s"
  by (simp add: cache_inv_def)

text \<open>Dropping an unheld entry whose data the disk has.\<close>

lemma cache_evict:
  assumes inv: "cache_inv stored present s" and i: "i < 16"
    and cnt: "b_cnt (blockCache s i) = 0"
    and s': "s' = s\<lparr>hw_hdd := h, blockCache := (blockCache s)(i := b)\<rparr>" "b_flags b = BLOCK_FREE"
    and pres: "present h = present (hw_hdd s)"
    and data: "b_flags (blockCache s i) \<noteq> BLOCK_FREE \<Longrightarrow>
      stored h = (stored (hw_hdd s))(b_device (blockCache s i) := (stored (hw_hdd s) (b_device (blockCache s i)))
        (b_n (blockCache s i) := trunc (b_data (blockCache s i))))"
    and free: "b_flags (blockCache s i) = BLOCK_FREE \<Longrightarrow> stored h = stored (hw_hdd s)"
  shows "cache_inv stored present s'" "cache_step stored present s s'"
proof -
  have bc: "blockCache s' = (blockCache s)(i := b)" and hh: "hw_hdd s' = h" using s'(1) by simp_all
  have u: "uniq s" using inv by (rule cache_inv_uniq)
  have c: "cached s' d n = (if cached s d n = Some i then None else cached s d n)" for d n
    by (rule cached_free [OF bc s'(2) u])
  have other: "stored h d n = stored (hw_hdd s) d n" if "cached s d n \<noteq> Some i" for d n
    using that data free unfolding cached_eq [OF u] using i by (cases "b_flags (blockCache s i) = BLOCK_FREE") auto
  have self: "stored h d n = trunc (b_data (blockCache s i))" if "cached s d n = Some i" for d n
    using cached_SomeD [OF that] data by simp
  have "entry_ok stored present (hw_hdd s') (blockCache s' j)" if "j < 16" for j
  proof (cases "j = i \<or> b_flags (blockCache s j) = BLOCK_FREE")
    case True
    then show ?thesis using s' by (auto simp: entry_ok_def)
  next
    case False
    then have "cached s (b_device (blockCache s j)) (b_n (blockCache s j)) = Some j"
      using cached_eq [OF u] that by simp
    with False have "cached s (b_device (blockCache s j)) (b_n (blockCache s j)) \<noteq> Some i" by simp
    note o = other [OF this]
    have "entry_ok stored present (hw_hdd s) (blockCache s j)"
      using inv that unfolding cache_inv_def by blast
    with o False show ?thesis by (simp add: s'(1) entry_ok_def pres)
  qed
  then show "cache_inv stored present s'"
    using uniq_free [OF bc s'(2) u] by (simp add: cache_inv_def)
  have "cview stored s' d n = cview stored s d n" for d n
    using other [of d n] self [of d n]
    by (auto simp: cview_def c hh bc split: option.split)
  moreover have "pins s' d n = pins s d n" for d n
    using cnt by (auto simp: pins_def c bc split: option.split)
  moreover have "cached s' d n = cached s d n" if "pins s d n \<noteq> 0" for d n
    using that cnt by (auto simp: pins_def c split: option.splits)
  moreover have "unmarked stored s' = unmarked stored s"
  proof -
    have "(d, n) \<in> unmarked stored s' \<longleftrightarrow> (d, n) \<in> unmarked stored s" for d n
    proof (cases "cached s d n = Some i")
      case True
      note k = cached_SomeD [OF True]
      have "b_flags (blockCache s i) \<noteq> BLOCK_MODIFIED \<Longrightarrow>
          trunc (b_data (blockCache s i)) = stored (hw_hdd s) d n"
        using cache_invD(2) [OF inv i k(2) _ cnt] k(3,4) by simp
      with True show ?thesis by (auto simp: unmarked_def c)
    next
      case False
      then show ?thesis using other [OF False] by (auto simp: unmarked_def c bc hh)
    qed
    then show ?thesis by auto
  qed
  moreover have "s' = s\<lparr>hw_hdd := hw_hdd s', blockCache := blockCache s'\<rparr>"
    unfolding bc hh by (rule s'(1))
  ultimately show "cache_step stored present s s'"
    unfolding cache_step_def hh pres by (auto simp: fun_eq_iff)
qed

text \<open>What \<^verbatim>\<open>bread\<close> promises: entry \<open>i\<close> holds the block, held once more than before.\<close>

definition bread_post :: "(disks \<Rightarrow> u16 \<Rightarrow> u16 \<Rightarrow> buf) \<Rightarrow> (disks \<Rightarrow> u16 \<Rightarrow> u16 \<Rightarrow> bool) \<Rightarrow>
    'z blk_st_scheme \<Rightarrow> nat \<Rightarrow> u16 \<Rightarrow> u16 \<Rightarrow> 'z blk_st_scheme \<Rightarrow> bool" where
  "bread_post stored present s i d n s' \<longleftrightarrow>
     cache_inv stored present s' \<and> s' = s\<lparr>hw_hdd := hw_hdd s', blockCache := blockCache s'\<rparr> \<and>
     cached s' d n = Some i \<and> cview stored s' = cview stored s \<and>
     present (hw_hdd s') = present (hw_hdd s) \<and> unmarked stored s' = unmarked stored s \<and>
     pins s' = (pins s)(d := (pins s d)(n := pins s d n + 1)) \<and>
     (\<forall>d' n'. pins s d' n' \<noteq> 0 \<longrightarrow> cached s' d' n' = cached s d' n')"

lemma bread_post_step:
  assumes "cache_step stored present s t" "bread_post stored present t i d n s'"
  shows "bread_post stored present s i d n s'"
proof -
  from assms(1) have t: "t = s\<lparr>hw_hdd := hw_hdd t, blockCache := blockCache t\<rparr>"
    unfolding cache_step_def by blast
  from assms(2) have "s' = t\<lparr>hw_hdd := hw_hdd s', blockCache := blockCache s'\<rparr>"
    unfolding bread_post_def by blast
  also have "\<dots> = s\<lparr>hw_hdd := hw_hdd s', blockCache := blockCache s'\<rparr>"
    by (subst t) simp
  finally show ?thesis using assms unfolding bread_post_def cache_step_def by auto
qed

section \<open>The driver's contract\<close>

locale sector_driver =
  fixes D :: "'z blk_st_scheme iblkdriver"
    and stored :: "disks \<Rightarrow> u16 \<Rightarrow> u16 \<Rightarrow> buf"
    and present :: "disks \<Rightarrow> u16 \<Rightarrow> u16 \<Rightarrow> bool"
  assumes read_ok: "present (hw_hdd s) d n \<Longrightarrow> \<exists>b' h. drv_read D d n b s = Some (b', s\<lparr>hw_hdd := h\<rparr>) \<and>
      trunc b' = stored (hw_hdd s) d n \<and> stored h = stored (hw_hdd s) \<and> present h = present (hw_hdd s)"
    and write_ok: "present (hw_hdd s) d n \<Longrightarrow> \<exists>h. drv_write D d n b s = Some (s\<lparr>hw_hdd := h\<rparr>) \<and>
      stored h = (stored (hw_hdd s))(d := (stored (hw_hdd s) d)(n := trunc b)) \<and>
      present h = present (hw_hdd s)"
begin

lemma sync_entry:
  assumes inv: "cache_inv stored present s" and srv: "served present dops D s" and i: "i < 16"
  shows "\<exists>s'. block_sync_entry dops i s = Some s' \<and> cache_inv stored present s' \<and>
    cache_step stored present s s' \<and> (b_cnt (blockCache s i) = 0 \<longrightarrow> b_flags (blockCache s' i) = BLOCK_FREE) \<and>
    (\<forall>j. j \<noteq> i \<longrightarrow> blockCache s' j = blockCache s j) \<and> b_cnt (blockCache s' i) = b_cnt (blockCache s i)"
proof (cases "b_cnt (blockCache s i) = 0")
  case False
  with inv show ?thesis by (simp add: block_sync_entry_def)
next
  case True
  let ?b = "blockCache s i"
  show ?thesis
  proof (cases "b_flags ?b = BLOCK_MODIFIED")
    case True
    then have nf: "b_flags ?b \<noteq> BLOCK_FREE" by simp
    from cache_invD(1) [OF inv i nf] srv obtain p where
      p: "getBlkDriver (b_device ?b) s = Some p" "dops p = D" unfolding served_def by blast
    from write_ok [OF cache_invD(1) [OF inv i nf]] obtain h where
      h: "drv_write D (b_device ?b) (b_n ?b) (b_data ?b) s = Some (s\<lparr>hw_hdd := h\<rparr>)"
      "stored h = (stored (hw_hdd s))(b_device ?b := (stored (hw_hdd s) (b_device ?b))(b_n ?b := trunc (b_data ?b)))"
      "present h = present (hw_hdd s)" by blast
    let ?s' = "s\<lparr>hw_hdd := h, blockCache := (blockCache s)(i := ?b\<lparr>b_flags := BLOCK_FREE\<rparr>)\<rparr>"
    have "block_sync_entry dops i s = Some ?s'"
      using p h(1) True \<open>b_cnt ?b = 0\<close> by (simp add: block_sync_entry_def blk_upd_def)
    moreover have "cache_inv stored present ?s'" "cache_step stored present s ?s'"
      using cache_evict [OF inv i \<open>b_cnt ?b = 0\<close> refl _ h(3)] h(2) nf by auto
    ultimately show ?thesis by simp
  next
    case False
    let ?s' = "blk_upd i (b_flags_update (\<lambda>_. BLOCK_FREE)) s"
    have s': "?s' = s\<lparr>hw_hdd := hw_hdd s, blockCache := (blockCache s)(i := ?b\<lparr>b_flags := BLOCK_FREE\<rparr>)\<rparr>"
      by (simp add: blk_upd_def)
    have "block_sync_entry dops i s = Some ?s'"
      using False \<open>b_cnt ?b = 0\<close> by (simp add: block_sync_entry_def)
    moreover have "cache_inv stored present ?s'" "cache_step stored present s ?s'"
      using cache_evict [OF inv i \<open>b_cnt ?b = 0\<close> s'] cache_invD(2) [OF inv i _ False \<open>b_cnt ?b = 0\<close>] by auto
    ultimately show ?thesis by simp
  qed
qed

lemma block_sync_ok:
  assumes inv: "cache_inv stored present s" and srv: "served present dops D s"
  shows "\<exists>s'. block_sync dops s = Some s' \<and> cache_inv stored present s' \<and> cache_step stored present s s' \<and>
    (\<forall>i<16. b_cnt (blockCache s' i) = b_cnt (blockCache s i) \<and>
       (b_cnt (blockCache s i) = 0 \<longrightarrow> b_flags (blockCache s' i) = BLOCK_FREE))"
proof -
  let ?I = "\<lambda>m t. cache_inv stored present t \<and> cache_step stored present s t \<and>
    (\<forall>i. b_cnt (blockCache t i) = b_cnt (blockCache s i)) \<and>
    (\<forall>i<m. b_cnt (blockCache s i) = 0 \<longrightarrow> b_flags (blockCache t i) = BLOCK_FREE)"
  have "\<exists>s'. forn 0 16 (block_sync_entry dops) s = Some s' \<and> ?I (0 + 16) s'"
  proof (rule forn_rule)
    show "?I 0 s" using inv by simp
  next
    fix m t assume m: "m < 0 + 16" and I: "?I m t"
    from sync_entry [of t dops m] I m srv cache_step_served [of stored present s t dops D]
    obtain t' where t': "block_sync_entry dops m t = Some t'" "cache_inv stored present t'"
      "cache_step stored present t t'" "b_cnt (blockCache t m) = 0 \<longrightarrow> b_flags (blockCache t' m) = BLOCK_FREE"
      "\<And>j. j \<noteq> m \<Longrightarrow> blockCache t' j = blockCache t j" "b_cnt (blockCache t' m) = b_cnt (blockCache t m)"
      by auto
    have "b_cnt (blockCache t' j) = b_cnt (blockCache s j)" for j
      using t'(5,6) I by (cases "j = m") auto
    moreover have "b_flags (blockCache t' j) = BLOCK_FREE" if "j < Suc m" "b_cnt (blockCache s j) = 0" for j
      using that t'(4,5) I by (cases "j = m") auto
    ultimately have "?I (Suc m) t'"
      using t'(2) cache_step_trans [OF _ t'(3)] I by blast
    with t'(1) show "\<exists>t'. block_sync_entry dops m t = Some t' \<and> ?I (Suc m) t'" by blast
  qed
  then show ?thesis unfolding block_sync_def by auto
qed

text \<open>Reading a block into a free entry.\<close>

lemma fetch_ok:
  assumes inv: "cache_inv stored present s" and srv: "served present dops D s" and i: "i < 16"
    and fr: "b_flags (blockCache s i) = BLOCK_FREE" and nc: "cached s d n = None"
    and pr: "present (hw_hdd s) d n"
  shows "\<exists>s'. fetch dops i d n s = Some s' \<and> bread_post stored present s i d n s'"
proof -
  let ?s1 = "blk_upd i (\<lambda>b. b\<lparr>b_flags := BLOCK_USED, b_device := d, b_n := n, b_cnt := 1\<rparr>) s"
  from srv pr obtain p where "getBlkDriver d s = Some p" and p: "dops p = D"
    unfolding served_def by blast
  then have gp: "getBlkDriver d ?s1 = Some p" using getBlkDriver_cong [of ?s1 s] by simp
  from read_ok [of ?s1] pr obtain b' h where rd:
    "drv_read D d n (b_data (blockCache ?s1 i)) ?s1 = Some (b', ?s1\<lparr>hw_hdd := h\<rparr>)"
    "trunc b' = stored (hw_hdd s) d n" "stored h = stored (hw_hdd s)" "present h = present (hw_hdd s)"
    by fastforce
  let ?b = "(blockCache s i)\<lparr>b_flags := BLOCK_USED, b_device := d, b_n := n, b_cnt := 1, b_data := b'\<rparr>"
  let ?s' = "s\<lparr>hw_hdd := h, blockCache := (blockCache s)(i := ?b)\<rparr>"
  have ex: "fetch dops i d n s = Some ?s'"
    using gp p rd(1) by (simp add: fetch_def Let_def) (simp add: blk_upd_def)
  have bc: "blockCache ?s' = (blockCache s)(i := ?b)" by simp
  have u: "uniq s" using inv by (rule cache_inv_uniq)
  have nc': "cached s (b_device ?b) (b_n ?b) = None" using nc by simp
  have c: "cached ?s' d' n' = (if d' = d \<and> n' = n then Some i else cached s d' n')" for d' n'
    using cached_fill [OF bc nc' u i fr] by simp
  have "entry_ok stored present (hw_hdd ?s') (blockCache ?s' j)" if "j < 16" for j
  proof (cases "j = i")
    case True
    then show ?thesis using rd(2-4) pr by (simp add: entry_ok_def)
  next
    case False
    have "entry_ok stored present (hw_hdd s) (blockCache s j)"
      using inv that unfolding cache_inv_def by blast
    with False rd(3,4) show ?thesis by (simp add: entry_ok_def)
  qed
  then have "cache_inv stored present ?s'"
    using uniq_fill [OF bc nc' u] by (simp add: cache_inv_def)
  moreover have "cview stored ?s' d' n' = cview stored s d' n'" for d' n'
  proof (cases "d' = d \<and> n' = n")
    case True
    then show ?thesis using nc rd(2) by (simp add: cview_def c)
  next
    case False
    moreover have "j \<noteq> i" if "cached s d' n' = Some j" for j
      using cached_SomeD(2) [OF that] fr by auto
    ultimately show ?thesis using rd(3)
      by (auto simp: cview_def c split: option.split)
  qed
  moreover have "pins ?s' d' n' = (if d' = d \<and> n' = n then pins s d' n' + 1 else pins s d' n')" for d' n'
  proof (cases "d' = d \<and> n' = n")
    case True
    then show ?thesis using nc by (simp add: pins_def c)
  next
    case False
    moreover have "j \<noteq> i" if "cached s d' n' = Some j" for j
      using cached_SomeD(2) [OF that] fr by auto
    ultimately show ?thesis
      by (auto simp: pins_def c split: option.split)
  qed
  moreover have "cached ?s' d' n' = cached s d' n'" if "pins s d' n' \<noteq> 0" for d' n'
    using that nc by (auto simp: pins_def c split: option.splits)
  moreover have "unmarked stored ?s' = unmarked stored s"
  proof -
    have "(d', n') \<in> unmarked stored ?s' \<longleftrightarrow> (d', n') \<in> unmarked stored s" for d' n'
    proof (cases "d' = d \<and> n' = n")
      case True
      then show ?thesis using nc rd(2,3) by (simp add: unmarked_def c)
    next
      case False
      moreover have "j \<noteq> i" if "cached s d' n' = Some j" for j
        using cached_SomeD(2) [OF that] fr by auto
      ultimately show ?thesis using rd(3) by (auto simp: unmarked_def c)
    qed
    then show ?thesis by auto
  qed
  ultimately show ?thesis
    using ex rd(4) by (auto simp: bread_post_def c fun_eq_iff)
qed

lemma bread_hit:
  assumes inv: "cache_inv stored present s" and c: "cached s d n = Some i"
    and nowrap: "pins s d n + 1 \<noteq> 0"
  shows "bread_post stored present s i d n (blk_upd i (\<lambda>b. b\<lparr>b_cnt := b_cnt b + 1\<rparr>) s)"
proof -
  let ?b = "(blockCache s i)\<lparr>b_cnt := b_cnt (blockCache s i) + 1\<rparr>"
  let ?s' = "blk_upd i (\<lambda>b. b\<lparr>b_cnt := b_cnt b + 1\<rparr>) s"
  have bc: "blockCache ?s' = (blockCache s)(i := ?b)" by simp
  note u = cache_inv_uniq [OF inv]
  note cd = cached_SomeD [OF c]
  have nw: "b_cnt (blockCache s i) + 1 \<noteq> 0" using nowrap c by (simp add: pins_def)
  have c': "cached ?s' = cached s" using cached_keep [OF bc] cd by simp
  have j: "j \<noteq> i" if "cached s d' n' = Some j" "\<not> (d' = d \<and> n' = n)" for d' n' j
    using cached_SomeD [OF that(1)] cd that(2) by auto
  have "cache_inv stored present ?s'"
    using inv uniq_keep [OF bc cd(1,2) _ _ u] nw unfolding cache_inv_def by (auto simp: entry_ok_def)
  moreover have "cview stored ?s' = cview stored s"
    unfolding cview_def c' by (intro ext) (auto split: option.split)
  moreover have "pins ?s' d' n' = (if d' = d \<and> n' = n then pins s d' n' + 1 else pins s d' n')" for d' n'
    unfolding pins_def c' using c j by (auto split: option.split)
  moreover have "unmarked stored ?s' = unmarked stored s"
    unfolding unmarked_def c' by auto
  moreover have "?s' = s\<lparr>hw_hdd := hw_hdd ?s', blockCache := blockCache ?s'\<rparr>"
    by (simp add: blk_upd_def)
  ultimately show ?thesis
    unfolding bread_post_def c' using c by (auto simp: fun_eq_iff)
qed

lemma bread_ok:
  assumes inv: "cache_inv stored present s" and srv: "served present dops D s"
    and pr: "present (hw_hdd s) d n"
    and room: "pins s d n \<noteq> 0 \<or> (\<exists>i<16. b_flags (blockCache s i) = BLOCK_FREE \<or> b_cnt (blockCache s i) = 0)"
    and nowrap: "pins s d n + 1 \<noteq> 0"
  shows "\<exists>i s'. bread dops d n s = Some (i, s') \<and> bread_post stored present s i d n s'"
proof (cases "cached s d n")
  case (Some i)
  then show ?thesis using bread_hit [OF inv Some nowrap] by (subst bread.simps) simp
next
  case None
  show ?thesis
  proof (cases "free_entry s")
    case (Some i)
    then have "i < 16" "b_flags (blockCache s i) = BLOCK_FREE"
      by (auto simp: free_entry_def scan_Some_iff simp del: scan_numeral)
    from fetch_ok [OF inv srv this None pr] None Some show ?thesis
      by (subst bread.simps) auto
  next
    case full: None
    then have nf: "\<forall>i<16. b_flags (blockCache s i) \<noteq> BLOCK_FREE"
      by (auto simp: free_entry_def scan_None simp del: scan_numeral)
    from room None nf obtain k where k: "k < 16" "b_cnt (blockCache s k) = 0"
      by (auto simp: pins_def)
    from block_sync_ok [OF inv srv] obtain t where t: "block_sync dops s = Some t"
      "cache_inv stored present t" "cache_step stored present s t" "b_flags (blockCache t k) = BLOCK_FREE"
      using k by blast
    have "free_entry t \<noteq> None"
      using t(4) k(1) by (auto simp: free_entry_def scan_None simp del: scan_numeral)
    then obtain i where i: "free_entry t = Some i" by blast
    then have i': "i < 16" "b_flags (blockCache t i) = BLOCK_FREE"
      by (auto simp: free_entry_def scan_Some_iff simp del: scan_numeral)
    have prt: "present (hw_hdd t) d n" using t(3) pr by (simp add: cache_step_def)
    have "\<exists>i s'. bread dops d n t = Some (i, s') \<and> bread_post stored present t i d n s'"
    proof (cases "cached t d n")
      case (Some j)
      have "pins t d n + 1 \<noteq> 0" using t(3) nowrap by (simp add: cache_step_def)
      then show ?thesis using bread_hit [OF t(2) Some] Some by (subst bread.simps) simp
    next
      case nt: None
      from fetch_ok [OF t(2) cache_step_served [OF t(3) srv] i' nt prt] nt i show ?thesis
        by (subst bread.simps) auto
    qed
    then obtain j s' where "bread dops d n t = Some (j, s')" "bread_post stored present t j d n s'" by blast
    with None full t(1) bread_post_step [OF t(3)] show ?thesis
      by (subst bread.simps) auto
  qed
qed

end


section \<open>The cache over the ATA disks\<close>

interpretation ata: sector_driver ataGetDriver ata_stored ata_present
  by unfold_locales (rule ata_read_ok ata_write_ok, assumption)+

abbreviation bview :: "'z blk_st_scheme \<Rightarrow> u16 \<Rightarrow> u16 \<Rightarrow> buf" where
  "bview \<equiv> cview ata_stored"

abbreviation dirty :: "'z blk_st_scheme \<Rightarrow> (u16 \<times> u16) set" where
  "dirty \<equiv> unmarked ata_stored"

definition disk_ok :: "(drvp \<Rightarrow> 'z blk_st_scheme iblkdriver) \<Rightarrow> 'z blk_st_scheme \<Rightarrow> bool" where
  "disk_ok dops s \<longleftrightarrow> cache_inv ata_stored ata_present s \<and> served ata_present dops ataGetDriver s"

text \<open>There are entries for \<open>k\<close> more blocks to be held at once, and no count can overflow.\<close>

definition room :: "nat \<Rightarrow> 'z blk_st_scheme \<Rightarrow> bool" where
  "room k s \<longleftrightarrow> card (pinned s) + k \<le> 16 \<and> (\<forall>d n. unat (pins s d n) + k < 65536)"

text \<open>
  The effect of an operation on the cache: afterwards the blocks read as \<open>V\<close>, are held as \<open>P\<close> says,
  and only those in \<open>U\<close> may await marking; blocks held before and after have not moved, and
  nothing else of the state has changed.
\<close>

definition fx :: "(drvp \<Rightarrow> 'z blk_st_scheme iblkdriver) \<Rightarrow> 'z blk_st_scheme \<Rightarrow> 'z blk_st_scheme \<Rightarrow>
    (u16 \<Rightarrow> u16 \<Rightarrow> buf) \<Rightarrow> (u16 \<Rightarrow> u16 \<Rightarrow> u16) \<Rightarrow> (u16 \<times> u16) set \<Rightarrow> bool" where
  "fx dops s s' V P U \<longleftrightarrow>
     s' = s\<lparr>hw_hdd := hw_hdd s', blockCache := blockCache s'\<rparr> \<and> disk_ok dops s' \<and>
     bview s' = V \<and> pins s' = P \<and> dirty s' \<subseteq> U \<and> ata_present (hw_hdd s') = ata_present (hw_hdd s) \<and>
     (\<forall>d n. pins s d n \<noteq> 0 \<and> P d n \<noteq> 0 \<longrightarrow> cached s' d n = cached s d n)"

lemma fx_refl: "disk_ok dops s \<Longrightarrow> fx dops s s (bview s) (pins s) (dirty s)"
  by (simp add: fx_def)

lemma fx_trans:
  assumes "fx dops s t V P U" "fx dops t u V' P' U'"
    and "\<And>d n. pins s d n \<noteq> 0 \<Longrightarrow> P' d n \<noteq> 0 \<Longrightarrow> P d n \<noteq> 0"
  shows "fx dops s u V' P' U'"
proof -
  from assms(1) have t: "t = s\<lparr>hw_hdd := hw_hdd t, blockCache := blockCache t\<rparr>"
    unfolding fx_def by blast
  from assms(2) have "u = t\<lparr>hw_hdd := hw_hdd u, blockCache := blockCache u\<rparr>"
    unfolding fx_def by blast
  also have "\<dots> = s\<lparr>hw_hdd := hw_hdd u, blockCache := blockCache u\<rparr>"
    by (subst t) simp
  finally have u: "u = s\<lparr>hw_hdd := hw_hdd u, blockCache := blockCache u\<rparr>" .
  have "cached u d n = cached s d n" if "pins s d n \<noteq> 0" "P' d n \<noteq> 0" for d n
  proof -
    have "P d n \<noteq> 0" using assms(3) that by blast
    with that assms(1,2) show ?thesis unfolding fx_def by auto
  qed
  with u assms(1,2) show ?thesis unfolding fx_def by auto
qed

lemma fx_weaken: "fx dops s t V P U \<Longrightarrow> U \<subseteq> U' \<Longrightarrow> fx dops s t V P U'"
  unfolding fx_def by blast

lemma fxD:
  assumes "fx dops s s' V P U"
  shows "disk_ok dops s'" "bview s' = V" "pins s' = P" "dirty s' \<subseteq> U"
    "ata_present (hw_hdd s') = ata_present (hw_hdd s)"
    "s' = s\<lparr>hw_hdd := hw_hdd s', blockCache := blockCache s'\<rparr>"
    "\<And>d n. pins s d n \<noteq> 0 \<Longrightarrow> P d n \<noteq> 0 \<Longrightarrow> cached s' d n = cached s d n"
  using assms unfolding fx_def by auto

lemma finite_pinned [simp]: "finite (pinned s)"
proof -
  have "pinned s \<subseteq> (\<lambda>i. (b_device (blockCache s i), b_n (blockCache s i))) ` {..<16}"
  proof
    fix x assume "x \<in> pinned s"
    then obtain d n where x: "x = (d, n)" "pins s d n \<noteq> 0" by (auto simp: pinned_def)
    then obtain i where "cached s d n = Some i" by (auto simp: pins_def split: option.splits)
    from cached_SomeD [OF this] x show "x \<in> (\<lambda>i. (b_device (blockCache s i), b_n (blockCache s i))) ` {..<16}"
      by (intro image_eqI [of _ _ i]) auto
  qed
  then show ?thesis by (rule finite_subset) simp
qed

lemma room_entry:
  assumes "uniq s" "card (pinned s) < 16"
  shows "\<exists>i<16. b_flags (blockCache s i) = BLOCK_FREE \<or> b_cnt (blockCache s i) = 0"
proof (rule ccontr)
  let ?f = "\<lambda>i. (b_device (blockCache s i), b_n (blockCache s i))"
  assume "\<not> ?thesis"
  then have nf: "\<And>i. i < 16 \<Longrightarrow> b_flags (blockCache s i) \<noteq> BLOCK_FREE"
    and cnt: "\<And>i. i < 16 \<Longrightarrow> b_cnt (blockCache s i) \<noteq> 0" by blast+
  have "inj_on ?f {..<16}"
  proof (rule inj_onI)
    fix x y assume "x \<in> {..<16}" "y \<in> {..<16}" "?f x = ?f y"
    then have "x < 16" "y < 16" "b_device (blockCache s x) = b_device (blockCache s y)"
      "b_n (blockCache s x) = b_n (blockCache s y)" by simp_all
    then show "x = y" using uniqD [OF assms(1), of x y] nf by blast
  qed
  then have "card (?f ` {..<16}) = card {..<16 :: nat}" by (rule card_image)
  moreover
  have "?f ` {..<16} \<subseteq> pinned s"
  proof
    fix x assume "x \<in> ?f ` {..<16}"
    then obtain i where i: "i < 16" "x = ?f i" by blast
    have "cached s (b_device (blockCache s i)) (b_n (blockCache s i)) = Some i"
      unfolding cached_eq [OF assms(1)] using i(1) nf by blast
    then have "pins s (b_device (blockCache s i)) (b_n (blockCache s i)) \<noteq> 0"
      using cnt [OF i(1)] by (simp only: pins_def option.case not_False_eq_True)
    with i(2) show "x \<in> pinned s" by (simp add: pinned_def)
  qed
  then have "card (?f ` {..<16}) \<le> card (pinned s)" by (rule card_mono [OF finite_pinned])
  ultimately have "card {..<16 :: nat} \<le> card (pinned s)" by simp
  then have "16 \<le> card (pinned s)" by (simp only: card_lessThan)
  with assms(2) show False by linarith
qed

text \<open>Reading, releasing and changing a block.\<close>

definition pin_upd :: "u16 \<Rightarrow> u16 \<Rightarrow> (u16 \<Rightarrow> u16) \<Rightarrow> (u16 \<Rightarrow> u16 \<Rightarrow> u16) \<Rightarrow> u16 \<Rightarrow> u16 \<Rightarrow> u16" where
  "pin_upd d n f P = P(d := (P d)(n := f (P d n)))"

definition blk_put :: "u16 \<Rightarrow> u16 \<Rightarrow> buf \<Rightarrow> (u16 \<Rightarrow> u16 \<Rightarrow> buf) \<Rightarrow> u16 \<Rightarrow> u16 \<Rightarrow> buf" where
  "blk_put d n b V = V(d := (V d)(n := b))"

lemma pin_upd_apply: "pin_upd d n f P d' n' = (if d' = d \<and> n' = n then f (P d n) else P d' n')"
  by (simp add: pin_upd_def)

lemma blk_put_apply: "blk_put d n b V d' n' = (if d' = d \<and> n' = n then b else V d' n')"
  by (simp add: blk_put_def)

lemma fx_bread:
  assumes "disk_ok dops s" "ata_present (hw_hdd s) d n"
    "pins s d n \<noteq> 0 \<or> card (pinned s) < 16" "pins s d n + 1 \<noteq> 0"
  shows "\<exists>i s'. bread dops d n s = Some (i, s') \<and> cached s' d n = Some i \<and>
    fx dops s s' (bview s) (pin_upd d n (\<lambda>c. c + 1) (pins s)) (dirty s)"
proof -
  have inv: "cache_inv ata_stored ata_present s" and srv: "served ata_present dops ataGetDriver s"
    using assms(1) by (simp_all add: disk_ok_def)
  have "pins s d n \<noteq> 0 \<or> (\<exists>i<16. b_flags (blockCache s i) = BLOCK_FREE \<or> b_cnt (blockCache s i) = 0)"
    using assms(3) room_entry [OF cache_inv_uniq [OF inv]] by blast
  from ata.bread_ok [OF inv srv assms(2) this assms(4)]
  obtain i s' where r: "bread dops d n s = Some (i, s')" "bread_post ata_stored ata_present s i d n s'"
    by blast
  from r(2) have s': "s' = s\<lparr>hw_hdd := hw_hdd s', blockCache := blockCache s'\<rparr>"
    unfolding bread_post_def by blast
  have "blkdrivers s' = blkdrivers s" using arg_cong [OF s', of blkdrivers] by simp
  then have "served ata_present dops ataGetDriver s'"
    using r(2) srv served_cong [of ata_present dops ataGetDriver s s'] unfolding bread_post_def by simp
  with r(2) s' have "fx dops s s' (bview s) (pin_upd d n (\<lambda>c. c + 1) (pins s)) (dirty s)"
    unfolding fx_def bread_post_def disk_ok_def pin_upd_def by auto
  with r show ?thesis unfolding bread_post_def by blast
qed

text \<open>Updates of a held entry that leave its key and its being in use alone.\<close>

lemma fx_blk_upd:
  assumes ok: "disk_ok dops s" and c: "cached s d n = Some i"
    and key: "\<And>b. b_device (f b) = b_device b" "\<And>b. b_n (f b) = b_n b"
    and fl: "b_flags (f (blockCache s i)) = b_flags (blockCache s i) \<or>
      b_flags (f (blockCache s i)) = BLOCK_MODIFIED"
    and clean: "b_flags (f (blockCache s i)) \<noteq> BLOCK_MODIFIED \<Longrightarrow> b_cnt (f (blockCache s i)) = 0 \<Longrightarrow>
      trunc (b_data (f (blockCache s i))) = ata_stored (hw_hdd s) d n"
    and U: "dirty s - {(d, n)} \<subseteq> U"
      "b_flags (f (blockCache s i)) \<noteq> BLOCK_MODIFIED \<Longrightarrow>
       trunc (b_data (f (blockCache s i))) \<noteq> ata_stored (hw_hdd s) d n \<Longrightarrow> (d, n) \<in> U"
  shows "cached (blk_upd i f s) = cached s"
    "fx dops s (blk_upd i f s) (blk_put d n (trunc (b_data (f (blockCache s i)))) (bview s))
       (pin_upd d n (\<lambda>_. b_cnt (f (blockCache s i))) (pins s)) U"
proof -
  let ?s' = "blk_upd i f s" and ?b = "f (blockCache s i)"
  have inv: "cache_inv ata_stored ata_present s" and srv: "served ata_present dops ataGetDriver s"
    using ok by (simp_all add: disk_ok_def)
  note u = cache_inv_uniq [OF inv] and cd = cached_SomeD [OF c]
  have bc: "blockCache ?s' = (blockCache s)(i := ?b)" by simp
  have nf: "b_flags ?b \<noteq> BLOCK_FREE" using fl cd(2) by auto
  show c': "cached ?s' = cached s" using cached_keep [OF bc nf cd(2)] key by simp
  have j: "j \<noteq> i" if "cached s d' n' = Some j" "\<not> (d' = d \<and> n' = n)" for d' n' j
    using cached_SomeD [OF that(1)] cd that(2) by auto
  have old: "entry_ok ata_stored ata_present (hw_hdd s) (blockCache s j)" if "j < 16" for j
    using inv that unfolding cache_inv_def by blast
  have "entry_ok ata_stored ata_present (hw_hdd s) ?b"
    using old [OF cd(1)] clean fl nf cd(2-4) key unfolding entry_ok_def by auto
  then have "cache_inv ata_stored ata_present ?s'"
    using uniq_keep [OF bc cd(1,2) _ _ u] key old unfolding cache_inv_def by simp
  then have "disk_ok dops ?s'"
    using srv served_cong [of ata_present dops ataGetDriver s ?s'] by (simp add: disk_ok_def)
  moreover have "bview ?s' = blk_put d n (trunc (b_data ?b)) (bview s)"
    unfolding cview_def c' blk_put_def using c j by (intro ext) (auto split: option.split)
  moreover have "pins ?s' = pin_upd d n (\<lambda>_. b_cnt ?b) (pins s)"
    unfolding pins_def c' pin_upd_def using c j by (intro ext) (auto split: option.split)
  moreover have "dirty ?s' \<subseteq> U"
  proof
    fix x assume "x \<in> dirty ?s'"
    then obtain d' n' k where x: "x = (d', n')" "cached s d' n' = Some k"
      "b_flags (blockCache ?s' k) \<noteq> BLOCK_MODIFIED"
      "trunc (b_data (blockCache ?s' k)) \<noteq> ata_stored (hw_hdd s) d' n'"
      unfolding unmarked_def c' by auto
    show "x \<in> U"
    proof (cases "d' = d \<and> n' = n")
      case True
      with x c U(2) show ?thesis by simp
    next
      case False
      with x j [OF x(2)] have "x \<in> dirty s - {(d, n)}" unfolding unmarked_def by auto
      with U(1) show ?thesis by blast
    qed
  qed
  ultimately show "fx dops s ?s' (blk_put d n (trunc (b_data ?b)) (bview s))
      (pin_upd d n (\<lambda>_. b_cnt ?b) (pins s)) U"
    unfolding fx_def c' by (simp add: blk_upd_def)
qed

lemma bview_data: "cached s d n = Some i \<Longrightarrow> bview s d n = trunc (b_data (blockCache s i))"
  by (simp add: cview_def)

lemma pins_cnt: "cached s d n = Some i \<Longrightarrow> pins s d n = b_cnt (blockCache s i)"
  by (simp add: pins_def)

lemma pin_upd_id: "pin_upd d n (\<lambda>_. P d n) P = P"
  by (auto simp: pin_upd_def fun_eq_iff)

lemma blk_put_id: "blk_put d n (V d n) V = V"
  by (auto simp: blk_put_def fun_eq_iff)

lemma fx_bfree:
  assumes "disk_ok dops s" "cached s d n = Some i" "pins s d n = 1 \<Longrightarrow> (d, n) \<notin> dirty s"
  shows "cached (bfree i s) = cached s"
    "fx dops s (bfree i s) (bview s) (pin_upd d n (\<lambda>c. c - 1) (pins s)) (dirty s)"
proof -
  let ?f = "\<lambda>b. b\<lparr>b_cnt := b_cnt b - 1\<rparr>"
  have clean: "trunc (b_data (blockCache s i)) = ata_stored (hw_hdd s) d n"
    if "b_flags (blockCache s i) \<noteq> BLOCK_MODIFIED" "b_cnt (blockCache s i) - 1 = 0"
    using that assms(2,3) pins_cnt [OF assms(2)] by (auto simp: unmarked_def)
  have "(d, n) \<in> dirty s" if "b_flags (blockCache s i) \<noteq> BLOCK_MODIFIED"
    "trunc (b_data (blockCache s i)) \<noteq> ata_stored (hw_hdd s) d n"
    using that assms(2) by (auto simp: unmarked_def)
  then show "cached (bfree i s) = cached s"
    "fx dops s (bfree i s) (bview s) (pin_upd d n (\<lambda>c. c - 1) (pins s)) (dirty s)"
    using fx_blk_upd [OF assms(1,2), of ?f "dirty s"] clean
      bview_data [OF assms(2)] blk_put_id [of d n "bview s"] pins_cnt [OF assms(2)]
    unfolding bfree_def by (auto simp: pin_upd_def)
qed

lemma fx_data:
  assumes "disk_ok dops s" "cached s d n = Some i" "pins s d n \<noteq> 0"
  shows "cached (blk_upd i (\<lambda>b. b\<lparr>b_data := g (b_data b)\<rparr>) s) = cached s"
    "fx dops s (blk_upd i (\<lambda>b. b\<lparr>b_data := g (b_data b)\<rparr>) s)
       (blk_put d n (trunc (g (b_data (blockCache s i)))) (bview s)) (pins s) (insert (d, n) (dirty s))"
proof -
  have U: "dirty s - {(d, n)} \<subseteq> insert (d, n) (dirty s)" "(d, n) \<in> insert (d, n) (dirty s)" by auto
  have p: "pin_upd d n (\<lambda>_. b_cnt (blockCache s i)) (pins s) = pins s"
    using pins_cnt [OF assms(2)] pin_upd_id [of d n "pins s"] by simp
  have c: "b_cnt (blockCache s i) \<noteq> 0" using pins_cnt [OF assms(2)] assms(3) by simp
  show "cached (blk_upd i (\<lambda>b. b\<lparr>b_data := g (b_data b)\<rparr>) s) = cached s"
    "fx dops s (blk_upd i (\<lambda>b. b\<lparr>b_data := g (b_data b)\<rparr>) s)
       (blk_put d n (trunc (g (b_data (blockCache s i)))) (bview s)) (pins s) (insert (d, n) (dirty s))"
    using fx_blk_upd [OF assms(1,2), of "\<lambda>b. b\<lparr>b_data := g (b_data b)\<rparr>" "insert (d, n) (dirty s)"] c U p
    by auto
qed

lemma fx_mark:
  assumes "disk_ok dops s" "cached s d n = Some i"
  shows "cached (blk_upd i (b_flags_update (\<lambda>_. BLOCK_MODIFIED)) s) = cached s"
    "fx dops s (blk_upd i (b_flags_update (\<lambda>_. BLOCK_MODIFIED)) s) (bview s) (pins s) (dirty s - {(d, n)})"
proof -
  have p: "pin_upd d n (\<lambda>_. b_cnt (blockCache s i)) (pins s) = pins s"
    using pins_cnt [OF assms(2)] pin_upd_id [of d n "pins s"] by simp
  show "cached (blk_upd i (b_flags_update (\<lambda>_. BLOCK_MODIFIED)) s) = cached s"
    "fx dops s (blk_upd i (b_flags_update (\<lambda>_. BLOCK_MODIFIED)) s) (bview s) (pins s) (dirty s - {(d, n)})"
    using fx_blk_upd [OF assms, of "b_flags_update (\<lambda>_. BLOCK_MODIFIED)" "dirty s - {(d, n)}"] p
      bview_data [OF assms(2)] blk_put_id [of d n "bview s"] by auto
qed

text \<open>The state of a kernel that has registered the ATA driver and read nothing yet.\<close>

definition cold :: "disks \<Rightarrow> blk_st" where
  "cold h = \<lparr>hw_hdd = h, hw_rx = (\<lambda>_. []), hw_tx = (\<lambda>_. []), hw_gpio = [], hw_mmu = (\<lambda>_. 0),
     hw_vec = (\<lambda>_. 0), hw_ram = (\<lambda>_ _. 0),
     blkdrivers = (\<lambda>i. if i = 0 then \<lparr>bd_major = 0, bd_driver = Some Ata_driver\<rparr>
       else \<lparr>bd_major = BAD_MAJOR, bd_driver = None\<rparr>),
     blockCache = (\<lambda>_. \<lparr>b_flags = BLOCK_FREE, b_device = 0, b_n = 0, b_cnt = 0, b_data = (\<lambda>_. 0)\<rparr>)\<rparr>"

definition disk_of :: "nat \<Rightarrow> hdd" where
  "disk_of sectors = \<lparr>hd_data = (\<lambda>k. of_nat k), hd_bytes = sectors * 512, hd_sector = 0, hd_state = 0, hd_pos = 0\<rparr>"

lemma cold_simps [simp]:
  "hw_hdd (cold h) = h" "blockCache (cold h) i = \<lparr>b_flags = BLOCK_FREE, b_device = 0, b_n = 0, b_cnt = 0, b_data = (\<lambda>_. 0)\<rparr>"
  "cached (cold h) = (\<lambda>_ _. None)" "pins (cold h) = (\<lambda>_ _. 0)" "pinned (cold h) = {}"
  "dirty (cold h) = {}" "bview (cold h) = ata_stored h"
proof -
  show hd: "hw_hdd (cold h) = h"
    and "blockCache (cold h) i = \<lparr>b_flags = BLOCK_FREE, b_device = 0, b_n = 0, b_cnt = 0, b_data = (\<lambda>_. 0)\<rparr>"
    by (simp_all add: cold_def)
  show c: "cached (cold h) = (\<lambda>_ _. None)"
    by (intro ext) (simp add: cached_None cold_def)
  show "pins (cold h) = (\<lambda>_ _. 0)" "pinned (cold h) = {}" "dirty (cold h) = {}" "bview (cold h) = ata_stored h"
    by (auto simp: pins_def pinned_def unmarked_def cview_def c hd fun_eq_iff)
qed

lemma cold_ok [simp]: "disk_ok (\<lambda>_. ataGetDriver) (cold h)"
proof -
  have "getBlkDriver d (cold h) = Some Ata_driver" if "ata_present h d n" for d n
  proof -
    have "DEV_MAJOR d = 0" using that by (simp add: ata_present_def DEV_MAJOR_def)
    then show ?thesis by (simp add: getBlkDriver_def getDriverEntry_def cold_def)
  qed
  then show ?thesis
    by (auto simp: disk_ok_def cache_inv_def uniq_def entry_ok_def served_def)
qed

lemma disk_of_present [simp]:
  "unat d < 2 \<Longrightarrow> unat n < m \<Longrightarrow> ata_present (\<lambda>_. disk_of m) d n"
  by (simp add: ata_present_def hd_present_def disk_of_def)

section \<open>Properties of the cache\<close>

text \<open>
  C1. A read of a present block through the cache returns: an entry that holds the block's current
  contents (those of the cached copy if there is one, otherwise the disk's) with its hold count
  one higher, while every block keeps its contents and every held block its entry.  It needs a
  free entry, an entry nobody holds, or the block itself being held.
\<close>

theorem bread_returns_block:
  assumes "disk_ok dops s" "ata_present (hw_hdd s) d n"
    "pins s d n \<noteq> 0 \<or> card (pinned s) < 16" "pins s d n + 1 \<noteq> 0"
  shows "\<exists>i s'. bread dops d n s = Some (i, s') \<and>
    b_device (blockCache s' i) = d \<and> b_n (blockCache s' i) = n \<and>
    (\<forall>k<256. b_data (blockCache s' i) k = bview s d n k) \<and> bview s' = bview s \<and>
    pins s' = (pins s)(d := (pins s d)(n := pins s d n + 1)) \<and> disk_ok dops s' \<and>
    (\<forall>d' n'. pins s d' n' \<noteq> 0 \<longrightarrow> cached s' d' n' = cached s d' n')"
proof -
  from fx_bread [OF assms] obtain i s' where r: "bread dops d n s = Some (i, s')"
    "cached s' d n = Some i" "fx dops s s' (bview s) (pin_upd d n (\<lambda>c. c + 1) (pins s)) (dirty s)"
    by blast
  note f = fxD [OF r(3)]
  have "cached s' d' n' = cached s d' n'" if "pins s d' n' \<noteq> 0" for d' n'
    using f(7) [OF that] that assms(4) by (cases "d' = d \<and> n' = n") (auto simp: pin_upd_apply)
  moreover have "b_data (blockCache s' i) k = bview s d n k" if "k < 256" for k
    using bview_data [OF r(2)] f(2) that by simp
  ultimately show ?thesis
    using r(1) cached_SomeD [OF r(2)] f(1-3) by (auto simp: pin_upd_def)
qed

theorem bread_returns_block_witness:
  "\<exists>i s'. bread (\<lambda>_. ataGetDriver) 1 3 (cold (\<lambda>_. disk_of 8)) = Some (i, s') \<and>
     b_data (blockCache s' i) 0 = ata_stored (\<lambda>_. disk_of 8) 1 3 0"
proof -
  have "\<exists>i s'. bread (\<lambda>_. ataGetDriver) 1 3 (cold (\<lambda>_. disk_of 8)) = Some (i, s') \<and>
      (\<forall>k<256. b_data (blockCache s' i) k = bview (cold (\<lambda>_. disk_of 8)) 1 3 k)"
    using bread_returns_block [of "\<lambda>_. ataGetDriver" "cold (\<lambda>_. disk_of 8)" 1 3] by force
  then show ?thesis by auto
qed

text \<open>
  \<^verbatim>\<open>block_sync\<close> returns and changes the contents of no block; when no block is held, every block
  is afterwards on its disk with the contents the cache showed, modified ones included.
\<close>

lemma block_sync_flushes:
  assumes "disk_ok dops s"
  shows "\<exists>s'. block_sync dops s = Some s' \<and> disk_ok dops s' \<and> bview s' = bview s \<and> pins s' = pins s \<and>
    ata_present (hw_hdd s') = ata_present (hw_hdd s) \<and> (pinned s = {} \<longrightarrow> ata_stored (hw_hdd s') = bview s)"
proof -
  from assms have inv: "cache_inv ata_stored ata_present s" and srv: "served ata_present dops ataGetDriver s"
    by (simp_all add: disk_ok_def)
  from ata.block_sync_ok [OF inv srv] obtain s' where s': "block_sync dops s = Some s'"
    "cache_inv ata_stored ata_present s'" "cache_step ata_stored ata_present s s'"
    "\<And>i. i < 16 \<Longrightarrow> b_cnt (blockCache s' i) = b_cnt (blockCache s i)"
    "\<And>i. i < 16 \<Longrightarrow> b_cnt (blockCache s i) = 0 \<Longrightarrow> b_flags (blockCache s' i) = BLOCK_FREE" by blast
  have pins: "pins s' = pins s" and view: "bview s' = bview s" "ata_present (hw_hdd s') = ata_present (hw_hdd s)"
    using s'(3) by (simp_all add: cache_step_def)
  have "ata_stored (hw_hdd s') = bview s'" if "pinned s = {}"
  proof (intro ext)
    fix d n k
    have p: "pins s' d n = 0" using that pins by (auto simp: pinned_def)
    have "cached s' d n = None"
    proof (cases "cached s' d n")
      case (Some i)
      with p pins_cnt [OF Some] cached_SomeD [OF Some] s'(4,5) [of i] show ?thesis by simp
    qed
    then show "ata_stored (hw_hdd s') d n k = bview s' d n k" by (simp add: cview_def)
  qed
  then show ?thesis
    using s'(1,2) view pins cache_step_served [OF s'(3) srv] by (auto simp: disk_ok_def)
qed

definition all_held :: "'z blk_st_scheme \<Rightarrow> bool" where
  "all_held s \<longleftrightarrow> (\<forall>i<16. b_flags (blockCache s i) \<noteq> BLOCK_FREE \<and> b_cnt (blockCache s i) \<noteq> 0)"

lemma block_sync_all_held:
  assumes "all_held s"
  shows "block_sync dops s = Some s"
proof -
  have "\<exists>s'. forn 0 16 (block_sync_entry dops) s = Some s' \<and> (\<lambda>m t. t = s) (0 + 16) s'"
    using assms by (intro forn_rule) (auto simp: block_sync_entry_def Let_def all_held_def)
  then show ?thesis by (simp add: block_sync_def)
qed

lemma bread_stuck:
  assumes "bread dops d n s = Some r"
  shows "\<not> (all_held s \<and> cached s d n = None)"
proof (rule bread.raw_induct [OF _ assms, where P = "\<lambda>dops d n s r. \<not> (all_held s \<and> cached s d n = None)"])
  fix rec :: "(drvp \<Rightarrow> 'a blk_st_scheme iblkdriver) \<Rightarrow> u16 \<Rightarrow> u16 \<Rightarrow> 'a blk_st_scheme \<Rightarrow> (nat \<times> 'a blk_st_scheme) option"
    and dops d n s r
  assume ih: "\<And>dops d n s r. rec dops d n s = Some r \<Longrightarrow> \<not> (all_held s \<and> cached s d n = None)"
    and body: "(case cached s d n of
       Some i \<Rightarrow> Some (i, blk_upd i (\<lambda>b. b\<lparr>b_cnt := b_cnt b + 1\<rparr>) s)
     | None \<Rightarrow> (case free_entry s of
         Some i \<Rightarrow> do { s' \<leftarrow> fetch dops i d n s; Some (i, s') }
       | None \<Rightarrow> do { s' \<leftarrow> block_sync dops s; rec dops d n s' })) = Some r"
  show "\<not> (all_held s \<and> cached s d n = None)"
  proof
    assume h: "all_held s \<and> cached s d n = None"
    then have "free_entry s = None"
      by (auto simp: free_entry_def scan_None all_held_def simp del: scan_numeral)
    with h body block_sync_all_held [of s dops] have "rec dops d n s = Some r" by simp
    from ih [OF this] h show False by blast
  qed
qed

text \<open>
  C40. When all sixteen entries are held and none holds the requested block, \<^verbatim>\<open>bread\<close> never returns: it
  synchronises, finds every entry still held, and starts over.
\<close>

theorem bread_diverges_all_held:
  assumes "all_held s" "cached s d n = None"
  shows "bread dops d n s = None"
proof (cases "bread dops d n s")
  case (Some r)
  from bread_stuck [OF this] assms show ?thesis by blast
qed

theorem bread_diverges_all_held_witness:
  "bread (\<lambda>_. ataGetDriver) 0 99 ((cold (\<lambda>_. disk_of 100))\<lparr>blockCache := (\<lambda>i. \<lparr>b_flags = BLOCK_USED,
     b_device = 0, b_n = of_nat i, b_cnt = 1, b_data = (\<lambda>_. 0)\<rparr>)\<rparr>) = None"
proof (rule bread_diverges_all_held)
  let ?s = "(cold (\<lambda>_. disk_of 100))\<lparr>blockCache := (\<lambda>i. \<lparr>b_flags = BLOCK_USED,
     b_device = 0, b_n = of_nat i, b_cnt = 1, b_data = (\<lambda>_. 0)\<rparr>)\<rparr>"
  show "all_held ?s" by (simp add: all_held_def)
  have "(of_nat i :: u16) \<noteq> 99" if "i < 16" for i
  proof
    assume "(of_nat i :: u16) = 99"
    then have "unat (of_nat i :: u16) = unat (99 :: u16)" by simp
    with that show False by simp
  qed
  then show "cached ?s 0 99 = None" by (simp add: cached_None)
qed

end
