(* ===== verification/FsAlloc.thy ===== *)
theory FsAlloc
  imports Rlfs Cache
begin

text \<open>
  The file system over the cached blocks: how reading, changing, marking and releasing a block
  compose (\<open>fx\<close>), and the correctness of the block bitmap.  \<open>used V d m\<close> is the bitmap's bit for
  sector \<open>m\<close> of device \<open>d\<close> in the contents \<open>V\<close>.
\<close>

text \<open>Disks of one repeated byte, large enough for every block number.\<close>

definition disk_fill :: "8 word \<Rightarrow> nat \<Rightarrow> hdd" where
  "disk_fill v u = \<lparr>hd_data = (\<lambda>_. v), hd_bytes = 65536 * 512, hd_sector = 0, hd_state = 0, hd_pos = 0\<rparr>"

lemma disk_fill_stored [simp]:
  "ata_stored (disk_fill v) d n = (\<lambda>k. if k < 256 then ucast v OR push_bit 8 (ucast v) else 0)"
  by (simp add: ata_stored_def hd_word_def disk_fill_def trunc_def fun_eq_iff)

text \<open>A disk given by its words.\<close>

definition disk_words :: "(nat \<Rightarrow> nat \<Rightarrow> u16) \<Rightarrow> nat \<Rightarrow> hdd" where
  "disk_words f u = \<lparr>hd_data = (\<lambda>b. let w = f (b div 512) ((b mod 512) div 2) in
       if even b then ucast w else ucast (drop_bit 8 w)),
     hd_bytes = 65536 * 512, hd_sector = 0, hd_state = 0, hd_pos = 0\<rparr>"

lemma word_bytes: "ucast (ucast w :: 8 word) OR push_bit 8 (ucast (ucast (drop_bit 8 w) :: 8 word)) = (w :: u16)"
  by (rule bit_word_eqI) (auto simp: bit_simps)

lemma disk_words_stored [simp]: "ata_stored (disk_words f) d n = trunc (f (unat n))"
proof -
  have "hd_word (disk_words f (unat d)) (unat n) k = f (unat n) k" if "k < 256" for k
  proof -
    have "2 * k < 512" "Suc (2 * k) < 512" using that by simp_all
    then have "(unat n * 512 + 2 * k) div 512 = unat n" "(unat n * 512 + 2 * k) mod 512 = 2 * k"
      "(unat n * 512 + Suc (2 * k)) div 512 = unat n" "(unat n * 512 + Suc (2 * k)) mod 512 = Suc (2 * k)"
      by simp_all
    then show ?thesis by (simp add: hd_word_def disk_words_def Let_def word_bytes)
  qed
  then show ?thesis by (simp add: ata_stored_def trunc_def fun_eq_iff)
qed

section \<open>Composing block operations\<close>

lemma roomD: "room k s \<Longrightarrow> card (pinned s) + k \<le> 16" "room k s \<Longrightarrow> unat (pins s d n) + k < 65536"
  unfolding room_def by blast+

lemma roomI: "card (pinned s) + k \<le> 16 \<Longrightarrow> (\<And>d n. unat (pins s d n) + k < 65536) \<Longrightarrow> room k s"
  unfolding room_def by blast

lemma room_mono: "room k s \<Longrightarrow> j \<le> k \<Longrightarrow> room j s"
proof (rule roomI)
  assume r: "room k s" "j \<le> k"
  show "card (pinned s) + j \<le> 16" using roomD(1) [OF r(1)] r(2) by linarith
  show "unat (pins s d n) + j < 65536" for d n using roomD(2) [OF r(1), of d n] r(2) by linarith
qed

lemma unat_inc: "unat (c :: u16) + 1 < 65536 \<Longrightarrow> unat (c + 1) = unat c + 1"
  by (simp add: unat_word_ariths)

lemma room_Suc:
  assumes "room (Suc k) s"
  shows "pins s d n + 1 \<noteq> 0" "card (pinned s) < 16" "room k s"
proof -
  show "card (pinned s) < 16" using roomD(1) [OF assms] by linarith
  have "unat (pins s d n) + 1 < 65536" using roomD(2) [OF assms, of d n] by linarith
  from unat_inc [OF this] show "pins s d n + 1 \<noteq> 0" by auto
  show "room k s" by (rule room_mono [OF assms]) simp
qed

lemma pinned_upd: "pins s' = pin_upd d n f (pins s) \<Longrightarrow> pinned s' \<subseteq> insert (d, n) (pinned s)"
  unfolding pinned_def by (auto simp: pin_upd_apply split: if_splits)

lemma room_bread:
  assumes "room (Suc k) s" "pins s' = pin_upd d n (\<lambda>c. c + 1) (pins s)"
  shows "room k s'"
proof -
  have "card (pinned s') \<le> card (insert (d, n) (pinned s))"
    by (rule card_mono) (simp_all add: pinned_upd [OF assms(2)])
  also have "\<dots> \<le> Suc (card (pinned s))" by (rule card_insert_le_m1) simp_all
  finally have "card (pinned s') + k \<le> 16" using roomD(1) [OF assms(1)] by linarith
  moreover have "unat (pins s' d' n') + k < 65536" for d' n'
  proof (cases "d' = d \<and> n' = n")
    case True
    have r: "unat (pins s d n) + Suc k < 65536" using roomD(2) [OF assms(1)] .
    then have "unat (pins s d n + 1) = unat (pins s d n) + 1" by (intro unat_inc) linarith
    moreover have "pins s' d' n' = pins s d n + 1" using True by (simp add: assms(2) pin_upd_apply)
    ultimately have "unat (pins s' d' n') = unat (pins s d n) + 1" by simp
    with r show ?thesis by linarith
  next
    case False
    then have "pins s' d' n' = pins s d' n'" by (auto simp: assms(2) pin_upd_apply)
    then have "unat (pins s' d' n') = unat (pins s d' n')" by simp
    then show ?thesis using roomD(2) [OF assms(1), of d' n'] by linarith
  qed
  ultimately show ?thesis by (rule roomI)
qed

lemma room_cong: "pins s' = pins s \<Longrightarrow> room k s' = room k s"
  by (simp add: room_def pinned_def)

lemma pin_upd_cancel [simp]: "pin_upd d n (\<lambda>c. c - 1) (pin_upd d n (\<lambda>c. c + 1) P) = P"
  by (auto simp: pin_upd_def fun_eq_iff)

lemma with_block:
  assumes "disk_ok dops s" "ata_present (hw_hdd s) d n" "room (Suc k) s"
  obtains i s1 where "bread dops d n s = Some (i, s1)" "cached s1 d n = Some i"
    "fx dops s s1 (bview s) (pin_upd d n (\<lambda>c. c + 1) (pins s)) (dirty s)" "room k s1"
proof -
  note r = room_Suc [OF assms(3)]
  from fx_bread [OF assms(1,2) disjI2 [OF r(2)] r(1)] obtain i s1 where
    b: "bread dops d n s = Some (i, s1)" "cached s1 d n = Some i"
    "fx dops s s1 (bview s) (pin_upd d n (\<lambda>c. c + 1) (pins s)) (dirty s)" by blast
  from room_bread [OF assms(3) fxD(3) [OF b(3)]] that b show thesis by blast
qed

lemma fx_start: "disk_ok dops s \<Longrightarrow> V = bview s \<Longrightarrow> P = pins s \<Longrightarrow> U = dirty s \<Longrightarrow> fx dops s s V P U"
  using fx_refl by blast

text \<open>Extending an effect by a change, a mark or the release of a held block.\<close>

lemma fx_bset:
  assumes "fx dops s t V P U" "cached t d n = Some i" "P d n \<noteq> 0" "k < 256"
  shows "fx dops s (bset i k v t) (blk_put d n ((V d n)(k := v)) V) P (insert (d, n) U)"
    "cached (bset i k v t) = cached t"
proof -
  note f = fxD [OF assms(1)]
  have tr: "trunc ((b_data (blockCache t i))(k := v)) = (V d n)(k := v)"
    using bview_data [OF assms(2)] f(2) assms(4) by (auto simp: trunc_def fun_eq_iff)
  have p: "pins t d n \<noteq> 0" using f(3) assms(3) by simp
  note e = fx_data [OF f(1) assms(2) p, of "\<lambda>b. b(k := v)"]
  show "cached (bset i k v t) = cached t" using e(1) by (simp add: bset_def)
  have "fx dops t (bset i k v t) (blk_put d n ((V d n)(k := v)) V) P (insert (d, n) U)"
    using fx_weaken [OF e(2), of "insert (d, n) U"] f(2-4) tr by (auto simp: bset_def)
  from fx_trans [OF assms(1) this] show "fx dops s (bset i k v t) (blk_put d n ((V d n)(k := v)) V) P (insert (d, n) U)"
    by blast
qed

lemma fx_bcopy:
  assumes "fx dops s t V P U" "cached t d n = Some i" "P d n \<noteq> 0" "off + length ws \<le> 256"
  shows "fx dops s (bcopy i off ws t) (blk_put d n (blit (V d n) off ws) V) P (insert (d, n) U)"
    "cached (bcopy i off ws t) = cached t"
proof -
  note f = fxD [OF assms(1)]
  have tr: "trunc (blit (b_data (blockCache t i)) off ws) = blit (V d n) off ws"
    using bview_data [OF assms(2)] f(2) assms(4) by (auto simp: trunc_def blit_def fun_eq_iff)
  have p: "pins t d n \<noteq> 0" using f(3) assms(3) by simp
  note e = fx_data [OF f(1) assms(2) p, of "\<lambda>b. blit b off ws"]
  show "cached (bcopy i off ws t) = cached t" using e(1) by (simp add: bcopy_def)
  have "fx dops t (bcopy i off ws t) (blk_put d n (blit (V d n) off ws) V) P (insert (d, n) U)"
    using fx_weaken [OF e(2), of "insert (d, n) U"] f(2-4) tr by (auto simp: bcopy_def)
  from fx_trans [OF assms(1) this] show "fx dops s (bcopy i off ws t) (blk_put d n (blit (V d n) off ws) V) P (insert (d, n) U)"
    by blast
qed

lemma fx_bmark:
  assumes "fx dops s t V P U" "cached t d n = Some i"
  shows "fx dops s (bmark i t) V P (U - {(d, n)})" "cached (bmark i t) = cached t"
proof -
  note f = fxD [OF assms(1)] and e = fx_mark [OF fxD(1) [OF assms(1)] assms(2)]
  show "cached (bmark i t) = cached t" using e(1) by (simp add: bmark_def)
  have "fx dops t (bmark i t) V P (U - {(d, n)})"
    using fx_weaken [OF e(2), of "U - {(d, n)}"] f(2-4) by (auto simp: bmark_def)
  from fx_trans [OF assms(1) this] show "fx dops s (bmark i t) V P (U - {(d, n)})"
    by blast
qed

text \<open>The release that ends the use of a block taken with \<open>with_block\<close>.\<close>

lemma fx_release:
  assumes "fx dops s t V (pin_upd d n (\<lambda>c. c + 1) P) U" "cached t d n = Some i"
    "P d n = 0 \<Longrightarrow> (d, n) \<notin> U" "\<And>d' n'. pins s d' n' \<noteq> 0 \<Longrightarrow> P d' n' \<noteq> 0 \<Longrightarrow> pin_upd d n (\<lambda>c. c + 1) P d' n' \<noteq> 0"
  shows "fx dops s (bfree i t) V P U" "cached (bfree i t) = cached t"
proof -
  note f = fxD [OF assms(1)]
  have d: "(d, n) \<notin> dirty t" if "pins t d n = 1"
    using that f(3,4) assms(3) by (auto simp: pin_upd_apply)
  note e = fx_bfree [OF f(1) assms(2) d]
  show "cached (bfree i t) = cached t" using e(1) by simp
  have "fx dops t (bfree i t) V P U"
    using fx_weaken [OF e(2) f(4)] f(2,3) by simp
  from fx_trans [OF assms(1) this] assms(4) show "fx dops s (bfree i t) V P U" by blast
qed

lemma held_data:
  "fx dops s t V P U \<Longrightarrow> cached t d n = Some i \<Longrightarrow> k < 256 \<Longrightarrow> bdata i t k = V d n k"
  using bview_data [of t d n i] fxD(2) [of dops s t V P U] by (auto simp: bdata_def)

lemma bview_beyond: "k \<ge> 256 \<Longrightarrow> bview s d n k = 0"
  by (auto simp: cview_def trunc_def ata_stored_def split: option.split)

lemma dirty_pinned:
  assumes "disk_ok dops s" "pins s d n = 0"
  shows "(d, n) \<notin> dirty s"
proof
  assume "(d, n) \<in> dirty s"
  then obtain i where i: "cached s d n = Some i" "b_flags (blockCache s i) \<noteq> BLOCK_MODIFIED"
    "trunc (b_data (blockCache s i)) \<noteq> ata_stored (hw_hdd s) d n" by (auto simp: unmarked_def)
  note k = cached_SomeD [OF i(1)]
  from assms(1) have "cache_inv ata_stored ata_present s" by (simp add: disk_ok_def)
  from cache_invD(2) [OF this k(1,2) i(2)] k(3,4) i(3) pins_cnt [OF i(1)] assms(2) show False by simp
qed

section \<open>The bitmap\<close>

definition used :: "(u16 \<Rightarrow> u16 \<Rightarrow> buf) \<Rightarrow> u16 \<Rightarrow> nat \<Rightarrow> bool" where
  "used V d m \<longleftrightarrow> bit (V d (of_nat (m div 4096 + 1)) ((m mod 4096) div 16)) (m mod 16)"

text \<open>The bitmap with the bit of sector \<open>m\<close> changed.\<close>

definition bitmap_put :: "u16 \<Rightarrow> nat \<Rightarrow> bool \<Rightarrow> (u16 \<Rightarrow> u16 \<Rightarrow> buf) \<Rightarrow> u16 \<Rightarrow> u16 \<Rightarrow> buf" where
  "bitmap_put d m v V =
     (let B = of_nat (m div 4096 + 1); k = (m mod 4096) div 16; w = V d B k
      in blk_put d B ((V d B)(k := (if v then set_bit (m mod 16) w else unset_bit (m mod 16) w))) V)"

definition dev_present :: "disks \<Rightarrow> u16 \<Rightarrow> bool" where
  "dev_present h d \<longleftrightarrow> (\<forall>n. ata_present h d n)"

lemma disk_fill_present [simp]: "unat d < 2 \<Longrightarrow> dev_present (disk_fill v) d"
proof -
  assume d: "unat d < 2"
  have "unat n * 512 + 512 \<le> 65536 * 512" for n :: u16 using unat_u16_less [of n] by linarith
  with d show ?thesis unfolding dev_present_def ata_present_def hd_present_def disk_fill_def by simp
qed

lemma disk_words_present [simp]: "unat d < 2 \<Longrightarrow> dev_present (disk_words f) d"
proof -
  assume d: "unat d < 2"
  have "unat n * 512 + 512 \<le> 65536 * 512" for n :: u16 using unat_u16_less [of n] by linarith
  with d show ?thesis unfolding dev_present_def ata_present_def hd_present_def disk_words_def by simp
qed

lemma sector_bits:
  fixes m m' :: nat
  assumes "m div 4096 = m' div 4096" "(m mod 4096) div 16 = (m' mod 4096) div 16" "m mod 16 = m' mod 16"
  shows "m = m'"
proof -
  have "m mod 4096 mod 16 = m mod 16" "m' mod 4096 mod 16 = m' mod 16"
    by (simp_all add: mod_mod_cancel)
  then have "m mod 4096 = m' mod 4096" using assms(2,3) by (metis div_mult_mod_eq)
  then show ?thesis using assms(1) by (metis div_mult_mod_eq)
qed

lemma bitmap_block_inj:
  assumes "m < 131072" "m' < 131072" "(of_nat (m div 4096 + 1) :: u16) = of_nat (m' div 4096 + 1)"
  shows "m div 4096 = m' div 4096"
proof -
  have b: "m div 4096 + 1 < 65536" "m' div 4096 + 1 < 65536" using assms(1,2) by (simp_all add: div_less_iff_less_mult)
  have "unat (of_nat (m div 4096 + 1) :: u16) = unat (of_nat (m' div 4096 + 1) :: u16)"
    using assms(3) by simp
  with b show ?thesis by (simp only: unat_of_nat_u16_small add_right_cancel)
qed

lemma used_bitmap_put:
  assumes "m < 131072" "m' < 131072"
  shows "used (bitmap_put d m v V) d' m' = (if d' = d \<and> m' = m then v else used V d' m')"
proof (cases "d' = d \<and> m' div 4096 = m div 4096 \<and> (m' mod 4096) div 16 = (m mod 4096) div 16")
  case True
  then have "used (bitmap_put d m v V) d' m' = bit (if v
      then set_bit (m mod 16) (V d (of_nat (m div 4096 + 1)) ((m mod 4096) div 16))
      else unset_bit (m mod 16) (V d (of_nat (m div 4096 + 1)) ((m mod 4096) div 16))) (m' mod 16)"
    by (simp add: used_def bitmap_put_def Let_def blk_put_def)
  also have "\<dots> = (if m' mod 16 = m mod 16 then v
      else bit (V d (of_nat (m div 4096 + 1)) ((m mod 4096) div 16)) (m' mod 16))"
    by (auto simp: bit_simps)
  finally show ?thesis using True sector_bits [of m' m] by (auto simp: used_def)
next
  case False
  then have "\<not> (d' = d \<and> (of_nat (m' div 4096 + 1) :: u16) = of_nat (m div 4096 + 1) \<and>
      (m' mod 4096) div 16 = (m mod 4096) div 16)"
    using bitmap_block_inj [OF assms(2,1)] by blast
  then have "used (bitmap_put d m v V) d' m' = used V d' m'"
    by (auto simp: used_def bitmap_put_def Let_def blk_put_apply)
  with False show ?thesis by auto
qed

lemma markSector_fx:
  assumes "disk_ok dops s" "ata_present (hw_hdd s) d (of_nat (unat sect div 4096 + 1))" "room (Suc k) s"
  shows "\<exists>s'. fs_markSector dops d sect v s = Some s' \<and>
    fx dops s s' (bitmap_put d (unat sect) v (bview s)) (pins s) (dirty s)"
proof -
  let ?B = "of_nat (unat sect div 4096 + 1) :: u16" and ?k = "(unat sect mod 4096) div 16"
  obtain b s1 where r: "bread dops d ?B s = Some (b, s1)" and c: "cached s1 d ?B = Some b"
    and f: "fx dops s s1 (bview s) (pin_upd d ?B (\<lambda>c. c + 1) (pins s)) (dirty s)"
    using with_block [OF assms] by metis
  have k: "?k < 256" by (simp add: div_less_iff_less_mult)
  have p: "pin_upd d ?B (\<lambda>c. c + 1) (pins s) d ?B \<noteq> 0"
    using room_Suc(1) [OF assms(3), of d ?B] by (simp only: pin_upd_apply) simp
  let ?w = "if v then set_bit (unat sect mod 16) (bview s d ?B ?k) else unset_bit (unat sect mod 16) (bview s d ?B ?k)"
  note b1 = fx_bset [OF f c p k, of ?w]
  have c1: "cached (bset b ?k ?w s1) d ?B = Some b" using b1(2) c by simp
  note b2 = fx_bmark [OF b1(1) c1]
  have c2: "cached (bmark b (bset b ?k ?w s1)) d ?B = Some b" using b2(2) c1 by simp
  have "fx dops s (bfree b (bmark b (bset b ?k ?w s1)))
      (blk_put d ?B ((bview s d ?B)(?k := ?w)) (bview s)) (pins s) (insert (d, ?B) (dirty s) - {(d, ?B)})"
    by (rule fx_release(1) [OF b2(1) c2]) (use room_Suc(1) [OF assms(3)] in \<open>auto simp: pin_upd_apply\<close>)
  then have "fx dops s (bfree b (bmark b (bset b ?k ?w s1))) (bitmap_put d (unat sect) v (bview s)) (pins s) (dirty s)"
    by (auto simp: bitmap_put_def Let_def elim: fx_weaken)
  moreover have "fs_markSector dops d sect v s = Some (bfree b (bmark b (bset b ?k ?w s1)))"
    using r held_data [OF f c k] by (cases v) (simp_all add: fs_markSector_def Let_def)
  ultimately show ?thesis by blast
qed

lemma free_bit_cong: "(\<And>i. i < 256 \<Longrightarrow> d i = d' i) \<Longrightarrow> free_bit d = free_bit d'"
proof -
  assume eq: "\<And>i. i < 256 \<Longrightarrow> d i = d' i"
  have sc: "scan (\<lambda>i. d i \<noteq> 0xffff \<and> scan (\<lambda>j. \<not> bit (d i) j) 0 16 \<noteq> None) 0 256 =
      scan (\<lambda>i. d' i \<noteq> 0xffff \<and> scan (\<lambda>j. \<not> bit (d' i) j) 0 16 \<noteq> None) 0 256" (is "?l = ?r")
    by (rule scan_cong) (simp add: eq del: scan_numeral)
  show ?thesis
  proof (cases ?r)
    case None
    with sc show ?thesis unfolding free_bit_def by (simp del: scan_numeral)
  next
    case (Some i)
    then have "i < 256" by (auto simp: scan_Some_iff simp del: scan_numeral)
    with Some sc eq show ?thesis unfolding free_bit_def by (simp del: scan_numeral)
  qed
qed

lemma all_ones: "bit (0xffff :: u16) j \<longleftrightarrow> j < 16"
proof -
  have "(0xffff :: u16) = mask 16" by (simp add: mask_eq_exp_minus_1)
  then show ?thesis by (simp only: bit_mask_iff) simp
qed

lemma not_ones: "\<not> bit (w :: u16) j \<Longrightarrow> j < 16 \<Longrightarrow> w \<noteq> 0xffff"
  using all_ones by blast

lemma ones_bit: "(w :: u16) = 0xffff \<Longrightarrow> j < 16 \<Longrightarrow> bit w j"
  using all_ones by blast

lemma free_bit_Some:
  assumes "free_bit d = Some (i, j)"
  shows "i < 256" "j < 16" "\<not> bit (d i) j" "\<And>j'. j' < j \<Longrightarrow> bit (d i) j'"
    "\<And>i' j'. i' < i \<Longrightarrow> j' < 16 \<Longrightarrow> bit (d i') j'"
  using assms by (auto simp: free_bit_def kmonad scan_Some_iff scan_None simp del: scan_numeral
      intro: ones_bit dest: not_ones)

lemma free_bit_None:
  assumes "free_bit d = None" "i < 256" "j < 16"
  shows "bit (d i) j"
proof (rule ccontr)
  assume n: "\<not> bit (d i) j"
  with assms(3) have "d i \<noteq> 0xffff \<and> scan (\<lambda>j. \<not> bit (d i) j) 0 16 \<noteq> None"
    by (auto simp: scan_None simp del: scan_numeral dest: not_ones)
  then obtain k where k: "scan (\<lambda>i. d i \<noteq> 0xffff \<and> scan (\<lambda>j. \<not> bit (d i) j) 0 16 \<noteq> None) 0 256 = Some k"
    using assms(2) scan_None [of "\<lambda>i. d i \<noteq> 0xffff \<and> scan (\<lambda>j. \<not> bit (d i) j) 0 16 \<noteq> None" 256]
    by (cases "scan (\<lambda>i. d i \<noteq> 0xffff \<and> scan (\<lambda>j. \<not> bit (d i) j) 0 16 \<noteq> None) 0 256") auto
  then have "scan (\<lambda>j. \<not> bit (d k) j) 0 16 \<noteq> None"
    by (auto simp: scan_Some_iff simp del: scan_numeral)
  with k assms(1) show False by (auto simp: free_bit_def simp del: scan_numeral)
qed

text \<open>The sector \<^verbatim>\<open>fs_findFreeSector\<close> selects, as a function of the contents.\<close>

primrec free_from :: "(u16 \<Rightarrow> u16 \<Rightarrow> buf) \<Rightarrow> u16 \<Rightarrow> nat \<Rightarrow> nat \<Rightarrow> nat option" where
  "free_from V d c 0 = None"
| "free_from V d c (Suc k) =
     (case free_bit (V d (of_nat (c + 1))) of
        Some (i, j) \<Rightarrow> Some (c * 4096 + i * 16 + j)
      | None \<Rightarrow> free_from V d (Suc c) k)"

lemma sector_parts:
  assumes "i < 256" "j < (16 :: nat)"
  shows "(c * 4096 + i * 16 + j) div 4096 = c" "(c * 4096 + i * 16 + j) mod 4096 div 16 = i"
    "(c * 4096 + i * 16 + j) mod 16 = j"
proof -
  have l: "i * 16 + j < 4096" using assms by linarith
  have "(c * 4096 + (i * 16 + j)) div 4096 = c" "(c * 4096 + (i * 16 + j)) mod 4096 = i * 16 + j"
    using l by simp_all
  moreover have "(c * 4096 + (i * 16 + j)) mod 16 = j"
  proof -
    have "c * 4096 + (i * 16 + j) = j + 16 * (c * 256 + i)" by (simp add: algebra_simps)
    then have "(c * 4096 + (i * 16 + j)) mod 16 = (j + 16 * (c * 256 + i)) mod 16" by (rule arg_cong)
    also have "\<dots> = j mod 16" by (rule mod_mult_self2)
    finally show ?thesis using assms(2) by (simp only: mod_less)
  qed
  ultimately show "(c * 4096 + i * 16 + j) div 4096 = c" "(c * 4096 + i * 16 + j) mod 16 = j"
    by (simp_all only: add.assoc)
  have "(c * 4096 + i * 16 + j) mod 4096 div 16 = (i * 16 + j) div 16"
    using \<open>(c * 4096 + (i * 16 + j)) mod 4096 = i * 16 + j\<close> by (simp only: add.assoc)
  then show "(c * 4096 + i * 16 + j) mod 4096 div 16 = i" using assms(2) by simp
qed

lemma used_parts:
  "i < 256 \<Longrightarrow> j < 16 \<Longrightarrow> used V d (c * 4096 + i * 16 + j) = bit (V d (of_nat (c + 1)) i) j"
  using sector_parts [of i j c] by (simp add: used_def)

lemma split_sector: "m div 4096 = c \<Longrightarrow> \<exists>i j. i < 256 \<and> j < 16 \<and> m = c * 4096 + i * 16 + (j :: nat)"
proof (intro exI conjI)
  assume c: "m div 4096 = c"
  show "(m mod 4096) div 16 < 256" by (simp add: div_less_iff_less_mult)
  show "(m mod 4096) mod 16 < 16" by simp
  have "m = m div 4096 * 4096 + m mod 4096" by simp
  also have "m mod 4096 = m mod 4096 div 16 * 16 + m mod 4096 mod 16" by (simp del: mod_mod_cancel)
  finally show "m = c * 4096 + m mod 4096 div 16 * 16 + m mod 4096 mod 16" using c by simp
qed

lemma free_from_Some:
  "free_from V d c k = Some m \<Longrightarrow> c * 4096 \<le> m \<and> m < (c + k) * 4096 \<and> \<not> used V d m \<and>
   (\<forall>m'. c * 4096 \<le> m' \<and> m' < m \<longrightarrow> used V d m')"
proof (induction k arbitrary: c)
  case (Suc k)
  show ?case
  proof (cases "free_bit (V d (of_nat (c + 1)))")
    case None
    with Suc.prems have "free_from V d (Suc c) k = Some m" by simp
    note ih = Suc.IH [OF this]
    have "used V d m'" if "c * 4096 \<le> m'" "m' < m" for m'
    proof (cases "Suc c * 4096 \<le> m'")
      case False
      then have "m' div 4096 = c" using that(1) by (intro div_nat_eqI) simp_all
      from split_sector [OF this] obtain i j where "i < 256" "j < 16" "m' = c * 4096 + i * 16 + j" by blast
      then show ?thesis using free_bit_None [OF None] used_parts [of i j V d c] by simp
    qed (use ih that in blast)
    with ih show ?thesis by auto
  next
    case (Some p)
    obtain i j where p: "p = (i, j)" by fastforce
    from Some p Suc.prems have m: "m = c * 4096 + i * 16 + j" by simp
    note fb = free_bit_Some [OF Some [unfolded p]]
    have "used V d m'" if "c * 4096 \<le> m'" "m' < m" for m'
    proof -
      have "m' div 4096 = c" using that m fb(1,2) by (intro div_nat_eqI) simp_all
      from split_sector [OF this] obtain i' j' where ij: "i' < 256" "j' < 16" "m' = c * 4096 + i' * 16 + j'"
        by blast
      with that(2) m fb(2) have "i' < i \<or> i' = i \<and> j' < j" by linarith
      then show ?thesis using fb(4,5) ij used_parts [OF ij(1,2), of V d c] by auto
    qed
    moreover have "\<not> used V d m" using fb(1-3) m used_parts by metis
    moreover have "m < (c + Suc k) * 4096" using m fb(1,2) by (simp add: algebra_simps)
    ultimately show ?thesis using m by auto
  qed
qed simp

lemma free_from_None:
  "free_from V d c k = None \<Longrightarrow> c * 4096 \<le> m \<Longrightarrow> m < (c + k) * 4096 \<Longrightarrow> used V d m"
proof (induction k arbitrary: c)
  case (Suc k)
  from Suc.prems(1) have None: "free_bit (V d (of_nat (c + 1))) = None"
    and rec: "free_from V d (Suc c) k = None" by (auto split: option.splits prod.splits)
  show ?case
  proof (cases "Suc c * 4096 \<le> m")
    case True
    with Suc.IH [OF rec] Suc.prems(3) show ?thesis by simp
  next
    case False
    then have "m div 4096 = c" using Suc.prems(2) by (intro div_nat_eqI) simp_all
    from split_sector [OF this] obtain i j where "i < 256" "j < 16" "m = c * 4096 + i * 16 + j" by blast
    then show ?thesis using free_bit_None [OF None] used_parts [of i j V d c] by simp
  qed
qed simp

lemma find_bitmap_fx:
  assumes "disk_ok dops s" "dev_present (hw_hdd s) d" "room (Suc r) s"
  shows "\<exists>s'. find_bitmap dops d c k s =
      Some (case free_from (bview s) d c k of Some m \<Rightarrow> of_nat m | None \<Rightarrow> 0, s') \<and>
    fx dops s s' (bview s) (pins s) (dirty s)"
  using assms
proof (induction k arbitrary: c s)
  case 0
  then show ?case using fx_refl by auto
next
  case (Suc k)
  let ?B = "of_nat (c + 1) :: u16"
  have pr: "ata_present (hw_hdd s) d ?B" using Suc.prems(2) by (simp add: dev_present_def)
  obtain b s1 where rd: "bread dops d ?B s = Some (b, s1)" and ca: "cached s1 d ?B = Some b"
    and f: "fx dops s s1 (bview s) (pin_upd d ?B (\<lambda>c. c + 1) (pins s)) (dirty s)"
    using with_block [OF Suc.prems(1) pr Suc.prems(3)] by metis
  have nw: "pins s d' n' + 1 \<noteq> 0" for d' n' using room_Suc(1) [OF Suc.prems(3)] .
  have fb: "free_bit (bdata b s1) = free_bit (bview s d ?B)"
    by (rule free_bit_cong) (rule held_data [OF f ca])
  show ?case
  proof (cases "pins s d ?B = 0 \<longrightarrow> (d, ?B) \<notin> dirty s")
    case True
    then have f2: "fx dops s (bfree b s1) (bview s) (pins s) (dirty s)"
      by (intro fx_release(1) [OF f ca]) (use nw in \<open>auto simp: pin_upd_apply\<close>)
    show ?thesis
    proof (cases "free_bit (bview s d ?B)")
      case (Some p)
      obtain i j where "p = (i, j)" by fastforce
      with Some rd fb f2 show ?thesis by auto
    next
      case None
      note g = fxD [OF f2]
      have "dev_present (hw_hdd (bfree b s1)) d" using Suc.prems(2) g(5) by (simp add: dev_present_def)
      moreover have "room (Suc r) (bfree b s1)" using Suc.prems(3) room_cong [OF g(3)] by simp
      ultimately obtain s' where "find_bitmap dops d (Suc c) k (bfree b s1) =
          Some (case free_from (bview s) d (Suc c) k of Some m \<Rightarrow> of_nat m | None \<Rightarrow> 0, s')"
        "fx dops (bfree b s1) s' (bview s) (pins s) (dirty (bfree b s1))"
        using Suc.IH [OF g(1)] g(2,3) by metis
      moreover from this(2) g(4) have "fx dops s s' (bview s) (pins s) (dirty s)"
        using fx_trans [OF f2] fx_weaken by blast
      ultimately show ?thesis using None rd fb by auto
    qed
  next
    case False
    then have "(d, ?B) \<in> dirty s" "pins s d ?B = 0" by auto
    moreover have "(d, ?B) \<notin> dirty s"
      using dirty_pinned [OF Suc.prems(1)] calculation(2) by blast
    ultimately show ?thesis by blast
  qed
qed

lemma dev_present_fx: "fx dops s s' V P U \<Longrightarrow> dev_present (hw_hdd s') d = dev_present (hw_hdd s) d"
  by (simp add: dev_present_def fxD(5))

lemma nowrap_trans: "room (Suc k) s \<Longrightarrow> pin_upd d n (\<lambda>c. c + 1) (pins s) d' n' \<noteq> 0 \<or> pins s d' n' = 0"
  using room_Suc(1) [of k s] by (auto simp: pin_upd_apply)

lemma allocBlock_fx:
  assumes "disk_ok dops s" "dev_present (hw_hdd s) d" "room (Suc r) s"
    "m < 65536" "\<not> used (bview s) d m"
  shows "\<exists>b s'. fs_allocBlock dops d s = Some (b, s') \<and> \<not> used (bview s) d (unat b) \<and>
    (\<forall>m'<unat b. used (bview s) d m') \<and> fx dops s s' (bitmap_put d (unat b) True (bview s)) (pins s) (dirty s)"
proof -
  obtain m0 where m0: "free_from (bview s) d 0 32 = Some m0"
  proof (cases "free_from (bview s) d 0 32")
    case None
    from free_from_None [OF this, of m] assms(4,5) have False by simp
    then show ?thesis ..
  qed
  note fm = free_from_Some [OF m0]
  have "m0 \<le> m" using fm assms(5) by (cases "m < m0") auto
  then have u: "unat (of_nat m0 :: u16) = m0" using assms(4) by simp
  obtain s1 where s1: "fs_findFreeSector dops d s = Some (of_nat m0, s1)"
    "fx dops s s1 (bview s) (pins s) (dirty s)"
    using find_bitmap_fx [OF assms(1-3), of 0 32] m0 unfolding fs_findFreeSector_def by auto
  note f = fxD [OF s1(2)]
  have pr: "ata_present (hw_hdd s1) d (of_nat (unat (of_nat m0 :: u16) div 4096 + 1))"
    using assms(2) f(5) by (simp add: dev_present_def)
  have rm: "room (Suc r) s1" using assms(3) room_cong [OF f(3)] by simp
  from markSector_fx [OF f(1) pr rm, of True] obtain s2 where
    s2: "fs_markSector dops d (of_nat m0) True s1 = Some s2"
    "fx dops s1 s2 (bitmap_put d m0 True (bview s)) (pins s) (dirty s1)"
    by (auto simp: u f(2,3))
  have "fx dops s s2 (bitmap_put d m0 True (bview s)) (pins s) (dirty s)"
    using fx_trans [OF s1(2) fx_weaken [OF s2(2) f(4)]] by blast
  then show ?thesis using s1(1) s2(1) fm u by (auto simp: fs_allocBlock_def)
qed

lemma freeBlock_fx:
  assumes "disk_ok dops s" "dev_present (hw_hdd s) d" "room (Suc r) s"
  shows "\<exists>s'. fs_freeBlock dops d b s = Some s' \<and>
    fx dops s s' (bitmap_put d (unat b) False (bview s)) (pins s) (dirty s)"
  using markSector_fx [OF assms(1) _ assms(3), of d b False] assms(2)
  by (simp add: fs_freeBlock_def dev_present_def)

text \<open>
  C23. While the bitmap has a clear bit for a sector whose number fits a block number, \<^verbatim>\<open>fs_allocBlock\<close>
  returns the first such sector; afterwards exactly that sector is marked in addition, no other
  block of any device has changed contents outside the bitmap, and no block is left held.
\<close>

theorem fs_allocBlock_first_free:
  assumes "disk_ok dops s" "dev_present (hw_hdd s) d" "room 1 s" "m < 65536" "\<not> used (bview s) d m"
  shows "\<exists>b s'. fs_allocBlock dops d s = Some (b, s') \<and> \<not> used (bview s) d (unat b) \<and>
    (\<forall>m'<unat b. used (bview s) d m') \<and> pins s' = pins s \<and> disk_ok dops s' \<and>
    (\<forall>d' m'. m' < 131072 \<longrightarrow> used (bview s') d' m' = (used (bview s) d' m' \<or> d' = d \<and> m' = unat b)) \<and>
    (\<forall>d' n. d' \<noteq> d \<or> n = 0 \<or> 16 < unat n \<longrightarrow> bview s' d' n = bview s d' n)"
proof -
  from allocBlock_fx [of dops s d 0 m] assms obtain b s' where
    r: "fs_allocBlock dops d s = Some (b, s')" "\<not> used (bview s) d (unat b)"
    "\<forall>m'<unat b. used (bview s) d m'" and
    f: "fx dops s s' (bitmap_put d (unat b) True (bview s)) (pins s) (dirty s)" by auto
  note g = fxD [OF f]
  have ub: "unat b < 131072" using unat_u16_less [of b] by linarith
  have "bview s' d' n = bview s d' n" if "d' \<noteq> d \<or> n = 0 \<or> 16 < unat n" for d' n
  proof -
    have k: "unat b div 4096 + 1 \<le> 16"
    proof -
      have "unat b div 4096 < 16" using unat_u16_less [of b] by (simp add: div_less_iff_less_mult)
      then show ?thesis by simp
    qed
    then have "unat (of_nat (unat b div 4096 + 1) :: u16) = unat b div 4096 + 1"
      by (intro unat_of_nat_u16_small) simp
    then have "\<not> (d' = d \<and> n = of_nat (unat b div 4096 + 1))" using that k by auto
    then show ?thesis by (auto simp: g(2) bitmap_put_def Let_def blk_put_apply)
  qed
  then show ?thesis using r g used_bitmap_put [OF ub, of _ d True "bview s"] by auto
qed

theorem fs_allocBlock_first_free_witness:
  "\<exists>b s'. fs_allocBlock (\<lambda>_. ataGetDriver) 0 (cold (disk_fill 0)) = Some (b, s') \<and>
     used (bview s') 0 (unat b) \<and> (\<forall>m'<unat b. used (bview (cold (disk_fill 0))) 0 m')"
proof -
  have "\<not> used (bview (cold (disk_fill 0))) 0 40" by (simp add: used_def)
  moreover have "room 1 (cold (disk_fill 0))" by (simp add: room_def)
  ultimately obtain b s' where r:
    "fs_allocBlock (\<lambda>_. ataGetDriver) 0 (cold (disk_fill 0)) = Some (b, s')"
    "\<forall>m'<unat b. used (bview (cold (disk_fill 0))) 0 m'"
    "\<forall>m'<131072. used (bview s') 0 m' = (used (bview (cold (disk_fill 0))) 0 m' \<or> m' = unat b)"
    using fs_allocBlock_first_free [of "\<lambda>_. ataGetDriver" "cold (disk_fill 0)" 0 40] by auto
  moreover have "unat b < 131072" using unat_u16_less [of b] by linarith
  ultimately show ?thesis by auto
qed

text \<open>
  C38. On a device whose bitmap is full, \<^verbatim>\<open>fs_allocBlock\<close> does not fail: it hands out sector 0, the
  superblock, as a free block.
\<close>

theorem fs_allocBlock_full:
  assumes "disk_ok dops s" "dev_present (hw_hdd s) d" "room 1 s" "\<forall>m<131072. used (bview s) d m"
  shows "\<exists>s'. fs_allocBlock dops d s = Some (0, s')"
proof -
  have "free_from (bview s) d 0 32 = None"
    using assms(4) free_from_Some [of "bview s" d 0 32] by (cases "free_from (bview s) d 0 32") auto
  then obtain s1 where s1: "fs_findFreeSector dops d s = Some (0, s1)"
    "fx dops s s1 (bview s) (pins s) (dirty s)"
    using find_bitmap_fx [of dops s d 0 0 32] assms unfolding fs_findFreeSector_def by auto
  note f = fxD [OF s1(2)]
  have "ata_present (hw_hdd s1) d (of_nat (unat (0 :: u16) div 4096 + 1))"
    using assms(2) f(5) by (simp add: dev_present_def)
  moreover have "room (Suc 0) s1" using assms(3) room_cong [OF f(3)] by simp
  ultimately obtain s2 where "fs_markSector dops d 0 True s1 = Some s2"
    using markSector_fx [OF f(1)] by blast
  with s1 show ?thesis by (simp add: fs_allocBlock_def)
qed

theorem fs_allocBlock_full_witness:
  "\<exists>s'. fs_allocBlock (\<lambda>_. ataGetDriver) 1 (cold (disk_fill 255)) = Some (0, s')"
proof (rule fs_allocBlock_full)
  show "room 1 (cold (disk_fill 255))" by (simp add: room_def)
  have ones: "(ucast (255 :: 8 word) OR push_bit 8 (ucast (255 :: 8 word)) :: u16) = 0xffff" by simp
  show "\<forall>m<131072. used (bview (cold (disk_fill 255))) 1 m"
  proof (intro allI impI)
    fix m :: nat
    have "(m mod 4096) div 16 < 256" by (simp add: div_less_iff_less_mult)
    then show "used (bview (cold (disk_fill 255))) 1 m"
      by (simp only: used_def cold_simps disk_fill_stored ones if_True all_ones)
  qed
qed simp_all

end
