(* ===== verification/FsFile.thy ===== *)
theory FsFile
  imports FsAlloc
begin

text \<open>
  File contents.  \<open>slot V d N k\<close> is the block number the node \<open>N\<close> records for the \<open>k\<close>-th block of
  its file, \<open>fdata V d N o\<close> the word at offset \<open>o\<close>, \<open>node_size\<close> the recorded size.
\<close>

definition slot :: "(u16 \<Rightarrow> u16 \<Rightarrow> buf) \<Rightarrow> u16 \<Rightarrow> u16 \<Rightarrow> nat \<Rightarrow> u16" where
  "slot V d N k = (if k < 150 then V d N (k + 3)
     else let ib = V d N ((k - 150) div 256 + 153) in if ib = 0 then 0 else V d ib ((k - 150) mod 256))"

definition fdata :: "(u16 \<Rightarrow> u16 \<Rightarrow> buf) \<Rightarrow> u16 \<Rightarrow> u16 \<Rightarrow> nat \<Rightarrow> u16" where
  "fdata V d N ofs = V d (slot V d N (ofs div 256)) (ofs mod 256)"

text \<open>The largest offset the index blocks of a node can address.\<close>

abbreviation MAX_OFFSET :: nat where "MAX_OFFSET \<equiv> 6788608"

lemma index_arith:
  fixes ofs :: nat
  assumes "\<not> ofs < 38400"
  shows "(ofs - 38400) div 65536 = (ofs div 256 - 150) div 256"
    "(ofs - 38400) div 256 = ofs div 256 - 150" "\<not> ofs div 256 < 150"
proof -
  define x where "x = ofs - 38400"
  have x: "ofs = x + 150 * 256" using assms by (simp add: x_def)
  have d: "ofs div 256 = 150 + x div 256" unfolding x by (rule div_mult_self1) simp
  show "(ofs - 38400) div 256 = ofs div 256 - 150" "\<not> ofs div 256 < 150"
    unfolding d x_def [symmetric] by simp_all
  have "x div (256 * 256) = x div 256 div 256" by (rule div_mult2_eq)
  then show "(ofs - 38400) div 65536 = (ofs div 256 - 150) div 256"
    unfolding d x_def [symmetric] by simp
qed

lemma getOrAlloc_existing:
  assumes ok: "disk_ok dops s" and c: "cached s d N = Some nb" and p: "pins s d N \<noteq> 0"
    and dp: "dev_present (hw_hdd s) d" and rm: "room (Suc r) s" and lim: "ofs < MAX_OFFSET"
    and sl: "slot (bview s) d N (ofs div 256) \<noteq> 0"
  shows "\<exists>s'. getOrAllocBlockByOffset dops d nb ofs s = Some (slot (bview s) d N (ofs div 256), s') \<and>
    fx dops s s' (bview s) (pins s) (dirty s)"
proof -
  note f0 = fx_refl [OF ok]
  have nd: "bdata nb s k = bview s d N k" if "k < 256" for k by (rule held_data [OF f0 c that])
  show ?thesis
  proof (cases "ofs < 38400")
    case True
    then have k: "ofs div 256 < 150" by (simp add: div_less_iff_less_mult)
    with True sl show ?thesis
      using nd [of "ofs div 256 + 3"] f0 by (simp add: getOrAllocBlockByOffset_def Let_def slot_def)
  next
    case False
    note ix = index_arith [OF False]
    let ?io = "(ofs div 256 - 150) div 256 + 153" and ?k = "(ofs div 256 - 150) mod 256"
    have "(ofs - 38400) div 65536 < 103" using lim by (simp add: div_less_iff_less_mult)
    then have io: "?io < 256" using ix(1) by simp
    let ?ib = "bview s d N ?io"
    have ib: "?ib \<noteq> 0" and sv: "slot (bview s) d N (ofs div 256) = bview s d ?ib ?k"
      using sl ix(3) by (auto simp: slot_def Let_def split: if_splits)
    have pr: "ata_present (hw_hdd s) d ?ib" using dp by (simp add: dev_present_def)
    obtain i s1 where rd: "bread dops d ?ib s = Some (i, s1)" and ci: "cached s1 d ?ib = Some i"
      and f: "fx dops s s1 (bview s) (pin_upd d ?ib (\<lambda>c. c + 1) (pins s)) (dirty s)"
      using with_block [OF ok pr rm] by metis
    have "fx dops s (bfree i s1) (bview s) (pins s) (dirty s)"
      by (rule fx_release(1) [OF f ci]) (use dirty_pinned [OF ok] room_Suc(1) [OF rm] in \<open>auto simp: pin_upd_apply\<close>)
    moreover have "getOrAllocBlockByOffset dops d nb ofs s = Some (bview s d ?ib ?k, bfree i s1)"
      using False ix(1,2) io nd [OF io] ib rd held_data [OF f ci, of ?k] sl sv
      by (simp add: getOrAllocBlockByOffset_def Let_def)
    ultimately show ?thesis using sv by auto
  qed
qed

section \<open>Reading\<close>

lemma chunk_data:
  assumes "rn \<le> 256 - ofs mod 256"
  shows "slice (V d (slot V d N (ofs div 256))) (ofs mod 256) rn = map (fdata V d N) [ofs ..< ofs + rn]"
proof (rule nth_equalityI)
  fix i assume "i < length (slice (V d (slot V d N (ofs div 256))) (ofs mod 256) rn)"
  then have i: "i < rn" by simp
  have "ofs = ofs div 256 * 256 + ofs mod 256" by simp
  then have "ofs + i = (ofs mod 256 + i) + ofs div 256 * 256" by linarith
  moreover have "ofs mod 256 + i < 256" using i assms by linarith
  ultimately have "(ofs + i) div 256 = ofs div 256" "(ofs + i) mod 256 = ofs mod 256 + i"
    by (metis add.commute add_0 div_less div_mult_self3 zero_neq_numeral,
        metis mod_less mod_mult_self1)
  with i show "slice (V d (slot V d N (ofs div 256))) (ofs mod 256) rn ! i = map (fdata V d N) [ofs ..< ofs + rn] ! i"
    by (simp add: fdata_def)
qed simp

lemma read_loop:
  assumes "disk_ok dops s" "cached s d N = Some nb" "pins s d N \<noteq> 0" "dev_present (hw_hdd s) d"
    "room (Suc r) s" "ofs + n \<le> MAX_OFFSET"
    "\<And>k. ofs \<le> k \<Longrightarrow> k < ofs + n \<Longrightarrow> slot (bview s) d N (k div 256) \<noteq> 0"
  shows "\<exists>s'. fs_read_loop dops d nb ofs n acc s = Some (acc @ map (fdata (bview s) d N) [ofs ..< ofs + n], s') \<and>
    fx dops s s' (bview s) (pins s) (dirty s)"
  using assms
proof (induction n arbitrary: ofs acc s rule: less_induct)
  case (less n)
  show ?case
  proof (cases "n = 0")
    case True
    then show ?thesis using fx_refl [OF less.prems(1)] by (subst fs_read_loop.simps) simp
  next
    case False
    let ?V = "bview s" and ?rn = "min n (256 - ofs mod 256)"
    let ?B = "slot ?V d N (ofs div 256)"
    have rn: "0 < ?rn" "?rn \<le> 256 - ofs mod 256" "?rn \<le> n" using False by simp_all
    have sl: "?B \<noteq> 0" using less.prems(7) [of ofs] False by simp
    obtain s1 where g: "getOrAllocBlockByOffset dops d nb ofs s = Some (?B, s1)"
      and f1: "fx dops s s1 ?V (pins s) (dirty s)"
      using getOrAlloc_existing [OF less.prems(1-5) _ sl] less.prems(6) False by auto
    note e1 = fxD [OF f1]
    have dp1: "dev_present (hw_hdd s1) d" using less.prems(4) dev_present_fx [OF f1] by simp
    have rm1: "room (Suc r) s1" using less.prems(5) room_cong [OF e1(3)] by simp
    obtain i s2 where rd: "bread dops d ?B s1 = Some (i, s2)" and ci: "cached s2 d ?B = Some i"
      and f2: "fx dops s1 s2 (bview s1) (pin_upd d ?B (\<lambda>c. c + 1) (pins s1)) (dirty s1)"
      using with_block [OF e1(1) _ rm1] dp1 unfolding dev_present_def by metis
    have ws: "slice (bdata i s2) (ofs mod 256) ?rn = map (fdata ?V d N) [ofs ..< ofs + ?rn]"
    proof -
      have "slice (bdata i s2) (ofs mod 256) ?rn = slice (?V d ?B) (ofs mod 256) ?rn"
        by (rule slice_cong) (use held_data [OF f2 ci] e1(2) in auto)
      then show ?thesis using chunk_data [OF rn(2)] by simp
    qed
    have f3: "fx dops s1 (bfree i s2) ?V (pins s) (dirty s1)"
      using fx_release(1) [OF f2 ci] dirty_pinned [OF e1(1)] room_Suc(1) [OF rm1] e1(2,3)
      by (auto simp: pin_upd_apply)
    have f4: "fx dops s (bfree i s2) ?V (pins s) (dirty s)"
      using fx_trans [OF f1 fx_weaken [OF f3 e1(4)]] by blast
    note e4 = fxD [OF f4]
    have oa: "off_add ofs ?rn = ofs + ?rn" using less.prems(6) rn(3) by (simp add: off_add_def)
    have c4: "cached (bfree i s2) d N = Some nb" using e4(7) less.prems(2,3) by simp
    have "\<exists>s'. fs_read_loop dops d nb (ofs + ?rn) (n - ?rn) (acc @ slice (bdata i s2) (ofs mod 256) ?rn) (bfree i s2) =
        Some ((acc @ slice (bdata i s2) (ofs mod 256) ?rn) @
          map (fdata (bview (bfree i s2)) d N) [ofs + ?rn ..< ofs + ?rn + (n - ?rn)], s') \<and>
        fx dops (bfree i s2) s' (bview (bfree i s2)) (pins (bfree i s2)) (dirty (bfree i s2))"
    proof (rule less.IH)
      show "n - ?rn < n" using rn by simp
      show "pins (bfree i s2) d N \<noteq> 0" using e4(3) less.prems(3) by simp
      show "dev_present (hw_hdd (bfree i s2)) d" using less.prems(4) dev_present_fx [OF f4] by simp
      show "room (Suc r) (bfree i s2)" using less.prems(5) room_cong [OF e4(3)] by simp
      show "slot (bview (bfree i s2)) d N (k div 256) \<noteq> 0" if "ofs + ?rn \<le> k" "k < ofs + ?rn + (n - ?rn)" for k
        using less.prems(7) [of k] that rn(3) e4(2) by simp
    qed (use e4(1) c4 less.prems(6) rn(3) in auto)
    then obtain s' where ih: "fs_read_loop dops d nb (ofs + ?rn) (n - ?rn) (acc @ slice (bdata i s2) (ofs mod 256) ?rn) (bfree i s2) =
        Some ((acc @ map (fdata ?V d N) [ofs ..< ofs + ?rn]) @ map (fdata ?V d N) [ofs + ?rn ..< ofs + n], s')"
      "fx dops (bfree i s2) s' ?V (pins s) (dirty (bfree i s2))"
      using e4(2,3) rn(3) ws by auto
    have "[ofs ..< ofs + n] = [ofs ..< ofs + ?rn] @ [ofs + ?rn ..< ofs + n]"
      using upt_add_eq_append [of ofs "ofs + ?rn" "n - ?rn"] rn(3) by simp
    then have "fs_read_loop dops d nb ofs n acc s = Some (acc @ map (fdata ?V d N) [ofs ..< ofs + n], s')"
      using False g rd ih(1) oa by (subst fs_read_loop.simps) (simp add: Let_def)
    moreover have "fx dops s s' ?V (pins s) (dirty s)"
      using fx_trans [OF f4 fx_weaken [OF ih(2) e4(4)]] by blast
    ultimately show ?thesis by blast
  qed
qed

text \<open>The blocks of a file of the recorded size are all allocated and within reach of the index.\<close>

definition file_mapped :: "(u16 \<Rightarrow> u16 \<Rightarrow> buf) \<Rightarrow> u16 \<Rightarrow> u16 \<Rightarrow> bool" where
  "file_mapped V d N \<longleftrightarrow> node_size (V d N) \<le> MAX_OFFSET \<and>
     (\<forall>k. k * 256 < node_size (V d N) \<longrightarrow> slot V d N k \<noteq> 0)"

lemma node_size_bdata: "fx dops s t V P U \<Longrightarrow> cached t d n = Some i \<Longrightarrow> node_size (bdata i t) = node_size (V d n)"
  using held_data [of dops s t V P U d n i] by (simp add: node_size_def)

lemma fs_read_fx:
  assumes ok: "disk_ok dops s" and dp: "dev_present (hw_hdd s) d" and rm: "room (Suc (Suc r)) s"
    and mp: "file_mapped (bview s) d N" and n: "n < 65536" and le: "ofs \<le> node_size (bview s d N)"
  shows "\<exists>s'. fs_read dops \<lparr>fn_dev = d, fn_idx = N\<rparr> ofs n s =
      Some (map (fdata (bview s) d N) [ofs ..< ofs + min n (node_size (bview s d N) - ofs)], s') \<and>
    fx dops s s' (bview s) (pins s) (dirty s)"
proof -
  let ?V = "bview s" and ?sz = "node_size (bview s d N)" and ?P = "pin_upd d N (\<lambda>c. c + 1) (pins s)"
  have sz: "?sz \<le> MAX_OFFSET" using mp by (simp add: file_mapped_def)
  obtain i s1 where rd: "bread dops d N s = Some (i, s1)" and ci: "cached s1 d N = Some i"
    and f: "fx dops s s1 ?V ?P (dirty s)" and rm1: "room (Suc r) s1"
    using with_block [OF ok _ rm] dp unfolding dev_present_def by metis
  note e = fxD [OF f]
  have p1: "pins s1 d N \<noteq> 0" using room_Suc(1) [OF rm, of d N] e(3) by (simp add: pin_upd_apply)
  let ?m = "min n (?sz - ofs)"
  have m: "(if off_add ofs n > ?sz then (?sz - ofs) mod 65536 else n) = ?m"
  proof -
    have "off_add ofs n = ofs + n" using n le sz by (simp add: off_add_def)
    then show ?thesis using n le by (auto simp: min_def)
  qed
  obtain s2 where l: "fs_read_loop dops d i ofs ?m [] s1 = Some (map (fdata ?V d N) [ofs ..< ofs + ?m], s2)"
    and f2: "fx dops s1 s2 ?V ?P (dirty s1)"
  proof -
    have "\<exists>s2. fs_read_loop dops d i ofs ?m [] s1 =
        Some ([] @ map (fdata (bview s1) d N) [ofs ..< ofs + ?m], s2) \<and>
        fx dops s1 s2 (bview s1) (pins s1) (dirty s1)"
    proof (rule read_loop [OF e(1) ci p1 _ rm1])
      show "dev_present (hw_hdd s1) d" using dp dev_present_fx [OF f] by simp
      show "ofs + ?m \<le> MAX_OFFSET" using sz le by auto
      show "slot (bview s1) d N (k div 256) \<noteq> 0" if "ofs \<le> k" "k < ofs + ?m" for k
      proof -
        have "k div 256 * 256 \<le> k" by simp
        then have "k div 256 * 256 < ?sz" using that by linarith
        then show ?thesis using mp e(2) by (simp add: file_mapped_def)
      qed
    qed
    then show thesis using that e(2,3) by auto
  qed
  have f3: "fx dops s s2 ?V ?P (dirty s)"
    using fx_trans [OF f fx_weaken [OF f2 e(4)]] by blast
  have c2: "cached s2 d N = Some i" using fxD(7) [OF f2, of d N] p1 e(3) ci by simp
  have "fx dops s (bfree i s2) ?V (pins s) (dirty s)"
    by (rule fx_release(1) [OF f3 c2]) (use dirty_pinned [OF ok] room_Suc(1) [OF rm] in \<open>auto simp: pin_upd_apply\<close>)
  moreover have "fs_read dops \<lparr>fn_dev = d, fn_idx = N\<rparr> ofs n s = Some (map (fdata ?V d N) [ofs ..< ofs + ?m], bfree i s2)"
    using rd node_size_bdata [OF f ci] le l by (simp add: fs_read_def Let_def m cong: if_cong split del: if_split)
  ultimately show ?thesis by blast
qed

text \<open>
  C22. On a node whose recorded size is covered by its block indexes, direct or indirect, \<^verbatim>\<open>fs_read\<close>
  returns, from an offset within the size, the words of the file from there on, as many as asked
  for and the size allows; the contents of all blocks and all hold counts are as before.
\<close>

theorem fs_read_contents:
  assumes "disk_ok dops s" "dev_present (hw_hdd s) d" "room 2 s" "file_mapped (bview s) d N"
    "n < 65536" "ofs \<le> node_size (bview s d N)"
  shows "\<exists>s'. fs_read dops \<lparr>fn_dev = d, fn_idx = N\<rparr> ofs n s =
      Some (map (fdata (bview s) d N) [ofs ..< ofs + min n (node_size (bview s d N) - ofs)], s') \<and>
    disk_ok dops s' \<and> bview s' = bview s \<and> pins s' = pins s"
  using fs_read_fx [OF assms(1,2) _ assms(4-6), of 0] assms(3) fxD by (fastforce simp: numeral_2_eq_2)

text \<open>
  A small disk image: the bitmap marks the sectors below 38, node 35 is an empty file, node 36 a file
  of one word, stored in block 37.
\<close>

definition image :: "nat \<Rightarrow> nat \<Rightarrow> u16" where
  "image n k =
     (if n = 1 then (if k < 2 then 0xffff else if k = 2 then 0x3f else 0)
      else if n = 36 then (if k = 1 then 1 else if k = 3 then 37 else 0)
      else if n = 37 \<and> k = 0 then 0x41 else 0)"

abbreviation imaged :: blk_st where
  "imaged \<equiv> cold (disk_words image)"

lemma image_view: "bview imaged d n k = image (unat n) k"
  by (simp add: trunc_def image_def)

lemma image_used:
  assumes "m < 4096"
  shows "used (bview imaged) d m \<longleftrightarrow> m < 38"
proof -
  have m: "m = m div 16 * 16 + m mod 16" by simp
  have six: "bit (0x3f :: u16) j \<longleftrightarrow> j < 6" if "j < 16" for j
  proof -
    have "(0x3f :: u16) = mask 6" by (simp add: mask_eq_exp_minus_1)
    then show ?thesis by (simp only: bit_mask_iff) auto
  qed
  have r: "m mod 16 < 16" by simp
  have "used (bview imaged) d m \<longleftrightarrow> bit (image 1 (m div 16)) (m mod 16)"
    using assms by (simp add: used_def image_view del: cold_simps)
  also have "\<dots> \<longleftrightarrow> m < 38"
  proof (cases "m div 16 < 2")
    case True
    then have "image 1 (m div 16) = 0xffff" by (simp add: image_def)
    then have "bit (image 1 (m div 16)) (m mod 16)" using r by (simp only: all_ones)
    moreover have "m < 38" using m r True by linarith
    ultimately show ?thesis by blast
  next
    case False
    then show ?thesis using m r six [OF r]
      by (cases "m div 16 = 2") (simp_all add: image_def, linarith+)
  qed
  finally show ?thesis .
qed

lemma imaged_room [simp]: "k \<le> 16 \<Longrightarrow> room k imaged"
  by (simp add: room_def)

lemma image_size: "node_size (bview imaged d 36) = 1" "node_size (bview imaged d 35) = 0"
  by (simp_all add: node_size_def image_view long_of_def image_def del: cold_simps)

theorem fs_read_contents_witness:
  "\<exists>s'. fs_read (\<lambda>_. ataGetDriver) \<lparr>fn_dev = 0, fn_idx = 36\<rparr> 0 5 imaged = Some ([0x41], s')"
proof -
  have m: "file_mapped (bview imaged) 0 36"
    by (simp add: file_mapped_def image_size slot_def image_view image_def del: cold_simps)
  have "map (fdata (bview imaged) 0 36) [0 ..< 0 + min 5 (node_size (bview imaged 0 36) - 0)] = [0x41]"
    by (simp add: image_size fdata_def slot_def image_view image_def del: cold_simps)
  with fs_read_contents [of "\<lambda>_. ataGetDriver" imaged 0 36 5 0] m show ?thesis
    by (simp add: image_size del: cold_simps) (auto simp: image_size)
qed

text \<open>
  C36. From an offset beyond the size, \<^verbatim>\<open>fs_read\<close> and \<^verbatim>\<open>fs_write\<close> transfer nothing, but the node's block
  stays held: its count has grown by one for good.
\<close>

theorem fs_read_write_beyond_end_leaks:
  assumes "disk_ok dops s" "ata_present (hw_hdd s) d N" "room 1 s" "node_size (bview s d N) < ofs"
  shows "\<exists>s'. fs_read dops \<lparr>fn_dev = d, fn_idx = N\<rparr> ofs n s = Some ([], s') \<and>
    fs_write dops \<lparr>fn_dev = d, fn_idx = N\<rparr> ofs n ws s = Some (0, s') \<and> pins s' d N = pins s d N + 1"
proof -
  have rm: "room (Suc 0) s" using assms(3) by simp
  obtain i s1 where rd: "bread dops d N s = Some (i, s1)" and ci: "cached s1 d N = Some i"
    and f: "fx dops s s1 (bview s) (pin_upd d N (\<lambda>c. c + 1) (pins s)) (dirty s)"
    using with_block [OF assms(1,2) rm] by metis
  have "pins s1 d N = pins s d N + 1" using fxD(3) [OF f] by (simp add: pin_upd_apply)
  with rd node_size_bdata [OF f ci] assms(4) show ?thesis
    by (simp add: fs_read_def fs_write_def Let_def)
qed

theorem fs_read_write_beyond_end_leaks_witness:
  "\<exists>s'. fs_read (\<lambda>_. ataGetDriver) \<lparr>fn_dev = 0, fn_idx = 36\<rparr> 2 5 imaged = Some ([], s') \<and>
     pins imaged 0 36 = 0 \<and> pins s' 0 36 = 1"
proof -
  have "ata_present (hw_hdd imaged) 0 36"
    using disk_words_present [of 0 image] by (simp add: dev_present_def)
  then show ?thesis
    using fs_read_write_beyond_end_leaks [of "\<lambda>_. ataGetDriver" imaged 0 36 2 5] image_size(1) [of 0]
    by auto
qed

end
