(* ===== verification/FsWrite.thy ===== *)
theory FsWrite
  imports FsFile
begin

text \<open>
  Writing.  A file within the direct indexes of its node (\<open>direct_file\<close>: its blocks are distinct,
  marked in the bitmap, none of the bitmap, and the unused indexes are zero) stays one when \<^verbatim>\<open>fs_write\<close>
  changes or extends it, allocating blocks on the way (\<open>wstep\<close>), and other files keep their contents.
\<close>

definition nfree :: "(u16 \<Rightarrow> u16 \<Rightarrow> buf) \<Rightarrow> u16 \<Rightarrow> nat" where
  "nfree V d = card {m. m < 65536 \<and> \<not> used V d m}"

definition direct_file :: "(u16 \<Rightarrow> u16 \<Rightarrow> buf) \<Rightarrow> u16 \<Rightarrow> u16 \<Rightarrow> nat \<Rightarrow> bool" where
  "direct_file V d N nb \<longleftrightarrow> nb \<le> 150 \<and> 35 \<le> unat N \<and> used V d (unat N) \<and> (\<forall>m<35. used V d m) \<and>
     (\<forall>k<nb. 35 \<le> unat (V d N (k + 3)) \<and> V d N (k + 3) \<noteq> N \<and> used V d (unat (V d N (k + 3)))) \<and>
     inj_on (\<lambda>k. V d N (k + 3)) {..<nb} \<and> (\<forall>k. nb \<le> k \<and> k < 150 \<longrightarrow> V d N (k + 3) = 0)"

definition wstep :: "(u16 \<Rightarrow> u16 \<Rightarrow> buf) \<Rightarrow> (u16 \<Rightarrow> u16 \<Rightarrow> buf) \<Rightarrow> u16 \<Rightarrow> u16 \<Rightarrow> nat \<Rightarrow> nat \<Rightarrow> bool" where
  "wstep V V' d N nb nb' \<longleftrightarrow> direct_file V' d N nb' \<and> nb \<le> nb' \<and> (\<forall>d'. d' \<noteq> d \<longrightarrow> V' d' = V d') \<and>
     (\<forall>j<3. V' d N j = V d N j) \<and> (\<forall>k<nb. V' d N (k + 3) = V d N (k + 3)) \<and>
     (\<forall>k. nb \<le> k \<and> k < nb' \<longrightarrow> \<not> used V d (unat (V' d N (k + 3)))) \<and>
     (\<forall>m<65536. used V d m \<longrightarrow> used V' d m) \<and> nfree V d + nb \<le> nfree V' d + nb' \<and>
     (\<forall>n. 35 \<le> unat n \<and> n \<noteq> N \<and> used V d (unat n) \<and> (\<forall>k<nb. V d N (k + 3) \<noteq> n) \<longrightarrow> V' d n = V d n)"

lemma wstep_refl: "direct_file V d N nb \<Longrightarrow> wstep V V d N nb nb"
  by (auto simp: wstep_def)

lemma wstepD:
  assumes "wstep V V' d N nb nb'"
  shows "direct_file V' d N nb'" "nb \<le> nb'" "d' \<noteq> d \<Longrightarrow> V' d' = V d'" "j < 3 \<Longrightarrow> V' d N j = V d N j"
    "k < nb \<Longrightarrow> V' d N (k + 3) = V d N (k + 3)"
    "nb \<le> k \<Longrightarrow> k < nb' \<Longrightarrow> \<not> used V d (unat (V' d N (k + 3)))"
    "m < 65536 \<Longrightarrow> used V d m \<Longrightarrow> used V' d m" "nfree V d + nb \<le> nfree V' d + nb'"
    "35 \<le> unat n \<Longrightarrow> n \<noteq> N \<Longrightarrow> used V d (unat n) \<Longrightarrow> (\<And>k. k < nb \<Longrightarrow> V d N (k + 3) \<noteq> n) \<Longrightarrow> V' d n = V d n"
  using assms unfolding wstep_def by blast+

lemma wstep_trans:
  assumes a: "wstep V W d N nb nc" and b: "wstep W X d N nc ne"
  shows "wstep V X d N nb ne"
proof -
  have new: "\<not> used V d (unat (X d N (k + 3)))" if "nb \<le> k" "k < ne" for k
  proof (cases "k < nc")
    case True
    then show ?thesis using wstepD(6) [OF a that(1) True] wstepD(5) [OF b True] by simp
  next
    case False
    then have "\<not> used W d (unat (X d N (k + 3)))" using wstepD(6) [OF b _ that(2)] by simp
    then show ?thesis using wstepD(7) [OF a unat_u16_less] by blast
  qed
  have old: "X d n = V d n" if n: "35 \<le> unat n" "n \<noteq> N" "used V d (unat n)" "\<And>k. k < nb \<Longrightarrow> V d N (k + 3) \<noteq> n" for n
  proof -
    have w: "W d n = V d n" using wstepD(9) [OF a n] .
    have u: "used W d (unat n)" using wstepD(7) [OF a unat_u16_less n(3)] .
    have "W d N (k + 3) \<noteq> n" if "k < nc" for k
    proof (cases "k < nb")
      case True
      then show ?thesis using n(4) wstepD(5) [OF a True] by simp
    next
      case False
      then show ?thesis using wstepD(6) [OF a _ that] n(3) by auto
    qed
    from wstepD(9) [OF b n(1,2) u this] w show ?thesis by simp
  qed
  show ?thesis
    unfolding wstep_def
  proof (intro conjI allI impI)
    show "X d' = V d'" if "d' \<noteq> d" for d' using wstepD(3) [OF a that] wstepD(3) [OF b that] by simp
    show "X d N j = V d N j" if "j < 3" for j using wstepD(4) [OF a that] wstepD(4) [OF b that] by simp
    show "X d N (k + 3) = V d N (k + 3)" if "k < nb" for k
      using wstepD(5) [OF a that] wstepD(5) [OF b, of k] that wstepD(2) [OF a] by simp
    show "nfree V d + nb \<le> nfree X d + ne" using wstepD(8) [OF a] wstepD(8) [OF b] by simp
    show "\<not> used V d (unat (X d N (k + 3)))" if "nb \<le> k \<and> k < ne" for k using new that by blast
    show "used X d m" if "m < 65536" "used V d m" for m using wstepD(7) [OF a that] wstepD(7) [OF b that(1)] by blast
    show "X d n = V d n" if "35 \<le> unat n \<and> n \<noteq> N \<and> used V d (unat n) \<and> (\<forall>k<nb. V d N (k + 3) \<noteq> n)" for n
      using old that by blast
  qed (use wstepD(1,2) [OF a] wstepD(1,2) [OF b] in auto)
qed

section \<open>Blocks the bitmap does not occupy\<close>

lemma bitmap_put_other: "n = 0 \<or> 16 < unat n \<Longrightarrow> m < 65536 \<Longrightarrow> bitmap_put d m v V d' n = V d' n"
proof -
  assume n: "n = 0 \<or> 16 < unat n" and m: "m < 65536"
  have k: "m div 4096 < 16" using m by (simp add: div_less_iff_less_mult)
  then have "unat (of_nat (m div 4096 + 1) :: u16) = m div 4096 + 1"
    by (intro unat_of_nat_u16_small) simp
  then have "n \<noteq> of_nat (m div 4096 + 1)" using n k by auto
  then show ?thesis by (auto simp: bitmap_put_def Let_def blk_put_apply)
qed

lemma bitmap_put_device: "d' \<noteq> d \<Longrightarrow> bitmap_put d m v V d' = V d'"
  by (simp add: bitmap_put_def Let_def blk_put_def)

lemma used_cong:
  assumes "\<And>n. n \<noteq> 0 \<Longrightarrow> unat n \<le> 16 \<Longrightarrow> V' d n = V d n" "m < 65536"
  shows "used V' d m = used V d m"
proof -
  have k: "m div 4096 < 16" using assms(2) by (simp add: div_less_iff_less_mult)
  then have u: "unat (of_nat (m div 4096 + 1) :: u16) = m div 4096 + 1"
    by (intro unat_of_nat_u16_small) simp
  then have "(of_nat (m div 4096 + 1) :: u16) \<noteq> 0" by (metis Suc_eq_plus1 nat.simps(3) unat_0)
  with assms(1) [of "of_nat (m div 4096 + 1)"] u k show ?thesis by (simp add: used_def)
qed

lemma used_blk_put: "16 < unat n \<Longrightarrow> m < 65536 \<Longrightarrow> used (blk_put d n b V) d m = used V d m"
  by (rule used_cong) (auto simp: blk_put_apply)

lemma nfree_cong: "(\<And>m. m < 65536 \<Longrightarrow> used V' d m = used V d m) \<Longrightarrow> nfree V' d = nfree V d"
  unfolding nfree_def by (rule arg_cong [of _ _ card]) auto

lemma nfree_mark:
  assumes "\<And>m. m < 65536 \<Longrightarrow> used V' d m = (used V d m \<or> m = b)" "b < 65536" "\<not> used V d b"
  shows "nfree V d = Suc (nfree V' d)"
proof -
  have "{m. m < 65536 \<and> \<not> used V d m} = insert b {m. m < 65536 \<and> \<not> used V' d m}"
    using assms by auto
  moreover have "b \<notin> {m. m < 65536 \<and> \<not> used V' d m}" using assms(1,2) by simp
  moreover have "finite {m. m < 65536 \<and> \<not> used V' d m}" by simp
  ultimately show ?thesis unfolding nfree_def by simp
qed

lemma nfree_ex:
  assumes "0 < nfree V d"
  shows "\<exists>m<65536. \<not> used V d m"
proof (rule ccontr)
  assume "\<not> ?thesis"
  then have "{m. m < 65536 \<and> \<not> used V d m} = {}" by blast
  then have "nfree V d = 0" by (simp only: nfree_def card.empty)
  with assms show False by simp
qed

section \<open>Changing a block of the file\<close>

lemma direct_fileD:
  assumes "direct_file V d N nb"
  shows "nb \<le> 150" "35 \<le> unat N" "used V d (unat N)" "m < 35 \<Longrightarrow> used V d m"
    "k < nb \<Longrightarrow> 35 \<le> unat (V d N (k + 3))" "k < nb \<Longrightarrow> V d N (k + 3) \<noteq> N"
    "k < nb \<Longrightarrow> used V d (unat (V d N (k + 3)))"
    "k < nb \<Longrightarrow> k' < nb \<Longrightarrow> V d N (k + 3) = V d N (k' + 3) \<Longrightarrow> k = k'"
    "nb \<le> k \<Longrightarrow> k < 150 \<Longrightarrow> V d N (k + 3) = 0"
  using assms unfolding direct_file_def inj_on_def by auto

lemma wstep_chunk:
  assumes "direct_file V d N nb" "k < nb"
  shows "wstep V (blk_put d (V d N (k + 3)) b V) d N nb nb"
proof -
  note D = direct_fileD [OF assms(1)]
  let ?B = "V d N (k + 3)" and ?W = "blk_put d (V d N (k + 3)) b V"
  have B: "35 \<le> unat ?B" "?B \<noteq> N" using D(5,6) [OF assms(2)] .
  have u: "used ?W d m = used V d m" if "m < 65536" for m using B(1) that by (intro used_blk_put) simp_all
  have N: "?W d N = V d N" using B(2) by (auto simp: blk_put_apply)
  have "direct_file ?W d N nb"
    using assms(1) unfolding direct_file_def N by (auto simp: u)
  then show ?thesis
    unfolding wstep_def using N nfree_cong [of ?W d V, OF u] assms(2) u by (auto simp: blk_put_apply)
qed

lemma wstep_alloc:
  assumes df: "direct_file V d N nb" and nb: "nb < 150" and b: "\<not> used V d (unat b)"
  shows "wstep V (blk_put d N ((V d N)(nb + 3 := b)) (bitmap_put d (unat b) True V)) d N nb (Suc nb)"
proof -
  note D = direct_fileD [OF df]
  let ?W = "blk_put d N ((V d N)(nb + 3 := b)) (bitmap_put d (unat b) True V)"
  have N16: "16 < unat N" using D(2) by simp
  have b35: "35 \<le> unat b" using D(4) [of "unat b"] b by (cases "unat b < 35") auto
  have bN: "b \<noteq> N" using D(3) b by auto
  have u: "used ?W d m = (used V d m \<or> m = unat b)" if "m < 65536" for m
    using used_blk_put [OF N16 that] used_bitmap_put [of "unat b" m d True V] that unat_u16_less [of b]
    by simp
  have N: "?W d N = (V d N)(nb + 3 := b)" by (simp add: blk_put_apply)
  have bk: "V d N (k + 3) \<noteq> b" if "k < nb" for k using D(7) [OF that] b by auto
  have old: "k < Suc nb \<Longrightarrow> ?W d N (k + 3) = (if k = nb then b else V d N (k + 3))" for k
    by (simp add: N)
  have "direct_file ?W d N (Suc nb)"
    unfolding direct_file_def
  proof (intro conjI allI impI)
    show "inj_on (\<lambda>k. ?W d N (k + 3)) {..<Suc nb}"
    proof (rule inj_onI)
      fix x y assume "x \<in> {..<Suc nb}" "y \<in> {..<Suc nb}" "?W d N (x + 3) = ?W d N (y + 3)"
      then show "x = y" using bk D(8) by (auto simp: N less_Suc_eq split: if_splits)
    qed
    fix k assume k: "k < Suc nb"
    have "unat (?W d N (k + 3)) < 65536" by simp
    then show "used ?W d (unat (?W d N (k + 3)))"
      using k D(7) [of k] by (simp only: u) (auto simp: N less_Suc_eq)
    show "35 \<le> unat (?W d N (k + 3))" "?W d N (k + 3) \<noteq> N"
      using k D(5,6) [of k] b35 bN by (auto simp: N less_Suc_eq)
  next
    fix k assume "Suc nb \<le> k \<and> k < 150"
    then show "?W d N (k + 3) = 0" using D(9) [of k] by (simp add: N)
  qed (use nb D(2-4) u in auto)
  moreover have "?W d n = V d n" if "35 \<le> unat n" "n \<noteq> N" for n
    using that bitmap_put_other [of n "unat b" d True V d] by (simp add: blk_put_apply)
  moreover have "nfree V d = Suc (nfree ?W d)"
    using nfree_mark [of ?W d V "unat b", OF u] b by simp
  moreover have "?W d' = V d'" if "d' \<noteq> d" for d' using that bitmap_put_device [OF that] by (simp add: blk_put_def)
  ultimately show ?thesis
    unfolding wstep_def using N b u by (auto simp: less_Suc_eq)
qed

section \<open>The block at an offset, allocated when it is the next one\<close>

lemma getOrAlloc_direct:
  assumes ok: "disk_ok dops s" and c: "cached s d N = Some i" and p: "pins s d N \<noteq> 0"
    and dp: "dev_present (hw_hdd s) d" and rm: "room (Suc r) s" and df: "direct_file (bview s) d N nb"
    and le: "ofs div 256 \<le> nb" and lim: "ofs < 38400" and fr: "ofs div 256 = nb \<Longrightarrow> 0 < nfree (bview s) d"
  shows "\<exists>V' s'. getOrAllocBlockByOffset dops d i ofs s = Some (V' d N (ofs div 256 + 3), s') \<and>
    fx dops s s' V' (pins s) (insert (d, N) (dirty s)) \<and>
    wstep (bview s) V' d N nb (max nb (Suc (ofs div 256))) \<and>
    (\<forall>n. 35 \<le> unat n \<and> n \<noteq> N \<longrightarrow> V' d n = bview s d n)"
proof -
  let ?V = "bview s" and ?k = "ofs div 256"
  note f0 = fx_refl [OF ok] and D = direct_fileD [OF df]
  have k: "?k < 150" using lim by (simp add: div_less_iff_less_mult)
  have nd: "bdata i s (?k + 3) = ?V d N (?k + 3)" using held_data [OF f0 c] k by simp
  show ?thesis
  proof (cases "?k < nb")
    case True
    then have "?V d N (?k + 3) \<noteq> 0" using D(5) [OF True] by auto
    then have "getOrAllocBlockByOffset dops d i ofs s = Some (?V d N (?k + 3), s)"
      using lim k nd by (simp add: getOrAllocBlockByOffset_def Let_def)
    moreover have "wstep ?V ?V d N nb (max nb (Suc ?k))" using wstep_refl [OF df] True by (simp add: max_absorb1)
    moreover have "fx dops s s ?V (pins s) (insert (d, N) (dirty s))" using fx_weaken [OF f0] by blast
    ultimately show ?thesis by blast
  next
    case False
    then have e: "?k = nb" using le by simp
    have z: "?V d N (?k + 3) = 0" using D(9) [of nb] e k by simp
    obtain m where m: "m < 65536" "\<not> used ?V d m" using nfree_ex [OF fr [OF e]] by blast
    obtain b s1 where al: "fs_allocBlock dops d s = Some (b, s1)" and ub: "\<not> used ?V d (unat b)"
      and f: "fx dops s s1 (bitmap_put d (unat b) True ?V) (pins s) (dirty s)"
      using allocBlock_fx [OF ok dp rm m] by blast
    let ?W = "blk_put d N ((?V d N)(nb + 3 := b)) (bitmap_put d (unat b) True ?V)"
    have bN: "bitmap_put d (unat b) True ?V d n = ?V d n" if "35 \<le> unat n" for n
      using that by (intro bitmap_put_other) simp_all
    have c1: "cached s1 d N = Some i" using fxD(7) [OF f] p c by simp
    have "fx dops s (bset i (?k + 3) b s1) ?W (pins s) (insert (d, N) (dirty s))"
      using fx_bset(1) [OF f c1 p, of "?k + 3" b] k bN [OF D(2)] e by simp
    moreover have "getOrAllocBlockByOffset dops d i ofs s = Some (?W d N (?k + 3), bset i (?k + 3) b s1)"
      using lim k nd z al e by (simp add: getOrAllocBlockByOffset_def Let_def blk_put_apply)
    moreover have "wstep ?V ?W d N nb (max nb (Suc ?k))"
      using wstep_alloc [OF df _ ub] k e by (simp add: max_def)
    moreover have "\<forall>n. 35 \<le> unat n \<and> n \<noteq> N \<longrightarrow> ?W d n = ?V d n"
      using bN by (auto simp: blk_put_apply)
    ultimately show ?thesis by blast
  qed
qed

section \<open>The write loop\<close>

lemma fdata_direct: "ofs < 38400 \<Longrightarrow> fdata V d N ofs = V d (V d N (ofs div 256 + 3)) (ofs mod 256)"
  by (simp add: fdata_def slot_def div_less_iff_less_mult)

lemma block_bound: "o' < nb * 256 \<Longrightarrow> nb \<le> 150 \<Longrightarrow> o' div 256 < nb \<and> o' < (38400 :: nat)"
  by (simp add: div_less_iff_less_mult)

lemma chunk_end:
  fixes ofs :: nat
  assumes "w \<le> 256 - ofs mod 256"
  shows "ofs + w \<le> Suc (ofs div 256) * 256"
proof -
  have "q * 256 + m + w \<le> Suc q * 256" if "m < 256" "w \<le> 256 - m" for q m using that by simp
  from this [of "ofs mod 256" "ofs div 256"] assms show ?thesis by simp
qed

lemma fdata_chunk:
  assumes df: "direct_file V d N nb" and k: "ofs div 256 < nb" and wn: "wn \<le> 256 - ofs mod 256" "wn \<le> length buf"
    and o: "o' < nb * 256"
  shows "fdata (blk_put d (V d N (ofs div 256 + 3)) (blit (V d (V d N (ofs div 256 + 3))) (ofs mod 256) (take wn buf)) V) d N o' =
    (if ofs \<le> o' \<and> o' < ofs + wn then buf ! (o' - ofs) else fdata V d N o')" (is "fdata ?W d N o' = _")
proof -
  note D = direct_fileD [OF df]
  from block_bound [OF o D(1)] have o': "o' div 256 < nb" "o' < 38400" by auto
  have N: "?W d N = V d N" using D(6) [OF k] by (auto simp: blk_put_apply)
  show ?thesis
  proof (cases "o' div 256 = ofs div 256")
    case True
    have a: "o' = ofs div 256 * 256 + o' mod 256" "ofs = ofs div 256 * 256 + ofs mod 256"
      using True by (metis div_mult_mod_eq, simp)
    have "ofs mod 256 + wn \<le> 256" "length (take wn buf) = wn"
      using wn mod_less_divisor [of 256 ofs] by simp_all
    moreover have "(ofs \<le> o' \<and> o' < ofs + wn) = (ofs mod 256 \<le> o' mod 256 \<and> o' mod 256 < ofs mod 256 + wn)"
      using a by linarith
    moreover have "o' - ofs = o' mod 256 - ofs mod 256" using a by linarith
    moreover have "take wn buf ! (o' mod 256 - ofs mod 256) = buf ! (o' mod 256 - ofs mod 256)"
      if "o' mod 256 < ofs mod 256 + wn" "ofs mod 256 \<le> o' mod 256"
      by (rule nth_take) (use that in linarith)
    ultimately show ?thesis
      using N True o'(2) by (auto simp: fdata_direct blk_put_apply blit_def)
  next
    case False
    have "\<not> (ofs \<le> o' \<and> o' < ofs + wn)"
    proof
      assume h: "ofs \<le> o' \<and> o' < ofs + wn"
      have "ofs div 256 * 256 \<le> ofs" by simp
      then have "ofs div 256 * 256 \<le> o'" using conjunct1 [OF h] by linarith
      moreover have "o' < Suc (ofs div 256) * 256" using chunk_end [OF wn(1)] conjunct2 [OF h] by linarith
      ultimately have "o' div 256 = ofs div 256" by (intro div_nat_eqI) simp_all
      with False show False by simp
    qed
    moreover have "V d N (o' div 256 + 3) \<noteq> V d N (ofs div 256 + 3)"
      using D(8) [OF o'(1) k] False by blast
    ultimately show ?thesis using N o'(2) by (auto simp: fdata_direct blk_put_apply)
  qed
qed

lemma fdata_other:
  assumes "direct_file V d N nb" "o' < nb * 256" "\<And>k. k < nb \<Longrightarrow> V' d N (k + 3) = V d N (k + 3)"
    "\<And>n. 35 \<le> unat n \<Longrightarrow> n \<noteq> N \<Longrightarrow> V' d n = V d n"
  shows "fdata V' d N o' = fdata V d N o'"
proof -
  note D = direct_fileD [OF assms(1)]
  from block_bound [OF assms(2) D(1)] have o: "o' div 256 < nb" "o' < 38400" by auto
  then show ?thesis using assms(3) [OF o(1)] assms(4) [OF D(5,6) [OF o(1)]] by (simp add: fdata_direct)
qed

lemma write_loop:
  assumes "disk_ok dops s" "cached s d N = Some i" "pins s d N \<noteq> 0" "dev_present (hw_hdd s) d"
    "room (Suc (Suc r)) s" "direct_file (bview s) d N nb" "ofs div 256 < nb" "ofs + n < 38400"
    "(ofs + n) div 256 < nb + nfree (bview s) d" "n \<le> length buf"
  shows "\<exists>V' nb' s'. fs_write_loop dops d i (bview s d N (ofs div 256 + 3)) ofs n buf s = Some (ofs + n, s') \<and>
    fx dops s s' V' (pins s) (insert (d, N) (dirty s)) \<and> wstep (bview s) V' d N nb nb' \<and>
    (ofs + n) div 256 < nb' \<and> (\<forall>o'. o' < nb * 256 \<or> ofs \<le> o' \<and> o' < ofs + n \<longrightarrow> fdata V' d N o' =
      (if ofs \<le> o' \<and> o' < ofs + n then buf ! (o' - ofs) else fdata (bview s) d N o'))"
  using assms
proof (induction n arbitrary: ofs nb buf s rule: less_induct)
  case (less n)
  show ?case
  proof (cases "n = 0")
    case True
    have "fx dops s s (bview s) (pins s) (insert (d, N) (dirty s))" using fx_weaken [OF fx_refl [OF less.prems(1)]] by blast
    moreover have "fs_write_loop dops d i (bview s d N (ofs div 256 + 3)) ofs n buf s = Some (ofs + n, s)"
      using True by (subst fs_write_loop.simps) simp
    ultimately show ?thesis using wstep_refl [OF less.prems(6)] less.prems(7) True
      by (intro exI [of _ "bview s"] exI [of _ nb] exI [of _ s]) auto
  next
    case False
    define w where "w = min n (256 - ofs mod 256)"
    let ?V = "bview s" and ?o = "ofs mod 256"
    let ?B = "?V d N (ofs div 256 + 3)"
    let ?P = "pin_upd d ?B (\<lambda>c. c + 1) (pins s)" and ?V1 = "blk_put d ?B (blit (?V d ?B) ?o (take w buf)) ?V"
    note D = direct_fileD [OF less.prems(6)] and nw = room_Suc(1) [OF less.prems(5)]
    have w: "0 < w" "w \<le> 256 - ?o" "w \<le> n" "w \<le> length buf" using False less.prems(10) by (simp_all add: w_def)
    have wn: "ofs + w + (n - w) = ofs + n" using w(3) by simp
    have BN: "?B \<noteq> N" using D(6) [OF less.prems(7)] .
    obtain j s1 where rd: "bread dops d ?B s = Some (j, s1)" and cj: "cached s1 d ?B = Some j"
      and f1: "fx dops s s1 ?V ?P (dirty s)" and rm1: "room (Suc r) s1"
      using with_block [OF less.prems(1) _ less.prems(5)] less.prems(4) unfolding dev_present_def by metis
    have PB: "?P d ?B \<noteq> 0" "?P d N \<noteq> 0" using nw less.prems(3) BN by (auto simp: pin_upd_apply)
    have off: "?o + length (take w buf) \<le> 256"
    proof -
      have "?o < 256" by simp
      moreover have "length (take w buf) \<le> w" by (simp only: length_take min.cobounded2)
      ultimately show ?thesis using w(2) by linarith
    qed
    let ?t1 = "bcopy j ?o (take w buf) s1"
    note f2 = fx_bcopy [OF f1 cj PB(1) off]
    note e2 = fxD [OF f2(1)]
    have c1: "cached ?t1 d N = Some i" using e2(7) less.prems(2,3) PB(2) by simp
    have rm2: "room (Suc r) ?t1" using rm1 room_cong [of ?t1 s1 "Suc r"] fxD(3) [OF f1] e2(3) by simp
    have s1: "wstep ?V ?V1 d N nb nb" using wstep_chunk [OF less.prems(6,7)] .
    have df1: "direct_file (bview ?t1) d N nb" using wstepD(1) [OF s1] e2(2) by simp
    have oo: "off_add ofs w = ofs + w" using less.prems(8) w(3) by (simp add: off_add_def)
    have lim: "ofs + w < 38400" using less.prems(8) w(3) by simp
    have le: "(ofs + w) div 256 \<le> nb"
    proof -
      from div_le_mono [OF chunk_end [OF w(2)], of 256] have "(ofs + w) div 256 \<le> Suc (ofs div 256)"
        by (simp only: nonzero_mult_div_cancel_right)
      then show ?thesis using less.prems(7) by simp
    qed
    have mono: "(ofs + w) div 256 \<le> (ofs + n) div 256" by (rule div_le_mono) (use w(3) in simp)
    have fr: "0 < nfree (bview ?t1) d" if "(ofs + w) div 256 = nb"
      using that mono less.prems(9) wstepD(8) [OF s1] e2(2) by simp
    obtain V2 s2 where g: "getOrAllocBlockByOffset dops d i (ofs + w) ?t1 = Some (V2 d N ((ofs + w) div 256 + 3), s2)"
      and f3: "fx dops ?t1 s2 V2 ?P (insert (d, N) (dirty ?t1))"
      and s2: "wstep ?V1 V2 d N nb (max nb (Suc ((ofs + w) div 256)))"
      and v2: "\<forall>n. 35 \<le> unat n \<and> n \<noteq> N \<longrightarrow> V2 d n = ?V1 d n"
      using getOrAlloc_direct [OF e2(1) c1 _ _ rm2 df1 le lim fr] PB(2) less.prems(4) dev_present_fx [OF f2(1)] e2(2,3)
      by metis
    let ?nb = "max nb (Suc ((ofs + w) div 256))"
    have f4: "fx dops s s2 V2 ?P (insert (d, N) (insert (d, ?B) (dirty s)))"
      using fx_trans [OF f2(1) fx_weaken [OF f3]] e2(4) by blast
    have c2: "cached s2 d ?B = Some j" using fxD(7) [OF f3] e2(3) PB(1) f2(2) cj by simp
    note f5 = fx_bmark [OF f4 c2]
    let ?t2 = "bfree j (bmark j s2)"
    have c3: "cached (bmark j s2) d ?B = Some j" using f5(2) c2 by simp
    have f6: "fx dops s ?t2 V2 (pins s) (insert (d, N) (dirty s))"
    proof -
      have "fx dops s ?t2 V2 (pins s) (insert (d, N) (insert (d, ?B) (dirty s)) - {(d, ?B)})"
        by (rule fx_release(1) [OF f5(1) c3]) (use nw in \<open>auto simp: pin_upd_apply\<close>)
      then show ?thesis by (rule fx_weaken) blast
    qed
    note e6 = fxD [OF f6]
    have s3: "wstep ?V V2 d N nb ?nb" using wstep_trans [OF s1 s2] .
    have k2: "(ofs + w) div 256 < ?nb" by simp
    have ih: "\<exists>V' nb' s'. fs_write_loop dops d i (bview ?t2 d N ((ofs + w) div 256 + 3)) (ofs + w) (n - w) (drop w buf) ?t2 = Some ((ofs + w) + (n - w), s') \<and>
      fx dops ?t2 s' V' (pins ?t2) (insert (d, N) (dirty ?t2)) \<and> wstep (bview ?t2) V' d N ?nb nb' \<and>
      ((ofs + w) + (n - w)) div 256 < nb' \<and> (\<forall>o'. o' < ?nb * 256 \<or> ofs + w \<le> o' \<and> o' < (ofs + w) + (n - w) \<longrightarrow> fdata V' d N o' =
        (if ofs + w \<le> o' \<and> o' < (ofs + w) + (n - w) then drop w buf ! (o' - (ofs + w)) else fdata (bview ?t2) d N o'))"
    proof (rule less.IH)
      show "n - w < n" using w by simp
      show "cached ?t2 d N = Some i" using e6(7) less.prems(2,3) by simp
      show "pins ?t2 d N \<noteq> 0" using e6(3) less.prems(3) by simp
      show "dev_present (hw_hdd ?t2) d" using less.prems(4) dev_present_fx [OF f6] by simp
      show "room (Suc (Suc r)) ?t2" using less.prems(5) room_cong [OF e6(3)] by simp
      show "direct_file (bview ?t2) d N ?nb" using wstepD(1) [OF s3] e6(2) by simp
      show "(ofs + w + (n - w)) div 256 < ?nb + nfree (bview ?t2) d"
        using less.prems(9) wstepD(8) [OF s3] e6(2) w(3) by simp
      show "ofs + w + (n - w) < 38400" using less.prems(8) w(3) by simp
      show "n - w \<le> length (drop w buf)" using less.prems(10) by simp
    qed (fact e6(1) k2)+
    then obtain V' nb' s' where
      l: "fs_write_loop dops d i (V2 d N ((ofs + w) div 256 + 3)) (ofs + w) (n - w) (drop w buf) ?t2 = Some (ofs + n, s')"
      and f7: "fx dops ?t2 s' V' (pins s) (insert (d, N) (dirty ?t2))" and s4: "wstep V2 V' d N ?nb nb'"
      and k3: "(ofs + n) div 256 < nb'"
      and dat: "\<And>o'. o' < ?nb * 256 \<or> ofs + w \<le> o' \<and> o' < ofs + n \<Longrightarrow> fdata V' d N o' =
        (if ofs + w \<le> o' \<and> o' < ofs + n then drop w buf ! (o' - (ofs + w)) else fdata V2 d N o')"
      using ih [unfolded e6(2,3) wn] by blast
    have "fx dops s s' V' (pins s) (insert (d, N) (dirty s))"
      using fx_trans [OF f6 fx_weaken [OF f7]] e6(4) by blast
    moreover have "fs_write_loop dops d i ?B ofs n buf s = Some (ofs + n, s')"
      using False rd w(4) g l oo by (subst fs_write_loop.simps) (simp add: Let_def w_def [symmetric])
    moreover have "fdata V' d N o' = (if ofs \<le> o' \<and> o' < ofs + n then buf ! (o' - ofs) else fdata ?V d N o')"
      if o: "o' < nb * 256 \<or> ofs \<le> o' \<and> o' < ofs + n" for o'
    proof (cases "ofs + w \<le> o' \<and> o' < ofs + n")
      case True
      then have "drop w buf ! (o' - (ofs + w)) = buf ! (o' - ofs)" using w(4) by simp
      then show ?thesis using True dat [of o'] by simp
    next
      case out: False
      have "Suc (ofs div 256) * 256 \<le> nb * 256" using less.prems(7) by (intro mult_le_mono1 Suc_leI)
      then have b: "ofs + w \<le> nb * 256" using chunk_end [OF w(2)] by linarith
      with o out have on: "o' < nb * 256" by linarith
      moreover have "nb * 256 \<le> ?nb * 256" by (rule mult_le_mono1) simp
      ultimately have "o' < ?nb * 256" by linarith
      then have "fdata V' d N o' = fdata V2 d N o'" using dat [of o'] out by simp
      also have "\<dots> = fdata ?V1 d N o'"
      proof (rule fdata_other [OF wstepD(1) [OF s1] on])
        show "V2 d N (k + 3) = ?V1 d N (k + 3)" if "k < nb" for k using wstepD(5) [OF s2 that] .
        show "V2 d n = ?V1 d n" if "35 \<le> unat n" "n \<noteq> N" for n using v2 that by blast
      qed
      also have "\<dots> = (if ofs \<le> o' \<and> o' < ofs + w then buf ! (o' - ofs) else fdata ?V d N o')"
        using fdata_chunk [OF less.prems(6,7) w(2,4) on] .
      finally show ?thesis using out w(3) by auto
    qed
    ultimately show ?thesis using wstep_trans [OF s3 s4] k3 by blast
  qed
qed

section \<open>Writing a file\<close>

text \<open>
  The abstract file is the list of its words; a write at \<open>ofs\<close> replaces and extends it (\<open>write_at\<close>).
\<close>

definition file_contents :: "(u16 \<Rightarrow> u16 \<Rightarrow> buf) \<Rightarrow> u16 \<Rightarrow> u16 \<Rightarrow> u16 list" where
  "file_contents V d N = map (fdata V d N) [0 ..< node_size (V d N)]"

definition write_at :: "u16 list \<Rightarrow> nat \<Rightarrow> u16 list \<Rightarrow> u16 list" where
  "write_at xs ofs ys = take ofs xs @ ys @ drop (ofs + length ys) xs"

lemma length_write_at: "ofs \<le> length xs \<Longrightarrow> length (write_at xs ofs ys) = max (length xs) (ofs + length ys)"
  by (auto simp: write_at_def)

lemma nth_write_at:
  "ofs \<le> length xs \<Longrightarrow> i < length xs \<or> i < ofs + length ys \<Longrightarrow>
   write_at xs ofs ys ! i = (if ofs \<le> i \<and> i < ofs + length ys then ys ! (i - ofs) else xs ! i)"
  by (auto simp: write_at_def nth_append min_def)

text \<open>The size word of the node does not affect the file's blocks.\<close>

definition put_size :: "u16 \<Rightarrow> u16 \<Rightarrow> nat \<Rightarrow> (u16 \<Rightarrow> u16 \<Rightarrow> buf) \<Rightarrow> u16 \<Rightarrow> u16 \<Rightarrow> buf" where
  "put_size d N z V = blk_put d N ((V d N)(1 := long_lo z, 2 := long_hi z)) V"

lemma put_size_other: "\<not> (d' = d \<and> n = N) \<Longrightarrow> put_size d N z V d' n = V d' n"
  by (auto simp: put_size_def blk_put_apply)

lemma put_size_slot: "put_size d N z V d N (k + 3) = V d N (k + 3)"
  by (simp add: put_size_def blk_put_apply)

lemma put_size_size: "z < 4294967296 \<Longrightarrow> node_size (put_size d N z V d N) = z"
  by (simp add: put_size_def blk_put_apply node_size_def)

lemma put_size_used: "16 < unat N \<Longrightarrow> m < 65536 \<Longrightarrow> used (put_size d N z V) d m = used V d m"
  unfolding put_size_def by (rule used_blk_put)

lemma put_size_direct:
  assumes "direct_file V d N nb"
  shows "direct_file (put_size d N z V) d N nb"
proof -
  have "16 < unat N" using direct_fileD(2) [OF assms] by simp
  then show ?thesis
    using assms unfolding direct_file_def put_size_slot by (auto simp: put_size_used)
qed

lemma put_size_fdata:
  assumes "direct_file V d N nb" "i < nb * 256"
  shows "fdata (put_size d N z V) d N i = fdata V d N i"
  by (rule fdata_other [OF assms]) (auto simp: put_size_slot put_size_other)

text \<open>What \<^verbatim>\<open>fs_write\<close> does to the contents \<open>V\<close>; \<open>W\<close> is \<open>V\<close> before the size is recorded.\<close>

definition wrote :: "(u16 \<Rightarrow> u16 \<Rightarrow> buf) \<Rightarrow> (u16 \<Rightarrow> u16 \<Rightarrow> buf) \<Rightarrow> u16 \<Rightarrow> u16 \<Rightarrow> nat \<Rightarrow> nat \<Rightarrow> nat \<Rightarrow> u16 list \<Rightarrow> bool" where
  "wrote V V' d N nb nb' ofs xs \<longleftrightarrow> (\<exists>W. wstep V W d N nb nb' \<and> (ofs + length xs) div 256 < nb' \<and>
     (\<forall>i. i < nb * 256 \<or> ofs \<le> i \<and> i < ofs + length xs \<longrightarrow>
        fdata W d N i = (if ofs \<le> i \<and> i < ofs + length xs then xs ! (i - ofs) else fdata V d N i)) \<and>
     V' = (if ofs + length xs > node_size (V d N) then put_size d N (ofs + length xs) W else W))"

lemma fs_write_fx:
  assumes ok: "disk_ok dops s" and dp: "dev_present (hw_hdd s) d" and rm: "room 3 s"
    and df: "direct_file (bview s) d N nb" and sz: "node_size (bview s d N) \<le> nb * 256"
    and le: "ofs \<le> node_size (bview s d N)" and lb: "n \<le> length buf" and lim: "ofs + n < 38400"
    and fr: "(ofs + n) div 256 < nb + nfree (bview s) d"
  shows "\<exists>V' nb' s'. fs_write dops \<lparr>fn_dev = d, fn_idx = N\<rparr> ofs n buf s = Some (n, s') \<and>
    fx dops s s' V' (pins s) (dirty s) \<and> wrote (bview s) V' d N nb nb' ofs (take n buf)"
proof -
  let ?V = "bview s" and ?P = "pin_upd d N (\<lambda>c. c + 1) (pins s)" and ?U = "insert (d, N) (dirty s)"
  have rm3: "room (Suc (Suc (Suc 0))) s" using rm by (simp add: numeral_3_eq_3)
  note nw = room_Suc(1) [OF rm3]
  obtain i s1 where rd: "bread dops d N s = Some (i, s1)" and c1: "cached s1 d N = Some i"
    and f1: "fx dops s s1 ?V ?P (dirty s)" and rm1: "room (Suc (Suc 0)) s1"
    using with_block [OF ok _ rm3] dp unfolding dev_present_def by metis
  note e1 = fxD [OF f1]
  have PN: "?P d N \<noteq> 0" using nw by (auto simp: pin_upd_apply)
  have dp1: "dev_present (hw_hdd s1) d" using dp dev_present_fx [OF f1] by simp
  have k: "ofs div 256 \<le> nb" "ofs < 38400"
    using div_le_mono [OF le_trans [OF le sz], of 256] lim by simp_all
  have mono: "ofs div 256 \<le> (ofs + n) div 256" by (rule div_le_mono) simp
  have df1: "direct_file (bview s1) d N nb" and fr1: "ofs div 256 = nb \<Longrightarrow> 0 < nfree (bview s1) d"
    using df fr mono e1(2) by auto
  let ?nb = "max nb (Suc (ofs div 256))"
  obtain V1 s2 where g: "getOrAllocBlockByOffset dops d i ofs s1 = Some (V1 d N (ofs div 256 + 3), s2)"
    and f2: "fx dops s1 s2 V1 ?P (insert (d, N) (dirty s1))" and w1: "wstep ?V V1 d N nb ?nb"
    and v1: "\<forall>n. 35 \<le> unat n \<and> n \<noteq> N \<longrightarrow> V1 d n = ?V d n"
    using getOrAlloc_direct [OF e1(1) c1 _ dp1 rm1 df1 k fr1] PN e1(2,3) by metis
  have f3: "fx dops s s2 V1 ?P ?U" using fx_trans [OF f1 fx_weaken [OF f2]] e1(4) by blast
  note e3 = fxD [OF f3]
  have c2: "cached s2 d N = Some i" using fxD(7) [OF f2] e1(3) PN c1 by simp
  have dp2: "dev_present (hw_hdd s2) d" using dp dev_present_fx [OF f3] by simp
  have rm2: "room (Suc (Suc 0)) s2" using rm1 room_cong [of s2 s1] e1(3) e3(3) by simp
  have df2: "direct_file (bview s2) d N ?nb" using wstepD(1) [OF w1] e3(2) by simp
  have fr2: "(ofs + n) div 256 < ?nb + nfree (bview s2) d" using fr wstepD(8) [OF w1] e3(2) by simp
  have p2: "pins s2 d N \<noteq> 0" and kn: "ofs div 256 < ?nb" using PN e3(3) by simp_all
  obtain W nb' s3 where l: "fs_write_loop dops d i (V1 d N (ofs div 256 + 3)) ofs n buf s2 = Some (ofs + n, s3)"
    and f4: "fx dops s2 s3 W ?P (insert (d, N) (dirty s2))" and w2: "wstep V1 W d N ?nb nb'"
    and k2: "(ofs + n) div 256 < nb'"
    and dat: "\<forall>o'. o' < ?nb * 256 \<or> ofs \<le> o' \<and> o' < ofs + n \<longrightarrow> fdata W d N o' =
      (if ofs \<le> o' \<and> o' < ofs + n then buf ! (o' - ofs) else fdata V1 d N o')"
    using write_loop [OF e3(1) c2 p2 dp2 rm2 df2 kn lim fr2 lb] unfolding e3(2,3) by blast
  have f5: "fx dops s s3 W ?P ?U" using fx_trans [OF f3 fx_weaken [OF f4]] e3(4) by blast
  have c3: "cached s3 d N = Some i" using fxD(7) [OF f4] e3(3) PN c2 by simp
  let ?z = "ofs + n > node_size (?V d N)"
  define s4 where "s4 = (if ?z then bset i 2 (long_hi (ofs + n)) (bset i 1 (long_lo (ofs + n)) s3) else s3)"
  define V' where "V' = (if ?z then put_size d N (ofs + n) W else W)"
  have "fx dops s s4 V' ?P ?U \<and> cached s4 d N = Some i"
  proof (cases ?z)
    case True
    note b1 = fx_bset [OF f5 c3 PN, of 1 "long_lo (ofs + n)"]
    have "cached (bset i 1 (long_lo (ofs + n)) s3) d N = Some i" using b1(2) c3 by simp
    note b2 = fx_bset [OF b1(1) this PN, of 2 "long_hi (ofs + n)"]
    have "blk_put d N ((blk_put d N ((W d N)(1 := long_lo (ofs + n))) W d N)(2 := long_hi (ofs + n)))
        (blk_put d N ((W d N)(1 := long_lo (ofs + n))) W) = put_size d N (ofs + n) W"
      by (simp add: put_size_def blk_put_def fun_eq_iff)
    with True b1(2) b2 c3 show ?thesis by (simp add: s4_def V'_def)
  qed (use f5 c3 in \<open>simp add: s4_def V'_def\<close>)
  then have f6: "fx dops s s4 V' ?P ?U" and c4: "cached s4 d N = Some i" by simp_all
  note b = fx_bmark [OF f6 c4]
  have c5: "cached (bmark i s4) d N = Some i" using b(2) c4 by simp
  have "fx dops s (bfree i (bmark i s4)) V' (pins s) (?U - {(d, N)})"
    by (rule fx_release(1) [OF b(1) c5]) (use nw in \<open>auto simp: pin_upd_apply\<close>)
  then have f7: "fx dops s (bfree i (bmark i s4)) V' (pins s) (dirty s)" by (rule fx_weaken) blast
  have r: "fs_write dops \<lparr>fn_dev = d, fn_idx = N\<rparr> ofs n buf s = Some (n, bfree i (bmark i s4))"
    using rd g l le node_size_bdata [OF f1 c1]
    by (simp add: fs_write_def Let_def s4_def cong: if_cong split del: if_split)
  have len: "length (take n buf) = n" using lb by simp
  have "fdata W d N j = (if ofs \<le> j \<and> j < ofs + n then take n buf ! (j - ofs) else fdata ?V d N j)"
    if j: "j < nb * 256 \<or> ofs \<le> j \<and> j < ofs + n" for j
  proof (cases "ofs \<le> j \<and> j < ofs + n")
    case True
    then show ?thesis using dat by auto
  next
    case False
    with j have jn: "j < nb * 256" by blast
    moreover have "nb * 256 \<le> ?nb * 256" by (rule mult_le_mono1) simp
    ultimately have "j < ?nb * 256" by linarith
    then have "fdata W d N j = fdata V1 d N j" using dat False by auto
    also have "\<dots> = fdata ?V d N j"
    proof (rule fdata_other [OF df jn])
      show "V1 d N (k + 3) = ?V d N (k + 3)" if "k < nb" for k using wstepD(5) [OF w1 that] .
      show "V1 d n = ?V d n" if "35 \<le> unat n" "n \<noteq> N" for n using v1 that by blast
    qed
    finally show ?thesis using False by auto
  qed
  then have "wrote ?V V' d N nb nb' ofs (take n buf)"
    unfolding wrote_def len V'_def using wstep_trans [OF w1 w2] k2 by blast
  with r f7 show ?thesis by blast
qed

lemma wroteE:
  assumes "wrote V V' d N nb nb' ofs xs"
  obtains W where "wstep V W d N nb nb'" "(ofs + length xs) div 256 < nb'"
    "\<And>i. i < nb * 256 \<or> ofs \<le> i \<and> i < ofs + length xs \<Longrightarrow>
        fdata W d N i = (if ofs \<le> i \<and> i < ofs + length xs then xs ! (i - ofs) else fdata V d N i)"
    "V' = (if ofs + length xs > node_size (V d N) then put_size d N (ofs + length xs) W else W)"
  using assms unfolding wrote_def by blast

lemma wrote_direct: "wrote V V' d N nb nb' ofs xs \<Longrightarrow> direct_file V' d N nb'"
  by (elim wroteE) (auto dest: wstepD(1) intro: put_size_direct)

lemma wrote_size:
  assumes "wrote V V' d N nb nb' ofs xs" "ofs + length xs < 4294967296"
  shows "node_size (V' d N) = max (node_size (V d N)) (ofs + length xs)"
proof -
  from assms(1) obtain W where W: "wstep V W d N nb nb'"
    "V' = (if ofs + length xs > node_size (V d N) then put_size d N (ofs + length xs) W else W)"
    by (elim wroteE)
  have "node_size (W d N) = node_size (V d N)" using wstepD(4) [OF W(1)] by (simp add: node_size_def)
  with W(2) assms(2) show ?thesis by (auto simp: put_size_size)
qed

lemma div_less_bound: "m div 256 < nb \<Longrightarrow> i < m \<Longrightarrow> i < nb * (256 :: nat)"
proof -
  assume "m div 256 < nb" "i < m"
  then have "m < nb * 256" by (simp add: div_less_iff_less_mult)
  with \<open>i < m\<close> show ?thesis by linarith
qed

lemma wrote_fdata:
  assumes "wrote V V' d N nb nb' ofs xs" "i < nb * 256 \<or> ofs \<le> i \<and> i < ofs + length xs"
  shows "fdata V' d N i = (if ofs \<le> i \<and> i < ofs + length xs then xs ! (i - ofs) else fdata V d N i)"
proof -
  from assms(1) obtain W where W: "wstep V W d N nb nb'" "(ofs + length xs) div 256 < nb'"
    "fdata W d N i = (if ofs \<le> i \<and> i < ofs + length xs then xs ! (i - ofs) else fdata V d N i)"
    "V' = (if ofs + length xs > node_size (V d N) then put_size d N (ofs + length xs) W else W)"
    using assms(2) by (elim wroteE) blast
  have "nb * 256 \<le> nb' * 256" using wstepD(2) [OF W(1)] by (rule mult_le_mono1)
  then have "i < nb' * 256" using assms(2) div_less_bound [OF W(2)] by auto
  from put_size_fdata [OF wstepD(1) [OF W(1)] this] W(3,4) show ?thesis by simp
qed

lemma wrote_contents:
  assumes w: "wrote V V' d N nb nb' ofs xs" and "ofs + length xs < 4294967296"
    and "node_size (V d N) \<le> nb * 256" "ofs \<le> node_size (V d N)"
  shows "file_contents V' d N = write_at (file_contents V d N) ofs xs"
proof (rule nth_equalityI)
  show "length (file_contents V' d N) = length (write_at (file_contents V d N) ofs xs)"
    using wrote_size [OF assms(1,2)] assms(4) by (simp add: file_contents_def length_write_at)
  fix i assume "i < length (file_contents V' d N)"
  then have i: "i < max (node_size (V d N)) (ofs + length xs)"
    using wrote_size [OF assms(1,2)] by (simp add: file_contents_def)
  then have c: "i < nb * 256 \<or> ofs \<le> i \<and> i < ofs + length xs" using assms(3,4) by auto
  have "file_contents V' d N ! i = fdata V' d N i"
    using i wrote_size [OF assms(1,2)] by (simp add: file_contents_def)
  also have "\<dots> = write_at (file_contents V d N) ofs xs ! i"
    using i assms(4) by (subst nth_write_at) (auto simp: wrote_fdata [OF w c] file_contents_def)
  finally show "file_contents V' d N ! i = write_at (file_contents V d N) ofs xs ! i" .
qed

lemma wrote_bound:
  assumes "wrote V V' d N nb nb' ofs xs" "ofs + length xs < 4294967296" "node_size (V d N) \<le> nb * 256"
  shows "node_size (V' d N) \<le> nb' * 256"
proof -
  from assms(1) have k: "(ofs + length xs) div 256 < nb'" "nb \<le> nb'"
    by (auto elim: wroteE dest: wstepD(2))
  have "ofs + length xs < nb' * 256" using k(1) by (simp add: div_less_iff_less_mult)
  moreover have "nb * 256 \<le> nb' * 256" using k(2) by (rule mult_le_mono1)
  ultimately show ?thesis using wrote_size [OF assms(1,2)] assms(3) by simp
qed

lemma wrote_other:
  assumes "wrote V V' d N nb nb' ofs xs" "35 \<le> unat n" "n \<noteq> N" "used V d (unat n)"
    "\<And>k. k < nb \<Longrightarrow> V d N (k + 3) \<noteq> n"
  shows "V' d n = V d n"
proof -
  from assms(1) obtain W where W: "wstep V W d N nb nb'"
    "V' = (if ofs + length xs > node_size (V d N) then put_size d N (ofs + length xs) W else W)"
    by (elim wroteE)
  then show ?thesis using wstepD(9) [OF W(1) assms(2-5)] assms(3) by (simp add: put_size_other)
qed

text \<open>
  C4. Writing a file whose blocks are all direct, within the reach of the direct indexes and with
  enough free blocks: \<^verbatim>\<open>fs_write\<close> returns the number of words asked for and turns the file's words
  into \<open>write_at\<close> of them, extending the file as needed; the node remains a well-formed direct
  file whose blocks cover its size, and no hold count has changed.
\<close>

theorem fs_write_contents:
  assumes "disk_ok dops s" "dev_present (hw_hdd s) d" "room 3 s" "direct_file (bview s) d N nb"
    "node_size (bview s d N) \<le> nb * 256" "ofs \<le> node_size (bview s d N)" "n \<le> length buf"
    "ofs + n < 38400" "(ofs + n) div 256 < nb + nfree (bview s) d"
  shows "\<exists>s' nb'. fs_write dops \<lparr>fn_dev = d, fn_idx = N\<rparr> ofs n buf s = Some (n, s') \<and>
    file_contents (bview s') d N = write_at (file_contents (bview s) d N) ofs (take n buf) \<and>
    direct_file (bview s') d N nb' \<and> node_size (bview s' d N) \<le> nb' * 256 \<and>
    disk_ok dops s' \<and> pins s' = pins s"
proof -
  from fs_write_fx [OF assms] obtain V' nb' s' where
    r: "fs_write dops \<lparr>fn_dev = d, fn_idx = N\<rparr> ofs n buf s = Some (n, s')"
    and f: "fx dops s s' V' (pins s) (dirty s)" and w: "wrote (bview s) V' d N nb nb' ofs (take n buf)"
    by blast
  have len: "ofs + length (take n buf) < 4294967296" using assms(7,8) by simp
  show ?thesis
    using r fxD(1-3) [OF f] wrote_contents [OF w len assms(5,6)] wrote_direct [OF w]
      wrote_bound [OF w len assms(5)] by blast
qed

text \<open>
  C21. Such a write leaves every other file of the device alone: a well-formed direct file that
  shares neither node nor block with the written one has the same contents afterwards, even when the
  write allocated blocks.
\<close>

theorem fs_write_isolation:
  assumes "disk_ok dops s" "dev_present (hw_hdd s) d" "room 3 s" "direct_file (bview s) d N nb"
    "node_size (bview s d N) \<le> nb * 256" "ofs \<le> node_size (bview s d N)" "n \<le> length buf"
    "ofs + n < 38400" "(ofs + n) div 256 < nb + nfree (bview s) d"
    and other: "direct_file (bview s) d M mb" "node_size (bview s d M) \<le> mb * 256" "M \<noteq> N"
    "\<forall>k<nb. bview s d N (k + 3) \<noteq> M" "\<forall>k<mb. bview s d M (k + 3) \<noteq> N"
    "\<forall>k<mb. \<forall>j<nb. bview s d N (j + 3) \<noteq> bview s d M (k + 3)"
  shows "\<exists>s'. fs_write dops \<lparr>fn_dev = d, fn_idx = N\<rparr> ofs n buf s = Some (n, s') \<and>
    file_contents (bview s') d M = file_contents (bview s) d M"
proof -
  from fs_write_fx [OF assms(1-9)] obtain V' nb' s' where
    r: "fs_write dops \<lparr>fn_dev = d, fn_idx = N\<rparr> ofs n buf s = Some (n, s')"
    and f: "fx dops s s' V' (pins s) (dirty s)" and w: "wrote (bview s) V' d N nb nb' ofs (take n buf)"
    by blast
  note D = direct_fileD [OF other(1)]
  have M: "V' d M = bview s d M" by (rule wrote_other [OF w D(2) other(3) D(3)]) (use other(4) in blast)
  have "fdata V' d M i = fdata (bview s) d M i" if i: "i < mb * 256" for i
  proof -
    from block_bound [OF i D(1)] have k: "i div 256 < mb" "i < 38400" by auto
    have "V' d (bview s d M (i div 256 + 3)) = bview s d (bview s d M (i div 256 + 3))"
      by (rule wrote_other [OF w D(5) [OF k(1)]]) (use other(5,6) D(7) [OF k(1)] k(1) in auto)
    then show ?thesis using M k by (simp add: fdata_direct)
  qed
  then have "file_contents V' d M = file_contents (bview s) d M"
    using M other(2) by (auto simp: file_contents_def)
  with r fxD(2) [OF f] show ?thesis by blast
qed

lemma image_direct: "direct_file (bview imaged) d 36 1" "direct_file (bview imaged) d 35 0"
  by (auto simp: direct_file_def inj_on_def image_used image_view image_def simp del: cold_simps)

lemma image_nfree: "0 < nfree (bview imaged) d"
proof -
  have "40 \<in> {m. m < 65536 \<and> \<not> used (bview imaged) d m}" by (simp add: image_used del: cold_simps)
  moreover have "finite {m. m < 65536 \<and> \<not> used (bview imaged) d m}" by simp
  ultimately show ?thesis unfolding nfree_def using card_gt_0_iff by blast
qed

theorem fs_write_contents_witness:
  "\<exists>s'. fs_write (\<lambda>_. ataGetDriver) \<lparr>fn_dev = 0, fn_idx = 36\<rparr> 1 300 (replicate 300 7) imaged = Some (300, s') \<and>
     file_contents (bview s') 0 36 = 0x41 # replicate 300 7"
proof -
  have "file_contents (bview imaged) 0 36 = [0x41]"
    by (simp add: file_contents_def image_size fdata_direct image_view image_def del: cold_simps)
  then show ?thesis
    using fs_write_contents [of "\<lambda>_. ataGetDriver" imaged 0 36 1 1 300 "replicate 300 7"]
      image_direct(1) [of 0] image_nfree [of 0]
    by (simp add: image_size write_at_def del: cold_simps) (auto simp: image_size)
qed

theorem fs_write_isolation_witness:
  "\<exists>s'. fs_write (\<lambda>_. ataGetDriver) \<lparr>fn_dev = 0, fn_idx = 35\<rparr> 0 3 [1, 2, 3] imaged = Some (3, s') \<and>
     file_contents (bview s') 0 36 = [0x41]"
proof -
  have "file_contents (bview imaged) 0 36 = [0x41]"
    by (simp add: file_contents_def image_size fdata_direct image_view image_def del: cold_simps)
  then show ?thesis
    using fs_write_isolation [of "\<lambda>_. ataGetDriver" imaged 0 35 0 0 3 "[1, 2, 3]" 36 1]
      image_direct [of 0] image_nfree [of 0]
    by (simp add: image_size image_view image_def del: cold_simps) (auto simp: image_size)
qed

section \<open>Reading back\<close>

lemma direct_mapped: "direct_file V d N nb \<Longrightarrow> node_size (V d N) \<le> nb * 256 \<Longrightarrow> file_mapped V d N"
proof -
  assume df: "direct_file V d N nb" and sz: "node_size (V d N) \<le> nb * 256"
  note D = direct_fileD [OF df]
  have "slot V d N k \<noteq> 0" if "k * 256 < node_size (V d N)" for k
  proof -
    have k: "k < nb" using that sz by (simp add: less_le_trans)
    with D(5) [OF k] D(1) show ?thesis by (auto simp: slot_def)
  qed
  moreover have "nb * 256 \<le> 150 * 256" using D(1) by (rule mult_le_mono1)
  ultimately show ?thesis using sz by (simp add: file_mapped_def)
qed

text \<open>
  C5. What has been written is read back: \<^verbatim>\<open>fs_read\<close> at the same offset after such a write returns
  exactly the words written, whether they replaced old words or extended the file.
\<close>

theorem fs_write_read:
  assumes "disk_ok dops s" "dev_present (hw_hdd s) d" "room 3 s" "direct_file (bview s) d N nb"
    "node_size (bview s d N) \<le> nb * 256" "ofs \<le> node_size (bview s d N)" "n \<le> length buf"
    "ofs + n < 38400" "(ofs + n) div 256 < nb + nfree (bview s) d"
  shows "\<exists>s' s''. fs_write dops \<lparr>fn_dev = d, fn_idx = N\<rparr> ofs n buf s = Some (n, s') \<and>
    fs_read dops \<lparr>fn_dev = d, fn_idx = N\<rparr> ofs n s' = Some (take n buf, s'')"
proof -
  from fs_write_fx [OF assms] obtain V' nb' s' where
    r: "fs_write dops \<lparr>fn_dev = d, fn_idx = N\<rparr> ofs n buf s = Some (n, s')"
    and f: "fx dops s s' V' (pins s) (dirty s)" and w: "wrote (bview s) V' d N nb nb' ofs (take n buf)"
    by blast
  note e = fxD [OF f]
  have len: "length (take n buf) = n" "ofs + length (take n buf) < 4294967296" using assms(7,8) by simp_all
  have mp: "file_mapped (bview s') d N"
    using direct_mapped [OF wrote_direct [OF w] wrote_bound [OF w len(2) assms(5)]] e(2) by simp
  have dp: "dev_present (hw_hdd s') d" using assms(2) dev_present_fx [OF f] by simp
  have rm: "room (Suc (Suc 0)) s'"
    using room_mono [OF assms(3), of 2] room_cong [OF e(3)] by (simp add: numeral_2_eq_2)
  have sz: "node_size (bview s' d N) = max (node_size (bview s d N)) (ofs + n)"
    using wrote_size [OF w len(2)] e(2) len(1) by simp
  have m: "min n (node_size (bview s' d N) - ofs) = n" using sz by simp
  have "map (fdata (bview s') d N) [ofs ..< ofs + n] = take n buf"
  proof (rule nth_equalityI)
    show "length (map (fdata (bview s') d N) [ofs ..< ofs + n]) = length (take n buf)"
      by (simp add: len(1) del: length_take)
    fix i assume "i < length (map (fdata (bview s') d N) [ofs ..< ofs + n])"
    then have i: "i < n" by simp
    then have "fdata V' d N (ofs + i) = take n buf ! i"
      using wrote_fdata [OF w, of "ofs + i"] by (simp add: len(1) del: length_take nth_take)
    with i show "map (fdata (bview s') d N) [ofs ..< ofs + n] ! i = take n buf ! i" by (simp add: e(2))
  qed
  moreover obtain s'' where "fs_read dops \<lparr>fn_dev = d, fn_idx = N\<rparr> ofs n s' =
      Some (map (fdata (bview s') d N) [ofs ..< ofs + n], s'')"
    using fs_read_fx [OF e(1) dp rm mp, of n ofs] sz assms(8) unfolding m by fastforce
  ultimately show ?thesis using r by auto
qed

theorem fs_write_read_witness:
  "\<exists>s' s''. fs_write (\<lambda>_. ataGetDriver) \<lparr>fn_dev = 0, fn_idx = 36\<rparr> 1 300 (replicate 300 7) imaged = Some (300, s') \<and>
     fs_read (\<lambda>_. ataGetDriver) \<lparr>fn_dev = 0, fn_idx = 36\<rparr> 1 300 s' = Some (replicate 300 7, s'')"
  using fs_write_read [of "\<lambda>_. ataGetDriver" imaged 0 36 1 1 300 "replicate 300 7"]
    image_direct(1) [of 0] image_nfree [of 0]
  by (simp add: image_size del: cold_simps) simp

end
