(* ===== verification/Transparent.thy ===== *)
theory Transparent
  imports FsAlloc
begin

text \<open>
  The block cache as its clients use it.  \<open>cache_use\<close> is one call of a client that keeps to the cache's
  rules (only blocks that are there, only words of held blocks, marked before the last hold is given
  up); every state reached by such calls is well formed.  A client that gets and puts whole blocks
  cannot tell the cache from the disks.
\<close>

section \<open>Well-formed caches\<close>

inductive cache_use :: "(drvp \<Rightarrow> 'z blk_st_scheme iblkdriver) \<Rightarrow> 'z blk_st_scheme \<Rightarrow> 'z blk_st_scheme \<Rightarrow> bool" for dops where
  use_bread: "bread dops d n s = Some (i, s') \<Longrightarrow> ata_present (hw_hdd s) d n \<Longrightarrow> pins s d n + 1 \<noteq> 0 \<Longrightarrow> cache_use dops s s'"
| use_set: "cached s d n = Some i \<Longrightarrow> pins s d n \<noteq> 0 \<Longrightarrow> k < 256 \<Longrightarrow> cache_use dops s (bset i k v s)"
| use_mark: "cached s d n = Some i \<Longrightarrow> cache_use dops s (bmark i s)"
| use_bfree: "cached s d n = Some i \<Longrightarrow> (pins s d n = 1 \<Longrightarrow> (d, n) \<notin> dirty s) \<Longrightarrow> cache_use dops s (bfree i s)"
| use_sync: "block_sync dops s = Some s' \<Longrightarrow> cache_use dops s s'"

inductive cache_reached :: "(drvp \<Rightarrow> 'z blk_st_scheme iblkdriver) \<Rightarrow> 'z blk_st_scheme \<Rightarrow> 'z blk_st_scheme \<Rightarrow> bool" for dops s where
  reached_start: "cache_reached dops s s"
| reached_step: "cache_reached dops s t \<Longrightarrow> cache_use dops t u \<Longrightarrow> cache_reached dops s u"

text \<open>An entry that is free or not held leaves room for one more held block.\<close>

lemma idle_room:
  assumes i: "i < 16" "b_flags (blockCache s i) = BLOCK_FREE \<or> b_cnt (blockCache s i) = 0"
  shows "card (pinned s) < 16"
proof -
  let ?f = "\<lambda>j. (b_device (blockCache s j), b_n (blockCache s j))"
  have "(d, n) \<in> ?f ` ({..<16} - {i})" if "pins s d n \<noteq> 0" for d n
  proof -
    from that obtain j where j: "cached s d n = Some j" "b_cnt (blockCache s j) \<noteq> 0"
      by (auto simp: pins_def split: option.splits)
    then have "j \<noteq> i" using i(2) cached_SomeD(2) [OF j(1)] by auto
    then show ?thesis using cached_SomeD [OF j(1)] by (auto simp: image_iff)
  qed
  then have "pinned s \<subseteq> ?f ` ({..<16} - {i})" by (auto simp: pinned_def)
  then have "card (pinned s) \<le> card ({..<16} - {i})"
    by (meson card_image_le card_mono finite_Diff finite_imageI finite_lessThan le_trans)
  then show ?thesis using i(1) by simp
qed

lemma bread_room:
  assumes "bread dops d n s = Some r"
  shows "pins s d n \<noteq> 0 \<or> card (pinned s) < 16"
proof (cases "cached s d n")
  case None
  then show ?thesis using bread_stuck [OF assms] idle_room by (auto simp: all_held_def)
next
  case (Some i)
  then show ?thesis using idle_room [OF cached_SomeD(1) [OF Some]] pins_cnt [OF Some] by auto
qed

lemma cache_use_ok:
  assumes "cache_use dops s s'" "disk_ok dops s"
  shows "disk_ok dops s'"
  using assms(1)
proof cases
  case (use_bread d n i)
  then show ?thesis using fx_bread [OF assms(2) use_bread(2) bread_room [OF use_bread(1)] use_bread(3)] fxD(1) by fastforce
next
  case (use_set d n i k v)
  then show ?thesis using fxD(1) [OF fx_bset(1) [OF fx_refl [OF assms(2)] use_set(2-4)]] by simp
next
  case (use_mark d n i)
  then show ?thesis using fxD(1) [OF fx_bmark(1) [OF fx_refl [OF assms(2)] use_mark(2)]] by simp
next
  case (use_bfree d n i)
  then show ?thesis using fxD(1) [OF fx_bfree(2) [OF assms(2) use_bfree(2,3)]] by simp
next
  case use_sync
  obtain t where "block_sync dops s = Some t" "disk_ok dops t" using block_sync_flushes [OF assms(2)] by blast
  then show ?thesis using use_sync by simp
qed

lemma cache_reached_ok: "cache_reached dops s t \<Longrightarrow> disk_ok dops s \<Longrightarrow> disk_ok dops t"
  by (induction rule: cache_reached.induct) (auto intro: cache_use_ok)

text \<open>
  C16. Whatever its clients do by the rules, the cache stays well formed: no block of a device is in two entries, an
  entry is free, used or modified and nothing else, an entry that is neither modified nor held agrees with the
  disk, and writing everything back returns.
\<close>

theorem cache_well_formed:
  assumes "disk_ok dops s" "cache_reached dops s t"
  shows "(\<forall>i<16. \<forall>j<16. i \<noteq> j \<and> b_flags (blockCache t i) \<noteq> BLOCK_FREE \<and> b_flags (blockCache t j) \<noteq> BLOCK_FREE \<longrightarrow>
      (b_device (blockCache t i), b_n (blockCache t i)) \<noteq> (b_device (blockCache t j), b_n (blockCache t j))) \<and>
    (\<forall>i<16. b_flags (blockCache t i) \<in> {BLOCK_FREE, BLOCK_USED, BLOCK_MODIFIED}) \<and>
    (\<forall>i<16. \<forall>k<256. b_flags (blockCache t i) = BLOCK_USED \<and> b_cnt (blockCache t i) = 0 \<longrightarrow>
      b_data (blockCache t i) k = ata_stored (hw_hdd t) (b_device (blockCache t i)) (b_n (blockCache t i)) k) \<and>
    (\<exists>u. block_sync dops t = Some u)"
proof (intro conjI)
  have ok: "disk_ok dops t" by (rule cache_reached_ok [OF assms(2,1)])
  then have inv: "uniq t" "\<And>i. i < 16 \<Longrightarrow> entry_ok ata_stored ata_present (hw_hdd t) (blockCache t i)"
    by (simp_all add: disk_ok_def cache_inv_def)
  show "\<forall>i<16. \<forall>j<16. i \<noteq> j \<and> b_flags (blockCache t i) \<noteq> BLOCK_FREE \<and> b_flags (blockCache t j) \<noteq> BLOCK_FREE \<longrightarrow>
      (b_device (blockCache t i), b_n (blockCache t i)) \<noteq> (b_device (blockCache t j), b_n (blockCache t j))"
    using inv(1) unfolding uniq_def by blast
  show "\<forall>i<16. b_flags (blockCache t i) \<in> {BLOCK_FREE, BLOCK_USED, BLOCK_MODIFIED}"
    using inv(2) unfolding entry_ok_def by blast
  show "\<forall>i<16. \<forall>k<256. b_flags (blockCache t i) = BLOCK_USED \<and> b_cnt (blockCache t i) = 0 \<longrightarrow>
      b_data (blockCache t i) k = ata_stored (hw_hdd t) (b_device (blockCache t i)) (b_n (blockCache t i)) k"
  proof (intro allI impI)
    fix i k :: nat
    assume i: "i < 16" "k < 256" "b_flags (blockCache t i) = BLOCK_USED \<and> b_cnt (blockCache t i) = 0"
    have "trunc (b_data (blockCache t i)) = ata_stored (hw_hdd t) (b_device (blockCache t i)) (b_n (blockCache t i))"
      using inv(2) [OF i(1)] i(3) unfolding entry_ok_def by auto
    from fun_cong [OF this, of k] i(2)
    show "b_data (blockCache t i) k = ata_stored (hw_hdd t) (b_device (blockCache t i)) (b_n (blockCache t i)) k" by simp
  qed
  show "\<exists>u. block_sync dops t = Some u" using block_sync_flushes [OF ok] by blast
qed

text \<open>A block read, its first word changed and marked.\<close>

theorem cache_well_formed_witness:
  "\<exists>i t. bread (\<lambda>_. ataGetDriver) 1 3 (cold (\<lambda>_. disk_of 8)) = Some (i, t) \<and>
     (\<exists>u. block_sync (\<lambda>_. ataGetDriver) (bmark i (bset i 0 7 t)) = Some u)"
proof -
  let ?s = "cold (\<lambda>_. disk_of 8)" and ?d = "\<lambda>_ :: drvp. ataGetDriver :: blk_st iblkdriver"
  have ok: "disk_ok ?d ?s" and pr: "ata_present (hw_hdd ?s) 1 3" by simp_all
  obtain i t where r: "bread ?d 1 3 ?s = Some (i, t)" "cached t 1 3 = Some i"
    and f: "fx ?d ?s t (bview ?s) (pin_upd 1 3 (\<lambda>c. c + 1) (pins ?s)) (dirty ?s)"
    using fx_bread [OF ok pr] by auto
  have p: "pins t 1 3 \<noteq> 0" using fxD(3) [OF f] by (simp add: pin_upd_apply)
  have "cached (bset i 0 7 t) = cached t" by (rule fx_bset(2) [OF fx_refl [OF fxD(1) [OF f]] r(2) p]) simp
  then have c: "cached (bset i 0 7 t) 1 3 = Some i" using r(2) by simp
  have "cache_reached ?d ?s t" using use_bread [where dops = ?d, OF r(1) pr] reached_step [OF reached_start] by simp
  then have "cache_reached ?d ?s (bset i 0 7 t)" by (rule reached_step) (rule use_set [OF r(2) p], simp)
  then have "cache_reached ?d ?s (bmark i (bset i 0 7 t))" by (rule reached_step) (rule use_mark [OF c])
  from cache_well_formed [OF ok this] show ?thesis using r(1) by blast
qed

section \<open>Getting and putting blocks\<close>

datatype blk_op = Get u16 u16 | Put u16 u16 nat "u16 list" | Sync

text \<open>The way the file system gets the words of a block, and changes some of them.\<close>

definition get_block :: "(drvp \<Rightarrow> 'z blk_st_scheme iblkdriver) \<Rightarrow> u16 \<Rightarrow> u16 \<Rightarrow> 'z blk_st_scheme \<Rightarrow> (u16 list \<times> 'z blk_st_scheme) option" where
  "get_block dops d n s = do { (i, s1) \<leftarrow> bread dops d n s; Some (slice (bdata i s1) 0 256, bfree i s1) }"

definition put_block :: "(drvp \<Rightarrow> 'z blk_st_scheme iblkdriver) \<Rightarrow> u16 \<Rightarrow> u16 \<Rightarrow> nat \<Rightarrow> u16 list \<Rightarrow> 'z blk_st_scheme \<Rightarrow> 'z blk_st_scheme option" where
  "put_block dops d n off ws s = do { (i, s1) \<leftarrow> bread dops d n s; Some (bfree i (bmark i (bcopy i off ws s1))) }"

primrec blk_exec :: "(drvp \<Rightarrow> 'z blk_st_scheme iblkdriver) \<Rightarrow> blk_op \<Rightarrow> 'z blk_st_scheme \<Rightarrow> (u16 list \<times> 'z blk_st_scheme) option" where
  "blk_exec dops (Get d n) s = get_block dops d n s"
| "blk_exec dops (Put d n off ws) s = do { s1 \<leftarrow> put_block dops d n off ws s; Some ([], s1) }"
| "blk_exec dops Sync s = do { s1 \<leftarrow> block_sync dops s; Some ([], s1) }"

primrec blk_run :: "(drvp \<Rightarrow> 'z blk_st_scheme iblkdriver) \<Rightarrow> blk_op list \<Rightarrow> 'z blk_st_scheme \<Rightarrow> (u16 list list \<times> 'z blk_st_scheme) option" where
  "blk_run dops [] s = Some ([], s)"
| "blk_run dops (x # xs) s = do { (r, s1) \<leftarrow> blk_exec dops x s; (rs, s2) \<leftarrow> blk_run dops xs s1; Some (r # rs, s2) }"

text \<open>The specification: disks without a cache, as the words of their blocks.\<close>

primrec disk_exec :: "blk_op \<Rightarrow> (u16 \<Rightarrow> u16 \<Rightarrow> buf) \<Rightarrow> u16 list \<times> (u16 \<Rightarrow> u16 \<Rightarrow> buf)" where
  "disk_exec (Get d n) V = (slice (V d n) 0 256, V)"
| "disk_exec (Put d n off ws) V = ([], V(d := (V d)(n := blit (V d n) off ws)))"
| "disk_exec Sync V = ([], V)"

primrec disk_run :: "blk_op list \<Rightarrow> (u16 \<Rightarrow> u16 \<Rightarrow> buf) \<Rightarrow> u16 list list \<times> (u16 \<Rightarrow> u16 \<Rightarrow> buf)" where
  "disk_run [] V = ([], V)"
| "disk_run (x # xs) V = (let (r, V1) = disk_exec x V; (rs, V2) = disk_run xs V1 in (r # rs, V2))"

fun blk_fits :: "disks \<Rightarrow> blk_op \<Rightarrow> bool" where
  "blk_fits h (Get d n) = ata_present h d n"
| "blk_fits h (Put d n off ws) = (ata_present h d n \<and> off + length ws \<le> 256)"
| "blk_fits h Sync = True"

lemma get_block_ok:
  assumes "disk_ok dops s" "ata_present (hw_hdd s) d n" "room (Suc k) s"
  shows "\<exists>s'. get_block dops d n s = Some (slice (bview s d n) 0 256, s') \<and> fx dops s s' (bview s) (pins s) (dirty s)"
proof -
  obtain i s1 where r: "bread dops d n s = Some (i, s1)" "cached s1 d n = Some i"
    and f: "fx dops s s1 (bview s) (pin_upd d n (\<lambda>c. c + 1) (pins s)) (dirty s)"
    by (rule with_block [OF assms])
  have "fx dops s (bfree i s1) (bview s) (pins s) (dirty s)"
    by (rule fx_release(1) [OF f r(2)]) (use dirty_pinned [OF assms(1)] room_Suc(1) [OF assms(3)] in \<open>auto simp: pin_upd_apply\<close>)
  moreover have "slice (bdata i s1) 0 256 = slice (bview s d n) 0 256"
    by (rule slice_cong) (simp add: held_data [OF f r(2)])
  ultimately show ?thesis using r(1) by (simp add: get_block_def)
qed

lemma put_block_ok:
  assumes "disk_ok dops s" "ata_present (hw_hdd s) d n" "room (Suc k) s" "off + length ws \<le> 256"
  shows "\<exists>s'. put_block dops d n off ws s = Some s' \<and>
    fx dops s s' (blk_put d n (blit (bview s d n) off ws) (bview s)) (pins s) (dirty s)"
proof -
  obtain i s1 where r: "bread dops d n s = Some (i, s1)" "cached s1 d n = Some i"
    and f: "fx dops s s1 (bview s) (pin_upd d n (\<lambda>c. c + 1) (pins s)) (dirty s)"
    by (rule with_block [OF assms(1-3)])
  have nw: "pins s d' n' + 1 \<noteq> 0" for d' n' by (rule room_Suc(1) [OF assms(3)])
  have p: "pin_upd d n (\<lambda>c. c + 1) (pins s) d n \<noteq> 0" using nw by (simp add: pin_upd_apply)
  note f2 = fx_bcopy [OF f r(2) p assms(4)]
  have c2: "cached (bcopy i off ws s1) d n = Some i" using f2(2) r(2) by simp
  note f3 = fx_bmark [OF f2(1) c2]
  have c3: "cached (bmark i (bcopy i off ws s1)) d n = Some i" using f3(2) c2 by simp
  have "fx dops s (bfree i (bmark i (bcopy i off ws s1))) (blk_put d n (blit (bview s d n) off ws) (bview s)) (pins s)
      (insert (d, n) (dirty s) - {(d, n)})"
    by (rule fx_release(1) [OF f3(1) c3]) (use nw in \<open>auto simp: pin_upd_apply\<close>)
  then have "fx dops s (bfree i (bmark i (bcopy i off ws s1))) (blk_put d n (blit (bview s d n) off ws) (bview s)) (pins s) (dirty s)"
    by (rule fx_weaken) blast
  then show ?thesis using r(1) by (simp add: put_block_def)
qed

lemma blk_exec_ok:
  assumes "disk_ok dops s" "room 1 s" "blk_fits (hw_hdd s) x"
  shows "\<exists>r s'. blk_exec dops x s = Some (r, s') \<and> disk_exec x (bview s) = (r, bview s') \<and>
    disk_ok dops s' \<and> pins s' = pins s \<and> ata_present (hw_hdd s') = ata_present (hw_hdd s)"
proof (cases x)
  case (Get d n)
  then show ?thesis using get_block_ok [OF assms(1) _ assms(2) [unfolded One_nat_def], of d n] assms(3) fxD by fastforce
next
  case (Put d n off ws)
  then show ?thesis
    using put_block_ok [OF assms(1) _ assms(2) [unfolded One_nat_def], of d n off ws] assms(3) fxD(1-3,5)
    by (fastforce simp: blk_put_def)
next
  case Sync
  then show ?thesis using block_sync_flushes [OF assms(1)] by auto
qed

lemma blk_run_ok:
  "disk_ok dops s \<Longrightarrow> room 1 s \<Longrightarrow> list_all (blk_fits (hw_hdd s)) xs \<Longrightarrow>
   \<exists>rs s'. blk_run dops xs s = Some (rs, s') \<and> disk_run xs (bview s) = (rs, bview s') \<and>
    disk_ok dops s' \<and> pins s' = pins s \<and> ata_present (hw_hdd s') = ata_present (hw_hdd s)"
proof (induction xs arbitrary: s)
  case (Cons x xs)
  obtain r s1 where x: "blk_exec dops x s = Some (r, s1)" "disk_exec x (bview s) = (r, bview s1)" "disk_ok dops s1"
    "pins s1 = pins s" "ata_present (hw_hdd s1) = ata_present (hw_hdd s)"
    using blk_exec_ok [OF Cons.prems(1,2), of x] Cons.prems(3) unfolding list.pred_inject by blast
  have fit: "blk_fits (hw_hdd s1) = blk_fits (hw_hdd s)"
    by (rule ext, rename_tac y, case_tac y) (simp_all add: x(5))
  obtain rs s2 where "blk_run dops xs s1 = Some (rs, s2)" "disk_run xs (bview s1) = (rs, bview s2)" "disk_ok dops s2"
    "pins s2 = pins s1" "ata_present (hw_hdd s2) = ata_present (hw_hdd s1)"
    using Cons.IH [OF x(3)] Cons.prems(2,3) room_cong [OF x(4)] unfolding fit by auto
  then show ?case using x by simp
qed simp

text \<open>
  C15. A client that gets and puts blocks on the devices that are there cannot tell the cache from the disks:
  whatever the order of its operations and of write-backs between them, it gets the words last put, and a final
  write-back leaves on the disks what a machine without a cache would have there.
\<close>

theorem cache_transparent:
  assumes "disk_ok dops s" "pinned s = {}" "list_all (blk_fits (hw_hdd s)) xs"
  shows "\<exists>rs s1 s2. blk_run dops xs s = Some (rs, s1) \<and> block_sync dops s1 = Some s2 \<and>
    disk_run xs (bview s) = (rs, ata_stored (hw_hdd s2))"
proof -
  have "pins s d n = 0" for d n using assms(2) by (auto simp: pinned_def)
  then have "room 1 s" using assms(2) by (intro roomI) simp_all
  then obtain rs s1 where r: "blk_run dops xs s = Some (rs, s1)" "disk_run xs (bview s) = (rs, bview s1)" "disk_ok dops s1"
    "pins s1 = pins s" using blk_run_ok [OF assms(1) _ assms(3)] by blast
  have "pinned s1 = {}" using assms(2) r(4) by (simp add: pinned_def)
  then show ?thesis using block_sync_flushes [OF r(3)] r(1,2) by fastforce
qed

theorem cache_transparent_witness:
  "\<exists>rs s1 s2. blk_run (\<lambda>_. ataGetDriver) [Put 0 2 0 [5], Sync, Put 0 2 1 [6], Get 0 2] (cold (\<lambda>_. disk_of 8)) = Some (rs, s1) \<and>
     block_sync (\<lambda>_. ataGetDriver) s1 = Some s2 \<and> take 2 (last rs) = [5, 6] \<and> ata_stored (hw_hdd s2) 0 2 0 = 5"
proof -
  let ?xs = "[Put 0 2 0 [5], Sync, Put 0 2 1 [6], Get 0 2]"
  have "list_all (blk_fits (hw_hdd (cold (\<lambda>_. disk_of 8)))) ?xs" by simp
  then obtain rs s1 s2 where r: "blk_run (\<lambda>_. ataGetDriver) ?xs (cold (\<lambda>_. disk_of 8)) = Some (rs, s1)"
    "block_sync (\<lambda>_. ataGetDriver) s1 = Some s2" "disk_run ?xs (bview (cold (\<lambda>_. disk_of 8))) = (rs, ata_stored (hw_hdd s2))"
    using cache_transparent [of "\<lambda>_. ataGetDriver" "cold (\<lambda>_. disk_of 8)" ?xs] by auto
  have t: "take 2 (slice b 0 256) = [b 0, b 1]" for b :: buf
    by (simp add: slice_def take_map numeral_2_eq_2 upt_rec)
  define V where "V = bview (cold (\<lambda>_. disk_of 8))"
  have e: "disk_run ?xs V = (rs, ata_stored (hw_hdd s2))" using r(3) unfolding V_def .
  have "rs = [[], [], [], slice (blit (blit (V 0 2) 0 [5]) 1 [6]) 0 256]" using e by simp
  moreover have "ata_stored (hw_hdd s2) 0 2 = blit (blit (V 0 2) 0 [5]) 1 [6]"
    unfolding arg_cong [OF e, of snd, unfolded snd_conv, symmetric] by simp
  ultimately have "take 2 (last rs) = [5, 6]" "ata_stored (hw_hdd s2) 0 2 0 = 5" by (simp_all add: t blit_def)
  then show ?thesis using r(1,2) by blast
qed

end
