(* ===== verification/Paths.thy ===== *)
theory Paths
  imports FsFile Kfile
begin

text \<open>
  Path lookup.  A directory's file is a sequence of 32-word entries, the mount table a list; \<open>walk\<close> goes
  through a path's components over them, crossing mount points in both directions, and is what
  \<^verbatim>\<open>fs_lookup\<close> computes.
\<close>

section \<open>The mount table\<close>

definition mounts :: "mtab_entry slot_set \<Rightarrow> mtab_entry list" where
  "mounts m = map (set_el m) (filter (set_used m) [0 ..< set_capacity m])"

lemma nth_used_filter:
  "ii \<le> idx \<Longrightarrow> nth_used us ii idx i k =
     (if idx - ii < length (filter us [i ..< i + k]) then Some (filter us [i ..< i + k] ! (idx - ii)) else None)"
proof (induction k arbitrary: i ii)
  case (Suc k)
  have u: "[i ..< i + Suc k] = i # [Suc i ..< Suc i + k]" by (simp add: upt_conv_Cons)
  show ?case
  proof (cases "us i")
    case False
    then show ?thesis using Suc.IH [OF Suc.prems, of "Suc i"] unfolding u by simp
  next
    case True
    show ?thesis
    proof (cases "ii = idx")
      case eq: True
      show ?thesis using True eq unfolding u by simp
    next
      case False
      then have "Suc ii \<le> idx" using Suc.prems by simp
      moreover have "idx - ii = Suc (idx - Suc ii)" using calculation by simp
      ultimately show ?thesis using Suc.IH [of "Suc ii" "Suc i"] True False unfolding u by simp
    qed
  qed
qed simp

lemma length_mounts: "set_inv m \<Longrightarrow> length (mounts m) = set_size m"
proof -
  assume "set_inv m"
  then have "set_size m = card {i \<in> {0 ..< set_capacity m}. set_used m i}"
    by (simp add: set_inv_def set_live_def lessThan_atLeast0 [symmetric])
  also have "\<dots> = length (filter (set_used m) [0 ..< set_capacity m])"
    by (subst distinct_length_filter) (auto intro: arg_cong [of _ _ card])
  finally show ?thesis by (simp add: mounts_def)
qed

lemma set_at_mounts:
  assumes "set_inv m" "i < set_size m"
  shows "\<exists>e. set_at m i = Some e \<and> set_el m e = mounts m ! i"
  using assms length_mounts [OF assms(1)] by (auto simp: set_at_def nth_used_filter mounts_def)

lemma mtab_find_list:
  assumes "set_inv m" "i + k = set_size m"
  shows "\<exists>r. mtab_find P m i k = Some r \<and> map_option (\<lambda>(j, e). set_el m e) r = find P (drop i (mounts m))"
  using assms(2)
proof (induction k arbitrary: i)
  case 0
  then show ?case using length_mounts [OF assms(1)] by simp
next
  case (Suc k)
  have "i < length (mounts m)" using Suc.prems length_mounts [OF assms(1)] by simp
  then have d: "drop i (mounts m) = mounts m ! i # drop (Suc i) (mounts m)" by (rule Cons_nth_drop_Suc [symmetric])
  obtain e where e: "set_at m i = Some e" "set_el m e = mounts m ! i" using set_at_mounts [OF assms(1), of i] Suc.prems by auto
  show ?case using Suc.IH [of "Suc i"] Suc.prems e unfolding d by auto
qed

lemma node_eq: "fn_dev n = fn_dev m \<and> fn_idx n = fn_idx m \<longleftrightarrow> n = (m :: fs_node)"
  by (auto intro: fs_node.equality)

lemma mtab_seeks:
  assumes "set_inv (mtab s)"
  shows "fs_mtab_seek n s = Some (find (\<lambda>e. mt_mount_point e = n) (mounts (mtab s)))"
    "fs_mtab_rseek n s = Some (find (\<lambda>e. mt_fs_root e = n) (mounts (mtab s)))"
proof -
  have r: "\<exists>r. mtab_find P (mtab s) 0 (set_size (mtab s)) = Some r \<and>
      map_option (\<lambda>(j, e). set_el (mtab s) e) r = find P (mounts (mtab s))" for P
    using mtab_find_list [OF assms, of 0 "set_size (mtab s)" P] by simp
  show "fs_mtab_seek n s = Some (find (\<lambda>e. mt_mount_point e = n) (mounts (mtab s)))"
    "fs_mtab_rseek n s = Some (find (\<lambda>e. mt_fs_root e = n) (mounts (mtab s)))"
    unfolding fs_mtab_seek_def fs_mtab_rseek_def node_eq
    using r [of "\<lambda>e. mt_mount_point e = n"] r [of "\<lambda>e. mt_fs_root e = n"] by auto
qed

section \<open>Directories\<close>

definition dirents :: "(u16 \<Rightarrow> u16 \<Rightarrow> buf) \<Rightarrow> fs_node \<Rightarrow> u16 list list" where
  "dirents V n = map (\<lambda>i. map (fdata V (fn_dev n) (fn_idx n)) [32 * i ..< 32 * i + 32])
     [0 ..< node_size (V (fn_dev n) (fn_idx n)) div 32]"

definition named :: "u16 list \<Rightarrow> u16 list \<Rightarrow> bool" where
  "named w e \<longleftrightarrow> takeWhile (\<lambda>c. c \<noteq> 0) e = w"

text \<open>A directory's file is all there, holds whole entries, and every name is terminated.\<close>

definition dir_ok :: "(u16 \<Rightarrow> u16 \<Rightarrow> buf) \<Rightarrow> fs_node \<Rightarrow> bool" where
  "dir_ok V n \<longleftrightarrow> file_mapped V (fn_dev n) (fn_idx n) \<and> node_size (V (fn_dev n) (fn_idx n)) mod 32 = 0 \<and>
     \<not> S_ISCHR (V (fn_dev n) (fn_idx n) 0) \<and> \<not> S_ISBLK (V (fn_dev n) (fn_idx n) 0) \<and>
     (\<forall>e \<in> set (dirents V n). 0 \<in> set (take 31 e))"

lemma entry_cstr:
  assumes "0 \<in> set (take 31 e)"
  shows "is_cstr e (takeWhile (\<lambda>c. c \<noteq> 0) e)"
proof -
  have "0 \<in> set e" using assms by (rule in_set_takeD)
  then obtain xs ys where "e = xs @ 0 # ys" "0 \<notin> set xs" by (meson split_list_first)
  moreover have "takeWhile (\<lambda>c. c \<noteq> 0) (xs @ 0 # ys) = xs" if "0 \<notin> set xs"
    using that by (subst takeWhile_append2) auto
  ultimately show ?thesis by (simp add: is_cstr_def)
qed

lemma dirent_at_full: "length ws = 32 \<Longrightarrow> dirent_at ws s = ws"
  using slice_blit [of "uninit s" 0 ws] by (simp add: dirent_at_def)

lemma find_entry_ok:
  assumes "disk_ok dops s" "dev_present (hw_hdd s) (fn_dev n)" "room 2 s" "dir_ok (bview s) n" "is_cstr what w"
    "j + k = node_size (bview s (fn_dev n) (fn_idx n)) div 32"
  shows "\<exists>s'. find_entry dops n what (node_size (bview s (fn_dev n) (fn_idx n))) (32 * j) s =
      Some (map_option (\<lambda>e. e ! 31) (find (named w) (drop j (dirents (bview s) n))), s') \<and>
    fx dops s s' (bview s) (pins s) (dirty s)"
  using assms
proof (induction k arbitrary: j s)
  case 0
  have "node_size (bview s (fn_dev n) (fn_idx n)) = 32 * j" using 0(4,6) unfolding dir_ok_def by auto
  then show ?case using 0 fx_refl [OF 0(1)] by (subst find_entry.simps) (simp add: dirents_def)
next
  case (Suc k)
  let ?V = "bview s" and ?d = "fn_dev n" and ?N = "fn_idx n"
  let ?len = "node_size (?V ?d ?N)" and ?e = "map (fdata ?V ?d ?N) [32 * j ..< 32 * j + 32]"
  have len: "?len = 32 * (?len div 32)" using Suc.prems(4) unfolding dir_ok_def by auto
  have j: "32 * j + 32 \<le> ?len" using Suc.prems(6) by (subst len) simp
  have mo: "?len \<le> MAX_OFFSET" "file_mapped ?V ?d ?N" using Suc.prems(4) unfolding dir_ok_def file_mapped_def by blast+
  have rm: "room (Suc (Suc 0)) s" using Suc.prems(3) by (simp add: numeral_2_eq_2)
  have n: "\<lparr>fn_dev = ?d, fn_idx = ?N\<rparr> = n" by simp
  obtain s1 where rd: "fs_read dops n (32 * j) 32 s = Some (?e, s1)" and f: "fx dops s s1 ?V (pins s) (dirty s)"
    using fs_read_fx [OF Suc.prems(1,2) rm mo(2), of 32 "32 * j"] j unfolding n by auto
  note e = fxD [OF f]
  have dr: "drop j (dirents ?V n) = ?e # drop (Suc j) (dirents ?V n)"
  proof -
    have "j < length (dirents ?V n)" using Suc.prems(6) by (simp add: dirents_def)
    moreover have "dirents ?V n ! j = ?e" using Suc.prems(6) by (simp add: dirents_def)
    ultimately show ?thesis using Cons_nth_drop_Suc by metis
  qed
  have el: "0 \<in> set (take 31 ?e)"
    using Suc.prems(4) in_set_dropD [of ?e j "dirents ?V n"] unfolding dir_ok_def dr by simp
  obtain c where c: "strcmp ?e what = Some c" "c = 0 \<longleftrightarrow> named w ?e"
    using strcmp_cstr [OF entry_cstr [OF el] Suc.prems(5)] by (auto simp: named_def)
  have oa: "off_add (32 * j) 32 = 32 * Suc j" using j mo(1) by (simp add: off_add_def)
  have lt: "32 * j < ?len" using j by linarith
  have at: "dirent_at ?e s1 = ?e" by (rule dirent_at_full) simp
  show ?case
  proof (cases "named w ?e")
    case True
    then show ?thesis using rd c f lt at unfolding dr by (subst find_entry.simps) (auto simp: Let_def)
  next
    case False
    have p: "dev_present (hw_hdd s1) ?d" "room 2 s1" "dir_ok (bview s1) n" "Suc j + k = node_size (bview s1 ?d ?N) div 32"
      using Suc.prems dev_present_fx [OF f] room_cong [OF e(3)] e(2) by simp_all
    from Suc.IH [OF e(1) p(1-3) Suc.prems(5) p(4)] obtain s' where
      s': "find_entry dops n what ?len (32 * Suc j) s1 = Some (map_option (\<lambda>e. e ! 31) (find (named w) (drop (Suc j) (dirents ?V n))), s')"
      "fx dops s1 s' ?V (pins s) (dirty s1)" using e(2,3) by auto
    have "fx dops s s' ?V (pins s) (dirty s)" using fx_trans [OF f fx_weaken [OF s'(2) e(4)]] by blast
    then show ?thesis using rd c False lt at oa s'(1) unfolding dr by (subst find_entry.simps) (auto simp: Let_def)
  qed
qed

lemma fx_mtab:
  assumes "fx dops s s' V P U"
  shows "mtab s' = mtab s"
  by (subst fxD(6) [OF assms]) simp

lemma fs_stat_ok:
  assumes ok: "disk_ok dops s" and dp: "dev_present (hw_hdd s) (fn_dev n)" and rm: "room 2 s"
    and reg: "\<not> S_ISCHR (bview s (fn_dev n) (fn_idx n) 0)" "\<not> S_ISBLK (bview s (fn_dev n) (fn_idx n) 0)"
  shows "\<exists>s'. fs_stat dops n s = Some (\<lparr>st_dev = fn_dev n, st_ino = fn_idx n, st_mode = bview s (fn_dev n) (fn_idx n) 0,
      st_rdev = 0, st_size = node_size (bview s (fn_dev n) (fn_idx n))\<rparr>, s') \<and>
    fx dops s s' (bview s) (pins s) (dirty s)"
proof -
  have rm': "room (Suc 1) s" using rm by (simp add: numeral_2_eq_2)
  obtain i s1 where rd: "bread dops (fn_dev n) (fn_idx n) s = Some (i, s1)" and ci: "cached s1 (fn_dev n) (fn_idx n) = Some i"
    and f: "fx dops s s1 (bview s) (pin_upd (fn_dev n) (fn_idx n) (\<lambda>c. c + 1) (pins s)) (dirty s)"
    using with_block [OF ok _ rm'] dp unfolding dev_present_def by metis
  have m: "bdata i s1 0 = bview s (fn_dev n) (fn_idx n) 0" by (rule held_data [OF f ci]) simp
  have "fx dops s (bfree i s1) (bview s) (pins s) (dirty s)"
    by (rule fx_release(1) [OF f ci]) (use dirty_pinned [OF ok] room_Suc(1) [OF rm'] in \<open>auto simp: pin_upd_apply\<close>)
  then show ?thesis using rd node_size_bdata [OF f ci] reg m by (simp add: fs_stat_def Let_def)
qed

lemma fs_stat_dir:
  assumes "disk_ok dops s" "dev_present (hw_hdd s) (fn_dev n)" "room 2 s" "dir_ok (bview s) n"
  shows "\<exists>st s'. fs_stat dops n s = Some (st, s') \<and> st_size st = node_size (bview s (fn_dev n) (fn_idx n)) \<and>
    fx dops s s' (bview s) (pins s) (dirty s)"
  using fs_stat_ok [OF assms(1-3)] assms(4) unfolding dir_ok_def by force

section \<open>One component\<close>

abbreviation DOTS :: "u16 list" where "DOTS \<equiv> [46, 46]"

text \<open>Where the search for a component starts: \<^verbatim>\<open>..\<close> at the root of a mounted file system is searched in the directory mounted on.\<close>

definition up :: "mtab_entry list \<Rightarrow> fs_node \<Rightarrow> u16 list \<Rightarrow> fs_node" where
  "up ms n w = (if w = DOTS then (case find (\<lambda>e. mt_fs_root e = n) ms of Some e \<Rightarrow> mt_mount_point e | None \<Rightarrow> n) else n)"

definition child :: "(u16 \<Rightarrow> u16 \<Rightarrow> buf) \<Rightarrow> mtab_entry list \<Rightarrow> fs_node \<Rightarrow> u16 list \<Rightarrow> fs_node option" where
  "child V ms n w = map_option (\<lambda>e. let r = \<lparr>fn_dev = fn_dev n, fn_idx = e ! 31\<rparr> in
     case find (\<lambda>m. mt_mount_point m = r) ms of Some m \<Rightarrow> mt_fs_root m | None \<Rightarrow> r) (find (named w) (dirents V n))"

lemma literal_dots: "is_cstr (literal ''..'' s) DOTS"
  by (simp add: is_cstr_def literal_def cstr_def)

lemma fs_finddir_ok:
  assumes ok: "disk_ok dops s" and mt: "set_inv (mtab s)" and w: "is_cstr what w"
    and dp: "dev_present (hw_hdd s) (fn_dev (up (mounts (mtab s)) n w))" and rm: "room 2 s"
    and dir: "dir_ok (bview s) (up (mounts (mtab s)) n w)"
  shows "\<exists>s'. fs_finddir dops n what s = Some (case child (bview s) (mounts (mtab s)) (up (mounts (mtab s)) n w) w of
      None \<Rightarrow> (FS_NO_FILE, up (mounts (mtab s)) n w, up (mounts (mtab s)) n w, s')
    | Some c \<Rightarrow> (FS_OK, up (mounts (mtab s)) n w, c, s')) \<and> fx dops s s' (bview s) (pins s) (dirty s)"
proof -
  let ?ms = "mounts (mtab s)"
  let ?n = "up ?ms n w"
  obtain c where c: "strcmp what (literal ''..'' s) = Some c" "c = 0 \<longleftrightarrow> w = DOTS"
    using strcmp_cstr [OF w literal_dots, of s] by blast
  have wh: "(if c = 0 then do { m \<leftarrow> fs_mtab_rseek n s; Some (case m of None \<Rightarrow> n | Some e \<Rightarrow> mt_mount_point e) } else Some n) = Some ?n"
    using c(2) mtab_seeks [OF mt] by (auto simp: up_def split: option.split)
  obtain st s1 where st: "fs_stat dops ?n s = Some (st, s1)" "st_size st = node_size (bview s (fn_dev ?n) (fn_idx ?n))"
    and f: "fx dops s s1 (bview s) (pins s) (dirty s)" using fs_stat_dir [OF ok dp rm dir] by blast
  note e = fxD [OF f]
  have p: "dev_present (hw_hdd s1) (fn_dev ?n)" "room 2 s1" "dir_ok (bview s1) ?n"
    using dp rm dir dev_present_fx [OF f] room_cong [OF e(3)] e(2) by simp_all
  obtain s2 where r: "find_entry dops ?n what (st_size st) 0 s1 = Some (map_option (\<lambda>e. e ! 31) (find (named w) (dirents (bview s) ?n)), s2)"
    and f2: "fx dops s1 s2 (bview s) (pins s) (dirty s1)"
    using find_entry_ok [OF e(1) p w, of 0] e(2,3) st(2) by auto
  have f3: "fx dops s s2 (bview s) (pins s) (dirty s)" using fx_trans [OF f fx_weaken [OF f2 e(4)]] by blast
  have "mtab s2 = mtab s" by (rule fx_mtab [OF f3])
  then have sk: "fs_mtab_seek x s2 = Some (find (\<lambda>e. mt_mount_point e = x) ?ms)" for x
    using mtab_seeks(1) [of s2 x] mt by simp
  show ?thesis
    using c(1) wh st(1) r sk f3
    by (cases "find (named w) (dirents (bview s) ?n)") (auto simp: fs_finddir_def child_def Let_def cong: if_cong split: option.splits)
qed

section \<open>Whole paths\<close>

text \<open>The components of a path, and whether it ends in a slash.\<close>

function comps :: "u16 list \<Rightarrow> u16 list list" where
  "comps p = (let q = dropWhile (\<lambda>c. c = 47) p in
     if q = [] then [] else takeWhile (\<lambda>c. c \<noteq> 47) q # comps (dropWhile (\<lambda>c. c \<noteq> 47) q))"
  by pat_completeness auto
termination
proof (relation "measure length", simp)
  fix p :: "u16 list" and q
  assume q: "q = dropWhile (\<lambda>c. c = 47) p" "q \<noteq> []"
  then have "hd q \<noteq> 47" using hd_dropWhile [of "\<lambda>c. c = 47" p] by simp
  then have "length (dropWhile (\<lambda>c. c \<noteq> 47) q) < length q"
    using q(2) length_dropWhile_le [of "\<lambda>c. c \<noteq> 47" "tl q"] by (cases q) simp_all
  moreover have "length q \<le> length p" unfolding q(1) by (rule length_dropWhile_le)
  ultimately show "(dropWhile (\<lambda>c. c \<noteq> 47) q, p) \<in> measure length" by simp
qed

declare comps.simps [simp del]

definition trailing :: "u16 list \<Rightarrow> bool" where
  "trailing p \<longleftrightarrow> p \<noteq> [] \<and> last p = 47"

fun walk :: "(u16 \<Rightarrow> u16 \<Rightarrow> buf) \<Rightarrow> mtab_entry list \<Rightarrow> bool \<Rightarrow> fs_node \<Rightarrow> fs_node \<Rightarrow> u16 list list \<Rightarrow> u16 \<times> fs_node \<times> fs_node" where
  "walk V ms slash parent n [] = (FS_OK, parent, n)"
| "walk V ms slash parent n (w # ws) = (case child V ms (up ms n w) w of
     None \<Rightarrow> (if ws \<noteq> [] \<or> slash then FS_NO_DIR else FS_NO_FILE, n, up ms n w)
   | Some m \<Rightarrow> walk V ms slash n m ws)"

text \<open>The directories met on the way can be read, and the names fit the buffer.\<close>

fun walkable :: "(u16 \<Rightarrow> u16 \<Rightarrow> buf) \<Rightarrow> (u16 \<Rightarrow> bool) \<Rightarrow> mtab_entry list \<Rightarrow> fs_node \<Rightarrow> u16 list list \<Rightarrow> bool" where
  "walkable V present ms n [] = True"
| "walkable V present ms n (w # ws) = (length w < 32 \<and> dir_ok V (up ms n w) \<and> present (fn_dev (up ms n w)) \<and>
     (case child V ms (up ms n w) w of None \<Rightarrow> True | Some m \<Rightarrow> walkable V present ms m ws))"

lemma skip_slashes_text: "0 \<notin> set p \<Longrightarrow> skip_slashes (p @ 0 # r) = Some (dropWhile (\<lambda>c. c = 47) p @ 0 # r)"
  by (induction p) auto

lemma component_text: "0 \<notin> set q \<Longrightarrow> component (q @ 0 # r) = Some (takeWhile (\<lambda>c. c \<noteq> 47) q, dropWhile (\<lambda>c. c \<noteq> 47) q @ 0 # r)"
  by (induction q) auto

lemma comps_Nil: "comps p = [] \<longleftrightarrow> dropWhile (\<lambda>c. c = 47) p = []"
  by (subst comps.simps) (simp add: Let_def)

lemma comps_empty: "comps [] = []"
  by (simp add: comps_Nil)

lemma all_slashes: "dropWhile (\<lambda>c. c = 47) p = [] \<Longrightarrow> p \<noteq> [] \<Longrightarrow> trailing p"
  by (auto simp: trailing_def dropWhile_eq_Nil_conv)

lemma trailing_rest: "dropWhile P p \<noteq> [] \<Longrightarrow> trailing (dropWhile P p) = trailing p"
  using takeWhile_dropWhile_id [of P p] by (metis append_is_Nil_conv last_appendR trailing_def)

lemma no_rest: "q \<noteq> [] \<Longrightarrow> dropWhile (\<lambda>c. c \<noteq> 47) q = [] \<Longrightarrow> \<not> trailing q"
  by (auto simp: trailing_def dropWhile_eq_Nil_conv)

lemma text_part: "0 \<notin> set p \<Longrightarrow> 0 \<notin> set (dropWhile P p)" "0 \<notin> set p \<Longrightarrow> 0 \<notin> set (takeWhile P p)"
  by (auto dest: set_dropWhileD set_takeWhileD)

lemma hd_text: "0 \<notin> set t \<Longrightarrow> hd (t @ 0 # r) = 0 \<longleftrightarrow> t = []"
  by (cases t) auto

lemma rest_shorter: "q \<noteq> [] \<Longrightarrow> hd q \<noteq> x \<Longrightarrow> length (dropWhile (\<lambda>c. c \<noteq> x) q) < length q"
  using length_dropWhile_le [of "\<lambda>c. c \<noteq> x" "tl q"] by (cases q) simp_all

lemma rest_end:
  assumes "q \<noteq> []" "t = dropWhile (\<lambda>c. c \<noteq> 47) q"
  shows "comps t \<noteq> [] \<or> trailing q \<longleftrightarrow> t \<noteq> []"
proof (cases "t = []")
  case True
  then have "\<not> trailing q" using no_rest [OF assms(1)] assms(2) by simp
  moreover have "comps t = []" using True comps_Nil [of t] by simp
  ultimately show ?thesis using True by blast
next
  case False
  then have "trailing t = trailing q" using trailing_rest assms(2) by blast
  then show ?thesis using False all_slashes [of t] comps_Nil [of t] by blast
qed

text \<open>The loop of \<^verbatim>\<open>fs_lookup\<close>.\<close>

lemma lookup_loop_ok:
  fixes s :: kst
  assumes "disk_ok dops s" "set_inv (mtab s)" "room 2 s" "0 \<notin> set p"
    "walkable (bview s) (dev_present (hw_hdd s)) (mounts (mtab s)) n (comps p)"
  shows "\<exists>s'. lookup_loop dops (p @ 0 # r) n parent s =
      (case walk (bview s) (mounts (mtab s)) (trailing p) parent n (comps p) of (rv, par, res) \<Rightarrow> Some (rv, par, res, s')) \<and>
    fx dops s s' (bview s) (pins s) (dirty s)"
  using assms
proof (induction "length p" arbitrary: p n parent s rule: less_induct)
  case less
  let ?V = "bview s" and ?ms = "mounts (mtab s)"
  define q where "q = dropWhile (\<lambda>c. c = 47) p"
  have sk: "skip_slashes (p @ 0 # r) = Some (q @ 0 # r)" unfolding q_def by (rule skip_slashes_text [OF less.prems(4)])
  show ?case
  proof (cases "q = []")
    case True
    then have "comps p = []" by (simp add: comps_Nil q_def)
    then show ?thesis using sk True fx_refl [OF less.prems(1)] by (subst lookup_loop.simps) simp
  next
    case False
    define w where "w = takeWhile (\<lambda>c. c \<noteq> 47) q"
    define t where "t = dropWhile (\<lambda>c. c \<noteq> 47) q"
    let ?n = "up ?ms n w"
    have cm: "comps p = w # comps t" using False by (subst comps.simps) (simp add: Let_def q_def w_def t_def)
    have z1: "0 \<notin> set q" unfolding q_def by (rule text_part(1) [OF less.prems(4)])
    have z: "0 \<notin> set q" "0 \<notin> set t" "0 \<notin> set w"
      using z1 text_part [OF z1] unfolding w_def t_def by blast+
    have h: "hd q \<noteq> 47" using hd_dropWhile [of "\<lambda>c. c = 47" p] False unfolding q_def by simp
    have hz: "hd (q @ 0 # r) \<noteq> 0" using hd_text [OF z(1)] False by blast
    have cp: "component (q @ 0 # r) = Some (w, t @ 0 # r)" unfolding w_def t_def by (rule component_text [OF z(1)])
    have ht: "hd (t @ 0 # r) = 0 \<longleftrightarrow> t = []" by (rule hd_text [OF z(2)])
    have len: "length t < length p"
      using rest_shorter [OF False h] length_dropWhile_le [of "\<lambda>c. c = 47" p]
      unfolding t_def q_def by linarith
    have wk: "length w < 32" "dir_ok ?V ?n" "dev_present (hw_hdd s) (fn_dev ?n)"
      "\<And>m. child ?V ?ms ?n w = Some m \<Longrightarrow> walkable ?V (dev_present (hw_hdd s)) ?ms m (comps t)"
      using less.prems(5) unfolding cm by (auto split: option.splits)
    have cw: "is_cstr (w @ [0]) w" using z(3) by (simp add: is_cstr_def)
    obtain s1 where fd: "fs_finddir dops n (w @ [0]) s = Some (case child ?V ?ms ?n w of
        None \<Rightarrow> (FS_NO_FILE, ?n, ?n, s1) | Some c \<Rightarrow> (FS_OK, ?n, c, s1))"
      and f: "fx dops s s1 ?V (pins s) (dirty s)"
      using fs_finddir_ok [OF less.prems(1,2) cw wk(3) less.prems(3) wk(2)] by blast
    have tp: "trailing q = trailing p" unfolding q_def by (rule trailing_rest) (use False in \<open>simp add: q_def\<close>)
    have end_t: "comps t \<noteq> [] \<or> trailing p \<longleftrightarrow> t \<noteq> []" using rest_end [OF False t_def] unfolding tp .
    show ?thesis
    proof (cases "child ?V ?ms ?n w")
      case None
      then show ?thesis using sk hz cp wk(1) fd ht f end_t unfolding cm
        by (subst lookup_loop.simps) auto
    next
      case (Some m)
      show ?thesis
      proof (cases "t = []")
        case True
        then show ?thesis using Some sk hz cp wk(1) fd ht f unfolding cm
          by (subst lookup_loop.simps) (auto simp: comps_empty)
      next
        case tn: False
        note e = fxD [OF f]
        have p1: "set_inv (mtab s1)" "room 2 s1"
          using less.prems(2,3) fx_mtab [OF f] room_cong [OF e(3)] by simp_all
        have w1: "walkable (bview s1) (dev_present (hw_hdd s1)) (mounts (mtab s1)) m (comps t)"
        proof -
          have "dev_present (hw_hdd s1) = dev_present (hw_hdd s)" using dev_present_fx [OF f] by (rule ext)
          then show ?thesis using wk(4) [OF Some] e(2) fx_mtab [OF f] by simp
        qed
        have tr: "trailing t = trailing p" using tp trailing_rest [OF tn [unfolded t_def]] unfolding t_def by simp
        obtain s' where s': "lookup_loop dops (t @ 0 # r) m n s1 =
            (case walk ?V ?ms (trailing p) n m (comps t) of (rv, par, res) \<Rightarrow> Some (rv, par, res, s'))"
          "fx dops s1 s' ?V (pins s) (dirty s1)"
          using less.hyps [OF len e(1) p1 z(2) w1, of n] e(2,3) fx_mtab [OF f] tr by auto
        have "fx dops s s' ?V (pins s) (dirty s)" using fx_trans [OF f fx_weaken [OF s'(2) e(4)]] by blast
        then show ?thesis using Some tn sk hz cp wk(1) fd ht s'(1) unfolding cm
          by (subst lookup_loop.simps) auto
      qed
    qed
  qed
qed

text \<open>The directory a path starts from: the root for an absolute path, else that of the current process.\<close>

definition start_dir :: "u16 list \<Rightarrow> kst \<Rightarrow> fs_node option" where
  "start_dir p s = (if p \<noteq> [] \<and> hd p = 47 then Some (fs_root s) else map_option (\<lambda>c. p_cwd (procs s c)) (cProc s))"

lemma fs_lookup_ok:
  assumes "disk_ok dops s" "set_inv (mtab s)" "room 2 s" "0 \<notin> set p" "start_dir p s = Some n"
    "walkable (bview s) (dev_present (hw_hdd s)) (mounts (mtab s)) n (comps p)"
  shows "\<exists>s'. fs_lookup dops (p @ 0 # r) s =
      (case walk (bview s) (mounts (mtab s)) (trailing p) n n (comps p) of (rv, par, res) \<Rightarrow> Some (rv, par, res, s')) \<and>
    fx dops s s' (bview s) (pins s) (dirty s)"
proof -
  obtain s' where s': "lookup_loop dops (p @ 0 # r) n n s =
      (case walk (bview s) (mounts (mtab s)) (trailing p) n n (comps p) of (rv, par, res) \<Rightarrow> Some (rv, par, res, s'))"
    "fx dops s s' (bview s) (pins s) (dirty s)"
    using lookup_loop_ok [OF assms(1-4,6)] by blast
  have st: "(if hd (p @ 0 # r) = 47 then Some (fs_root s) else do { c \<leftarrow> cProc s; Some (p_cwd (procs s c)) }) = Some n"
    using assms(5) by (cases p; cases "cProc s") (auto simp: start_dir_def split: if_splits)
  show ?thesis
  proof (cases "p = []")
    case True
    then show ?thesis using st fx_refl [OF assms(1)] by (auto simp: fs_lookup_def comps_empty)
  next
    case False
    then have "hd (p @ 0 # r) \<noteq> 0" using hd_text [OF assms(4)] by blast
    then show ?thesis using st s' by (auto simp: fs_lookup_def)
  qed
qed

text \<open>
  C8. \<^verbatim>\<open>fs_lookup\<close> of a path walks through its components from the root or the current directory: every
  component is looked up by name among the entries of the directory's file, mount points are crossed
  on the way down and, with \<^verbatim>\<open>..\<close>, on the way up, and the result tells a missing file from a missing
  directory.  It returns for every path whose directories can be read, and changes no block.
\<close>

theorem fs_lookup_walks:
  assumes "disk_ok dops s" "set_inv (mtab s)" "room 2 s" "0 \<notin> set p" "start_dir p s = Some n"
    "walkable (bview s) (dev_present (hw_hdd s)) (mounts (mtab s)) n (comps p)"
  shows "\<exists>s'. fs_lookup dops (p @ 0 # r) s =
      (case walk (bview s) (mounts (mtab s)) (trailing p) n n (comps p) of (rv, par, res) \<Rightarrow> Some (rv, par, res, s')) \<and>
    disk_ok dops s' \<and> bview s' = bview s \<and> pins s' = pins s"
  using fs_lookup_ok [OF assms, of r] fxD(1-3) by blast

text \<open>A root directory in node 34 with the one entry \<^verbatim>\<open>a\<close> for node 36, a file of three words.\<close>

definition tree :: "nat \<Rightarrow> nat \<Rightarrow> u16" where
  "tree n k =
     (if n = 34 then (if k = 0 then S_IFDIR else if k = 1 then 32 else if k = 3 then 35 else 0)
      else if n = 35 then (if k = 0 then 97 else if k = 31 then 36 else 0)
      else if n = 36 then (if k = 0 then S_IFREG else if k = 1 then 3 else if k = 3 then 37 else 0)
      else if n = 37 then (if k < 3 then of_nat (65 + k) else 0) else 0)"

definition tree_state :: kst where
  "tree_state = (power_on (disk_words tree))\<lparr>fs_root := \<lparr>fn_dev = 0, fn_idx = 34\<rparr>\<rparr>"

text \<open>A kernel that has just been switched on, with an image on its disks.\<close>

lemma fresh_disk:
  fixes s :: kst
  assumes hd: "hw_hdd s = disk_words im" and same: "blockCache s = blockCache (power_on h)" "blkdrivers s = blkdrivers (power_on h)"
  shows "disk_ok (\<lambda>_. ataGetDriver) s" "bview s = (\<lambda>d n. trunc (im (unat n)))" "pins s = (\<lambda>_ _. 0)" "k \<le> 16 \<Longrightarrow> room k s"
proof -
  have bc: "b_flags (blockCache s i) = BLOCK_FREE" "b_cnt (blockCache s i) = 0" for i
    by (simp_all add: same(1) power_on_def Let_def)
  have c: "cached s = (\<lambda>_ _. None)" by (intro ext) (simp add: cached_None bc)
  then show pn: "pins s = (\<lambda>_ _. 0)" by (simp add: pins_def fun_eq_iff)
  then show "room k s" if "k \<le> 16" using that by (simp add: room_def pinned_def)
  show "bview s = (\<lambda>d n. trunc (im (unat n)))" by (simp add: cview_def c hd fun_eq_iff)
  have "getBlkDriver d s = Some Ata_driver" if "ata_present (disk_words im) d n" for d n
  proof -
    have "DEV_MAJOR d = 0" using that by (simp add: ata_present_def DEV_MAJOR_def)
    moreover have "blkdrivers s 0 = \<lparr>bd_major = 0, bd_driver = Some Ata_driver\<rparr>"
      by (simp add: same(2) power_on_def Let_def)
    ultimately show ?thesis by (simp add: getBlkDriver_def getDriverEntry_def)
  qed
  then show "disk_ok (\<lambda>_. ataGetDriver) s"
    by (simp add: disk_ok_def cache_inv_def uniq_def entry_ok_def served_def bc hd)
qed

lemma tree_state_disk:
  "disk_ok (\<lambda>_. ataGetDriver) tree_state" "bview tree_state = (\<lambda>d n. trunc (tree (unat n)))" "room 2 tree_state"
  "hw_hdd tree_state = disk_words tree" "mtab tree_state = mtab (power_on (disk_words tree))" "fs_root tree_state = \<lparr>fn_dev = 0, fn_idx = 34\<rparr>"
proof -
  show h: "hw_hdd tree_state = disk_words tree" "mtab tree_state = mtab (power_on (disk_words tree))"
    "fs_root tree_state = \<lparr>fn_dev = 0, fn_idx = 34\<rparr>" by (simp_all add: tree_state_def power_on_def Let_def)
  have same: "blockCache tree_state = blockCache (power_on (disk_words tree))" "blkdrivers tree_state = blkdrivers (power_on (disk_words tree))"
    by (simp_all add: tree_state_def)
  note f = fresh_disk [OF h(1) same]
  show "disk_ok (\<lambda>_. ataGetDriver) tree_state" "bview tree_state = (\<lambda>d n. trunc (tree (unat n)))" by (fact f)+
  show "room 2 tree_state" by (rule f(4)) simp
qed

text \<open>The root directory needs nodes 34 and 35 only.\<close>

lemma tree_entries:
  assumes "im 34 = tree 34" "im 35 = tree 35"
  shows "dirents (\<lambda>d (n :: u16). trunc (im (unat n))) \<lparr>fn_dev = 0, fn_idx = 34\<rparr> = [97 # replicate 30 0 @ [36]]"
proof -
  let ?V = "\<lambda>(d :: u16) (n :: u16). trunc (im (unat n))"
  have sz: "node_size (trunc (im 34)) = 32" by (simp add: assms node_size_def trunc_def tree_def long_of_def)
  have "fdata ?V 0 34 k = (if k = 0 then 97 else if k = 31 then 36 else 0)" if "k < 32" for k
    using that by (simp add: assms fdata_def slot_def trunc_def tree_def)
  then have "map (fdata ?V 0 34) [0 ..< 32] = map (\<lambda>k. if k = 0 then 97 else if k = 31 then 36 else 0) [0 ..< 32]" by simp
  also have "\<dots> = 97 # replicate 30 0 @ [36]" by (simp add: upt_rec_numeral numeral_eq_Suc)
  finally show ?thesis by (simp add: dirents_def sz)
qed

lemma tree_walk:
  assumes im: "im 34 = tree 34" "im 35 = tree 35"
  defines "V \<equiv> \<lambda>(d :: u16) (n :: u16). trunc (im (unat n))" and "n \<equiv> \<lparr>fn_dev = 0, fn_idx = 34\<rparr>"
  shows "walkable V (dev_present (disk_words im)) [] n (comps [47, 97])" "\<not> trailing [47, 97]"
    "walk V [] False n n (comps [47, 97]) = (FS_OK, n, \<lparr>fn_dev = 0, fn_idx = 36\<rparr>)"
proof -
  show "\<not> trailing [47, 97]" by (simp add: trailing_def)
  have c: "comps [47, 97] = [[97]]" by (simp add: comps.simps)
  note te = tree_entries [OF im, folded V_def n_def]
  have d: "dir_ok V n"
    by (simp add: dir_ok_def te)
       (simp add: V_def n_def im file_mapped_def node_size_def slot_def trunc_def tree_def long_of_def S_ISCHR_def S_ISBLK_def)
  have ch: "child V [] n [97] = Some \<lparr>fn_dev = 0, fn_idx = 36\<rparr>"
    by (simp add: child_def te named_def nth_append) (simp add: n_def)
  have u: "up [] n [97] = n" by (simp add: up_def)
  have n: "fn_dev n = 0" by (simp add: n_def)
  show "walkable V (dev_present (disk_words im)) [] n (comps [47, 97])" using d ch u by (simp add: c n)
  show "walk V [] False n n (comps [47, 97]) = (FS_OK, n, \<lparr>fn_dev = 0, fn_idx = 36\<rparr>)"
    using ch u by (simp add: c)
qed

lemma fresh_mounts: "mtab s = mtab (power_on h) \<Longrightarrow> set_inv (mtab s) \<and> mounts (mtab s) = []"
  by (simp add: power_on_def Let_def zero_slots_def set_inv_def set_live_def mounts_def)

theorem fs_lookup_walks_witness:
  "\<exists>s'. fs_lookup (\<lambda>_. ataGetDriver) [47, 97, 0] tree_state =
     Some (FS_OK, \<lparr>fn_dev = 0, fn_idx = 34\<rparr>, \<lparr>fn_dev = 0, fn_idx = 36\<rparr>, s')"
proof -
  note t = tree_state_disk and m = fresh_mounts [OF tree_state_disk(5)]
  have "start_dir [47, 97] tree_state = Some \<lparr>fn_dev = 0, fn_idx = 34\<rparr>" by (simp add: start_dir_def t(6))
  from fs_lookup_walks [OF t(1) conjunct1 [OF m] t(3) _ this, of "[]"] show ?thesis
    using tree_walk [of tree] m unfolding t(2,4) by auto
qed

end
