(* ===== verification/Files.thy ===== *)
theory Files
  imports FsWrite Paths
begin

text \<open>
  Open files.  A \<^verbatim>\<open>FILE\<close> on a regular file reads and writes at its position, which it advances; the words
  are those of \<open>file_contents\<close>.  The size it compares with is the one recorded when the file was opened.
\<close>

section \<open>Reading\<close>

definition regular :: "nat \<Rightarrow> u16 \<Rightarrow> u16 \<Rightarrow> 'z fs_st_scheme \<Rightarrow> bool" where
  "regular fd d N s \<longleftrightarrow> f_node (file_at fd s) = \<lparr>fn_dev = d, fn_idx = N\<rparr> \<and>
     \<not> S_ISBLK (f_flags (file_at fd s)) \<and> \<not> S_ISCHR (f_flags (file_at fd s))"

lemma file_upd_view [simp]:
  "hw_hdd (file_upd fd g s) = hw_hdd s" "bview (file_upd fd g s) = bview s" "pins (file_upd fd g s) = pins s"
  "room k (file_upd fd g s) = room k s" "dirty (file_upd fd g s) = dirty s" "cached (file_upd fd g s) = cached s"
  "mtab (file_upd fd g s) = mtab s" "fs_root (file_upd fd g s) = fs_root s" "blockCache (file_upd fd g s) = blockCache s"
proof -
  show h: "hw_hdd (file_upd fd g s) = hw_hdd s" "blockCache (file_upd fd g s) = blockCache s" "mtab (file_upd fd g s) = mtab s"
    "fs_root (file_upd fd g s) = fs_root s" by (simp_all add: file_upd_def)
  show c: "cached (file_upd fd g s) = cached s" by (intro ext) (simp add: cached_def h)
  show "bview (file_upd fd g s) = bview s" by (intro ext) (simp add: cview_def c h split: option.split)
  show p: "pins (file_upd fd g s) = pins s" by (intro ext) (simp add: pins_def c h split: option.split)
  show "room k (file_upd fd g s) = room k s" by (rule room_cong [OF p])
  show "dirty (file_upd fd g s) = dirty s" by (simp add: unmarked_def c h)
qed

lemma file_upd_disk_ok [simp]: "disk_ok dops (file_upd fd g s) = disk_ok dops s"
  by (simp add: disk_ok_def cache_inv_def uniq_def served_def getBlkDriver_def getDriverEntry_def file_upd_def)

lemma file_at_upd [simp]: "file_at fd (file_upd fd' g s) = (if fd = fd' then g (file_at fd s) else file_at fd s)"
  by (simp add: file_at_def file_upd_def)

lemma fx_files:
  assumes "fx dops s s' V P U"
  shows "file_at fd s' = file_at fd s" "openFiles s' = openFiles s" "regular fd d N s' = regular fd d N s"
proof -
  show o: "openFiles s' = openFiles s" by (subst fxD(6) [OF assms]) simp
  then show f: "file_at fd s' = file_at fd s" by (simp add: file_at_def)
  show "regular fd d N s' = regular fd d N s" by (simp add: regular_def f)
qed

lemma length_contents [simp]: "length (file_contents V d N) = node_size (V d N)"
  by (simp add: file_contents_def)

lemma contents_segment:
  "map (fdata V d N) [p ..< p + min n (node_size (V d N) - p)] = take n (drop p (file_contents V d N))"
  if "p \<le> node_size (V d N)"
proof -
  have "take n (drop p (file_contents V d N)) = map (fdata V d N) (take n [p ..< node_size (V d N)])"
    by (simp add: file_contents_def drop_map take_map)
  also have "take n [p ..< node_size (V d N)] = [p ..< p + min n (node_size (V d N) - p)]"
    using that by (auto simp: min_def)
  finally show ?thesis ..
qed

lemma file_upd_pos: "file_upd fd (f_pos_update g) s = file_upd fd (f_pos_update (\<lambda>_. g (f_pos (file_at fd s)))) s"
  by (cases "set_el (openFiles s) fd") (simp add: file_upd_def file_at_def)

lemma advance_le: "p \<le> z \<Longrightarrow> p + min n (z - p) \<le> (z :: nat)"
  by linarith

text \<open>One call, with a recorded size that is right and a position within it.\<close>

lemma k_read_ok:
  assumes ok: "disk_ok dops s" and dp: "dev_present (hw_hdd s) d" and rm: "room 2 s"
    and mp: "file_mapped (bview s) d N" and n: "n < 65536" and reg: "regular fd d N s"
    and sz: "f_size (file_at fd s) = node_size (bview s d N)" and le: "f_pos (file_at fd s) \<le> f_size (file_at fd s)"
  shows "\<exists>s1. k_read dops fd n s = Some (take n (drop (f_pos (file_at fd s)) (file_contents (bview s) d N)),
      file_upd fd (f_pos_update (\<lambda>p. p + min n (f_size (file_at fd s) - p))) s1) \<and>
    fx dops s s1 (bview s) (pins s) (dirty s)"
proof -
  let ?p = "f_pos (file_at fd s)" and ?z = "f_size (file_at fd s)"
  have zl: "?z \<le> MAX_OFFSET" using mp sz by (simp add: file_mapped_def)
  define m where "m = (if off_add n ?p > ?z then (?z + 4294967296 - ?p) mod 65536 else n)"
  have m: "min m (?z - ?p) = min n (?z - ?p)" "m < 65536"
  proof -
    have o: "off_add n ?p = n + ?p" using n le zl by (simp add: off_add_def)
    have e: "(?z + 4294967296 - ?p) mod 65536 = (?z - ?p) mod 65536"
    proof -
      have "?z + 4294967296 - ?p = (?z - ?p) + 65536 * 65536" using le by simp
      then show ?thesis by presburger
    qed
    have "(?z - ?p) mod 65536 = ?z - ?p" if "n + ?p > ?z" using that n by simp
    then show "min m (?z - ?p) = min n (?z - ?p)" unfolding m_def o e by auto
    show "m < 65536" using n by (simp add: m_def)
  qed
  obtain s1 where r: "fs_read dops \<lparr>fn_dev = d, fn_idx = N\<rparr> ?p m s = Some (take n (drop ?p (file_contents (bview s) d N)), s1)"
    and f: "fx dops s s1 (bview s) (pins s) (dirty s)"
    using fs_read_fx [OF ok dp _ mp m(2), of 0 ?p] rm le m(1) contents_segment [of ?p "bview s" d N n]
    by (auto simp: sz numeral_2_eq_2)
  let ?ws = "take n (drop ?p (file_contents (bview s) d N))"
  have l: "length ?ws = min n (?z - ?p)" by (simp add: sz min.commute)
  have "?p + min n (?z - ?p) < 4294967296" using advance_le [OF le, of n] zl by linarith
  then have "off_add ?p (length ?ws) = ?p + min n (?z - ?p)" unfolding l off_add_def by (rule mod_less)
  then have "file_upd fd (f_pos_update (\<lambda>p. off_add p (length ?ws))) s1 =
      file_upd fd (f_pos_update (\<lambda>p. p + min n (?z - p))) s1"
    by (subst file_upd_pos, subst (2) file_upd_pos, simp only: fx_files(1) [OF f])
  moreover have "k_read dops fd n s = Some (?ws, file_upd fd (f_pos_update (\<lambda>p. off_add p (length ?ws))) s1)"
    using reg r unfolding regular_def m_def by (simp add: k_read_def Let_def del: length_take length_drop)
  ultimately show ?thesis using f by auto
qed

text \<open>A program that reads in pieces.\<close>

primrec read_pieces :: "dops \<Rightarrow> nat \<Rightarrow> nat list \<Rightarrow> kst \<Rightarrow> (u16 list list \<times> kst) option" where
  "read_pieces dops fd [] s = Some ([], s)"
| "read_pieces dops fd (n # ns) s = do {
     (ws, s1) \<leftarrow> k_read dops fd n s;
     (wss, s2) \<leftarrow> read_pieces dops fd ns s1;
     Some (ws # wss, s2) }"

definition readable :: "dops \<Rightarrow> nat \<Rightarrow> u16 \<Rightarrow> u16 \<Rightarrow> kst \<Rightarrow> bool" where
  "readable dops fd d N s \<longleftrightarrow> disk_ok dops s \<and> dev_present (hw_hdd s) d \<and> room 2 s \<and> file_mapped (bview s) d N \<and>
     regular fd d N s \<and> f_size (file_at fd s) = node_size (bview s d N) \<and> f_pos (file_at fd s) \<le> f_size (file_at fd s)"

definition same_slots :: "'z fs_st_scheme \<Rightarrow> 'z fs_st_scheme \<Rightarrow> bool" where
  "same_slots s s' \<longleftrightarrow> set_capacity (openFiles s') = set_capacity (openFiles s) \<and> set_size (openFiles s') = set_size (openFiles s) \<and>
     set_used (openFiles s') = set_used (openFiles s)"

lemma same_slots_upd [simp]: "same_slots s (file_upd fd g t) = same_slots s t"
  by (simp add: same_slots_def file_upd_def)

lemma same_slots_fx: "fx dops s s' V P U \<Longrightarrow> same_slots s s'"
  by (simp add: same_slots_def fx_files)

text \<open>A state that differs in what file operations change: disks, cache and open files.\<close>

definition files_only :: "kst \<Rightarrow> kst \<Rightarrow> bool" where
  "files_only s s' \<longleftrightarrow> s' = s\<lparr>hw_hdd := hw_hdd s', blockCache := blockCache s', openFiles := openFiles s'\<rparr>"

lemma files_only_fx:
  assumes "fx dops s t V P U"
  shows "files_only s (file_upd fd g t)" "files_only s (t\<lparr>openFiles := u\<rparr>)" "files_only s t"
proof -
  have t: "t = s\<lparr>hw_hdd := hw_hdd t, blockCache := blockCache t\<rparr>" by (rule fxD(6) [OF assms])
  show "files_only s (file_upd fd g t)" unfolding files_only_def file_upd_def by (subst t) simp
  show "files_only s (t\<lparr>openFiles := u\<rparr>)" unfolding files_only_def by (subst t) simp
  show "files_only s t" unfolding files_only_def by (subst t, subst fx_files(2) [OF assms]) simp
qed

lemma files_only_trans: "files_only s t \<Longrightarrow> files_only t u \<Longrightarrow> files_only s u"
proof -
  assume st: "files_only s t" and tu: "files_only t u"
  show "files_only s u"
    unfolding files_only_def
    by (rule trans [OF tu [unfolded files_only_def]], subst st [unfolded files_only_def]) simp
qed

lemma files_only_refl: "files_only s s"
  by (simp add: files_only_def)

lemma files_onlyD:
  assumes "files_only s s'"
  shows "procs s' = procs s" "hw_mmu s' = hw_mmu s" "hw_ram s' = hw_ram s" "pageMap s' = pageMap s" "cProc s' = cProc s"
    "uninit s' = uninit s" "enable_copy_on_write s' = enable_copy_on_write s" "blkdrivers s' = blkdrivers s" "mtab s' = mtab s"
    "selectorMap s' = selectorMap s" "fs_root s' = fs_root s"
  by (subst assms [unfolded files_only_def], simp)+

lemma k_read_readable:
  assumes "readable dops fd d N s" "n < 65536"
  shows "\<exists>s1. k_read dops fd n s = Some (take n (drop (f_pos (file_at fd s)) (file_contents (bview s) d N)), s1) \<and>
    readable dops fd d N s1 \<and> bview s1 = bview s \<and> pins s1 = pins s \<and>
    f_pos (file_at fd s1) = f_pos (file_at fd s) + min n (f_size (file_at fd s) - f_pos (file_at fd s)) \<and>
    f_size (file_at fd s1) = f_size (file_at fd s) \<and> f_refcnt (file_at fd s1) = f_refcnt (file_at fd s) \<and>
    same_slots s s1 \<and> files_only s s1"
proof -
  note a = assms(1) [unfolded readable_def]
  obtain t where t: "k_read dops fd n s = Some (take n (drop (f_pos (file_at fd s)) (file_contents (bview s) d N)),
      file_upd fd (f_pos_update (\<lambda>p. p + min n (f_size (file_at fd s) - p))) t)" "fx dops s t (bview s) (pins s) (dirty s)"
    using k_read_ok [of dops s d N n fd] a assms(2) by blast
  note e = fxD [OF t(2)] and fl = fx_files [OF t(2)]
  have "dev_present (hw_hdd t) d" using a dev_present_fx [OF t(2)] by simp
  moreover have "room 2 t" using a room_cong [OF e(3)] by simp
  moreover have "regular fd d N t" using a fl(3) by simp
  ultimately have "readable dops fd d N (file_upd fd (f_pos_update (\<lambda>p. p + min n (f_size (file_at fd s) - p))) t)"
    using a e(1,2) fl(1) unfolding readable_def regular_def by (simp add: advance_le)
  then show ?thesis using t(1) e(2,3) fl(1) same_slots_fx [OF t(2)] files_only_fx(1) [OF t(2)] by simp
qed

lemma take_pieces: "take n (drop p xs) @ take m (drop (p + min n (length xs - p)) xs) = take (n + m) (drop p xs)"
proof -
  have "drop (min n (length ys)) ys = drop n ys" for ys :: "'a list" by (simp add: min_def)
  from this [of "drop p xs"] have "drop (p + min n (length xs - p)) xs = drop n (drop p xs)" by (simp add: add.commute)
  then show ?thesis by (simp add: take_add)
qed

lemma read_pieces_ok:
  "readable dops fd d N s \<Longrightarrow> \<forall>n \<in> set ns. n < 65536 \<Longrightarrow>
   \<exists>wss s'. read_pieces dops fd ns s = Some (wss, s') \<and> length wss = length ns \<and> readable dops fd d N s' \<and> bview s' = bview s \<and>
     concat wss = take (sum_list ns) (drop (f_pos (file_at fd s)) (file_contents (bview s) d N)) \<and>
     f_pos (file_at fd s') = f_pos (file_at fd s) + min (sum_list ns) (f_size (file_at fd s) - f_pos (file_at fd s)) \<and>
     f_size (file_at fd s') = f_size (file_at fd s) \<and> f_refcnt (file_at fd s') = f_refcnt (file_at fd s) \<and> pins s' = pins s \<and>
     same_slots s s'"
proof (induction ns arbitrary: s)
  case (Cons n ns)
  let ?p = "f_pos (file_at fd s)" and ?c = "file_contents (bview s) d N"
  obtain s1 where r: "k_read dops fd n s = Some (take n (drop ?p ?c), s1)" "readable dops fd d N s1" "bview s1 = bview s"
    "pins s1 = pins s" "f_pos (file_at fd s1) = ?p + min n (f_size (file_at fd s) - ?p)" "f_size (file_at fd s1) = f_size (file_at fd s)"
    "f_refcnt (file_at fd s1) = f_refcnt (file_at fd s)" "same_slots s s1"
    using k_read_readable [OF Cons.prems(1), of n] Cons.prems(2) by auto
  obtain wss s' where ih: "read_pieces dops fd ns s1 = Some (wss, s')" "length wss = length ns" "readable dops fd d N s'"
    "bview s' = bview s1" "concat wss = take (sum_list ns) (drop (f_pos (file_at fd s1)) (file_contents (bview s1) d N))"
    "f_pos (file_at fd s') = f_pos (file_at fd s1) + min (sum_list ns) (f_size (file_at fd s1) - f_pos (file_at fd s1))"
    "f_size (file_at fd s') = f_size (file_at fd s1)" "f_refcnt (file_at fd s') = f_refcnt (file_at fd s1)" "pins s' = pins s1" "same_slots s1 s'"
    using Cons.IH [OF r(2)] Cons.prems(2) by auto
  have z: "f_size (file_at fd s) = length ?c" using Cons.prems(1) by (simp add: readable_def)
  have "take n (drop ?p ?c) @ concat wss = take (n + sum_list ns) (drop ?p ?c)"
    using take_pieces [of n ?p ?c "sum_list ns"] unfolding ih(5) r(3,5) z .
  then show ?case using r ih z by (auto simp: min_def same_slots_def)
qed (simp add: same_slots_def)

section \<open>Opening and closing\<close>

lemma fs_open_ok:
  assumes ok: "disk_ok dops s" and dp: "dev_present (hw_hdd s) d" and rm: "room 2 s"
    and reg: "\<not> S_ISCHR (bview s d N 0)" "\<not> S_ISBLK (bview s d N 0)"
    and mode: "mode AND O_APPEND = 0" "mode \<noteq> O_WRONLY"
    and free: "set_inv (openFiles s)" "set_size (openFiles s) < set_capacity (openFiles s)"
  shows "\<exists>fd s1 t. fs_open dops \<lparr>fn_dev = d, fn_idx = N\<rparr> mode s = Some (fd, s1\<lparr>openFiles := t\<rparr>) \<and>
    fx dops s s1 (bview s) (pins s) (dirty s) \<and>
    set_insert (openFiles s) \<lparr>f_mode = mode, f_node = \<lparr>fn_dev = d, fn_idx = N\<rparr>, f_size = node_size (bview s d N), f_pos = 0,
      f_device = 0, f_flags = bview s d N 0, f_refcnt = 1\<rparr> = Some (fd, t)"
proof -
  let ?f = "\<lparr>f_mode = mode, f_node = \<lparr>fn_dev = d, fn_idx = N\<rparr>, f_size = node_size (bview s d N), f_pos = 0,
      f_device = 0, f_flags = bview s d N 0, f_refcnt = 1\<rparr>"
  obtain s1 where st: "fs_stat dops \<lparr>fn_dev = d, fn_idx = N\<rparr> s = Some (\<lparr>st_dev = d, st_ino = N, st_mode = bview s d N 0,
      st_rdev = 0, st_size = node_size (bview s d N)\<rparr>, s1)" and f: "fx dops s s1 (bview s) (pins s) (dirty s)"
    using fs_stat_ok [OF ok, of "\<lparr>fn_dev = d, fn_idx = N\<rparr>"] dp rm reg by auto
  obtain fd t where t: "set_insert (openFiles s) ?f = Some (fd, t)"
    using set_insert_None [OF free(1), of ?f] free(2) by (cases "set_insert (openFiles s) ?f") auto
  have "fs_open dops \<lparr>fn_dev = d, fn_idx = N\<rparr> mode s = Some (fd, s1\<lparr>openFiles := t\<rparr>)"
    using st t mode reg fx_files(2) [OF f] by (simp add: fs_open_def)
  then show ?thesis using f t by blast
qed

lemma openFiles_view [simp]:
  "hw_hdd (s\<lparr>openFiles := t\<rparr>) = hw_hdd s" "bview (s\<lparr>openFiles := t\<rparr>) = bview s" "pins (s\<lparr>openFiles := t\<rparr>) = pins s"
  "room k (s\<lparr>openFiles := t\<rparr>) = room k s" "disk_ok dops (s\<lparr>openFiles := t\<rparr>) = disk_ok dops s"
proof -
  show h: "hw_hdd (s\<lparr>openFiles := t\<rparr>) = hw_hdd s" by simp
  have c: "cached (s\<lparr>openFiles := t\<rparr>) = cached s" by (intro ext) (simp add: cached_def)
  show "bview (s\<lparr>openFiles := t\<rparr>) = bview s" by (intro ext) (simp add: cview_def c split: option.split)
  show p: "pins (s\<lparr>openFiles := t\<rparr>) = pins s" by (intro ext) (simp add: pins_def c split: option.split)
  show "room k (s\<lparr>openFiles := t\<rparr>) = room k s" by (rule room_cong [OF p])
  show "disk_ok dops (s\<lparr>openFiles := t\<rparr>) = disk_ok dops s"
    by (simp add: disk_ok_def cache_inv_def uniq_def served_def getBlkDriver_def getDriverEntry_def)
qed

text \<open>What a path has to name: a regular file that can be read.\<close>

definition names_file :: "u16 list \<Rightarrow> u16 \<Rightarrow> u16 \<Rightarrow> kst \<Rightarrow> bool" where
  "names_file p d N s \<longleftrightarrow> set_inv (mtab s) \<and> 0 \<notin> set p \<and>
     (\<exists>n par. start_dir p s = Some n \<and> walkable (bview s) (dev_present (hw_hdd s)) (mounts (mtab s)) n (comps p) \<and>
        walk (bview s) (mounts (mtab s)) (trailing p) n n (comps p) = (FS_OK, par, \<lparr>fn_dev = d, fn_idx = N\<rparr>)) \<and>
     dev_present (hw_hdd s) d \<and> file_mapped (bview s) d N \<and> \<not> S_ISCHR (bview s d N 0) \<and> \<not> S_ISBLK (bview s d N 0)"

lemma k_open_regular:
  assumes ok: "disk_ok dops s" "room 2 s" and path: "names_file p d N s"
    and free: "set_inv (openFiles s)" "set_size (openFiles s) < set_capacity (openFiles s)"
  shows "\<exists>fd s1. k_open dops (p @ 0 # r) 114 s = Some (Some fd, s1) \<and> readable dops fd d N s1 \<and> f_pos (file_at fd s1) = 0 \<and>
    f_refcnt (file_at fd s1) = 1 \<and> bview s1 = bview s \<and> pins s1 = pins s \<and> files_only s s1 \<and> fd < set_capacity (openFiles s1) \<and>
    fd \<notin> set_live (openFiles s) \<and> set_live (openFiles s1) = insert fd (set_live (openFiles s))"
proof -
  note nf = path [unfolded names_file_def]
  obtain n par where w: "start_dir p s = Some n" "walkable (bview s) (dev_present (hw_hdd s)) (mounts (mtab s)) n (comps p)"
    "walk (bview s) (mounts (mtab s)) (trailing p) n n (comps p) = (FS_OK, par, \<lparr>fn_dev = d, fn_idx = N\<rparr>)" using nf by blast
  obtain s0 where lk: "fs_lookup dops (p @ 0 # r) s = Some (FS_OK, par, \<lparr>fn_dev = d, fn_idx = N\<rparr>, s0)"
    and f0: "fx dops s s0 (bview s) (pins s) (dirty s)"
    using fs_lookup_ok [OF ok(1) _ ok(2) _ w(1,2), of r] nf unfolding w(3) by auto
  note e0 = fxD [OF f0] and fl0 = fx_files [OF f0]
  have dp0: "dev_present (hw_hdd s0) d" using nf dev_present_fx [OF f0] by simp
  have rm0: "room 2 s0" using ok(2) room_cong [OF e0(3)] by simp
  obtain fd s1 t where o: "fs_open dops \<lparr>fn_dev = d, fn_idx = N\<rparr> 114 s0 = Some (fd, s1\<lparr>openFiles := t\<rparr>)"
    and f1: "fx dops s0 s1 (bview s0) (pins s0) (dirty s0)"
    and t: "set_insert (openFiles s0) \<lparr>f_mode = 114, f_node = \<lparr>fn_dev = d, fn_idx = N\<rparr>, f_size = node_size (bview s0 d N), f_pos = 0,
      f_device = 0, f_flags = bview s0 d N 0, f_refcnt = 1\<rparr> = Some (fd, t)"
    using fs_open_ok [OF e0(1) dp0 rm0, of N 114] nf free unfolding e0(2) fl0(2) by auto
  note e1 = fxD [OF f1] and ti = set_insert_Some [OF t]
  let ?s = "s1\<lparr>openFiles := t\<rparr>"
  have fa: "file_at fd ?s = \<lparr>f_mode = 114, f_node = \<lparr>fn_dev = d, fn_idx = N\<rparr>, f_size = node_size (bview s0 d N), f_pos = 0,
      f_device = 0, f_flags = bview s0 d N 0, f_refcnt = 1\<rparr>" by (simp add: file_at_def ti(4))
  have "readable dops fd d N ?s"
    using e0 e1 nf dev_present_fx [OF f1] dp0 room_cong [OF e1(3)] rm0 unfolding readable_def regular_def fa by simp
  moreover have "k_open dops (p @ 0 # r) 114 s = Some (Some fd, ?s)" using lk o by (simp add: k_open_def)
  moreover have "files_only s ?s" by (rule files_only_trans [OF files_only_fx(3) [OF f0] files_only_fx(2) [OF f1]])
  moreover have "fd < set_capacity (openFiles ?s)" "fd \<notin> set_live (openFiles s)" "set_live (openFiles ?s) = insert fd (set_live (openFiles s))"
    using ti(1,3,4) fl0(2) set_insert_live [OF t] by simp_all
  ultimately show ?thesis using fa e0(2,3) e1(2,3) by fastforce
qed

lemma k_close_last:
  assumes rd: "readable dops fd d N s" and one: "f_refcnt (file_at fd s) = 1" "fd < set_capacity (openFiles s)"
  shows "\<exists>s1. k_close fd s = Some s1 \<and> files_only s s1 \<and> bview s1 = bview s \<and> pins s1 = pins s \<and> disk_ok dops s1 \<and>
    set_live (openFiles s1) = set_live (openFiles s) - {fd}"
proof -
  let ?s = "file_upd fd (f_refcnt_update (\<lambda>c. c - 1)) s"
  have fl: "\<not> S_ISCHR (f_flags (file_at fd s))" using rd by (simp add: readable_def regular_def)
  obtain u where u: "set_remove_by_element (openFiles ?s) fd = Some u" "set_live u = set_live (openFiles ?s) - {fd}"
    using one(2) set_remove_by_element_live [of "openFiles ?s" fd]
    by (auto simp: set_remove_by_element_def require_def file_upd_def)
  have "k_close fd s = Some (?s\<lparr>openFiles := u\<rparr>)" using u(1) fl one(1) by (simp add: k_close_def)
  moreover have "set_live (openFiles ?s) = set_live (openFiles s)" by (simp add: set_live_def file_upd_def)
  moreover have "files_only s (?s\<lparr>openFiles := u\<rparr>)" by (simp add: files_only_def file_upd_def)
  moreover have "disk_ok dops s" using rd by (simp add: readable_def)
  ultimately show ?thesis using u(2) by auto
qed

text \<open>
  C2. A program that opens an existing regular file by its path, reads it in pieces of any sizes and closes it gets the words of the
  file in order, from the first on and without a gap, until the end of the file, which \<^verbatim>\<open>k_isEOF\<close> then reports;
  nothing on the disks has changed, no block stays held, and the entry of the open file is free again.
\<close>

theorem file_reads_in_order:
  assumes ok: "disk_ok dops s" "room 2 s" and path: "names_file p d N s"
    and free: "set_inv (openFiles s)" "set_size (openFiles s) < set_capacity (openFiles s)"
    and ns: "\<forall>n \<in> set ns. n < 65536"
  shows "\<exists>fd s1 wss s2 s3. k_open dops (p @ 0 # r) 114 s = Some (Some fd, s1) \<and> read_pieces dops fd ns s1 = Some (wss, s2) \<and>
    k_close fd s2 = Some s3 \<and> concat wss = take (sum_list ns) (file_contents (bview s) d N) \<and>
    (k_isEOF fd s2 \<longleftrightarrow> node_size (bview s d N) \<le> sum_list ns) \<and>
    bview s3 = bview s \<and> pins s3 = pins s \<and> set_live (openFiles s3) = set_live (openFiles s)"
proof -
  obtain fd s1 where o: "k_open dops (p @ 0 # r) 114 s = Some (Some fd, s1)" "readable dops fd d N s1" "f_pos (file_at fd s1) = 0"
    "f_refcnt (file_at fd s1) = 1" "bview s1 = bview s" "pins s1 = pins s" "fd < set_capacity (openFiles s1)"
    "fd \<notin> set_live (openFiles s)" "set_live (openFiles s1) = insert fd (set_live (openFiles s))"
    using k_open_regular [OF ok path free, of r] by blast
  have z: "f_size (file_at fd s1) = node_size (bview s d N)" using o(2,5) by (simp add: readable_def)
  obtain wss s2 where rp: "read_pieces dops fd ns s1 = Some (wss, s2)" "readable dops fd d N s2" "bview s2 = bview s" "pins s2 = pins s"
    "same_slots s1 s2" "concat wss = take (sum_list ns) (file_contents (bview s) d N)"
    "f_pos (file_at fd s2) = min (sum_list ns) (node_size (bview s d N))" "f_size (file_at fd s2) = node_size (bview s d N)"
    "f_refcnt (file_at fd s2) = 1"
    using read_pieces_ok [OF o(2) ns] o(3-6) z by auto
  have sl: "fd < set_capacity (openFiles s2)" "set_live (openFiles s2) = set_live (openFiles s1)"
    using rp(5) o(7) by (simp_all add: same_slots_def set_live_def)
  obtain s3 where c: "k_close fd s2 = Some s3" "bview s3 = bview s2" "pins s3 = pins s2" "set_live (openFiles s3) = set_live (openFiles s2) - {fd}"
    using k_close_last [OF rp(2,9) sl(1)] by blast
  moreover have "k_isEOF fd s2 \<longleftrightarrow> node_size (bview s d N) \<le> sum_list ns" by (auto simp: k_isEOF_def rp(7,8))
  moreover have "set_live (openFiles s3) = set_live (openFiles s)" using c(4) sl(2) o(8,9) by auto
  ultimately show ?thesis using o(1) rp(1,3,4,6) by fastforce
qed

lemma tree_names:
  assumes "im 34 = tree 34" "im 35 = tree 35" "hw_hdd s = disk_words im" "bview s = (\<lambda>d n. trunc (im (unat n)))"
    "mtab s = mtab (power_on h)" "fs_root s = \<lparr>fn_dev = 0, fn_idx = 34\<rparr>" "file_mapped (bview s) 0 36" "bview s 0 36 0 = S_IFREG"
  shows "names_file [47, 97] 0 36 s"
proof -
  have "start_dir [47, 97] s = Some \<lparr>fn_dev = 0, fn_idx = 34\<rparr>" by (simp add: start_dir_def assms(6))
  moreover have "\<not> S_ISCHR (bview s 0 36 0)" "\<not> S_ISBLK (bview s 0 36 0)" "dev_present (hw_hdd s) 0"
    unfolding assms(3,8) by (simp_all add: S_ISCHR_def S_ISBLK_def)
  ultimately show ?thesis
    using tree_walk [of im, OF assms(1,2), folded assms(3,4)] fresh_mounts [OF assms(5)] assms(7) unfolding names_file_def by auto
qed

lemma tree_file:
  "file_contents (bview tree_state) 0 36 = [65, 66, 67]" "node_size (bview tree_state 0 36) = 3"
  "file_mapped (bview tree_state) 0 36" "bview tree_state 0 36 0 = S_IFREG"
proof -
  show z: "node_size (bview tree_state 0 36) = 3" "bview tree_state 0 36 0 = S_IFREG"
    by (simp_all add: tree_state_disk(2) node_size_def trunc_def tree_def long_of_def)
  have "fdata (bview tree_state) 0 36 k = of_nat (65 + k)" if "k < 3" for k
    using that by (simp add: tree_state_disk(2) fdata_def slot_def trunc_def tree_def)
  then have "file_contents (bview tree_state) 0 36 = map (\<lambda>k. of_nat (65 + k)) [0 ..< 3]" by (simp add: file_contents_def z)
  also have "\<dots> = [65, 66, 67]" by (simp add: upt_rec_numeral numeral_3_eq_3)
  finally show "file_contents (bview tree_state) 0 36 = [65, 66, 67]" .
  have "slot (bview tree_state) 0 36 k \<noteq> 0" if "k * 256 < 3" for k
    using that by (simp add: slot_def tree_state_disk(2) trunc_def tree_def)
  then show "file_mapped (bview tree_state) 0 36" by (simp add: file_mapped_def z)
qed

text \<open>The file \<^verbatim>\<open>/a\<close> of the small tree, read in three pieces.\<close>

definition tree_files :: kst where
  "tree_files = tree_state\<lparr>openFiles := set_create_static 8 (openFiles tree_state)\<rparr>"

theorem file_reads_in_order_witness:
  "\<exists>fd s1 wss s2. k_open (\<lambda>_. ataGetDriver) [47, 97, 0] 114 tree_files = Some (Some fd, s1) \<and>
     read_pieces (\<lambda>_. ataGetDriver) fd [2, 5, 1] s1 = Some (wss, s2) \<and> concat wss = [65, 66, 67] \<and> k_isEOF fd s2"
proof -
  have v: "disk_ok (\<lambda>_. ataGetDriver) tree_files" "room 2 tree_files" "bview tree_files = bview tree_state"
    "hw_hdd tree_files = disk_words tree" "mtab tree_files = mtab tree_state" "fs_root tree_files = fs_root tree_state"
    by (simp_all add: tree_files_def tree_state_disk)
  have o: "set_inv (openFiles tree_files)" "set_size (openFiles tree_files) < set_capacity (openFiles tree_files)"
    unfolding tree_files_def by (simp_all add: set_create_inv) (simp add: set_create_static_def set_clear_def)
  have nf: "names_file [47, 97] 0 36 tree_files"
    using tree_names [of tree tree_files] tree_file(3,4) by (simp add: v tree_state_disk(2,5,6))
  show ?thesis
    using file_reads_in_order [OF v(1,2) nf o, of "[2, 5, 1]" "[]"] tree_file(1,2) by (auto simp: v)
qed

section \<open>Writing through an open file\<close>

lemma k_write_ok:
  assumes ok: "disk_ok dops s" "dev_present (hw_hdd s) d" "room 3 s" "direct_file (bview s) d N nb"
    "node_size (bview s d N) \<le> nb * 256" and pos: "f_pos (file_at fd s) \<le> node_size (bview s d N)"
    and n: "n \<le> length buf" "f_pos (file_at fd s) + n < 38400" "(f_pos (file_at fd s) + n) div 256 < nb + nfree (bview s) d"
    and reg: "regular fd d N s"
  shows "\<exists>V' nb' s1. k_write dops fd buf n s = Some (n, file_upd fd (f_pos_update (\<lambda>p. p + n)) s1) \<and>
    fx dops s s1 V' (pins s) (dirty s) \<and> wrote (bview s) V' d N nb nb' (f_pos (file_at fd s)) (take n buf)"
proof -
  let ?p = "f_pos (file_at fd s)"
  from fs_write_fx [OF ok pos n] obtain V' nb' s1 where
    r: "fs_write dops \<lparr>fn_dev = d, fn_idx = N\<rparr> ?p n buf s = Some (n, s1)"
    and f: "fx dops s s1 V' (pins s) (dirty s)" and w: "wrote (bview s) V' d N nb nb' ?p (take n buf)" by blast
  have "off_add ?p n = ?p + n" using n(2) by (simp add: off_add_def)
  then have "file_upd fd (f_pos_update (\<lambda>p. off_add p n)) s1 = file_upd fd (f_pos_update (\<lambda>p. p + n)) s1"
    by (subst file_upd_pos, subst (2) file_upd_pos, simp only: fx_files(1) [OF f])
  then show ?thesis using reg r f w unfolding regular_def by (auto simp: k_write_def Let_def)
qed

text \<open>A read from beyond the size recorded when the file was opened; the request's length plays no part.\<close>

lemma k_read_stale:
  assumes ok: "disk_ok dops s" "dev_present (hw_hdd s) d" "room 2 s" "file_mapped (bview s) d N" and reg: "regular fd d N s"
    and pos: "f_size (file_at fd s) < f_pos (file_at fd s)" "f_pos (file_at fd s) \<le> node_size (bview s d N)"
      "node_size (bview s d N) \<le> f_size (file_at fd s) + 65536" and n: "n < 65536"
  shows "\<exists>s1. k_read dops fd n s = Some (drop (f_pos (file_at fd s)) (file_contents (bview s) d N), s1)"
proof -
  let ?p = "f_pos (file_at fd s)" and ?z = "f_size (file_at fd s)"
  define m where "m = (?z + 4294967296 - ?p) mod 65536"
  have zl: "node_size (bview s d N) \<le> MAX_OFFSET" using ok(4) by (simp add: file_mapped_def)
  have "?z + 4294967296 - ?p = (?z + 65536 - ?p) + 65535 * 65536" using pos by simp
  then have "m = (?z + 65536 - ?p) mod 65536" unfolding m_def by presburger
  also have "\<dots> = ?z + 65536 - ?p" by (rule mod_less) (use pos in linarith)
  finally have m: "m = ?z + 65536 - ?p" .
  have mb: "m < 65536" by (simp add: m_def)
  have e: "min m (node_size (bview s d N) - ?p) = node_size (bview s d N) - ?p" using pos unfolding m by linarith
  have rm: "room (Suc (Suc 0)) s" using ok(3) by (simp add: numeral_2_eq_2)
  obtain s1 where r: "fs_read dops \<lparr>fn_dev = d, fn_idx = N\<rparr> ?p m s = Some (map (fdata (bview s) d N) [?p ..< ?p + (node_size (bview s d N) - ?p)], s1)"
    using fs_read_fx [OF ok(1,2) rm ok(4) mb pos(2)] unfolding e by blast
  have "map (fdata (bview s) d N) [?p ..< ?p + (node_size (bview s d N) - ?p)] = drop ?p (file_contents (bview s) d N)"
    using pos(2) by (simp add: file_contents_def drop_map)
  moreover have "off_add n ?p > ?z" using pos n zl by (simp add: off_add_def)
  ultimately show ?thesis using reg r unfolding regular_def m_def by (simp add: k_read_def Let_def)
qed

text \<open>
  C35. A \<^verbatim>\<open>FILE\<close> keeps the size its file had when it was opened.  After writing words to a new file and one
  more at its start, a read of one word finds the position beyond that size, the subtraction wraps, and
  \<^verbatim>\<open>k_read\<close> stores all the rest of the file into a buffer meant for one word.
\<close>

theorem stale_size_overruns:
  assumes "disk_ok dops s" "dev_present (hw_hdd s) d" "room 3 s" "direct_file (bview s) d N nb" "node_size (bview s d N) = 0"
    and "length xs < 38400" "xs \<noteq> []" "length xs div 256 < nb + nfree (bview s) d"
    and "regular fd d N s" "f_size (file_at fd s) = 0" "f_pos (file_at fd s) = 0"
  shows "\<exists>s1 s2 s3. k_write dops fd xs (length xs) s = Some (length xs, s1) \<and>
    k_write dops fd [c] 1 (k_seek fd 0 s1) = Some (1, s2) \<and> k_read dops fd 1 s2 = Some (tl xs, s3)"
proof -
  let ?n = "length xs"
  obtain V1 nb1 t1 where w1: "k_write dops fd xs ?n s = Some (?n, file_upd fd (f_pos_update (\<lambda>p. p + ?n)) t1)"
    "fx dops s t1 V1 (pins s) (dirty s)" "wrote (bview s) V1 d N nb nb1 0 xs"
    using k_write_ok [OF assms(1-4), of fd ?n xs] assms(5-11) by auto
  note e1 = fxD [OF w1(2)] and f1 = fx_files [OF w1(2)]
  have wl: "0 + length xs < 4294967296" using assms(6) by simp
  have V1: "node_size (V1 d N) = ?n" "file_contents V1 d N = xs" "node_size (V1 d N) \<le> nb1 * 256" "direct_file V1 d N nb1"
    using wrote_size [OF w1(3) wl] wrote_contents [OF w1(3) wl] wrote_bound [OF w1(3) wl] wrote_direct [OF w1(3)] assms(5)
    by (simp_all add: file_contents_def write_at_def)
  define u where "u = k_seek fd 0 (file_upd fd (f_pos_update (\<lambda>p. p + ?n)) t1)"
  have u: "disk_ok dops u" "bview u = V1" "pins u = pins s" "file_at fd u = (file_at fd s)\<lparr>f_pos := 0\<rparr>" "hw_hdd u = hw_hdd t1"
    "room 3 u"
    using e1(1-3) f1(1) assms(3) room_cong [OF e1(3), of 3] by (simp_all add: u_def k_seek_def)
  have dp: "dev_present (hw_hdd u) d" using assms(2) dev_present_fx [OF w1(2)] u(5) by simp
  have ru: "regular fd d N u" using assms(9) unfolding regular_def u(4) by simp
  have "1 div 256 < nb1 + nfree (bview u) d" using wrote_direct [OF w1(3)] V1(1,3) assms(7) by (cases nb1) auto
  then obtain V2 nb2 t2 where w2: "k_write dops fd [c] 1 u = Some (1, file_upd fd (f_pos_update (\<lambda>p. p + 1)) t2)"
    "fx dops u t2 V2 (pins u) (dirty u)" "wrote V1 V2 d N nb1 nb2 0 [c]"
    using k_write_ok [OF u(1) dp u(6), of N nb1 fd 1 "[c]"] V1 ru unfolding u(2,4) by auto
  note e2 = fxD [OF w2(2)] and f2 = fx_files [OF w2(2)]
  have V2: "node_size (V2 d N) = ?n" "file_contents V2 d N = c # tl xs" "node_size (V2 d N) \<le> nb2 * 256" "direct_file V2 d N nb2"
    using wrote_size [OF w2(3)] wrote_contents [OF w2(3)] wrote_bound [OF w2(3)] wrote_direct [OF w2(3)] V1 assms(7)
    by (simp_all add: write_at_def drop_Suc, cases xs, simp_all)
  let ?v = "file_upd fd (f_pos_update (\<lambda>p. p + 1)) t2"
  have "\<exists>s3. k_read dops fd 1 ?v = Some (drop (f_pos (file_at fd ?v)) (file_contents (bview ?v) d N), s3)"
  proof (rule k_read_stale)
    show "disk_ok dops ?v" using e2(1) by simp
    show "dev_present (hw_hdd ?v) d" using dp dev_present_fx [OF w2(2)] by simp
    show "room 2 ?v" using room_mono [OF u(6), of 2] room_cong [OF e2(3)] by simp
    show "file_mapped (bview ?v) d N" using direct_mapped [OF V2(4,3)] e2(2) by simp
    show "regular fd d N ?v" using ru f2(1) by (simp add: regular_def)
  qed (use f2(1) u(4) V2(1) e2(2) assms(6,7,10) in \<open>auto simp: Suc_le_eq\<close>)
  then show ?thesis using w1(1) w2(1) f2(1) u(4) e2(2) V2(2) unfolding u_def by (auto simp: drop_Suc)
qed

text \<open>An open file on the empty node 35 of the small disk image.\<close>

definition new_file :: kst where
  "new_file = (power_on (disk_words image))\<lparr>openFiles := \<lparr>set_capacity = 8, set_size = 1, set_used = (\<lambda>i. i = 0), set_el = (\<lambda>_.
     \<lparr>f_mode = 1, f_node = \<lparr>fn_dev = 0, fn_idx = 35\<rparr>, f_size = 0, f_pos = 0, f_device = 0, f_flags = S_IFREG, f_refcnt = 1\<rparr>)\<rparr>\<rparr>"

theorem stale_size_overruns_witness:
  "\<exists>s1 s2 s3. k_write (\<lambda>_. ataGetDriver) 0 [1, 2, 3, 4] 4 new_file = Some (4, s1) \<and>
    k_write (\<lambda>_. ataGetDriver) 0 [9] 1 (k_seek 0 0 s1) = Some (1, s2) \<and> k_read (\<lambda>_. ataGetDriver) 0 1 s2 = Some ([2, 3, 4], s3)"
proof -
  have hd: "hw_hdd new_file = disk_words image" by (simp add: new_file_def power_on_def Let_def)
  have same: "blockCache new_file = blockCache (power_on (disk_words image))" "blkdrivers new_file = blkdrivers (power_on (disk_words image))"
    by (simp_all add: new_file_def)
  note f = fresh_disk [OF hd same]
  have v: "bview new_file = bview imaged" by (simp add: f(2) fun_eq_iff)
  have z: "node_size (bview new_file 0 35) = 0" unfolding v by (rule image_size)
  have d: "direct_file (bview new_file) 0 35 0" "4 div 256 < 0 + nfree (bview new_file) 0"
    unfolding v using image_direct(2) [of 0] image_nfree [of 0] by simp_all
  have r: "regular 0 0 35 new_file" "f_size (file_at 0 new_file) = 0" "f_pos (file_at 0 new_file) = 0"
    by (simp_all add: regular_def file_at_def new_file_def S_ISCHR_def S_ISBLK_def)
  have rm: "room 3 new_file" by (rule f(4)) simp
  have dp: "dev_present (hw_hdd new_file) 0" unfolding hd by simp
  have l: "length [1, 2, 3, 4 :: u16] = 4" by simp
  show ?thesis
    by (rule stale_size_overruns [OF f(1) dp rm d(1) z _ _ _ r, of "[1, 2, 3, 4]" 9, unfolded l list.sel]) (use d(2) in simp_all)
qed

end
