(* ===== verification/Memory.thy ===== *)
theory Memory
  imports Mm
begin

text \<open>
  Properties of memory management: the page table entries as a map from selector, page and kind, the
  user memory of a process as a function of addresses (\<open>umem\<close>) that the copy routines read and write,
  and copy on write.
\<close>

section \<open>Page table entries\<close>

text \<open>The cell of the hardware table behind a port.\<close>

definition pte :: "u16 \<Rightarrow> u16 \<Rightarrow> u16 \<Rightarrow> nat" where
  "pte sel pageno s_code = mmu_index (mmu_port sel pageno s_code)"

lemma bit_ff: "bit (0xff :: u16) n \<longleftrightarrow> n < 8"
  unfolding byte_masks by (simp only: bit_mask_iff possible_bit_word) auto

lemma bit_port: "n < 16 \<Longrightarrow> bit (mmu_port sel pageno s_code) n \<longleftrightarrow>
   8 \<le> n \<and> bit sel (n - 8) \<or> 12 \<le> n \<and> bit s_code (n - 12) \<or> n < 8 \<and> bit pageno n \<or> n = 14"
proof -
  assume n: "n < 16"
  then have n': "n < LENGTH(16)" by simp
  have e: "(push_bit 14 1 :: u16) = 2 ^ 14" by simp
  have "bit (push_bit 8 sel OR push_bit 12 s_code OR (pageno AND 0xff) OR push_bit 14 1 :: u16) n \<longleftrightarrow>
   8 \<le> n \<and> bit sel (n - 8) \<or> 12 \<le> n \<and> bit s_code (n - 12) \<or> n < 8 \<and> bit pageno n \<or> n = 14"
    using n n' by (auto simp only: bit_or_iff bit_and_iff bit_push_bit_iff bit_ff e bit_exp_iff possible_bit_word)
  then show ?thesis by (simp only: mmu_port_def bit_unsigned_iff possible_bit_def)
     (use n in simp)
qed

lemma port_14: "bit (mmu_port sel pageno s_code) 14"
  by (simp add: bit_port)

lemma io_range_mmu: "bit a 14 \<Longrightarrow> 512 \<le> getIoRange a"
proof (rule ccontr)
  assume b: "bit a 14" and "\<not> 512 \<le> getIoRange a"
  then have "getIoRange a < 2 ^ 9" by simp
  then have "take_bit 9 (getIoRange a) = getIoRange a" by (simp add: take_bit_nat_eq_self_iff)
  then have "\<not> bit (getIoRange a) 9" by (metis bit_take_bit_iff less_irrefl)
  moreover have "bit (0x40e0 :: nat) 14" by (simp add: bit_iff_odd)
  ultimately show False using b by (simp add: getIoRange_def bit_drop_bit_eq bit_and_iff)
qed

lemma outb_mmu: "outb (mmu_port sel pageno s_code) v s = s\<lparr>hw_mmu := (hw_mmu s)(pte sel pageno s_code := v)\<rparr>"
  using io_range_mmu [OF port_14, of sel pageno s_code] port_14 [of sel pageno s_code]
  by (simp add: outb_def pte_def)

lemma inb_mmu: "inb (mmu_port sel pageno s_code) s = (hw_mmu s (pte sel pageno s_code), s)"
  using io_range_mmu [OF port_14, of sel pageno s_code] port_14 [of sel pageno s_code]
  by (simp add: inb_def pte_def)

lemmas mmu_table_defs = mmu_write_table_def mmu_write_table_flags_def mmu_read_table_def mmu_read_table_flags_def

lemma mmu_tables:
  "mmu_write_table sel pageno c e s = s\<lparr>hw_mmu := (hw_mmu s)(pte sel pageno c := e)\<rparr>"
  "mmu_write_table_flags sel pageno c f s = s\<lparr>hw_mmu := (hw_mmu s)(pte sel pageno c :=
     hw_mmu s (pte sel pageno c) AND MMU_TABLE_NO_FLAGS_MASK OR push_bit 13 f)\<rparr>"
  "mmu_read_table sel pageno c s = hw_mmu s (pte sel pageno c) AND MMU_TABLE_NO_FLAGS_MASK"
  "mmu_read_table_flags sel pageno c s = drop_bit 13 (hw_mmu s (pte sel pageno c) AND MMU_TABLE_FLAGS_MASK)"
  by (simp_all add: mmu_table_defs outb_mmu inb_mmu)

text \<open>The entries of the selectors below 16 do not overlap.\<close>

definition entry_ix :: "u16 \<Rightarrow> u16 \<Rightarrow> u16 \<Rightarrow> bool" where
  "entry_ix sel pageno c \<longleftrightarrow> unat sel < 16 \<and> unat pageno < 256 \<and> unat c < 2"

lemma bit_pte: "n < 14 \<Longrightarrow> bit (pte sel pageno c) n \<longleftrightarrow>
   8 \<le> n \<and> bit sel (n - 8) \<or> 12 \<le> n \<and> bit c (n - 12) \<or> n < 8 \<and> bit pageno n"
proof -
  assume n: "n < 14"
  have e: "16384 = (2 :: nat) ^ 14" by simp
  have "pte sel pageno c = take_bit 14 (mmu_port sel pageno c)"
    unfolding pte_def mmu_index_def take_bit_eq_mod e ..
  then show ?thesis using n bit_port [of n sel pageno c] by (simp add: bit_take_bit_iff)
qed

lemma high_bits: "unat (w :: u16) < 2 ^ k \<Longrightarrow> k \<le> n \<Longrightarrow> \<not> bit w n"
proof
  assume w: "unat w < 2 ^ k" "k \<le> n" and b: "bit w n"
  have "take_bit k (unat w) = unat w" using w(1) by (simp add: take_bit_nat_eq_self_iff)
  moreover have "bit (unat w) n" using b by (simp add: bit_unsigned_iff)
  ultimately show False using w(2) by (metis bit_take_bit_iff not_le)
qed

lemma word_eq_low: "unat (v :: u16) < 2 ^ k \<Longrightarrow> unat w < 2 ^ k \<Longrightarrow> (\<And>n. n < k \<Longrightarrow> bit v n = bit w n) \<Longrightarrow> v = w"
  using high_bits [of v k] high_bits [of w k] by (intro bit_word_eqI) (metis not_le)

lemma pte_inj:
  assumes "entry_ix sel pageno c" "entry_ix sel' pageno' c'"
  shows "pte sel pageno c = pte sel' pageno' c' \<longleftrightarrow> sel = sel' \<and> pageno = pageno' \<and> c = c'"
proof
  assume e: "pte sel pageno c = pte sel' pageno' c'"
  have k: "unat sel < 2 ^ 4" "unat sel' < 2 ^ 4" "unat pageno < 2 ^ 8" "unat pageno' < 2 ^ 8"
    "unat c < 2 ^ 1" "unat c' < 2 ^ 1" using assms by (simp_all add: entry_ix_def)
  have b: "8 \<le> n \<and> bit sel (n - 8) \<or> 12 \<le> n \<and> bit c (n - 12) \<or> n < 8 \<and> bit pageno n \<longleftrightarrow>
      8 \<le> n \<and> bit sel' (n - 8) \<or> 12 \<le> n \<and> bit c' (n - 12) \<or> n < 8 \<and> bit pageno' n" if "n < 14" for n
    using bit_pte [OF that] e by metis
  have "sel = sel'"
  proof (rule word_eq_low [OF k(1,2)])
    show "bit sel n = bit sel' n" if "n < 4" for n using b [of "n + 8"] that by simp
  qed
  moreover have "pageno = pageno'"
  proof (rule word_eq_low [OF k(3,4)])
    show "bit pageno n = bit pageno' n" if "n < 8" for n using b [of n] that by simp
  qed
  moreover have "c = c'"
  proof (rule word_eq_low [OF k(5,6)])
    show "bit c n = bit c' n" if "n < 1" for n
      using b [of 12] that high_bits [OF k(1), of 4] high_bits [OF k(2), of 4] by simp
  qed
  ultimately show "sel = sel' \<and> pageno = pageno' \<and> c = c'" by blast
qed simp

lemma flag_masks: "(0x1fff :: u16) = mask 13" "(0xe000 :: u16) = push_bit 13 (mask 3)" "(7 :: u16) = mask 3"
  by (simp_all add: mask_eq_exp_minus_1)

lemma table_entry_parts:
  "(e AND MMU_TABLE_NO_FLAGS_MASK OR push_bit 13 f) AND MMU_TABLE_NO_FLAGS_MASK = (e :: u16) AND MMU_TABLE_NO_FLAGS_MASK"
  "drop_bit 13 ((e AND MMU_TABLE_NO_FLAGS_MASK OR push_bit 13 f) AND MMU_TABLE_FLAGS_MASK) = f AND 7"
  "drop_bit 13 (push_bit 13 f) AND 7 = f AND 7"
  unfolding flag_masks by (rule bit_word_eqI, auto simp: bit_simps)+

text \<open>
  C25. For the selectors below 16 the page tables are a map: a written entry is read back without its
  flags, setting the flags keeps the frame and gives those flags, and neither changes any other entry.
\<close>

theorem page_table_roundtrip:
  assumes "entry_ix sel pageno c" "entry_ix sel' pageno' c'" "(sel', pageno', c') \<noteq> (sel, pageno, c)"
  shows "mmu_read_table sel pageno c (mmu_write_table sel pageno c e s) = e AND MMU_TABLE_NO_FLAGS_MASK \<and>
    mmu_read_table sel pageno c (mmu_write_table_flags sel pageno c f s) = mmu_read_table sel pageno c s \<and>
    mmu_read_table_flags sel pageno c (mmu_write_table_flags sel pageno c f s) = f AND 7 \<and>
    mmu_read_table sel' pageno' c' (mmu_write_table sel pageno c e s) = mmu_read_table sel' pageno' c' s \<and>
    mmu_read_table_flags sel' pageno' c' (mmu_write_table_flags sel pageno c f s) = mmu_read_table_flags sel' pageno' c' s"
proof -
  have "pte sel' pageno' c' \<noteq> pte sel pageno c" using assms(3) pte_inj [OF assms(2,1)] by auto
  then show ?thesis
    unfolding mmu_tables by (simp add: table_entry_parts)
qed

theorem page_table_roundtrip_witness:
  "mmu_read_table 3 7 0 (mmu_write_table 3 7 0 0x2005 (power_on (\<lambda>_. undefined))) = 5 \<and>
   mmu_read_table 4 7 0 (mmu_write_table 3 7 0 0x2005 (power_on (\<lambda>_. undefined))) = 0"
  using page_table_roundtrip [of 3 7 0 4 7 0, where e = "0x2005" and s = "power_on (\<lambda>_. undefined)"]
  by (simp add: entry_ix_def mmu_tables)

section \<open>The memory of a process\<close>

definition umem :: "nat \<Rightarrow> kst \<Rightarrow> u16 \<Rightarrow> u16" where
  "umem p s a = hw_ram s (unat (getPage p a s)) (page_offset a)"

text \<open>A process with its own selector, whose sixteen data pages are writable and distinct.\<close>

definition user_space :: "nat \<Rightarrow> kst \<Rightarrow> bool" where
  "user_space p s \<longleftrightarrow> (let sel = p_mmuSelector (procs s p) in 0 < unat sel \<and> unat sel < 16 \<and>
     (\<forall>pg. unat pg < 16 \<longrightarrow> mmu_read_table_flags sel pg 0 s = 0) \<and>
     (\<forall>pg pg'. unat pg < 16 \<and> unat pg' < 16 \<and> mmu_read_table sel pg 0 s = mmu_read_table sel pg' 0 s \<longrightarrow> pg = pg'))"

definition win_upd :: "u16 \<Rightarrow> kst \<Rightarrow> kst" where
  "win_upd v s = s\<lparr>hw_mmu := (hw_mmu s)(pte 0 14 0 := v)\<rparr>"

lemma win_upd_simps [simp]:
  "procs (win_upd v s) = procs s" "hw_ram (win_upd v s) = hw_ram s" "cProc (win_upd v s) = cProc s"
  "pageMap (win_upd v s) = pageMap s" "win_upd v (win_upd w s) = win_upd v s"
  by (simp_all add: win_upd_def)

lemma addr_page: "unat (drop_bit 12 (a :: u16)) < 16"
proof -
  have "unat a div 4096 < 16" using unat_u16_less [of a] by (simp add: div_less_iff_less_mult)
  then show ?thesis by (simp add: drop_bit_eq_div unat_div_distrib)
qed

lemma entry_data: "unat sel < 16 \<Longrightarrow> unat pg < 16 \<Longrightarrow> entry_ix sel pg 0"
  by (simp add: entry_ix_def)

lemma pte_window: "unat sel < 16 \<Longrightarrow> 0 < unat sel \<Longrightarrow> unat pg < 16 \<Longrightarrow> pte sel pg 0 \<noteq> pte 0 14 0"
  using pte_inj [of sel pg 0 0 14 0] by (auto simp: entry_ix_def)

lemma win_upd_read:
  assumes "0 < unat sel" "unat sel < 16" "unat pg < 16"
  shows "mmu_read_table sel pg 0 (win_upd v s) = mmu_read_table sel pg 0 s"
    "mmu_read_table_flags sel pg 0 (win_upd v s) = mmu_read_table_flags sel pg 0 s"
  using pte_window [OF assms(2,1,3)] by (simp_all add: mmu_tables win_upd_def)

lemma user_space_win [simp]: "user_space p (win_upd v s) = user_space p s"
proof -
  let ?sel = "p_mmuSelector (procs s p)"
  show ?thesis
  proof (cases "0 < unat ?sel \<and> unat ?sel < 16")
    case True
    then have t: "mmu_read_table ?sel pg 0 (win_upd v s) = mmu_read_table ?sel pg 0 s"
      "mmu_read_table_flags ?sel pg 0 (win_upd v s) = mmu_read_table_flags ?sel pg 0 s" if "unat pg < 16" for pg
      using that win_upd_read by blast+
    have "(\<forall>pg. unat pg < 16 \<longrightarrow> mmu_read_table_flags ?sel pg 0 (win_upd v s) = 0) =
        (\<forall>pg. unat pg < 16 \<longrightarrow> mmu_read_table_flags ?sel pg 0 s = 0)" by (simp add: t(2))
    moreover have "(\<forall>pg pg'. unat pg < 16 \<and> unat pg' < 16 \<and>
          mmu_read_table ?sel pg 0 (win_upd v s) = mmu_read_table ?sel pg' 0 (win_upd v s) \<longrightarrow> pg = pg') =
        (\<forall>pg pg'. unat pg < 16 \<and> unat pg' < 16 \<and> mmu_read_table ?sel pg 0 s = mmu_read_table ?sel pg' 0 s \<longrightarrow> pg = pg')"
      by (simp add: t(1) cong: conj_cong)
    ultimately show ?thesis unfolding user_space_def Let_def win_upd_simps by (simp only:)
  next
    case False
    then show ?thesis unfolding user_space_def Let_def win_upd_simps by blast
  qed
qed

lemma getPage_win [simp]: "user_space p s \<Longrightarrow> getPage p a (win_upd v s) = getPage p a s"
  by (simp add: getPage_def user_space_def Let_def win_upd_read addr_page)

lemma umem_win [simp]: "user_space p s \<Longrightarrow> umem p (win_upd v s) a = umem p s a"
  by (simp add: umem_def)

lemma frame_of_win: "frame_of 14 (win_upd v s) = unat (v AND MMU_TABLE_NO_FLAGS_MASK)"
  by (simp add: frame_of_def mmu_tables win_upd_def)

lemma getPage_mask [simp]: "getPage p a s AND MMU_TABLE_NO_FLAGS_MASK = getPage p a s"
  by (simp add: getPage_def mmu_tables)

lemma map_user_plain:
  assumes "user_space p s"
  shows "map_user p a 0 14 wr s = Some (win_upd (getPage p a s) s)"
proof -
  have "mmu_read_table_flags (p_mmuSelector (procs s p)) (drop_bit 12 a) 0 s = 0"
    using assms addr_page [of a] by (simp add: user_space_def Let_def)
  then have "check_and_fix_page p (drop_bit 12 a) 0 wr s = Some (False, s)"
    by (simp add: check_and_fix_page_def Let_def)
  then show ?thesis by (simp add: map_user_def mmu_tables win_upd_def)
qed

lemma addr_eqI: "drop_bit 12 (a :: u16) = drop_bit 12 b \<Longrightarrow> page_offset a = page_offset b \<Longrightarrow> a = b"
proof (rule bit_word_eqI)
  fix n assume d: "drop_bit 12 a = drop_bit 12 b" and o: "page_offset a = page_offset b" and "n < LENGTH(16)"
  have m: "(0xfff :: u16) = mask 12" by (simp add: mask_eq_exp_minus_1)
  have "a AND 0xfff = b AND 0xfff" using o unfolding page_offset_def by (simp only: word_unat_eq_iff)
  then have lo: "bit (a AND 0xfff) n = bit (b AND 0xfff) n" by simp
  show "bit a n = bit b n"
  proof (cases "n < 12")
    case True
    then show ?thesis using lo \<open>n < LENGTH(16)\<close> unfolding m by (simp only: bit_and_iff bit_mask_iff possible_bit_word) simp
  next
    case False
    then have "bit a (12 + (n - 12)) = bit b (12 + (n - 12))"
      using d unfolding bit_drop_bit_eq [unfolded comp_def, symmetric] by (metis bit_drop_bit_eq comp_apply)
    then show ?thesis using False by simp
  qed
qed

section \<open>Reading and writing user memory\<close>

lemma user_space_inj:
  assumes "user_space p s" "getPage p a s = getPage p b s"
  shows "drop_bit 12 a = drop_bit 12 b"
  using assms addr_page [of a] addr_page [of b] unfolding user_space_def Let_def getPage_def by blast

text \<open>The current position of the window: the frame it shows is that of the page last mapped.\<close>

lemma win_get_mapped: "frame_of 14 s = unat (getPage p a s) \<Longrightarrow> win_get 14 (page_offset a) s = umem p s a"
  by (simp add: win_get_def umem_def)

lemma ram_upd_simps [simp]:
  "procs (ram_upd fr f s) = procs s" "hw_mmu (ram_upd fr f s) = hw_mmu s" "getPage p a (ram_upd fr f s) = getPage p a s"
  "frame_of w (ram_upd fr f s) = frame_of w s" "user_space p (ram_upd fr f s) = user_space p s"
  "hw_ram (ram_upd fr f s) = (hw_ram s)(fr := f (hw_ram s fr))"
  by (simp_all add: ram_upd_def getPage_def frame_of_def mmu_tables user_space_def)

lemma win_put_mapped:
  assumes us: "user_space p s" and fr: "frame_of 14 s = unat (getPage p a s)"
  shows "umem p (win_put 14 (page_offset a) v s) = (umem p s)(a := v)"
proof
  fix b
  show "umem p (win_put 14 (page_offset a) v s) b = ((umem p s)(a := v)) b"
  proof (cases "getPage p b s = getPage p a s")
    case True
    then have "page_offset b = page_offset a \<longleftrightarrow> b = a" using user_space_inj [OF us True] addr_eqI [of b a] by blast
    then show ?thesis using True fr by (simp add: win_put_def umem_def)
  next
    case False
    then have "b \<noteq> a" by blast
    moreover have "unat (getPage p b s) \<noteq> unat (getPage p a s)" using False by (simp add: word_unat_eq_iff)
    ultimately show ?thesis using fr by (simp add: win_put_def umem_def)
  qed
qed

text \<open>
  \<open>viewed p s s'\<close>: the two states agree except for the window and the words of the frames of \<open>p\<close>.
\<close>

definition viewed :: "nat \<Rightarrow> kst \<Rightarrow> kst \<Rightarrow> bool" where
  "viewed p s s' \<longleftrightarrow> s' = s\<lparr>hw_mmu := (hw_mmu s)(pte 0 14 0 := hw_mmu s' (pte 0 14 0)), hw_ram := hw_ram s'\<rparr> \<and>
     (\<forall>fr. (\<forall>a. fr \<noteq> unat (getPage p a s)) \<longrightarrow> hw_ram s' fr = hw_ram s fr)"

lemma viewed_refl: "viewed p s s"
  by (simp add: viewed_def)

lemma viewed_win: "viewed p s (win_upd v s)"
  by (simp add: viewed_def win_upd_def)

lemma viewed_getPage:
  assumes "viewed p s s'" "user_space p s"
  shows "user_space p s'" "getPage p a s' = getPage p a s"
proof -
  have "s' = ram_set (win_upd (hw_mmu s' (pte 0 14 0)) s)" if "ram_set = (\<lambda>t. t\<lparr>hw_ram := hw_ram s'\<rparr>)" for ram_set
    using assms(1) that by (simp add: viewed_def win_upd_def)
  then have e: "s' = (win_upd (hw_mmu s' (pte 0 14 0)) s)\<lparr>hw_ram := hw_ram s'\<rparr>" by blast
  have r: "getPage p a (t\<lparr>hw_ram := m\<rparr>) = getPage p a t" "user_space p (t\<lparr>hw_ram := m\<rparr>) = user_space p t" for t m
    by (simp_all add: getPage_def mmu_tables user_space_def)
  show "user_space p s'" by (subst e) (simp add: r assms(2))
  show "getPage p a s' = getPage p a s" by (subst e) (simp add: r assms(2))
qed

lemma viewed_trans:
  assumes "viewed p s t" "viewed p t u" "user_space p s"
  shows "viewed p s u"
proof -
  have t: "t = s\<lparr>hw_mmu := (hw_mmu s)(pte 0 14 0 := hw_mmu t (pte 0 14 0)), hw_ram := hw_ram t\<rparr>"
    using assms(1) unfolding viewed_def by blast
  have u: "u = t\<lparr>hw_mmu := (hw_mmu t)(pte 0 14 0 := hw_mmu u (pte 0 14 0)), hw_ram := hw_ram u\<rparr>"
    using assms(2) unfolding viewed_def by blast
  have m: "hw_mmu t = (hw_mmu s)(pte 0 14 0 := hw_mmu t (pte 0 14 0))" by (subst t) simp
  have "u = s\<lparr>hw_mmu := (hw_mmu t)(pte 0 14 0 := hw_mmu u (pte 0 14 0)), hw_ram := hw_ram u\<rparr>"
    by (subst u, subst (1) t) simp
  then have "u = s\<lparr>hw_mmu := (hw_mmu s)(pte 0 14 0 := hw_mmu u (pte 0 14 0)), hw_ram := hw_ram u\<rparr>"
    by (subst (asm) m) simp
  moreover have "hw_ram u fr = hw_ram s fr" if "\<forall>a. fr \<noteq> unat (getPage p a s)" for fr
    using assms that viewed_getPage(2) [OF assms(1,3)] unfolding viewed_def by metis
  ultimately show ?thesis unfolding viewed_def by blast
qed

lemma viewed_put:
  assumes "frame_of 14 s = unat (getPage p a s)"
  shows "viewed p s (win_put 14 (page_offset a) v s)"
  using assms unfolding viewed_def win_put_def by (auto simp: ram_upd_def)

text \<open>One position of the loops: the window shows the page of the address before the word is accessed.\<close>

lemma loop_page:
  assumes us: "user_space p s" and pg: "drop_bit 12 addr \<noteq> pageno_u \<or> frame_of 14 s = unat (getPage p addr s)"
  obtains s1 where "(if drop_bit 12 addr \<noteq> pageno_u then map_user p addr 0 14 wr s else Some s) = Some s1"
    "viewed p s s1" "hw_ram s1 = hw_ram s" "frame_of 14 s1 = unat (getPage p addr s)"
proof (cases "drop_bit 12 addr \<noteq> pageno_u")
  case True
  then show thesis
    using that [of "win_upd (getPage p addr s) s"] map_user_plain [OF us] viewed_win by (simp add: frame_of_win)
next
  case False
  then show thesis using that [of s] pg viewed_refl by simp
qed

lemma next_page: "frame_of 14 s = unat (getPage p addr s) \<Longrightarrow>
    drop_bit 12 (addr + 1) \<noteq> drop_bit 12 addr \<or> frame_of 14 s = unat (getPage p (addr + 1) s)"
  by (auto simp: getPage_def)

lemma umem_viewed: "viewed p s s1 \<Longrightarrow> user_space p s \<Longrightarrow> hw_ram s1 = hw_ram s \<Longrightarrow> umem p s1 = umem p s"
  by (auto simp: umem_def viewed_getPage)

text \<open>The words from an address on; the specification of the zero-terminated copy stops behind the first zero.\<close>

definition uwords :: "nat \<Rightarrow> kst \<Rightarrow> u16 \<Rightarrow> nat \<Rightarrow> u16 list" where
  "uwords p s addr n = map (\<lambda>i. umem p s (addr + of_nat i)) [0 ..< n]"

fun upto_zero :: "u16 list \<Rightarrow> u16 list" where
  "upto_zero [] = []"
| "upto_zero (c # cs) = (if c = 0 then [c] else c # upto_zero cs)"

lemma uwords_Suc: "uwords p s addr (Suc n) = umem p s addr # uwords p s (addr + 1) n"
  by (simp add: uwords_def upt_conv_Cons map_Suc_upt [symmetric] add.commute add.left_commute del: upt_Suc)

lemma uwords_cong: "umem p s' = umem p s \<Longrightarrow> uwords p s' addr n = uwords p s addr n"
  by (simp add: uwords_def)

lemma ugets_loop_ok:
  assumes "user_space p s" "drop_bit 12 addr \<noteq> pageno_u \<or> frame_of 14 s = unat (getPage p addr s)"
  shows "\<exists>s'. ugets_loop p 0 14 z n addr pageno_u s =
      Some (if z then upto_zero (uwords p s addr n) else uwords p s addr n, s') \<and>
    viewed p s s' \<and> hw_ram s' = hw_ram s"
  using assms
proof (induction n arbitrary: addr pageno_u s)
  case 0
  then show ?case using viewed_refl by (auto simp: uwords_def)
next
  case (Suc n)
  obtain s1 where s1: "(if drop_bit 12 addr \<noteq> pageno_u then map_user p addr 0 14 False s else Some s) = Some s1"
    "viewed p s s1" "hw_ram s1 = hw_ram s" "frame_of 14 s1 = unat (getPage p addr s)"
    using loop_page [OF Suc.prems] by metis
  note v = viewed_getPage [OF s1(2) Suc.prems(1)] and m = umem_viewed [OF s1(2) Suc.prems(1) s1(3)]
  have f: "frame_of 14 s1 = unat (getPage p addr s1)" using s1(4) v(2) by simp
  have c: "win_get 14 (page_offset addr) s1 = umem p s addr" using win_get_mapped [OF f] m by simp
  from Suc.IH [OF v(1) next_page [OF f]] obtain s' where
    r: "ugets_loop p 0 14 z n (addr + 1) (drop_bit 12 addr) s1 =
      Some (if z then upto_zero (uwords p s (addr + 1) n) else uwords p s (addr + 1) n, s')"
    "viewed p s1 s'" "hw_ram s' = hw_ram s1" using uwords_cong [OF m] by auto
  have "viewed p s s'" using viewed_trans [OF s1(2) r(2) Suc.prems(1)] .
  with s1 r c show ?case by (auto simp: uwords_Suc)
qed

lemma ugets_ok:
  assumes "user_space p s"
  shows "\<exists>s'. ugets p addr 0 14 n z s =
      Some (if z then upto_zero (uwords p s addr n) else uwords p s addr n, s') \<and>
    viewed p s s' \<and> hw_ram s' = hw_ram s"
proof -
  have "drop_bit 12 addr \<noteq> (0xffff :: u16)" using addr_page [of addr] by auto
  then show ?thesis using ugets_loop_ok [OF assms, of addr "0xffff" z n] by (simp add: ugets_def)
qed

text \<open>The memory with a sequence of words stored from an address on.\<close>

primrec uput :: "u16 list \<Rightarrow> u16 \<Rightarrow> (u16 \<Rightarrow> u16) \<Rightarrow> u16 \<Rightarrow> u16" where
  "uput [] addr f = f"
| "uput (c # cs) addr f = uput cs (addr + 1) (f(addr := c))"

lemma uputs_loop_ok:
  assumes "user_space p s" "drop_bit 12 addr \<noteq> pageno_u \<or> frame_of 14 s = unat (getPage p addr s)" "n \<le> length ws"
  shows "\<exists>s'. uputs_loop p 0 14 z n addr pageno_u ws s =
      Some (length (if z then upto_zero (take n ws) else take n ws), s') \<and> viewed p s s' \<and>
    umem p s' = uput (if z then upto_zero (take n ws) else take n ws) addr (umem p s)"
  using assms
proof (induction n arbitrary: addr pageno_u ws s)
  case 0
  then show ?case using viewed_refl by auto
next
  case (Suc n)
  obtain c cs where ws: "ws = c # cs" "n \<le> length cs" using Suc.prems(3) by (cases ws) auto
  obtain s1 where s1: "(if drop_bit 12 addr \<noteq> pageno_u then map_user p addr 0 14 True s else Some s) = Some s1"
    "viewed p s s1" "hw_ram s1 = hw_ram s" "frame_of 14 s1 = unat (getPage p addr s)"
    using loop_page [OF Suc.prems(1,2)] by metis
  note v = viewed_getPage [OF s1(2) Suc.prems(1)] and m = umem_viewed [OF s1(2) Suc.prems(1) s1(3)]
  have f: "frame_of 14 s1 = unat (getPage p addr s1)" using s1(4) v(2) by simp
  let ?s2 = "win_put 14 (page_offset addr) c s1"
  have v2: "viewed p s ?s2" using viewed_trans [OF s1(2) viewed_put [OF f] Suc.prems(1)] .
  have us2: "user_space p ?s2" by (rule viewed_getPage(1) [OF v2 Suc.prems(1)])
  have f2: "frame_of 14 ?s2 = unat (getPage p addr ?s2)" using f by (simp add: win_put_def)
  have m2: "umem p ?s2 = (umem p s)(addr := c)" using win_put_mapped [OF v(1) f] m by simp
  show ?case
  proof (cases "z \<and> c = 0")
    case True
    then show ?thesis using s1(1) ws v2 m2 by (auto simp: fun_eq_iff)
  next
    case False
    from Suc.IH [OF us2 next_page [OF f2] ws(2)] obtain s' where
      r: "uputs_loop p 0 14 z n (addr + 1) (drop_bit 12 addr) cs ?s2 =
        Some (length (if z then upto_zero (take n cs) else take n cs), s')" "viewed p ?s2 s'"
        "umem p s' = uput (if z then upto_zero (take n cs) else take n cs) (addr + 1) ((umem p s)(addr := c))"
      unfolding m2 by blast
    have "viewed p s s'" using viewed_trans [OF v2 r(2) Suc.prems(1)] .
    with False s1(1) ws r(1,3) show ?thesis by auto
  qed
qed

lemma uputs_ok:
  assumes "user_space p s" "n \<le> length ws"
  shows "\<exists>s'. uputs p addr 0 14 n z ws s =
      Some (length (if z then upto_zero (take n ws) else take n ws), s') \<and> viewed p s s' \<and>
    umem p s' = uput (if z then upto_zero (take n ws) else take n ws) addr (umem p s)"
proof -
  have "drop_bit 12 addr \<noteq> (0xffff :: u16)" using addr_page [of addr] by auto
  then show ?thesis using uputs_loop_ok [OF assms(1) _ assms(2), of addr "0xffff" z] by (simp add: uputs_def)
qed

lemma uput_other: "(\<And>i. i < length ws \<Longrightarrow> a \<noteq> addr + of_nat i) \<Longrightarrow> uput ws addr f a = f a"
proof (induction ws arbitrary: addr f)
  case (Cons c cs)
  have "a \<noteq> addr + 1 + of_nat i" if "i < length cs" for i
    using Cons.prems [of "Suc i"] that by (simp add: add.assoc)
  moreover have "a \<noteq> addr" using Cons.prems [of 0] by simp
  ultimately have "uput cs (addr + 1) (f(addr := c)) a = (f(addr := c)) a" "(f(addr := c)) a = f a"
    by (blast intro: Cons.IH, simp)
  then show ?case unfolding uput.simps by (rule trans)
qed simp

lemma uput_nth: "length ws \<le> 65536 \<Longrightarrow> i < length ws \<Longrightarrow> uput ws addr f (addr + of_nat i) = ws ! i"
proof (induction ws arbitrary: addr f i)
  case (Cons c cs)
  show ?case
  proof (cases i)
    case 0
    have "addr \<noteq> addr + 1 + of_nat j" if "j < length cs" for j
    proof
      assume "addr = addr + 1 + of_nat j"
      then have "(of_nat (Suc j) :: u16) = 0" by (simp add: add.assoc)
      then have "unat (of_nat (Suc j) :: u16) = 0" by simp
      then show False using that Cons.prems(1) by (simp only: unat_of_nat_u16) simp
    qed
    then have "uput cs (addr + 1) (f(addr := c)) addr = (f(addr := c)) addr" by (intro uput_other) blast
    then show ?thesis using 0 by simp
  next
    case (Suc k)
    have "uput cs (addr + 1) (f(addr := c)) (addr + 1 + of_nat k) = cs ! k"
      by (rule Cons.IH) (use Suc Cons.prems in simp_all)
    moreover have "addr + of_nat (Suc k) = addr + 1 + of_nat k" by simp
    ultimately show ?thesis unfolding Suc uput.simps nth_Cons_Suc by (simp only:)
  qed
qed simp

text \<open>
  C12. For a process with sixteen distinct writable data pages the kernel's copy routines are exactly
  reads and writes of its memory as a function of addresses, across page boundaries and around the end
  of the address space: \<^verbatim>\<open>ugets\<close> returns the words from the address on, \<^verbatim>\<open>uputs\<close> stores them there,
  both stop behind the first zero when asked to, and no frame of another process changes.
\<close>

theorem user_copy_correct:
  assumes "user_space p s" "n \<le> length ws"
  shows "(\<exists>s'. ugets p addr 0 14 n z s = Some (if z then upto_zero (uwords p s addr n) else uwords p s addr n, s') \<and>
      umem p s' = umem p s \<and> hw_ram s' = hw_ram s) \<and>
    (\<exists>s'. uputs p addr 0 14 n z ws s = Some (length (if z then upto_zero (take n ws) else take n ws), s') \<and>
      umem p s' = uput (if z then upto_zero (take n ws) else take n ws) addr (umem p s) \<and>
      (\<forall>fr. (\<forall>a. fr \<noteq> unat (getPage p a s)) \<longrightarrow> hw_ram s' fr = hw_ram s fr))"
proof -
  obtain s' where g: "ugets p addr 0 14 n z s = Some (if z then upto_zero (uwords p s addr n) else uwords p s addr n, s')"
    "viewed p s s'" "hw_ram s' = hw_ram s" using ugets_ok [OF assms(1)] by blast
  have "umem p s' = umem p s" by (rule umem_viewed [OF g(2) assms(1) g(3)])
  then show ?thesis using g uputs_ok [OF assms, of addr z] by (auto simp: viewed_def)
qed

text \<open>
  What \<^verbatim>\<open>uputs\<close> has written \<^verbatim>\<open>ugets\<close> reads back.
\<close>

theorem user_copy_roundtrip:
  assumes "user_space p s" "n \<le> length ws" "n \<le> 65536"
  shows "\<exists>s' s''. uputs p addr 0 14 n False ws s = Some (n, s') \<and> ugets p addr 0 14 n False s' = Some (take n ws, s'')"
proof -
  obtain s' where s': "uputs p addr 0 14 n False ws s = Some (n, s')" "viewed p s s'"
    "umem p s' = uput (take n ws) addr (umem p s)"
    using uputs_ok [OF assms(1,2), of addr False] assms(2) by (auto simp: min_def)
  have "uwords p s' addr n = take n ws"
    by (rule nth_equalityI) (use assms(2,3) in \<open>auto simp: uwords_def s'(3) uput_nth\<close>)
  moreover obtain s'' where "ugets p addr 0 14 n False s' = Some (uwords p s' addr n, s'')"
    using ugets_ok [OF viewed_getPage(1) [OF s'(2) assms(1)], of addr n False] by auto
  ultimately show ?thesis using s'(1) by auto
qed

text \<open>A process with selector 1 whose data page \<open>k\<close> is frame \<open>16 + k\<close>.\<close>

definition user_state :: kst where
  "user_state = (power_on (\<lambda>_. undefined))\<lparr>hw_mmu := (\<lambda>k. of_nat (16 + k mod 16)),
     procs := (\<lambda>_. zero_proc)(0 := zero_proc\<lparr>p_mmuSelector := 1\<rparr>)\<rparr>"

lemma pte_user: "unat pg < 16 \<Longrightarrow> pte 1 pg 0 mod 16 = unat pg"
proof -
  assume a: "unat pg < 16"
  have e: "16 = (2 :: nat) ^ 4" by simp
  have "take_bit 4 (pte 1 pg 0) = unat pg"
  proof (rule bit_eqI)
    fix n
    show "bit (take_bit 4 (pte 1 pg 0)) n = bit (unat pg) n"
      using high_bits [of pg 4 n] a by (cases "n < 4") (auto simp: bit_take_bit_iff bit_pte bit_unsigned_iff)
  qed
  then show ?thesis by (simp only: take_bit_eq_mod e)
qed

lemma low_entry:
  assumes "unat (v :: u16) < 2 ^ 5"
  shows "v AND MMU_TABLE_NO_FLAGS_MASK = v" "drop_bit 13 (v AND MMU_TABLE_FLAGS_MASK) = 0"
proof -
  have b: "bit v n \<Longrightarrow> n < 5" for n using high_bits [OF assms, of n] by (meson not_le)
  show "v AND MMU_TABLE_NO_FLAGS_MASK = v"
    unfolding flag_masks by (rule bit_word_eqI) (use b in \<open>fastforce simp: bit_simps\<close>)
  show "drop_bit 13 (v AND MMU_TABLE_FLAGS_MASK) = 0"
    unfolding flag_masks by (rule bit_word_eqI, unfold bit_drop_bit_eq comp_def bit_and_iff) (use b in \<open>fastforce\<close>)
qed

lemma user_space_user_state: "user_space 0 user_state"
proof -
  have e: "hw_mmu user_state (pte 1 pg 0) = 16 + pg" if "unat pg < 16" for pg
    using pte_user [OF that] by (simp add: user_state_def of_nat_add)
  have small: "unat (16 + pg :: u16) < 2 ^ 5" if "unat pg < 16" for pg :: u16
    using that by (simp add: unat_word_ariths)
  have nf: "mmu_read_table 1 pg 0 user_state = 16 + pg" "mmu_read_table_flags 1 pg 0 user_state = 0" if "unat pg < 16" for pg
    using low_entry [OF small [OF that]] unfolding mmu_tables e [OF that] by simp_all
  have "p_mmuSelector (procs user_state 0) = 1" by (simp add: user_state_def)
  then show ?thesis by (simp add: user_space_def Let_def nf cong: conj_cong)
qed

theorem user_copy_correct_witness:
  "\<exists>s'. uputs 0 0x0ffe 0 14 4 True [7, 8, 9, 0] user_state = Some (4, s') \<and>
     umem 0 s' = uput [7, 8, 9, 0] 0x0ffe (umem 0 user_state)"
  using user_copy_correct [OF user_space_user_state, of 4 "[7, 8, 9, 0]" "0x0ffe" True] by auto

theorem user_copy_roundtrip_witness:
  "\<exists>s' s''. uputs 0 0xffff 0 14 2 False [7, 8] user_state = Some (2, s') \<and> ugets 0 0xffff 0 14 2 False s' = Some ([7, 8], s'')"
  using user_copy_roundtrip [OF user_space_user_state, of 2 "[7, 8]" "0xffff"] by simp

end
