(* ===== verification/Args.thy ===== *)
theory Args
  imports Memory Exec
begin

text \<open>
  The argument block of exec.  Reading the memory of a process needs no more than its selector, whatever the flags of
  its pages; \<open>ustring\<close> and \<open>user_args\<close> say which strings a program finds at an address and in an argument
  vector.  \<^verbatim>\<open>parseArgs\<close> lays the strings of the old memory out for the new one (\<open>laid_out\<close>), where they
  denote the same arguments.
\<close>

section \<open>Reading user memory\<close>

definition has_selector :: "nat \<Rightarrow> kst \<Rightarrow> bool" where
  "has_selector p s \<longleftrightarrow> 0 < unat (p_mmuSelector (procs s p)) \<and> unat (p_mmuSelector (procs s p)) < 16"

lemma has_selector_win [simp]: "has_selector p (win_upd v s) = has_selector p s"
  by (simp add: has_selector_def)

lemma read_win:
  assumes "has_selector p s"
  shows "getPage p a (win_upd v s) = getPage p a s" "umem p (win_upd v s) = umem p s"
    "map_user p a 0 14 False s = Some (win_upd (getPage p a s) s)"
proof -
  show g: "getPage p a (win_upd v s) = getPage p a s" for a
    using assms by (simp add: getPage_def has_selector_def win_upd_read addr_page)
  show "umem p (win_upd v s) = umem p s" by (simp add: umem_def g fun_eq_iff)
  show "map_user p a 0 14 False s = Some (win_upd (getPage p a s) s)"
    by (simp add: map_user_def check_and_fix_page_def Let_def mmu_tables win_upd_def)
qed

lemma win_upd_self: "win_upd (hw_mmu s (pte 0 14 0)) s = s"
  by (simp add: win_upd_def)

lemma ugetc_view: "has_selector p s \<Longrightarrow> ugetc p a 0 14 s = Some (umem p s a, win_upd (getPage p a s) s)"
  using win_get_mapped [of "win_upd (getPage p a s) s" p a]
  by (simp add: ugetc_def read_win frame_of_win)

lemma ugets_loop_view:
  assumes "has_selector p s" "drop_bit 12 addr \<noteq> pageno_u \<or> frame_of 14 s = unat (getPage p addr s)"
  shows "\<exists>v. ugets_loop p 0 14 z n addr pageno_u s =
      Some (if z then upto_zero (uwords p s addr n) else uwords p s addr n, win_upd v s)"
  using assms
proof (induction n arbitrary: addr pageno_u s)
  case 0
  show ?case by (rule exI [of _ "hw_mmu s (pte 0 14 0)"]) (simp add: win_upd_self uwords_def)
next
  case (Suc n)
  obtain v where v: "(if drop_bit 12 addr \<noteq> pageno_u then map_user p addr 0 14 False s else Some s) = Some (win_upd v s)"
    "frame_of 14 (win_upd v s) = unat (getPage p addr s)"
  proof (cases "drop_bit 12 addr \<noteq> pageno_u")
    case True
    then show thesis using that [of "getPage p addr s"] Suc.prems by (simp add: read_win frame_of_win)
  next
    case False
    then show thesis using that [of "hw_mmu s (pte 0 14 0)"] Suc.prems win_upd_self by simp
  qed
  let ?s = "win_upd v s"
  have f: "frame_of 14 ?s = unat (getPage p addr ?s)" using v(2) Suc.prems(1) by (simp add: read_win)
  have c: "win_get 14 (page_offset addr) ?s = umem p s addr" using win_get_mapped [OF f] Suc.prems(1) by (simp add: read_win)
  have hs: "has_selector p ?s" using Suc.prems(1) by simp
  obtain w where w: "ugets_loop p 0 14 z n (addr + 1) (drop_bit 12 addr) ?s =
      Some (if z then upto_zero (uwords p s (addr + 1) n) else uwords p s (addr + 1) n, win_upd w s)"
    using Suc.IH [OF hs next_page [OF f]] uwords_cong [OF read_win(2) [OF Suc.prems(1)]] by auto
  show ?case using v(1) c w by (cases "z \<and> umem p s addr = 0") (auto simp: uwords_Suc)
qed

lemma ugets_view:
  assumes "has_selector p s"
  shows "\<exists>v. ugets p addr 0 14 n z s = Some (if z then upto_zero (uwords p s addr n) else uwords p s addr n, win_upd v s)"
proof -
  have "drop_bit 12 addr \<noteq> (0xffff :: u16)" using addr_page [of addr] by auto
  then show ?thesis using ugets_loop_view [OF assms, of addr "0xffff" z n] by (simp add: ugets_def)
qed

text \<open>The string at an address, and the strings of a vector of pointers.\<close>

definition ustring :: "(u16 \<Rightarrow> u16) \<Rightarrow> u16 \<Rightarrow> u16 list \<Rightarrow> bool" where
  "ustring m a w \<longleftrightarrow> 0 \<notin> set w \<and> (\<forall>j < length w. m (a + of_nat j) = w ! j) \<and> m (a + of_nat (length w)) = 0"

definition user_args :: "(u16 \<Rightarrow> u16) \<Rightarrow> u16 \<Rightarrow> u16 list list \<Rightarrow> bool" where
  "user_args m a ws \<longleftrightarrow> (\<forall>k < length ws. m (a + of_nat k) \<noteq> 0 \<and> ustring m (m (a + of_nat k)) (ws ! k)) \<and>
     m (a + of_nat (length ws)) = 0"

lemma ustring_Cons: "ustring m a (c # w) \<longleftrightarrow> m a = c \<and> c \<noteq> 0 \<and> ustring m (a + 1) w"
proof -
  have "(\<forall>j < length (c # w). m (a + of_nat j) = (c # w) ! j) \<longleftrightarrow> m a = c \<and> (\<forall>j < length w. m (a + 1 + of_nat j) = w ! j)"
    by (auto simp: less_Suc_eq_0_disj add.assoc)
  then show ?thesis by (auto simp: ustring_def add.assoc)
qed

lemma user_args_Cons: "user_args m a (w # ws) \<longleftrightarrow> m a \<noteq> 0 \<and> ustring m (m a) w \<and> user_args m (a + 1) ws"
proof -
  have "(\<forall>k < length (w # ws). m (a + of_nat k) \<noteq> 0 \<and> ustring m (m (a + of_nat k)) ((w # ws) ! k)) \<longleftrightarrow>
      m a \<noteq> 0 \<and> ustring m (m a) w \<and> (\<forall>k < length ws. m (a + 1 + of_nat k) \<noteq> 0 \<and> ustring m (m (a + 1 + of_nat k)) (ws ! k))"
    by (auto simp: less_Suc_eq_0_disj add.assoc)
  then show ?thesis by (auto simp: user_args_def add.assoc)
qed

lemma ustring_words: "ustring (umem p s) a w \<Longrightarrow> length w < n \<Longrightarrow> upto_zero (uwords p s a n) = w @ [0]"
proof (induction w arbitrary: a n)
  case Nil
  then show ?case by (cases n) (simp_all add: uwords_Suc ustring_def)
next
  case (Cons c w)
  then show ?case by (cases n) (auto simp: uwords_Suc ustring_Cons)
qed

section \<open>The argument block\<close>

definition room_of :: "u16 list list \<Rightarrow> nat" where
  "room_of ws = sum_list (map (\<lambda>w. length w + 2) ws)"

text \<open>The pointers from \<open>i\<close> on and the strings from \<open>t\<close> on.\<close>

fun laid_out :: "buf \<Rightarrow> u16 \<Rightarrow> nat \<Rightarrow> nat \<Rightarrow> u16 list list \<Rightarrow> bool" where
  "laid_out b off i t [] = True"
| "laid_out b off i t (w # ws) = (b (ARGV_PTRS + i) = of_nat t + off \<and> slice b t (length w + 1) = w @ [0] \<and>
     laid_out b off (Suc i) (t + length w + 2) ws)"

lemma laid_out_cong:
  "(\<And>x. ARGV_PTRS + i \<le> x \<Longrightarrow> x < ARGV_PTRS + i + length ws \<Longrightarrow> b' x = b x) \<Longrightarrow>
   (\<And>x. t \<le> x \<Longrightarrow> x < t + room_of ws \<Longrightarrow> b' x = b x) \<Longrightarrow> laid_out b off i t ws \<Longrightarrow> laid_out b' off i t ws"
proof (induction ws arbitrary: i t)
  case (Cons w ws)
  have r: "room_of (w # ws) = length w + 2 + room_of ws" by (simp add: room_of_def)
  have "slice b' t (length w + 1) = slice b t (length w + 1)"
    by (rule slice_cong) (use Cons.prems(2) r in simp)
  moreover have "b' (ARGV_PTRS + i) = b (ARGV_PTRS + i)" using Cons.prems(1) by simp
  moreover have "laid_out b' off (Suc i) (t + length w + 2) ws"
  proof (rule Cons.IH)
    show "b' x = b x" if "ARGV_PTRS + Suc i \<le> x" "x < ARGV_PTRS + Suc i + length ws" for x
      using Cons.prems(1) [of x] that by simp
    show "b' x = b x" if "t + length w + 2 \<le> x" "x < t + length w + 2 + room_of ws" for x
      using Cons.prems(2) [of x] that r by simp
    show "laid_out b off (Suc i) (t + length w + 2) ws" using Cons.prems(3) by simp
  qed
  ultimately show ?case using Cons.prems(3) by simp
qed simp

lemma copy_argv_ok:
  assumes "has_selector p s" "user_args (umem p s) a ws" "t + room_of ws \<le> ARGV_BUFFER_SIZE" "i + length ws < 15" "ARGV_ENTRIES \<le> t"
  shows "\<exists>v b'. copy_argv p a off i t b s = Some (i + length ws, t + room_of ws, b', win_upd v s) \<and> laid_out b' off i t ws \<and>
    (\<forall>x < t. x < ARGV_PTRS + i \<or> ARGV_PTRS + i + length ws \<le> x \<longrightarrow> b' x = b x)"
  using assms
proof (induction ws arbitrary: a i t b s)
  case Nil
  then have "umem p s a = 0" by (simp add: user_args_def)
  then show ?case using Nil.prems(1) by (subst copy_argv.simps) (auto simp: ugetc_view room_of_def)
next
  case (Cons w ws)
  have u: "umem p s a \<noteq> 0" "ustring (umem p s) (umem p s a) w" "user_args (umem p s) (a + 1) ws"
    using Cons.prems(2) by (simp_all add: user_args_Cons)
  have r: "room_of (w # ws) = length w + 2 + room_of ws" by (simp add: room_of_def)
  let ?s1 = "win_upd (getPage p a s) s"
  have hs: "has_selector p ?s1" using Cons.prems(1) by simp
  obtain v where g: "ugets p (umem p s a) 0 14 1024 True ?s1 = Some (w @ [0], win_upd v s)"
    using ugets_view [OF hs, of "umem p s a" 1024 True] ustring_words [OF u(2), of 1024] Cons.prems(1,3) r
    by (auto simp: uwords_cong [OF read_win(2)])
  let ?b = "(blit b t (w @ [0]))(ARGV_PTRS + i := of_nat t + off)"
  have hs2: "has_selector p (win_upd v s)" using Cons.prems(1) by simp
  have a2: "user_args (umem p (win_upd v s)) (a + 1) ws" using u(3) Cons.prems(1) by (simp add: read_win)
  have c: "t + length w + 2 + room_of ws \<le> ARGV_BUFFER_SIZE" "Suc i + length ws < 15" "ARGV_ENTRIES \<le> t + length w + 2"
    using Cons.prems(3-5) r by simp_all
  obtain v' b' where ih: "copy_argv p (a + 1) off (Suc i) (t + length w + 2) ?b (win_upd v s) =
      Some (Suc i + length ws, t + length w + 2 + room_of ws, b', win_upd v' s)"
    "laid_out b' off (Suc i) (t + length w + 2) ws"
    "\<forall>x < t + length w + 2. x < ARGV_PTRS + Suc i \<or> ARGV_PTRS + Suc i + length ws \<le> x \<longrightarrow> b' x = ?b x"
    using Cons.IH [OF hs2 a2 c, of ?b] unfolding win_upd_simps by blast
  have "slice b' t (length w + 1) = slice ?b t (length w + 1)"
    by (rule slice_cong) (use ih(3) Cons.prems(4,5) in simp)
  also have "\<dots> = slice (blit b t (w @ [0])) t (length w + 1)"
    by (rule slice_cong) (use Cons.prems(4,5) in simp)
  also have "\<dots> = w @ [0]" using slice_blit [of b t "w @ [0]"] by simp
  finally have "laid_out b' off i t (w # ws)" using ih(2,3) Cons.prems(4,5) by simp
  moreover have "b' x = b x" if "x < t" "x < ARGV_PTRS + i \<or> ARGV_PTRS + i + length (w # ws) \<le> x" for x
    using ih(3) that Cons.prems(4,5) by (auto simp: blit_outside)
  ultimately show ?case
    using u(1) g ih(1) Cons.prems(1,3,4) r by (subst copy_argv.simps) (auto simp: ugetc_view)
qed

lemma parseArgs_ok:
  assumes hs: "has_selector p s" and args: "if a = 0 then ws = [] else user_args (umem p s) a ws"
    and len: "ARGV_ENTRIES + room_of ws \<le> ARGV_BUFFER_SIZE" "length ws < 15"
  shows "\<exists>v b'. parseArgs a e b off p s = Some (ARGV_ENTRIES + room_of ws, b', win_upd v s) \<and> laid_out b' off 0 ARGV_ENTRIES ws \<and>
    b' 0 = of_nat (length ws) \<and> b' 1 = of_nat ARGV_PTRS + off \<and> b' (ARGV_PTRS + length ws) = 0"
proof -
  define b3 where "b3 = fort 0 5 (\<lambda>i c. c(ENVP_PTRS + i := of_nat (ENVP_ENTRIES + i * 30) + off))
    ((blit b 0 (replicate ARGV_ENTRIES 0))(1 := of_nat ARGV_PTRS + off, 2 := of_nat ENVP_PTRS + off))"
  have b3: "b3 1 = of_nat ARGV_PTRS + off" by (simp add: b3_def)
  let ?s1 = "win_upd (getPage p e s) s"
  have hs1: "has_selector p ?s1" using hs by simp
  have "\<exists>v b4. (if a \<noteq> 0 then copy_argv p a off 0 ARGV_ENTRIES b3 ?s1 else Some (0, ARGV_ENTRIES, b3, ?s1)) =
      Some (length ws, ARGV_ENTRIES + room_of ws, b4, win_upd v s) \<and> laid_out b4 off 0 ARGV_ENTRIES ws \<and> b4 1 = b3 1"
  proof (cases "a = 0")
    case True
    then show ?thesis using args by (auto simp: room_of_def)
  next
    case False
    have ua: "user_args (umem p ?s1) a ws" using args False hs by (simp add: read_win)
    have l: "0 + length ws < 15" "ARGV_ENTRIES \<le> ARGV_ENTRIES" using len by simp_all
    obtain v b4 where c: "copy_argv p a off 0 ARGV_ENTRIES b3 ?s1 = Some (0 + length ws, ARGV_ENTRIES + room_of ws, b4, win_upd v ?s1)"
      "laid_out b4 off 0 ARGV_ENTRIES ws" "\<forall>x < ARGV_ENTRIES. x < ARGV_PTRS + 0 \<or> ARGV_PTRS + 0 + length ws \<le> x \<longrightarrow> b4 x = b3 x"
      using copy_argv_ok [OF hs1 ua len(1) l, of off b3] by blast
    have "b4 1 = b3 1" using c(3) [rule_format, of 1] by simp
    then show ?thesis using c(1,2) False by auto
  qed
  then obtain v b4 where c: "(if a \<noteq> 0 then copy_argv p a off 0 ARGV_ENTRIES b3 ?s1 else Some (0, ARGV_ENTRIES, b3, ?s1)) =
      Some (length ws, ARGV_ENTRIES + room_of ws, b4, win_upd v s)" "laid_out b4 off 0 ARGV_ENTRIES ws" "b4 1 = b3 1" by blast
  let ?b = "b4(ARGV_PTRS + length ws := 0, 0 := of_nat (length ws))"
  have "parseArgs a e b off p s = Some (ARGV_ENTRIES + room_of ws, ?b, win_upd v s)"
    unfolding parseArgs_def Let_def b3_def [symmetric] using c(1) len(2) hs by (simp add: ugetc_view)
  moreover have "laid_out ?b off 0 ARGV_ENTRIES ws"
    by (rule laid_out_cong [OF _ _ c(2)]) (use len in auto)
  ultimately show ?thesis using c(3) b3 by auto
qed

text \<open>A block stored at its address denotes the arguments.\<close>

lemma laid_out_args:
  assumes "\<And>x. x < L \<Longrightarrow> m (B + of_nat x) = b x" "unat B + L \<le> 65536" "laid_out b B i t ws" "\<forall>w \<in> set ws. 0 \<notin> set w"
    "t + room_of ws \<le> L" "0 < t" "ARGV_PTRS + i + length ws < L" "b (ARGV_PTRS + i + length ws) = 0"
  shows "user_args m (B + of_nat (ARGV_PTRS + i)) ws"
  using assms(3-8)
proof (induction ws arbitrary: i t)
  case Nil
  have "m (B + of_nat (ARGV_PTRS + i)) = b (ARGV_PTRS + i)" by (rule assms(1)) (use Nil.prems in simp)
  then show ?case using Nil.prems unfolding user_args_def by simp
next
  case (Cons w ws)
  have r: "room_of (w # ws) = length w + 2 + room_of ws" by (simp add: room_of_def)
  have "m (B + of_nat (ARGV_PTRS + i)) = b (ARGV_PTRS + i)" by (rule assms(1)) (use Cons.prems(5) in simp)
  then have p: "m (B + of_nat (ARGV_PTRS + i)) = B + of_nat t" using Cons.prems(1) by (simp add: add.commute)
  have nz: "B + of_nat t \<noteq> 0"
  proof -
    have tl: "unat B + t < 65536" using assms(2) Cons.prems(3,4) r by linarith
    then have tu: "unat (of_nat t :: u16) = t" by (intro unat_of_nat_u16_small) linarith
    have "unat (B + of_nat t) = unat B + t" using tl by (subst unat_plus_simple [THEN iffD1]) (simp_all add: tu no_olen_add_nat)
    then show ?thesis using Cons.prems(4) by auto
  qed
  have wd: "b (t + j) = (w @ [0]) ! j" if "j \<le> length w" for j
    using arg_cong [of _ _ "\<lambda>xs. xs ! j", OF conjunct1 [OF conjunct2 [OF Cons.prems(1) [unfolded laid_out.simps]]]] that
    by simp
  have md: "m (B + of_nat t + of_nat j) = (w @ [0]) ! j" if "j \<le> length w" for j
    using assms(1) [of "t + j"] wd [OF that] that Cons.prems(3) r by (simp add: add.assoc)
  have "ustring m (B + of_nat t) w"
    unfolding ustring_def using md Cons.prems(2) by (auto simp: nth_append)
  moreover have "user_args m (B + of_nat (ARGV_PTRS + Suc i)) ws"
    by (rule Cons.IH [where t = "t + length w + 2"]) (use Cons.prems r in \<open>auto simp: add.assoc\<close>)
  moreover have "B + of_nat (ARGV_PTRS + i) + 1 = B + of_nat (ARGV_PTRS + Suc i)" by simp
  ultimately show ?case using p nz by (simp only: user_args_Cons) simp
qed

end
