(* ===== verification/Waiting.thy ===== *)
theory Waiting
  imports Worker
begin

text \<open>
  Properties of the wait queue and of \<^verbatim>\<open>processWaiting\<close>, the loop of the kernel worker that serves the
  notifications: an added waiter is found by its trigger, a notification is never lost before the
  worker runs, and the worker serves the waiters of the first pending notification only.
\<close>

abbreviation waits_for :: "u16 \<Rightarrow> kst \<Rightarrow> nat \<Rightarrow> bool" where
  "waits_for what s k \<equiv> wq_type (waitq s k) \<noteq> WAITQ_TYPE_NONE \<and> wq_trigger (waitq s k) = what"

lemma next_waiter_found: "waitqGetNextWaiter what None s = (True, k) \<longleftrightarrow>
    k < WAITQ_LENGTH \<and> waits_for what s k \<and> (\<forall>j<k. \<not> waits_for what s j)"
proof (cases "scan (waits_for what s) 0 WAITQ_LENGTH")
  case None
  then have "waitqGetNextWaiter what None s = (False, WAITQ_LENGTH)"
    unfolding waitqGetNextWaiter_def Let_def option.case diff_zero by (simp only: option.case)
  moreover have "\<forall>k<WAITQ_LENGTH. \<not> waits_for what s k" using None unfolding scan_None .
  ultimately show ?thesis by (simp only: prod.inject simp_thms) blast
next
  case (Some i)
  then have g: "waitqGetNextWaiter what None s = (True, i)"
    unfolding waitqGetNextWaiter_def Let_def option.case diff_zero by (simp only: option.case)
  have i: "i < WAITQ_LENGTH \<and> waits_for what s i \<and> (\<forall>j<i. \<not> waits_for what s j)" using Some unfolding scan_Some_iff .
  have "k = i" if "waits_for what s k" "\<forall>j<k. \<not> waits_for what s j"
    using that i by (blast intro: linorder_neqE_nat)
  with g i show ?thesis by (simp only: prod.inject) blast
qed

lemma next_waiter_none: "(\<forall>k<WAITQ_LENGTH. \<not> waits_for what s k) \<Longrightarrow> waitqGetNextWaiter what None s = (False, WAITQ_LENGTH)"
  unfolding waitqGetNextWaiter_def Let_def option.case diff_zero scan_None [symmetric] by (simp del: scan_numeral)

lemma next_waiter_end: "waitqGetNextWaiter what (Some WAITQ_LENGTH) s = (False, WAITQ_LENGTH)"
  by (simp add: waitqGetNextWaiter_def)

lemma next_waiter_stops: "waitqGetNextWaiter what e s = (False, k) \<Longrightarrow> k = WAITQ_LENGTH"
  by (auto simp: waitqGetNextWaiter_def Let_def split: option.splits)

section \<open>Adding a waiter\<close>

text \<open>
  A process that blocks on a file takes the first free entry of the wait queue, with its request
  recorded and all other entries as they were; the table is searched for a trigger so that this waiter
  is found if no earlier entry waits for the same; with all fifteen entries taken the kernel panics.
\<close>

theorem waitq_add_found:
  "(waitqAddEntry who what WAITQ_TYPE_FILE scall fd params s = None) =
     (\<forall>i<WAITQ_LENGTH. wq_type (waitq s i) \<noteq> WAITQ_TYPE_NONE) \<and>
   (\<forall>s'. waitqAddEntry who what WAITQ_TYPE_FILE scall fd params s = Some s' \<longrightarrow>
     (\<exists>i<WAITQ_LENGTH. wq_type (waitq s i) = WAITQ_TYPE_NONE \<and> (\<forall>j. j \<noteq> i \<longrightarrow> waitq s' j = waitq s j) \<and>
        wq_pid (waitq s' i) = who \<and> wq_trigger (waitq s' i) = what \<and> wq_type (waitq s' i) = WAITQ_TYPE_FILE \<and>
        wq_scallStruct (waitq s' i) = scall \<and> wq_fd (waitq s' i) = fd \<and>
        (\<forall>k\<in>{1, 2, 3}. wq_params (waitq s' i) k = params k) \<and>
        ((\<forall>j<i. \<not> waits_for what s j) \<longrightarrow> waitqGetNextWaiter what None s' = (True, i))))"
proof (cases "scan (\<lambda>i. wq_type (waitq s i) = WAITQ_TYPE_NONE) 0 WAITQ_LENGTH")
  case None
  then have "\<forall>i<WAITQ_LENGTH. wq_type (waitq s i) \<noteq> WAITQ_TYPE_NONE" unfolding scan_None .
  with None show ?thesis unfolding waitqAddEntry_def by (simp del: scan_numeral)
next
  case (Some i)
  then have i: "i < WAITQ_LENGTH" "wq_type (waitq s i) = WAITQ_TYPE_NONE"
    by (auto simp only: scan_Some_iff)
  obtain s' where s': "waitqAddEntry who what WAITQ_TYPE_FILE scall fd params s = Some s'" by (simp add: waitqAddEntry_def Some del: scan_numeral)
  have o: "waitq s' j = waitq s j" if "j \<noteq> i" for j
    using s' that unfolding waitqAddEntry_def Some by (auto simp: wq_upd_def)
  have n: "wq_pid (waitq s' i) = who" "wq_trigger (waitq s' i) = what" "wq_type (waitq s' i) = WAITQ_TYPE_FILE"
    "wq_scallStruct (waitq s' i) = scall" "wq_fd (waitq s' i) = fd" "\<forall>k\<in>{1, 2, 3}. wq_params (waitq s' i) k = params k"
    using s' unfolding waitqAddEntry_def Some by (auto simp: wq_upd_def Let_def)
  have "waitqGetNextWaiter what None s' = (True, i)" if "\<forall>j<i. \<not> waits_for what s j"
    unfolding next_waiter_found using that o n i by auto
  moreover have "\<not> (\<forall>i<WAITQ_LENGTH. wq_type (waitq s i) \<noteq> WAITQ_TYPE_NONE)" using i by blast
  ultimately show ?thesis using s' i o n by (metis option.distinct(1) option.inject)
qed

theorem waitq_add_found_witness:
  "\<exists>s' i. waitqAddEntry 5 9 WAITQ_TYPE_FILE 100 2 (\<lambda>k. of_nat k) (power_on (\<lambda>_. undefined)) = Some s' \<and>
     waitqGetNextWaiter 9 None s' = (True, i) \<and> wq_pid (waitq s' i) = 5"
proof -
  let ?z = "power_on (\<lambda>_. undefined)"
  note t = waitq_add_found [of 5 9 100 2 "\<lambda>k. of_nat k" ?z]
  have "wq_type (waitq ?z 0) = WAITQ_TYPE_NONE" "(0 :: nat) < WAITQ_LENGTH" by simp_all
  then have "waitqAddEntry 5 9 WAITQ_TYPE_FILE 100 2 (\<lambda>k. of_nat k) ?z \<noteq> None"
    using conjunct1 [OF t] by blast
  then obtain s' where s': "waitqAddEntry 5 9 WAITQ_TYPE_FILE 100 2 (\<lambda>k. of_nat k) ?z = Some s'" by blast
  have "\<not> waits_for 9 ?z j" for j by simp
  with conjunct2 [OF t] s' show ?thesis by blast
qed

section \<open>Serving notifications\<close>

lemma serve_waiters_end: "serve_waiters dops what (Some WAITQ_LENGTH) s = Some (Some WAITQ_LENGTH, s)"
  by (subst serve_waiters.simps) (simp add: next_waiter_end)

lemma serve_waiters_stops: "serve_waiters dops what e s = Some (e', s') \<Longrightarrow> e' = Some WAITQ_LENGTH"
proof -
  have "serve_waiters dops what e s = Some y \<Longrightarrow> fst y = Some WAITQ_LENGTH" for y
  proof (rule serve_waiters.raw_induct [where P = "\<lambda>_ _ _ _ y. fst y = Some WAITQ_LENGTH"])
    fix sw and dops :: dops and what e s y
    assume ih: "\<And>dops what e s y. sw dops what e s = Some y \<Longrightarrow> fst y = Some WAITQ_LENGTH"
      and b: "(let (found, k) = waitqGetNextWaiter what e s in
        if found then Option.bind (processWaitQEntry dops k s)
          (\<lambda>s1. sw dops what (Some k) (wq_upd k (wq_type_update (\<lambda>_. WAITQ_TYPE_NONE)) s1))
        else Some (Some k, s)) = Some y"
    obtain found k where g: "waitqGetNextWaiter what e s = (found, k)" by fastforce
    show "fst y = Some WAITQ_LENGTH"
    proof (cases found)
      case True
      with b g obtain s1 where "sw dops what (Some k) (wq_upd k (wq_type_update (\<lambda>_. WAITQ_TYPE_NONE)) s1) = Some y"
        by (auto simp: kmonad)
      then show ?thesis by (rule ih)
    next
      case False
      with b g next_waiter_stops [of what e s k] show ?thesis by auto
    qed
  qed
  then show "serve_waiters dops what e s = Some (e', s') \<Longrightarrow> e' = Some WAITQ_LENGTH" by fastforce
qed

lemma serve_pending_drains:
  "cb_inv (waitqPending s) \<Longrightarrow> \<exists>cb. serve_pending dops (Some WAITQ_LENGTH) s = Some (s\<lparr>waitqPending := cb\<rparr>) \<and>
     cb_inv cb \<and> cb_list cb = []"
proof (induction "cb_size (waitqPending s)" arbitrary: s)
  case 0
  then have "cb_list (waitqPending s) = []" by (simp flip: length_0_conv)
  moreover have "serve_pending dops (Some WAITQ_LENGTH) s = Some (s\<lparr>waitqPending := waitqPending s\<rparr>)"
    using 0(1) by (subst serve_pending.simps) simp
  ultimately show ?case using 0(2) by blast
next
  case (Suc n)
  let ?cb = "snd (cb_pop (waitqPending s))"
  let ?s = "s\<lparr>waitqPending := ?cb\<rparr>"
  have "length (cb_list ?cb) = n" using cb_pop_list [OF Suc.prems] Suc.hyps(2) by simp
  then have "n = cb_size (waitqPending ?s)" by simp
  from Suc.hyps(1) [OF this] cb_pop_inv [OF Suc.prems] obtain cb where
    cb: "serve_pending dops (Some WAITQ_LENGTH) ?s = Some (?s\<lparr>waitqPending := cb\<rparr>)" "cb_inv cb" "cb_list cb = []"
    by auto
  have "serve_pending dops (Some WAITQ_LENGTH) s = serve_pending dops (Some WAITQ_LENGTH) ?s"
    using Suc.hyps(2) by (subst serve_pending.simps) (simp add: serve_waiters_end case_prod_beta)
  with cb show ?case by auto
qed

text \<open>
  C31. The kernel worker serves the waiters of the oldest pending notification; the pointer into the
  wait queue is then at its end and never set back, so that every further notification pending is
  taken off the queue without waking anyone: a process waiting for it stays blocked.
\<close>

theorem later_notifications_lost:
  assumes "cb_inv (waitqPending s)" "cb_list (waitqPending s) = what # later"
    "serve_waiters dops what None (s\<lparr>waitqPending := snd (cb_pop (waitqPending s))\<rparr>) = Some (e, s1)"
    "cb_inv (waitqPending s1)"
  shows "\<exists>cb. processWaiting dops s = Some (s1\<lparr>waitqPending := cb\<rparr>) \<and> cb_list cb = []"
proof -
  have e: "e = Some WAITQ_LENGTH" by (rule serve_waiters_stops [OF assms(3)])
  have w: "fst (cb_pop (waitqPending s)) = what" using cb_pop_fst [OF assms(1)] assms(2) by simp
  have "cb_size (waitqPending s) \<noteq> 0" using assms(2) by (metis length_cb_list length_0_conv list.distinct(1))
  then have "serve_pending dops None s = serve_pending dops (Some WAITQ_LENGTH) s1"
    using assms(3) e w by (subst serve_pending.simps) (simp add: case_prod_beta)
  then show ?thesis using serve_pending_drains [OF assms(4), of dops] by (auto simp: processWaiting_def)
qed

text \<open>A process waits for node 8; the notifications for the nodes 7 and 8 are pending.\<close>

definition two_pending :: kst where
  "two_pending = (power_on (\<lambda>_. undefined))\<lparr>
     waitq := (waitq (power_on (\<lambda>_. undefined)))(0 := \<lparr>wq_trigger = 8, wq_pid = 5, wq_type = WAITQ_TYPE_FILE,
       wq_scallStruct = 0, wq_fd = 0, wq_params = (\<lambda>_. 0)\<rparr>),
     waitqPending := cb_push (cb_push (cb_create_static 200 (\<lambda>_. 0)) 7) 8\<rparr>"

lemma two_pending_queue:
  "cb_inv (waitqPending two_pending)" "cb_list (waitqPending two_pending) = [7, 8]"
  "cb_capacity (waitqPending two_pending) = 200"
proof -
  let ?q = "cb_create_static 200 (\<lambda>_. 0)"
  have w: "waitqPending two_pending = foldl cb_push ?q [7, 8]" by (simp add: two_pending_def)
  have q: "cb_inv ?q" by (rule cb_create_inv) simp_all
  have "cb_size ?q = 0" "cb_capacity ?q = 200" by (simp_all add: cb_create_static_def)
  then show "cb_inv (waitqPending two_pending)" "cb_list (waitqPending two_pending) = [7, 8]"
    "cb_capacity (waitqPending two_pending) = 200"
    unfolding w using cbq.invar_pushes [OF q, of "[7, 8]"] cbq.pushes_room [OF q, of "[7, 8]"]
      cbq.room_pushes [of ?q "[7, 8]"] by simp_all
qed

theorem later_notifications_lost_witness:
  "\<exists>s'. processWaiting (\<lambda>_. ataGetDriver) two_pending = Some s' \<and> cb_list (waitqPending s') = [] \<and>
     waits_for 8 s' 0 \<and> cb_list (waitqPending two_pending) = [7, 8]"
proof -
  let ?cb = "waitqPending two_pending"
  note inv = two_pending_queue(1) and l = two_pending_queue(2)
  let ?s = "two_pending\<lparr>waitqPending := snd (cb_pop ?cb)\<rparr>"
  have "\<forall>k<WAITQ_LENGTH. \<not> waits_for 7 ?s k" by (simp add: two_pending_def)
  then have sw: "serve_waiters (\<lambda>_. ataGetDriver) 7 None ?s = Some (Some WAITQ_LENGTH, ?s)"
    by (subst serve_waiters.simps) (simp add: next_waiter_none)
  have "\<exists>cb. processWaiting (\<lambda>_. ataGetDriver) two_pending = Some (?s\<lparr>waitqPending := cb\<rparr>) \<and> cb_list cb = []"
    by (rule later_notifications_lost [OF inv l sw]) (simp add: cb_pop_inv [OF inv])
  then show ?thesis using l by (auto simp: two_pending_def)
qed

text \<open>
  \<^verbatim>\<open>waitqNotify\<close>, which interrupt handlers call, records the notification behind the pending ones
  while fewer than two hundred are pending, and panics instead of dropping one when they are not.
\<close>

theorem notify_appends:
  assumes "cb_inv (waitqPending s)"
  shows "(waitqNotify what s = None) = (length (cb_list (waitqPending s)) = cb_capacity (waitqPending s)) \<and>
    (\<forall>s'. waitqNotify what s = Some s' \<longrightarrow> cb_inv (waitqPending s') \<and>
       cb_list (waitqPending s') = cb_list (waitqPending s) @ [what] \<and> s' = s\<lparr>waitqPending := waitqPending s'\<rparr>)"
  using assms cb_size_le [OF assms]
  by (auto simp: waitqNotify_def kmonad require_def cb_push_inv cbq.push_room)

theorem notify_appends_witness:
  "\<exists>s'. waitqNotify 3 two_pending = Some s' \<and> cb_list (waitqPending s') = [7, 8, 3]"
proof -
  have "waitqNotify 3 two_pending \<noteq> None"
    using notify_appends [OF two_pending_queue(1), of 3] two_pending_queue(2,3) by simp
  then obtain s' where "waitqNotify 3 two_pending = Some s'" by blast
  then show ?thesis using notify_appends [OF two_pending_queue(1), of 3] two_pending_queue(2) by simp
qed

end
