(* ===== verification/Streams.thy ===== *)
theory Streams
  imports Piper
begin

text \<open>
  Properties of the two kinds of word stream: what a terminal read returns after receive interrupts,
  and the pipes as first-in first-out channels that lose and invent nothing.
\<close>

section \<open>Taking words off a buffer\<close>

lemma cb_take_list:
  "cb_inv cb \<Longrightarrow> fst (cb_take n cb) = take n (cb_list cb) \<and> cb_inv (snd (cb_take n cb)) \<and>
   cb_list (snd (cb_take n cb)) = drop n (cb_list cb) \<and> cb_capacity (snd (cb_take n cb)) = cb_capacity cb"
proof (induction n arbitrary: cb)
  case (Suc n)
  show ?case
  proof (cases "cb_size cb = 0")
    case True
    then have "cb_list cb = []" by (simp flip: length_0_conv)
    with True Suc.prems show ?thesis by simp
  next
    case False
    then have ne: "cb_list cb \<noteq> []" by (simp flip: length_0_conv)
    obtain v cb1 where p: "cb_pop cb = (v, cb1)" by fastforce
    have "cb_inv cb1" "cb_list cb1 = tl (cb_list cb)" "v = hd (cb_list cb)" "cb_capacity cb1 = cb_capacity cb"
      using cb_pop_inv [OF Suc.prems] cb_pop_list [OF Suc.prems] cb_pop_value [OF Suc.prems ne] cb_capacity_ops(2) [of cb]
      by (simp_all add: p)
    with Suc.IH [of cb1] False ne p show ?thesis
      by (simp add: case_prod_beta Let_def take_Suc drop_Suc)
  qed
qed simp

section \<open>Terminals\<close>

lemma inb_uart:
  "inb UART_SR s = (if hw_rx s 0 = [] then 0 else 1, s)"
  "inb UART2_SR s = (if hw_rx s 1 = [] then 0 else 1, s)"
  "hw_rx s 0 = c # cs \<Longrightarrow> inb UART s = (c, s\<lparr>hw_rx := (hw_rx s)(0 := cs)\<rparr>)"
  "hw_rx s 1 = c # cs \<Longrightarrow> inb UART2 s = (c, s\<lparr>hw_rx := (hw_rx s)(1 := cs)\<rparr>)"
  by (auto simp: inb_def uart_read_def split: list.split)

text \<open>The receive loop empties the line into the buffer.\<close>

lemma uart_receive_all:
  assumes "\<And>s :: kst. inb sr s = (if hw_rx s line = [] then 0 else 1, s)"
    and "\<And>(s :: kst) c cs. hw_rx s line = c # cs \<Longrightarrow> inb dr s = (c, s\<lparr>hw_rx := (hw_rx s)(line := cs)\<rparr>)"
  shows "hw_rx s line = xs \<Longrightarrow> uart_receive sr dr line got s = Some (got \<or> xs \<noteq> [],
    s\<lparr>hw_rx := (hw_rx s)(line := []), uart_buffer := (uart_buffer s)(line := foldl cb_push (uart_buffer s line) xs)\<rparr>)"
proof (induction xs arbitrary: s got)
  case Nil
  then have "(hw_rx s)(line := []) = hw_rx s" by (auto simp: fun_eq_iff)
  then show ?case using Nil assms(1) [of s] by (subst uart_receive.simps) simp
next
  case (Cons c cs)
  let ?s = "s\<lparr>hw_rx := (hw_rx s)(line := cs), uart_buffer := (uart_buffer s)(line := cb_push (uart_buffer s line) c)\<rparr>"
  have "uart_receive sr dr line got s = uart_receive sr dr line True ?s"
    using assms(1) [of s] assms(2) [OF Cons.prems] Cons.prems by (subst uart_receive.simps) simp
  with Cons.IH [of ?s True] show ?case by (simp cong: if_cong)
qed

text \<open>
  C29. A receive interrupt of the first terminal takes every word waiting on the line: the buffer then holds
  the newest words of what it held and what arrived, as many as it has room for, in order of arrival,
  and the waiters of the terminal's node are notified exactly when something arrived.
\<close>

theorem uart_interrupt_receives:
  assumes "cb_inv (uart_buffer s 0)" "hw_rx s 0 = xs" "ttyOpenedAs s 0 = Some f"
    "cb_size (waitqPending s) < cb_capacity (waitqPending s)"
  shows "\<exists>s'. uart_interrupt s = Some s' \<and> hw_rx s' 0 = [] \<and> cb_inv (uart_buffer s' 0) \<and>
    cb_list (uart_buffer s' 0) = drop (length (cb_list (uart_buffer s 0)) + length xs - cb_capacity (uart_buffer s 0))
      (cb_list (uart_buffer s 0) @ xs) \<and>
    waitqPending s' = (if xs = [] then waitqPending s
      else cb_push (waitqPending s) (fn_idx (f_node (file_at f s))))"
proof -
  let ?s = "s\<lparr>hw_rx := (hw_rx s)(0 := []), uart_buffer := (uart_buffer s)(0 := foldl cb_push (uart_buffer s 0) xs)\<rparr>"
  have "uart_receive UART_SR UART 0 False s = Some (xs \<noteq> [], ?s)"
    using uart_receive_all [of UART_SR 0 UART s xs False, OF inb_uart(1,3) assms(2)] by simp
  then show ?thesis
    using assms cbq.pushes_newest [OF assms(1)] cbq.invar_pushes [OF assms(1)] cb_size_le [OF assms(1)]
    by (auto simp: uart_interrupt_def waitqNotify_def file_at_def)
qed

text \<open>
  Reading a terminal returns the oldest buffered words, as many as asked for and available, and leaves
  the rest; only a read that finds nothing asks for the caller to be blocked.
\<close>

theorem tty_read_oldest:
  assumes "unat minor < 2" "cb_inv (uart_buffer s (unat minor))"
  shows "\<exists>s'. tty_read minor n s = Some (take n (cb_list (uart_buffer s (unat minor))), s') \<and>
    cb_list (uart_buffer s' (unat minor)) = drop n (cb_list (uart_buffer s (unat minor))) \<and>
    cb_inv (uart_buffer s' (unat minor)) \<and>
    blockRequest s' = (if n = 0 \<or> cb_list (uart_buffer s (unat minor)) = [] then 1 else blockRequest s)"
proof -
  obtain ws cb where t: "cb_take n (uart_buffer s (unat minor)) = (ws, cb)" by fastforce
  with cb_take_list [OF assms(2), of n] assms(1) show ?thesis by (auto simp: tty_read_def)
qed

text \<open>The terminals set up on a machine with a word sequence waiting on the first line.\<close>

definition line_state :: "u16 list \<Rightarrow> kst" where
  "line_state xs = uart_init (waitq_init ((power_on (\<lambda>_. undefined))
     \<lparr>hw_rx := (\<lambda>_. [])(0 := xs), ttyOpenedAs := (\<lambda>_. Some 0)\<rparr>))"

lemma waitq_init_simps:
  "waitqPending (waitq_init s) = cb_create_static WAITQ_PENDING_LENGTH (cb_data (waitqPending s))"
  "hw_rx (waitq_init s) = hw_rx s" "ttyOpenedAs (waitq_init s) = ttyOpenedAs s"
proof -
  have "hw_rx (fort 0 WAITQ_LENGTH (\<lambda>i. wq_upd i (wq_type_update (\<lambda>_. WAITQ_TYPE_NONE))) t) = hw_rx t \<and>
    ttyOpenedAs (fort 0 WAITQ_LENGTH (\<lambda>i. wq_upd i (wq_type_update (\<lambda>_. WAITQ_TYPE_NONE))) t) = ttyOpenedAs t" for t
    by (rule fort_inv [where I = "\<lambda>_ u. hw_rx u = hw_rx t \<and> ttyOpenedAs u = ttyOpenedAs t"]) (simp_all add: wq_upd_def)
  then show "waitqPending (waitq_init s) = cb_create_static WAITQ_PENDING_LENGTH (cb_data (waitqPending s))"
    "hw_rx (waitq_init s) = hw_rx s" "ttyOpenedAs (waitq_init s) = ttyOpenedAs s"
    by (simp_all add: waitq_init_def del: fort_numeral)
qed

lemma line_state_simps:
  "hw_rx (line_state xs) 0 = xs" "ttyOpenedAs (line_state xs) 0 = Some 0"
  "cb_inv (uart_buffer (line_state xs) 0)" "cb_list (uart_buffer (line_state xs) 0) = []"
  "cb_capacity (uart_buffer (line_state xs) 0) = 500"
  "cb_size (waitqPending (line_state xs)) = 0" "cb_capacity (waitqPending (line_state xs)) = 200"
  by (simp_all add: line_state_def uart_init_def waitq_init_simps cb_create_inv) (simp_all add: cb_create_static_def)

theorem uart_interrupt_receives_witness:
  "\<exists>s'. uart_interrupt (line_state [104, 105]) = Some s' \<and> cb_list (uart_buffer s' 0) = [104, 105]"
  using uart_interrupt_receives [of "line_state [104, 105]" "[104, 105]" 0] by (auto simp: line_state_simps)

theorem tty_read_oldest_witness:
  "\<exists>s'. tty_read 0 5 (line_state [104, 105]) = Some ([], s') \<and> blockRequest s' = 1"
  using tty_read_oldest [of 0 "line_state [104, 105]" 5] by (auto simp: line_state_simps)

section \<open>Pipes\<close>

abbreviation pipe_data :: "kst \<Rightarrow> nat \<Rightarrow> u16 list" where
  "pipe_data s p \<equiv> cb_list (pf_cb (pipes s p))"

definition pipe_ok :: "kst \<Rightarrow> nat \<Rightarrow> bool" where
  "pipe_ok s p \<longleftrightarrow> p < MAX_PIPES \<and> cb_inv (pf_cb (pipes s p))"

lemma notify_pipe_pipes: "notify_pipe p s = Some s' \<Longrightarrow> pipes s' = pipes s \<and> blockRequest s' = blockRequest s"
  by (auto simp: notify_pipe_def waitqNotify_def kmonad)

lemma notify_pipe_total:
  "pf_openedAs (pipes s p) = Some f \<Longrightarrow> cb_size (waitqPending s) < cb_capacity (waitqPending s) \<Longrightarrow>
   notify_pipe p s = Some (s\<lparr>waitqPending := cb_push (waitqPending s) (fn_idx (f_node (file_at f s)))\<rparr>)"
  by (simp add: notify_pipe_def waitqNotify_def)

lemma notify_if:
  "(if c then notify_pipe p s else Some s) = Some s1 \<Longrightarrow> pipes s1 = pipes s \<and> blockRequest s1 = blockRequest s"
  by (auto dest: notify_pipe_pipes split: if_splits)

lemma pipe_upd_simps [simp]:
  "pipes (pipe_upd p f s) = (pipes s)(p := f (pipes s p))" "blockRequest (pipe_upd p f s) = blockRequest s"
  "waitqPending (pipe_upd p f s) = waitqPending s"
  by (simp_all add: pipe_upd_def)

text \<open>The effect of a read and of a write that return.\<close>

lemma piper_read_Some:
  assumes ok: "pipe_ok s (unat minor)" and r: "piper_read minor n s = Some (ws, s')"
  shows "ws = take n (pipe_data s (unat minor)) \<and> pipe_ok s' (unat minor) \<and>
    pipe_data s' (unat minor) = drop n (pipe_data s (unat minor)) \<and>
    (\<forall>q. q \<noteq> unat minor \<longrightarrow> pipes s' q = pipes s q) \<and>
    pf_writeClosed (pipes s' (unat minor)) = pf_writeClosed (pipes s (unat minor)) \<and>
    pf_readClosed (pipes s' (unat minor)) = pf_readClosed (pipes s (unat minor)) \<and>
    cb_capacity (pf_cb (pipes s' (unat minor))) = cb_capacity (pf_cb (pipes s (unat minor))) \<and>
    blockRequest s' = (if ws = [] \<and> pf_writeClosed (pipes s (unat minor)) = 0 then 1 else blockRequest s)"
proof -
  let ?p = "unat minor"
  let ?cb = "pf_cb (pipes s ?p)"
  let ?k = "if n > cb_size ?cb then cb_size ?cb else n"
  from ok have inv: "cb_inv ?cb" by (simp add: pipe_ok_def)
  obtain s1 where s1: "(if cb_size ?cb = cb_capacity ?cb then notify_pipe ?p s else Some s) = Some s1"
    using r by (auto simp: piper_read_def kmonad Let_def)
  note p1 = notify_if [OF s1]
  obtain vs cb where t: "cb_take ?k ?cb = (vs, cb)" by fastforce
  note tk = cb_take_list [OF inv, of ?k, unfolded t fst_conv snd_conv]
  have k: "take ?k (cb_list ?cb) = take n (cb_list ?cb)" "drop ?k (cb_list ?cb) = drop n (cb_list ?cb)"
    by (simp_all flip: length_cb_list)
  have e: "ws = [] \<longleftrightarrow> ?k = 0" if "ws = take n (cb_list ?cb)"
    using that by (auto simp flip: length_0_conv)
  have "ws = vs \<and> s' = (if ?k = 0 \<and> pf_writeClosed (pipes s ?p) = 0
      then (pipe_upd ?p (pf_cb_update (\<lambda>_. cb)) s1)\<lparr>blockRequest := 1\<rparr> else pipe_upd ?p (pf_cb_update (\<lambda>_. cb)) s1)"
    using r s1 p1 t ok by (simp add: piper_read_def Let_def pipe_ok_def cong: if_cong split del: if_split)
  then show ?thesis using tk k e p1 ok by (simp add: pipe_ok_def)
qed

lemma piper_write_Some:
  assumes ok: "pipe_ok s (unat minor)" and r: "piper_write minor buf n s = Some (k, s')"
    and rd: "pf_readClosed (pipes s (unat minor)) = 0"
  shows "k = min n (cb_capacity (pf_cb (pipes s (unat minor))) - length (pipe_data s (unat minor))) \<and>
    k \<le> length buf \<and> pipe_ok s' (unat minor) \<and>
    pipe_data s' (unat minor) = pipe_data s (unat minor) @ take k buf \<and>
    (\<forall>q. q \<noteq> unat minor \<longrightarrow> pipes s' q = pipes s q) \<and>
    pf_writeClosed (pipes s' (unat minor)) = pf_writeClosed (pipes s (unat minor)) \<and>
    pf_readClosed (pipes s' (unat minor)) = 0 \<and>
    pf_openedAs (pipes s' (unat minor)) = pf_openedAs (pipes s (unat minor)) \<and>
    cb_capacity (pf_cb (pipes s' (unat minor))) = cb_capacity (pf_cb (pipes s (unat minor))) \<and>
    blockRequest s' = (if k = 0 then 1 else blockRequest s)"
proof -
  let ?p = "unat minor"
  let ?cb = "pf_cb (pipes s ?p)"
  let ?free = "cb_capacity ?cb - cb_size ?cb"
  define m where "m = (if n > ?free then ?free else n)"
  from ok have inv: "cb_inv ?cb" by (simp add: pipe_ok_def)
  obtain s1 where s1: "(if cb_size ?cb = 0 then notify_pipe ?p s else Some s) = Some s1"
    using r rd by (auto simp: piper_write_def kmonad Let_def)
  note p1 = notify_if [OF s1]
  let ?t = "pipe_upd ?p (pf_cb_update (\<lambda>cb. foldl cb_push cb (take m buf))) s1"
  have w: "k = m" "m \<le> length buf" "s' = (if m = 0 then ?t\<lparr>blockRequest := 1\<rparr> else ?t)"
    using r rd s1 p1 ok
    by (auto simp: piper_write_def Let_def pipe_ok_def kmonad m_def [symmetric] cong: if_cong split del: if_split)
  have "cb_size ?cb + length (take m buf) \<le> cb_capacity ?cb" using cb_size_le [OF inv] by (auto simp: m_def)
  note l = cbq.pushes_room [OF inv this] cbq.invar_pushes [OF inv, of "take m buf"] cbq.room_pushes [of ?cb "take m buf"]
  have "m = min n (cb_capacity ?cb - length (cb_list ?cb))" by (simp add: m_def min_def)
  then have k: "k = min n (cb_capacity ?cb - length (cb_list ?cb))" "k \<le> length buf"
    using w(1,2) by (simp_all only:)
  have "pipe_ok s' ?p \<and> pipe_data s' ?p = pipe_data s ?p @ take k buf \<and>
    (\<forall>q. q \<noteq> ?p \<longrightarrow> pipes s' q = pipes s q) \<and> pf_writeClosed (pipes s' ?p) = pf_writeClosed (pipes s ?p) \<and>
    pf_readClosed (pipes s' ?p) = 0 \<and> pf_openedAs (pipes s' ?p) = pf_openedAs (pipes s ?p) \<and>
    cb_capacity (pf_cb (pipes s' ?p)) = cb_capacity ?cb \<and> blockRequest s' = (if k = 0 then 1 else blockRequest s)"
    using w l p1 ok rd by (simp add: pipe_ok_def)
  with k show ?thesis by blast
qed

lemma piper_write_ok:
  assumes "pipe_ok s (unat minor)" "pf_readClosed (pipes s (unat minor)) = 0" "n \<le> length buf"
    "pf_openedAs (pipes s (unat minor)) = Some f" "cb_size (waitqPending s) < cb_capacity (waitqPending s)"
  shows "\<exists>k s'. piper_write minor buf n s = Some (k, s') \<and>
    k = min n (cb_capacity (pf_cb (pipes s (unat minor))) - length (pipe_data s (unat minor))) \<and>
    pipe_data s' (unat minor) = pipe_data s (unat minor) @ take k buf \<and>
    (\<forall>q. q \<noteq> unat minor \<longrightarrow> pipes s' q = pipes s q) \<and>
    waitqPending s' = (if pipe_data s (unat minor) = []
      then cb_push (waitqPending s) (fn_idx (f_node (file_at f s))) else waitqPending s) \<and>
    blockRequest s' = (if k = 0 then 1 else blockRequest s)"
proof -
  let ?p = "unat minor"
  let ?cb = "pf_cb (pipes s ?p)"
  define s1 where "s1 = (if cb_size ?cb = 0
    then s\<lparr>waitqPending := cb_push (waitqPending s) (fn_idx (f_node (file_at f s)))\<rparr> else s)"
  have s1: "(if cb_size ?cb = 0 then notify_pipe ?p s else Some s) = Some s1"
    using notify_pipe_total [OF assms(4,5)] by (simp add: s1_def)
  have ps: "pipes s1 = pipes s" by (simp add: s1_def)
  define m where "m = (if n > cb_capacity ?cb - cb_size ?cb then cb_capacity ?cb - cb_size ?cb else n)"
  let ?t = "pipe_upd ?p (pf_cb_update (\<lambda>cb. foldl cb_push cb (take m buf))) s1"
  let ?s' = "if m = 0 then ?t\<lparr>blockRequest := 1\<rparr> else ?t"
  have "m \<le> length buf" using assms(3) by (auto simp: m_def)
  then have r: "piper_write minor buf n s = Some (m, ?s')"
    using assms(1,2) s1 ps
    by (simp add: piper_write_def Let_def pipe_ok_def m_def [symmetric] cong: if_cong split del: if_split)
  have w: "waitqPending ?s' = waitqPending s1" by simp
  have "waitqPending ?s' = (if pipe_data s ?p = []
      then cb_push (waitqPending s) (fn_idx (f_node (file_at f s))) else waitqPending s)"
    unfolding w s1_def by (simp flip: length_0_conv)
  with r piper_write_Some [OF assms(1) r assms(2)] show ?thesis by blast
qed

lemma piper_read_ok:
  assumes "pipe_ok s (unat minor)" "pf_openedAs (pipes s (unat minor)) = Some f"
    "cb_size (waitqPending s) < cb_capacity (waitqPending s)"
  shows "piper_read minor n s \<noteq> None"
  using assms notify_pipe_total [OF assms(2,3)]
  by (simp add: piper_read_def Let_def pipe_ok_def case_prod_beta)

text \<open>
  A write to a pipe whose read end is open takes as many words as the pipe has room for, appends them in order and tells
  how many it took; the other pipes are not touched, an empty pipe's waiters are notified first, and
  a write that can place nothing asks for the writer to be blocked.
\<close>

theorem piper_write_appends:
  assumes "pipe_ok s (unat minor)" "pf_readClosed (pipes s (unat minor)) = 0" "n \<le> length buf"
    "pf_openedAs (pipes s (unat minor)) = Some f" "cb_size (waitqPending s) < cb_capacity (waitqPending s)"
  shows "\<exists>k s'. piper_write minor buf n s = Some (k, s') \<and>
    k = min n (cb_capacity (pf_cb (pipes s (unat minor))) - length (pipe_data s (unat minor))) \<and>
    pipe_data s' (unat minor) = pipe_data s (unat minor) @ take k buf \<and>
    (\<forall>q. q \<noteq> unat minor \<longrightarrow> pipes s' q = pipes s q) \<and>
    waitqPending s' = (if pipe_data s (unat minor) = []
      then cb_push (waitqPending s) (fn_idx (f_node (file_at f s))) else waitqPending s) \<and>
    blockRequest s' = (if k = 0 then 1 else blockRequest s)"
  using assms by (rule piper_write_ok)

text \<open>
  Once the reading end is closed a write places nothing and only raises the request for
  \<^verbatim>\<open>SIGPIPE\<close>; a read of an empty pipe whose writing end is closed returns no words and does not
  ask for blocking, which is the end of the file.
\<close>

theorem pipe_closed_ends:
  assumes "unat minor < MAX_PIPES"
  shows "(pf_readClosed (pipes s (unat minor)) \<noteq> 0 \<longrightarrow>
      piper_write minor buf n s = Some (0, s\<lparr>blockRequest := 2\<rparr>)) \<and>
    (cb_inv (pf_cb (pipes s (unat minor))) \<and> pipe_data s (unat minor) = [] \<and>
      pf_writeClosed (pipes s (unat minor)) \<noteq> 0 \<longrightarrow>
      (\<exists>s'. piper_read minor n s = Some ([], s') \<and> blockRequest s' = blockRequest s))"
proof
  show "pf_readClosed (pipes s (unat minor)) \<noteq> 0 \<longrightarrow> piper_write minor buf n s = Some (0, s\<lparr>blockRequest := 2\<rparr>)"
    using assms by (simp add: piper_write_def Let_def)
  show "cb_inv (pf_cb (pipes s (unat minor))) \<and> pipe_data s (unat minor) = [] \<and>
      pf_writeClosed (pipes s (unat minor)) \<noteq> 0 \<longrightarrow>
      (\<exists>s'. piper_read minor n s = Some ([], s') \<and> blockRequest s' = blockRequest s)"
  proof
    assume a: "cb_inv (pf_cb (pipes s (unat minor))) \<and> pipe_data s (unat minor) = [] \<and>
      pf_writeClosed (pipes s (unat minor)) \<noteq> 0"
    then have "cb_size (pf_cb (pipes s (unat minor))) = 0" "0 < cb_capacity (pf_cb (pipes s (unat minor)))"
      by (auto simp: cb_inv_def simp flip: length_0_conv)
    then show "\<exists>s'. piper_read minor n s = Some ([], s') \<and> blockRequest s' = blockRequest s"
      using a assms by (simp add: piper_read_def Let_def case_prod_beta)
  qed
qed

section \<open>A pipe in use\<close>

datatype pipe_op = Write_pipe "u16 list" | Read_pipe nat

text \<open>A run of reads and writes on one pipe: the words accepted, the words delivered, the state.\<close>

fun pipe_run :: "u16 \<Rightarrow> pipe_op list \<Rightarrow> kst \<Rightarrow> (u16 list \<times> u16 list \<times> kst) option" where
  "pipe_run minor [] s = Some ([], [], s)"
| "pipe_run minor (Write_pipe ws # ops) s = do {
     (k, s1) \<leftarrow> piper_write minor ws (length ws) s;
     (sent, got, s2) \<leftarrow> pipe_run minor ops s1;
     Some (take k ws @ sent, got, s2) }"
| "pipe_run minor (Read_pipe n # ops) s = do {
     (ws, s1) \<leftarrow> piper_read minor n s;
     (sent, got, s2) \<leftarrow> pipe_run minor ops s1;
     Some (sent, ws @ got, s2) }"

text \<open>
  C24. Whatever the order of reads and writes, a pipe is a first-in first-out stream: the words
  delivered followed by those still in the pipe are the words that were in it followed by those
  accepted; nothing is lost, repeated or reordered, and the other pipes do not change.
\<close>

theorem pipe_stream:
  assumes "pipe_run minor ops s = Some (sent, got, s')" "pipe_ok s (unat minor)"
    "pf_readClosed (pipes s (unat minor)) = 0"
  shows "got @ pipe_data s' (unat minor) = pipe_data s (unat minor) @ sent \<and> pipe_ok s' (unat minor) \<and>
    (\<forall>q. q \<noteq> unat minor \<longrightarrow> pipes s' q = pipes s q)"
  using assms
proof (induction ops arbitrary: s sent got)
  case (Cons op ops)
  show ?case
  proof (cases op)
    case (Write_pipe ws)
    with Cons.prems(1) obtain k s1 sent1 where w: "piper_write minor ws (length ws) s = Some (k, s1)"
      "pipe_run minor ops s1 = Some (sent1, got, s')" "sent = take k ws @ sent1" by (auto simp: kmonad)
    note p = piper_write_Some [OF Cons.prems(2) w(1) Cons.prems(3)]
    then have "pipe_ok s1 (unat minor)" "pf_readClosed (pipes s1 (unat minor)) = 0" by simp_all
    from Cons.IH [OF w(2) this] p w(3) show ?thesis by simp
  next
    case (Read_pipe n)
    with Cons.prems(1) obtain ws s1 got1 where r: "piper_read minor n s = Some (ws, s1)"
      "pipe_run minor ops s1 = Some (sent, got1, s')" "got = ws @ got1" by (auto simp: kmonad)
    note p = piper_read_Some [OF Cons.prems(2) r(1)]
    then have "pipe_ok s1 (unat minor)" "pf_readClosed (pipes s1 (unat minor)) = 0"
      using Cons.prems(3) by simp_all
    from Cons.IH [OF r(2) this] p r(3) show ?thesis by simp
  qed
qed simp

text \<open>Pipes as \<^verbatim>\<open>piper_init\<close> leaves them, pipe 0 open.\<close>

definition pipe_state :: kst where
  "pipe_state = pipe_upd 0 (\<lambda>p. p\<lparr>pf_cb := cb_create_static PIPE_MAX_LENGTH (\<lambda>_. 0), pf_openedAs := Some 3,
     pf_readClosed := 0, pf_writeClosed := 0\<rparr>) (waitq_init (power_on (\<lambda>_. undefined)))"

lemma pipe_state_simps:
  "pipe_ok pipe_state 0" "pf_readClosed (pipes pipe_state 0) = 0" "pf_openedAs (pipes pipe_state 0) = Some 3"
  "pipe_data pipe_state 0 = []" "cb_capacity (pf_cb (pipes pipe_state 0)) = 256"
  "cb_size (waitqPending pipe_state) = 0" "cb_capacity (waitqPending pipe_state) = 200"
  by (simp_all add: pipe_state_def pipe_ok_def waitq_init_simps cb_create_inv) (simp_all add: cb_create_static_def)

theorem piper_write_appends_witness:
  "\<exists>s'. piper_write 0 [5, 6] 2 pipe_state = Some (2, s') \<and> pipe_data s' 0 = [5, 6]"
  using piper_write_appends [of pipe_state 0 2 "[5, 6]" 3] by (simp add: pipe_state_simps) blast

theorem pipe_closed_ends_witness:
  "\<exists>s. pf_readClosed (pipes s 0) = 1 \<and> piper_write 0 [5] 1 s = Some (0, s\<lparr>blockRequest := 2\<rparr>)"
proof -
  let ?s = "pipe_upd 0 (pf_readClosed_update (\<lambda>_. 1)) pipe_state"
  have "piper_write 0 [5] 1 ?s = Some (0, ?s\<lparr>blockRequest := 2\<rparr>)"
    using pipe_closed_ends [of 0 ?s "[5]" 1] by simp
  then show ?thesis by (intro exI [of _ ?s]) simp
qed

theorem pipe_stream_witness:
  "\<exists>s'. pipe_run 0 [Write_pipe [5, 6], Read_pipe 9] pipe_state = Some ([5, 6], [5, 6], s')"
proof -
  have l: "length [5, 6 :: u16] = 2" by simp
  obtain s1 where w: "piper_write 0 [5, 6] 2 pipe_state = Some (2, s1)"
      "waitqPending s1 = cb_push (waitqPending pipe_state) (fn_idx (f_node (file_at 3 pipe_state)))"
    using piper_write_ok [of pipe_state 0 2 "[5, 6]" 3] by (auto simp: pipe_state_simps)
  have i: "cb_inv (waitqPending pipe_state)" by (simp add: pipe_state_def waitq_init_simps cb_create_inv)
  have p: "pipe_ok s1 0" "pipe_data s1 0 = [5, 6]" "pf_openedAs (pipes s1 0) = Some 3"
    using piper_write_Some [of pipe_state 0 "[5, 6]" 2 2 s1] w(1) by (simp_all add: pipe_state_simps)
  have "cb_size (waitqPending s1) < cb_capacity (waitqPending s1)"
    using i by (simp add: w(2) cb_push_room pipe_state_simps)
  with piper_read_ok [of s1 0 3 9] p obtain ws s2 where r: "piper_read 0 9 s1 = Some (ws, s2)" by auto
  have run: "pipe_run 0 [Write_pipe [5, 6], Read_pipe 9] pipe_state = Some ([5, 6], ws, s2)"
    using w(1) r by (simp add: numeral_2_eq_2)
  have "ws = [5, 6]" using piper_read_Some [of s1 0 9 ws s2] r p by simp
  moreover have "ws @ pipe_data s2 0 = [5, 6]"
    using pipe_stream [OF run] by (simp add: pipe_state_simps)
  ultimately show ?thesis using run by blast
qed

end
