(* ===== verification/Resume.thy ===== *)
theory Resume
  imports Waiting Streams Memory
begin

text \<open>
  The kernel worker, the wait queue, pipes, open files and user memory together: a process blocked on
  reading a pipe is resumed with the words of the pipe when it is notified.
\<close>

section \<open>What an operation leaves alone\<close>

definition same_tables :: "nat \<Rightarrow> kst \<Rightarrow> kst \<Rightarrow> bool" where
  "same_tables p s s' \<longleftrightarrow> hw_mmu s' = hw_mmu s \<and> hw_ram s' = hw_ram s \<and> p_mmuSelector (procs s' p) = p_mmuSelector (procs s p)"

lemma same_tablesD:
  assumes "same_tables p s s'"
  shows "umem p s' = umem p s" "user_space p s' = user_space p s"
  using assms unfolding same_tables_def umem_def user_space_def getPage_def mmu_tables fun_eq_iff Let_def by simp_all

lemma notify_if_frame:
  assumes "(if c then notify_pipe k s else Some s) = Some s1" "cb_inv (waitqPending s)"
  shows "\<exists>cb. s1 = s\<lparr>waitqPending := cb\<rparr> \<and> cb_inv cb"
proof (cases c)
  case True
  then show ?thesis using assms cb_push_inv [OF assms(2)] by (auto simp: notify_pipe_def waitqNotify_def kmonad)
next
  case False
  then show ?thesis using assms by (intro exI [of _ "waitqPending s"]) simp
qed

lemma piper_read_frame:
  assumes "piper_read minor n s = Some (ws, s')" "cb_inv (waitqPending s)"
  shows "procs s' = procs s \<and> waitq s' = waitq s \<and> openFiles s' = openFiles s \<and> same_tables p s s' \<and> cb_inv (waitqPending s')"
proof -
  let ?p = "unat minor"
  obtain s1 where s1: "(if cb_size (pf_cb (pipes s ?p)) = cb_capacity (pf_cb (pipes s ?p)) then notify_pipe ?p s else Some s) = Some s1"
    using assms(1) by (auto simp: piper_read_def kmonad Let_def)
  obtain cb where cb: "s1 = s\<lparr>waitqPending := cb\<rparr>" "cb_inv cb" using notify_if_frame [OF s1 assms(2)] by blast
  obtain g b where "s' = (pipe_upd ?p g s1)\<lparr>blockRequest := b\<rparr>"
  proof -
    have "\<exists>g. s' = pipe_upd ?p g s1 \<or> s' = (pipe_upd ?p g s1)\<lparr>blockRequest := 1\<rparr>"
      using assms(1) s1 by (auto simp: piper_read_def kmonad Let_def case_prod_beta split: if_splits)
    moreover have "pipe_upd ?p g s1 = (pipe_upd ?p g s1)\<lparr>blockRequest := blockRequest s1\<rparr>" for g by (simp add: pipe_upd_def)
    ultimately show thesis using that by metis
  qed
  then show ?thesis using cb by (simp add: same_tables_def pipe_upd_def)
qed

lemma viewed_frame:
  assumes "viewed p s s'"
  shows "procs s' = procs s" "waitq s' = waitq s" "openFiles s' = openFiles s" "pipes s' = pipes s"
    "waitqPending s' = waitqPending s" "blockRequest s' = blockRequest s"
proof -
  have e: "s' = s\<lparr>hw_mmu := (hw_mmu s)(pte 0 14 0 := hw_mmu s' (pte 0 14 0)), hw_ram := hw_ram s'\<rparr>"
    using assms unfolding viewed_def by blast
  show "procs s' = procs s" "waitq s' = waitq s" "openFiles s' = openFiles s" "pipes s' = pipes s"
    "waitqPending s' = waitqPending s" "blockRequest s' = blockRequest s"
    by (subst e, simp)+
qed

section \<open>Delivering a result\<close>

lemma uput_field: "uput [a, b, c, d] addr f = f(addr := a, addr + 1 := b, addr + 2 := c, addr + 3 := d)"
  by (simp only: uput.simps) (simp add: add.assoc)

lemma put_result_ok:
  assumes "user_space p s"
  shows "\<exists>s'. put_result p scall r s = Some s' \<and> viewed p s s' \<and> umem p s' = (umem p s)(scall + 2 := of_nat r)"
proof -
  obtain s1 where g: "ugets p scall 0 14 4 False s = Some (uwords p s scall 4, s1)" "viewed p s s1" "hw_ram s1 = hw_ram s"
    using ugets_ok [OF assms, of scall 4 False] by auto
  have m1: "umem p s1 = umem p s" by (rule umem_viewed [OF g(2) assms g(3)])
  let ?ws = "(uwords p s scall 4)[2 := of_nat r]"
  have l: "length ?ws = 4" by (simp add: uwords_def)
  obtain s2 where u: "uputs p scall 0 14 4 False ?ws s1 = Some (4, s2)" "viewed p s1 s2" "umem p s2 = uput ?ws scall (umem p s1)"
    using uputs_ok [OF viewed_getPage(1) [OF g(2) assms], of 4 ?ws scall False] l by auto
  have "?ws = [umem p s scall, umem p s (scall + 1), of_nat r, umem p s (scall + 3)]"
    by (simp add: uwords_def upt_rec_numeral numeral_eq_Suc add.commute)
  then have "uput ?ws scall (umem p s) = (umem p s)(scall + 2 := of_nat r)"
    by (simp only: uput_field) (simp add: fun_eq_iff)
  then show ?thesis using g(1) u m1 viewed_trans [OF g(2) u(2) assms] by (auto simp: put_result_def)
qed

text \<open>An open file of a pipe device.\<close>

definition pipe_file :: "kst \<Rightarrow> nat \<Rightarrow> u16 \<Rightarrow> bool" where
  "pipe_file s fd minor \<longleftrightarrow> (let f = file_at fd s; m = DEV_MAJOR (f_device f) in
     \<not> S_ISBLK (f_flags f) \<and> S_ISCHR (f_flags f) \<and> m < 16 \<and> m < MAX_DEVS \<and> dv_registered (devList s m) \<noteq> 0 \<and>
     dv_read (devList s m) = Some Piper_read \<and> dev_minor (f_device f) = minor)"

lemma k_read_pipe: "pipe_file s fd minor \<Longrightarrow> k_read dops fd n s = piper_read minor n s"
  by (simp add: k_read_def pipe_file_def call_read_def Let_def)

text \<open>A read that finds words copies them to the caller and stores their number in its request.\<close>

lemma try_k_read_pipe:
  assumes p: "findProcByPid caller s = Some p" and us: "user_space p s" and f: "pipe_file s fd minor"
    and ok: "pipe_ok s (unat minor)" "pf_openedAs (pipes s (unat minor)) = Some w"
    and q: "cb_inv (waitqPending s)" "cb_size (waitqPending s) < cb_capacity (waitqPending s)"
    and ne: "pipe_data s (unat minor) \<noteq> []" "n \<noteq> 0" and small: "length (take (unat n) (pipe_data s (unat minor))) \<le> IOBUF_SIZE"
  shows "\<exists>s'. try_k_read dops fd dest n caller scall s = Some (length (take (unat n) (pipe_data s (unat minor))), s') \<and>
    procs s' = procs s \<and> waitq s' = waitq s \<and> cb_inv (waitqPending s') \<and>
    pipe_data s' (unat minor) = drop (unat n) (pipe_data s (unat minor)) \<and>
    umem p s' = (uput (take (unat n) (pipe_data s (unat minor))) dest (umem p s))
      (scall + 2 := of_nat (length (take (unat n) (pipe_data s (unat minor)))))"
proof -
  define ws where "ws = take (unat n) (pipe_data s (unat minor))"
  obtain vs s1 where r: "piper_read minor (unat n) s = Some (vs, s1)" using piper_read_ok [OF ok q(2)] by fastforce
  note e = piper_read_Some [OF ok(1) r] and fr = piper_read_frame [OF r q(1), of p]
  have vs: "vs = ws" using e unfolding ws_def by blast
  have m1: "umem p s1 = umem p s" "user_space p s1" using same_tablesD fr us by metis+
  have "unat n \<noteq> 0" using ne(2) by (simp add: unat_eq_0)
  then have "ws \<noteq> []" using ne(1) unfolding ws_def take_eq_Nil by blast
  then have nz: "length ws \<noteq> 0" by simp
  obtain s2 where u: "uputs p dest 0 14 (length ws) False ws s1 = Some (length ws, s2)" "viewed p s1 s2"
    "umem p s2 = uput ws dest (umem p s1)"
    using uputs_ok [OF m1(2), of "length ws" ws dest False] by auto
  obtain s3 where g: "put_result p scall (length ws) s2 = Some s3" "viewed p s2 s3"
    "umem p s3 = (umem p s2)(scall + 2 := of_nat (length ws))"
    using put_result_ok [OF viewed_getPage(1) [OF u(2) m1(2)]] by blast
  have sm: "length ws \<le> IOBUF_SIZE" using small unfolding ws_def .
  have "try_k_read dops fd dest n caller scall s = Some (length ws, s3)"
    using nz sm p r u(1) g(1) by (simp add: try_k_read_def k_read_pipe [OF f] vs)
  moreover have "procs s3 = procs s" "waitq s3 = waitq s" "cb_inv (waitqPending s3)" "pipes s3 = pipes s1"
    using viewed_frame [OF u(2)] viewed_frame [OF g(2)] fr by simp_all
  moreover have "pipe_data s1 (unat minor) = drop (unat n) (pipe_data s (unat minor))" using e by blast
  moreover have "umem p s3 = (uput ws dest (umem p s))(scall + 2 := of_nat (length ws))" using u(3) g(3) m1(1) by (simp only:)
  ultimately show ?thesis unfolding ws_def [symmetric] by simp
qed

section \<open>Serving one waiter\<close>

lemma next_waiter_from:
  assumes "k < WAITQ_LENGTH" "\<forall>j<WAITQ_LENGTH. \<not> waits_for what s j"
  shows "waitqGetNextWaiter what (Some k) s = (False, WAITQ_LENGTH)"
proof -
  have "scan (waits_for what s) k (WAITQ_LENGTH - k) = None" using assms by (simp add: scan_None_iff)
  then show ?thesis unfolding waitqGetNextWaiter_def Let_def option.case by (simp only: option.case)
qed

lemma set_state_simps [simp]:
  "user_space p (set_state q st s) = user_space p s" "umem p (set_state q st s) = umem p s"
  "pipes (set_state q st s) = pipes s" "waitq (set_state q st s) = waitq s" "waitqPending (set_state q st s) = waitqPending s"
  "pipe_file (set_state q st s) fd minor = pipe_file s fd minor" "p_pid (procs (set_state q st s) r) = p_pid (procs s r)"
  "pipe_ok (set_state q st s) k = pipe_ok s k"
proof -
  have t: "same_tables p s (set_state q st s)" by (simp add: same_tables_def set_state_def proc_upd_def)
  show "user_space p (set_state q st s) = user_space p s" "umem p (set_state q st s) = umem p s"
    using same_tablesD [OF t] by simp_all
  show "pipes (set_state q st s) = pipes s" "waitq (set_state q st s) = waitq s" "waitqPending (set_state q st s) = waitqPending s"
    "pipe_file (set_state q st s) fd minor = pipe_file s fd minor" "p_pid (procs (set_state q st s) r) = p_pid (procs s r)"
    "pipe_ok (set_state q st s) k = pipe_ok s k"
    by (simp_all add: set_state_def proc_upd_def pipe_file_def file_at_def pipe_ok_def)
qed

lemma findProcByPidD:
  assumes "findProcByPid pid s = Some p"
  shows "p_pid (procs s p) = pid" "p_state (procs s p) \<noteq> PROC_STATE_NONE"
  using scan_SomeD [OF assms [unfolded findProcByPid_def]] by blast+

lemma find_pending: "findProcByPid pid (s\<lparr>waitqPending := q\<rparr>) = findProcByPid pid s"
  by (simp add: findProcByPid_def del: scan_numeral)

lemma find_running:
  assumes "findProcByPid pid s = Some p"
  shows "findProcByPid pid (set_state p PROC_STATE_RUN s) = Some p"
proof -
  have "(\<lambda>i. p_pid (procs (set_state p PROC_STATE_RUN s) i) = pid \<and> p_state (procs (set_state p PROC_STATE_RUN s) i) \<noteq> PROC_STATE_NONE) =
      (\<lambda>i. p_pid (procs s i) = pid \<and> p_state (procs s i) \<noteq> PROC_STATE_NONE)"
    using findProcByPidD(2) [OF assms] by (auto simp: fun_eq_iff set_state_def proc_upd_def)
  then show ?thesis using assms unfolding findProcByPid_def by (simp only:)
qed

lemma processWaitQEntry_pipe:
  assumes p: "findProcByPid (wq_pid (waitq s i)) s = Some p" and us: "user_space p s"
    and w: "wq_type (waitq s i) = WAITQ_TYPE_FILE" "wq_params (waitq s i) 3 = 0" "wq_params (waitq s i) 2 \<noteq> 0"
    and f: "pipe_file s (wq_fd (waitq s i)) minor" and ok: "pipe_ok s (unat minor)" "pf_openedAs (pipes s (unat minor)) = Some o'"
    and q: "cb_inv (waitqPending s)" "cb_size (waitqPending s) < cb_capacity (waitqPending s)"
    and ne: "pipe_data s (unat minor) \<noteq> []"
    and small: "length (take (unat (wq_params (waitq s i) 2)) (pipe_data s (unat minor))) \<le> IOBUF_SIZE"
  shows "\<exists>s'. processWaitQEntry dops i s = Some s' \<and> p_state (procs s' p) = PROC_STATE_RUN \<and>
    waitq s' = waitq s \<and> cb_inv (waitqPending s') \<and>
    pipe_data s' (unat minor) = drop (unat (wq_params (waitq s i) 2)) (pipe_data s (unat minor)) \<and>
    umem p s' = (uput (take (unat (wq_params (waitq s i) 2)) (pipe_data s (unat minor))) (wq_params (waitq s i) 1) (umem p s))
      (wq_scallStruct (waitq s i) + 2 := of_nat (length (take (unat (wq_params (waitq s i) 2)) (pipe_data s (unat minor)))))"
proof -
  let ?s = "set_state p PROC_STATE_RUN s"
  have pid: "p_pid (procs ?s p) = wq_pid (waitq s i)" using findProcByPidD(1) [OF p] by simp
  have st: "p_state (procs ?s p) = PROC_STATE_RUN" by (simp add: set_state_def proc_upd_def)
  show ?thesis
    using try_k_read_pipe [OF find_running [OF p], of "wq_fd (waitq s i)" minor o' "wq_params (waitq s i) 2" dops
        "wq_params (waitq s i) 1" "wq_scallStruct (waitq s i)"] us f ok q ne small w p pid st
    by (auto simp: processWaitQEntry_def)
qed

text \<open>
  C6. A process blocked on reading a pipe is resumed with the pipe's words: when the oldest pending
  notification is for its file and it is the only waiter for it, one call of \<^verbatim>\<open>processWaiting\<close> makes it
  runnable, copies the oldest words of the pipe, as many as it asked for and are there, to the address
  it gave, stores their number in its request structure, and frees its entry of the wait queue.
\<close>

theorem blocked_reader_resumed:
  assumes pend: "cb_inv (waitqPending s)" "cb_list (waitqPending s) = what # later"
    and i: "i < WAITQ_LENGTH" "waits_for what s i" "\<And>j. j < WAITQ_LENGTH \<Longrightarrow> waits_for what s j \<Longrightarrow> j = i"
    and w: "wq_type (waitq s i) = WAITQ_TYPE_FILE" "wq_params (waitq s i) 3 = 0" "wq_params (waitq s i) 2 = n" "n \<noteq> 0"
    and p: "findProcByPid (wq_pid (waitq s i)) s = Some p" "user_space p s"
    and f: "pipe_file s (wq_fd (waitq s i)) minor" "pipe_ok s (unat minor)" "pf_openedAs (pipes s (unat minor)) = Some o'"
    and ws: "ws = take (unat n) (pipe_data s (unat minor))" "ws \<noteq> []" "length ws \<le> IOBUF_SIZE"
  shows "\<exists>s'. processWaiting dops s = Some s' \<and> p_state (procs s' p) = PROC_STATE_RUN \<and>
    wq_type (waitq s' i) = WAITQ_TYPE_NONE \<and> (\<forall>j. j \<noteq> i \<longrightarrow> waitq s' j = waitq s j) \<and>
    pipe_data s' (unat minor) = drop (unat n) (pipe_data s (unat minor)) \<and>
    umem p s' = (uput ws (wq_params (waitq s i) 1) (umem p s))(wq_scallStruct (waitq s i) + 2 := of_nat (length ws))"
proof -
  let ?cb = "waitqPending s"
  define t where "t = s\<lparr>waitqPending := snd (cb_pop ?cb)\<rparr>"
  have pop: "fst (cb_pop ?cb) = what" using cb_pop_fst [OF pend(1)] pend(2) by simp
  have sz: "cb_size ?cb \<noteq> 0" using pend(2) by (metis length_cb_list length_0_conv list.distinct(1))
  have pc: "cb_inv (snd (cb_pop ?cb))" "cb_size (snd (cb_pop ?cb)) < cb_capacity (snd (cb_pop ?cb))"
    using cb_pop_inv [OF pend(1)] cb_size_le [OF pend(1)] sz by (auto simp: cb_pop_def Let_def)
  then have q: "cb_inv (waitqPending t)" "cb_size (waitqPending t) < cb_capacity (waitqPending t)" by (simp_all add: t_def)
  have st: "same_tables p s t" by (simp add: same_tables_def t_def)
  have ft: "findProcByPid (wq_pid (waitq t i)) t = Some p" "pipe_file t (wq_fd (waitq t i)) minor" "pipe_ok t (unat minor)"
    "pipes t = pipes s" "waitq t = waitq s"
    using p(1) f(1,2) by (simp_all add: t_def find_pending pipe_file_def file_at_def pipe_ok_def)
  have ne: "pipe_data t (unat minor) \<noteq> []" "wq_params (waitq t i) 2 \<noteq> 0" using ws w(3,4) ft(4,5) by auto
  have ut: "user_space p t" using same_tablesD(2) [OF st] p(2) by simp
  have wt: "wq_type (waitq t i) = WAITQ_TYPE_FILE" "wq_params (waitq t i) 3 = 0" using w(1,2) ft(5) by simp_all
  have ot: "pf_openedAs (pipes t (unat minor)) = Some o'" using f(3) ft(4) by simp
  have sm: "length (take (unat (wq_params (waitq t i) 2)) (pipe_data t (unat minor))) \<le> IOBUF_SIZE"
    using ws(1,3) unfolding ft(4,5) w(3) by (simp only:)
  have "\<exists>s1. processWaitQEntry dops i t = Some s1 \<and> p_state (procs s1 p) = PROC_STATE_RUN \<and> waitq s1 = waitq s \<and>
    cb_inv (waitqPending s1) \<and> pipe_data s1 (unat minor) = drop (unat n) (pipe_data s (unat minor)) \<and>
    umem p s1 = (uput ws (wq_params (waitq s i) 1) (umem p s))(wq_scallStruct (waitq s i) + 2 := of_nat (length ws))"
    using processWaitQEntry_pipe [OF ft(1) ut wt ne(2) ft(2,3) ot q ne(1) sm, of dops,
      unfolded ft(4,5) w(3) ws(1) [symmetric] same_tablesD(1) [OF st]] .
  then obtain s1 where s1: "processWaitQEntry dops i t = Some s1" "p_state (procs s1 p) = PROC_STATE_RUN" "waitq s1 = waitq s"
    "cb_inv (waitqPending s1)" "pipe_data s1 (unat minor) = drop (unat n) (pipe_data s (unat minor))"
    "umem p s1 = (uput ws (wq_params (waitq s i) 1) (umem p s))(wq_scallStruct (waitq s i) + 2 := of_nat (length ws))"
    by (elim exE conjE) (rule that)
  let ?u = "wq_upd i (wq_type_update (\<lambda>_. WAITQ_TYPE_NONE)) s1"
  have wu: "waitq ?u = (waitq s)(i := (waitq s i)\<lparr>wq_type := WAITQ_TYPE_NONE\<rparr>)" by (simp add: wq_upd_def s1(3))
  have wj: "waits_for what ?u j \<Longrightarrow> j \<noteq> i \<and> waits_for what s j" for j unfolding wu by (cases "j = i") simp_all
  have none: "\<forall>j<WAITQ_LENGTH. \<not> waits_for what ?u j" using i(3) wj by blast
  have g: "waitqGetNextWaiter what None t = (True, i)"
  proof -
    have "\<not> waits_for what s j" if "j < i" for j
    proof
      assume "waits_for what s j"
      then have "j = i" using i(3) order_less_trans [OF that i(1)] by blast
      then show False using that by simp
    qed
    then show ?thesis unfolding next_waiter_found ft(5) using i(1,2) by blast
  qed
  have sw: "serve_waiters dops what None t = Some (Some WAITQ_LENGTH, ?u)"
    using g s1(1) next_waiter_from [OF i(1) none] by (subst serve_waiters.simps, simp, subst serve_waiters.simps) simp
  obtain cb where cb: "serve_pending dops (Some WAITQ_LENGTH) ?u = Some (?u\<lparr>waitqPending := cb\<rparr>)"
    using serve_pending_drains [of ?u dops] s1(4) by (auto simp: wq_upd_def)
  have "processWaiting dops s = Some (?u\<lparr>waitqPending := cb\<rparr>)"
    using sz pop sw cb unfolding processWaiting_def by (subst serve_pending.simps) (simp add: t_def case_prod_beta)
  moreover have "same_tables p s1 (?u\<lparr>waitqPending := cb\<rparr>)" by (simp add: same_tables_def wq_upd_def)
  moreover have "procs (?u\<lparr>waitqPending := cb\<rparr>) = procs s1" "pipes (?u\<lparr>waitqPending := cb\<rparr>) = pipes s1" by (simp_all add: wq_upd_def)
  ultimately show ?thesis using s1 wu same_tablesD(1) [of p s1 "?u\<lparr>waitqPending := cb\<rparr>"] by (intro exI [of _ "?u\<lparr>waitqPending := cb\<rparr>"]) simp
qed

text \<open>
  Process 0 waits for at most nine words of pipe 0, which holds two, to be stored at address 100; the
  notification for its file's node 7 is pending.
\<close>

definition resumable :: kst where
  "resumable = user_state\<lparr>
     procs := (\<lambda>_. zero_proc)(0 := zero_proc\<lparr>p_mmuSelector := 1, p_pid := 5, p_state := PROC_STATE_BLOCKED\<rparr>),
     waitq := (waitq user_state)(0 := \<lparr>wq_trigger = 7, wq_pid = 5, wq_type = WAITQ_TYPE_FILE, wq_scallStruct = 200, wq_fd = 0,
       wq_params = (\<lambda>k. if k = 1 then 100 else if k = 2 then 9 else 0)\<rparr>),
     waitqPending := cb_push (cb_create_static 200 (\<lambda>_. 0)) 7,
     pipes := (\<lambda>_. \<lparr>pf_used = 1, pf_readClosed = 0, pf_writeClosed = 0,
       pf_cb = foldl cb_push (cb_create_static 10 (\<lambda>_. 0)) [5, 6], pf_openedAs = Some 0\<rparr>),
     openFiles := zero_slots \<lparr>f_mode = 0, f_node = \<lparr>fn_dev = 0, fn_idx = 7\<rparr>, f_size = 1, f_pos = 0, f_device = 0x300,
       f_flags = S_IFCHR, f_refcnt = 1\<rparr>,
     devList := (\<lambda>_. \<lparr>dv_registered = 1, dv_write = Some Piper_write, dv_read = Some Piper_read, dv_open = Some Piper_open,
       dv_close = Some Piper_close, dv_ioctl = None\<rparr>)\<rparr>"

lemma resumable_parts:
  "cb_inv (waitqPending resumable)" "cb_list (waitqPending resumable) = [7]" "pipe_ok resumable 0" "pipe_data resumable 0 = [5, 6]"
  "user_space 0 resumable" "findProcByPid 5 resumable = Some 0" "pipe_file resumable 0 0" "pf_openedAs (pipes resumable 0) = Some 0"
proof -
  have q: "cb_inv (cb_create_static 200 (\<lambda>_. 0))" "cb_inv (cb_create_static 10 (\<lambda>_. 0))" by (rule cb_create_inv; simp)+
  have z: "cb_size (cb_create_static n (\<lambda>_. 0)) = 0" "cb_capacity (cb_create_static n (\<lambda>_. 0)) = n" for n
    by (simp_all add: cb_create_static_def)
  then have l: "cb_list (cb_create_static n (\<lambda>_. 0)) = []" for n by (simp flip: length_0_conv)
  have w: "waitqPending resumable = foldl cb_push (cb_create_static 200 (\<lambda>_. 0)) [7]" by (simp add: resumable_def)
  show "cb_inv (waitqPending resumable)" unfolding w by (rule cbq.invar_pushes [OF q(1)])
  show "cb_list (waitqPending resumable) = [7]" unfolding w using cbq.pushes_room [OF q(1), of "[7]"] by (simp add: z l)
  have p: "pf_cb (pipes resumable 0) = foldl cb_push (cb_create_static 10 (\<lambda>_. 0)) [5, 6]" by (simp add: resumable_def)
  show "pipe_ok resumable 0" unfolding pipe_ok_def p by (intro conjI cbq.invar_pushes [OF q(2)]) simp
  show "pipe_data resumable 0 = [5, 6]" unfolding p using cbq.pushes_room [OF q(2), of "[5, 6]"] by (simp add: z l)
  have t: "same_tables 0 user_state resumable" by (simp add: same_tables_def resumable_def user_state_def)
  show "user_space 0 resumable" using same_tablesD(2) [OF t] user_space_user_state by simp
  show "findProcByPid 5 resumable = Some 0" by (simp add: findProcByPid_def resumable_def)
  show "pipe_file resumable 0 0" "pf_openedAs (pipes resumable 0) = Some 0"
    by (simp_all add: pipe_file_def resumable_def file_at_def zero_slots_def Let_def S_ISCHR_def S_ISBLK_def DEV_MAJOR_def dev_minor_def)
qed

theorem blocked_reader_resumed_witness:
  "\<exists>s'. processWaiting (\<lambda>_. ataGetDriver) resumable = Some s' \<and> p_state (procs s' 0) = PROC_STATE_RUN \<and>
     umem 0 s' 100 = 5 \<and> umem 0 s' 101 = 6 \<and> umem 0 s' 202 = 2"
proof -
  note r = resumable_parts
  have w: "waitq resumable 0 = \<lparr>wq_trigger = 7, wq_pid = 5, wq_type = WAITQ_TYPE_FILE, wq_scallStruct = 200, wq_fd = 0,
      wq_params = (\<lambda>k. if k = 1 then 100 else if k = 2 then 9 else 0)\<rparr>" by (simp add: resumable_def)
  have o: "wq_type (waitq resumable j) = 0" if "j \<noteq> 0" for j using that by (simp add: resumable_def user_state_def)
  have u: "unat (0 :: u16) = 0" by simp
  have i: "waits_for 7 resumable 0" "\<And>j. waits_for 7 resumable j \<Longrightarrow> j = 0" using w o by auto
  have ws: "[5, 6] = take (unat (9 :: u16)) (pipe_data resumable (unat (0 :: u16)))" by (simp add: r)
  have p: "findProcByPid (wq_pid (waitq resumable 0)) resumable = Some 0" by (simp add: w r)
  have f: "pipe_file resumable (wq_fd (waitq resumable 0)) 0" "pipe_ok resumable (unat (0 :: u16))"
    "pf_openedAs (pipes resumable (unat (0 :: u16))) = Some 0" by (simp_all add: w r)
  show ?thesis
    using blocked_reader_resumed [OF r(1,2) _ i(1) _ _ _ _ _ p r(5) f ws, of "\<lambda>_. ataGetDriver"] i(2) w by auto
qed

end
