(* ===== verification/Cow.thy ===== *)
theory Cow
  imports Memory Exec
begin

text \<open>
  Copy on write.  The entries of the page tables of the selectors in use and the reference counts of
  frames satisfy \<open>cow_inv\<close>; under it \<^verbatim>\<open>fork\<close>, which only shares frames, and writes, which copy a shared
  frame first, are indistinguishable from a fork that copies all pages at once.
\<close>

section \<open>Table entries\<close>

type_synonym entry = "u16 \<times> u16 \<times> u16"

text \<open>The entries a process can have: 16 data pages and 128 code pages under a selector from 1 to 15.\<close>

definition ent_ok :: "entry \<Rightarrow> bool" where
  "ent_ok e = (case e of (sel, pg, c) \<Rightarrow> 0 < unat sel \<and> unat sel < 16 \<and>
     (c = 0 \<and> unat pg < 16 \<or> c = 1 \<and> unat pg < 128))"

definition cell :: "entry \<Rightarrow> nat" where
  "cell e = (case e of (sel, pg, c) \<Rightarrow> pte sel pg c)"

definition fr :: "entry \<Rightarrow> kst \<Rightarrow> u16" where
  "fr e s = hw_mmu s (cell e) AND MMU_TABLE_NO_FLAGS_MASK"

definition fl :: "entry \<Rightarrow> kst \<Rightarrow> u16" where
  "fl e s = drop_bit 13 (hw_mmu s (cell e) AND MMU_TABLE_FLAGS_MASK)"

lemma fr_fl: "mmu_read_table sel pg c s = fr (sel, pg, c) s" "mmu_read_table_flags sel pg c s = fl (sel, pg, c) s"
  by (simp_all add: fr_def fl_def cell_def mmu_tables)

lemma ent_ok_ix: "ent_ok (sel, pg, c) \<Longrightarrow> entry_ix sel pg c"
  by (auto simp: ent_ok_def entry_ix_def)

lemma cell_eq [simp]: "ent_ok e \<Longrightarrow> ent_ok e' \<Longrightarrow> cell e = cell e' \<longleftrightarrow> e = e'"
  using pte_inj ent_ok_ix by (cases e; cases e') (auto simp: cell_def)

lemma cell_window [simp]: "ent_ok e \<Longrightarrow> cell e \<noteq> pte 0 14 0" "ent_ok e \<Longrightarrow> cell e \<noteq> pte 0 15 0"
proof -
  have "entry_ix 0 14 0" "entry_ix 0 15 0" by (simp_all add: entry_ix_def)
  moreover assume "ent_ok e"
  ultimately show "cell e \<noteq> pte 0 14 0" "cell e \<noteq> pte 0 15 0"
    using pte_inj ent_ok_ix by (cases e; force simp: cell_def ent_ok_def)+
qed

lemma fin_entries [simp]: "finite (A :: entry set)"
  by simp

definition tabs :: "u16 set \<Rightarrow> entry set" where
  "tabs S = {e. fst e \<in> S \<and> ent_ok e}"

text \<open>The entries that name a frame.\<close>

definition users :: "u16 set \<Rightarrow> u16 \<Rightarrow> kst \<Rightarrow> entry set" where
  "users S f s = {e \<in> tabs S. fr e s = f}"


definition cow_inv :: "u16 set \<Rightarrow> kst \<Rightarrow> bool" where
  "cow_inv S s \<longleftrightarrow> (\<forall>e \<in> tabs S. fr e s \<noteq> FREE_PAGE_MARK \<longrightarrow> unat (fr e s) < pageMapSize \<and>
     unat (pageMap s (unat (fr e s))) = card (users S (fr e s) s) \<and>
     (fl e s = 0 \<and> card (users S (fr e s) s) = 1 \<or> fl e s = PAGE_FLAG_READ_ONLY))"

lemma cow_invD:
  assumes "cow_inv S s" "e \<in> tabs S" "fr e s \<noteq> FREE_PAGE_MARK"
  shows "unat (fr e s) < pageMapSize" "unat (pageMap s (unat (fr e s))) = card (users S (fr e s) s)"
    "fl e s = 0 \<and> card (users S (fr e s) s) = 1 \<or> fl e s = PAGE_FLAG_READ_ONLY"
  using assms unfolding cow_inv_def by blast+

lemma users_pos: "e \<in> tabs S \<Longrightarrow> 0 < card (users S (fr e s) s)"
  unfolding card_gt_0_iff using fin_entries by (blast intro: CollectI [of "\<lambda>d. d \<in> tabs S \<and> fr d s = fr e s" e, folded users_def])

text \<open>A frame that is not referenced is not mapped.\<close>

lemma free_unmapped: "cow_inv S s \<Longrightarrow> pageMap s (unat t) = 0 \<Longrightarrow> unat t < pageMapSize \<Longrightarrow> users S t s = {}"
  using cow_invD(2) [of S s] users_pos [of _ S s] by (auto simp: users_def) force

text \<open>The reference counts change as the numbers of entries that name the frames do.\<close>

definition balanced :: "u16 set \<Rightarrow> kst \<Rightarrow> kst \<Rightarrow> bool" where
  "balanced S s s' \<longleftrightarrow> (\<forall>f. unat f < pageMapSize \<longrightarrow>
     unat (pageMap s' (unat f)) + card (users S f s) = unat (pageMap s (unat f)) + card (users S f s'))"

lemma balanced_refl: "balanced S s s"
  by (simp add: balanced_def)

lemma balanced_trans: "balanced S s t \<Longrightarrow> balanced S t u \<Longrightarrow> balanced S s u"
  unfolding balanced_def
proof (intro allI impI)
  fix f :: u16 assume "unat f < pageMapSize"
  moreover assume "\<forall>f. unat f < pageMapSize \<longrightarrow> unat (pageMap t (unat f)) + card (users S f s) = unat (pageMap s (unat f)) + card (users S f t)"
    "\<forall>f. unat f < pageMapSize \<longrightarrow> unat (pageMap u (unat f)) + card (users S f t) = unat (pageMap t (unat f)) + card (users S f u)"
  ultimately have "unat (pageMap t (unat f)) + card (users S f s) = unat (pageMap s (unat f)) + card (users S f t)"
    "unat (pageMap u (unat f)) + card (users S f t) = unat (pageMap t (unat f)) + card (users S f u)" by blast+
  then show "unat (pageMap u (unat f)) + card (users S f s) = unat (pageMap s (unat f)) + card (users S f u)" by linarith
qed

lemma balanced_same: "pageMap s' = pageMap s \<Longrightarrow> (\<And>f. users S f s' = users S f s) \<Longrightarrow> balanced S s s'"
  by (simp add: balanced_def)

lemma unat_dec: "x \<noteq> 0 \<Longrightarrow> Suc (unat (x - 1 :: u16)) = unat x"
  using unat_gt_0 [of x] by (simp add: unat_sub_if_size)

section \<open>Writing to a shared page\<close>

text \<open>The pages of a table as the process sees them.\<close>

definition pages :: "kst \<Rightarrow> entry \<Rightarrow> u16 list option" where
  "pages s e = (if fr e s = FREE_PAGE_MARK then None else Some (slice (hw_ram s (unat (fr e s))) 0 4096))"

text \<open>What a page fault on entry \<open>e\<close> with a new frame \<open>t\<close> does to the tables, counts and memory.\<close>

definition moved :: "entry \<Rightarrow> u16 \<Rightarrow> kst \<Rightarrow> kst \<Rightarrow> bool" where
  "moved e t s s' \<longleftrightarrow>
     (\<forall>d. ent_ok d \<longrightarrow> fr d s' = (if d = e then t else fr d s) \<and> fl d s' = (if d = e then 0 else fl d s)) \<and>
     pageMap s' = (pageMap s)(unat (fr e s) := pageMap s (unat (fr e s)) - 1, unat t := 1) \<and>
     hw_ram s' = (hw_ram s)(unat t := blit (hw_ram s (unat t)) 0 (slice (hw_ram s (unat (fr e s))) 0 4096))"

lemma movedD:
  assumes "moved e t s s'"
  shows "ent_ok d \<Longrightarrow> fr d s' = (if d = e then t else fr d s)" "ent_ok d \<Longrightarrow> fl d s' = (if d = e then 0 else fl d s)"
    "pageMap s' = (pageMap s)(unat (fr e s) := pageMap s (unat (fr e s)) - 1, unat t := 1)"
    "hw_ram s' = (hw_ram s)(unat t := blit (hw_ram s (unat t)) 0 (slice (hw_ram s (unat (fr e s))) 0 4096))"
  using assms unfolding moved_def by blast+

lemma tabs_ok: "e \<in> tabs S \<Longrightarrow> ent_ok e"
  by (simp add: tabs_def)

lemma moved_users:
  assumes "moved e t s s'" "e \<in> tabs S" "users S t s = {}"
  shows "users S f s' = (if f = t then {e} else users S f s - {e})"
proof -
  have t: "fr d s \<noteq> t" if "d \<in> tabs S" for d using assms(3) that unfolding users_def by blast
  have "d \<in> users S f s' \<longleftrightarrow> d \<in> (if f = t then {e} else users S f s - {e})" for d
    using movedD(1) [OF assms(1), of d] t [of d] assms(2) tabs_ok [of d S] by (cases "d = e") (auto simp: users_def)
  then show ?thesis by blast
qed

lemma moved_inv:
  assumes m: "moved e t s s'" and inv: "cow_inv S s" and e: "e \<in> tabs S" "fr e s \<noteq> FREE_PAGE_MARK"
    and t: "pageMap s (unat t) = 0" "unat t < pageMapSize"
  shows "cow_inv S s'"
  unfolding cow_inv_def
proof (intro ballI impI)
  fix d assume d: "d \<in> tabs S" "fr d s' \<noteq> FREE_PAGE_MARK"
  have ut: "users S t s = {}" by (rule free_unmapped [OF inv t])
  note us = moved_users [OF m e(1) ut]
  have ok: "ent_ok d" "ent_ok e" using d(1) e(1) by (simp_all add: tabs_def)
  show "unat (fr d s') < pageMapSize \<and> unat (pageMap s' (unat (fr d s'))) = card (users S (fr d s') s') \<and>
     (fl d s' = 0 \<and> card (users S (fr d s') s') = 1 \<or> fl d s' = PAGE_FLAG_READ_ONLY)"
  proof (cases "d = e")
    case True
    then show ?thesis using movedD [OF m] ok t us by simp
  next
    case False
    then have f: "fr d s' = fr d s" "fl d s' = fl d s" using movedD [OF m] ok by simp_all
    have nt: "fr d s \<noteq> t" using ut d(1) unfolding users_def by blast
    then have nt': "unat (fr d s) \<noteq> unat t" by (simp add: word_unat_eq_iff)
    have du: "d \<in> users S (fr d s) s" using d(1) by (simp add: users_def)
    note iv = cow_invD [OF inv d(1) d(2) [unfolded f]]
    show ?thesis
    proof (cases "fr d s = fr e s")
      case True
      then have eu: "e \<in> users S (fr d s) s" using e(1) by (simp add: users_def)
      have "card {d, e} \<le> card (users S (fr d s) s)" using du eu by (intro card_mono) auto
      then have two: "2 \<le> card (users S (fr d s) s)" using False by simp
      have "pageMap s (unat (fr d s)) \<noteq> 0" using iv(2) two by (metis unat_0 not_numeral_le_zero)
      then have "unat (pageMap s (unat (fr d s)) - 1) = card (users S (fr d s) s) - 1"
        using iv(2) by (simp add: unat_minus_one)
      then show ?thesis using two iv f us nt nt' True movedD(3) [OF m] eu
        by (auto simp: card_Diff_singleton)
    next
      case False2: False
      then have "e \<notin> users S (fr d s) s" by (simp add: users_def)
      moreover have "unat (fr d s) \<noteq> unat (fr e s)" using False2 by (simp add: word_unat_eq_iff)
      ultimately show ?thesis using iv f us nt nt' movedD(3) [OF m] by simp
    qed
  qed
qed

lemma slice_copy: "slice (blit b 0 (slice d 0 n)) 0 n = slice d 0 n"
  using slice_blit [of b 0 "slice d 0 n"] by simp

lemma moved_pages:
  assumes m: "moved e t s s'" and e: "e \<in> tabs S" "fr e s \<noteq> FREE_PAGE_MARK" and u: "users S t s = {}"
    and t: "unat t < pageMapSize" and d: "d \<in> tabs S"
  shows "pages s' d = pages s d"
proof (cases "d = e")
  case True
  have "t \<noteq> FREE_PAGE_MARK" using t by auto
  then show ?thesis using True movedD [OF m] tabs_ok [OF d] e(2) by (simp add: pages_def slice_copy)
next
  case False
  have "fr d s \<noteq> t" using u d unfolding users_def by blast
  then have "unat (fr d s) \<noteq> unat t" by (simp add: word_unat_eq_iff)
  then show ?thesis using False movedD [OF m] tabs_ok [OF d] by (simp add: pages_def)
qed

text \<open>The two outcomes of a write access.\<close>

lemma fr_upd:
  "ent_ok d \<Longrightarrow> ent_ok e \<Longrightarrow> fr d (s\<lparr>hw_mmu := (hw_mmu s)(cell e := v)\<rparr>) = (if d = e then v AND MMU_TABLE_NO_FLAGS_MASK else fr d s)"
  "ent_ok d \<Longrightarrow> ent_ok e \<Longrightarrow> fl d (s\<lparr>hw_mmu := (hw_mmu s)(cell e := v)\<rparr>) =
     (if d = e then drop_bit 13 (v AND MMU_TABLE_FLAGS_MASK) else fl d s)"
  by (simp_all add: fr_def fl_def)

text \<open>Only the reference count and the flag of the last user of a frame change when it is written.\<close>

definition cleared :: "entry \<Rightarrow> kst \<Rightarrow> kst" where
  "cleared e s = s\<lparr>hw_mmu := (hw_mmu s)(cell e := hw_mmu s (cell e) AND MMU_TABLE_NO_FLAGS_MASK)\<rparr>"

lemma and_masks: "(v AND MMU_TABLE_NO_FLAGS_MASK) AND MMU_TABLE_NO_FLAGS_MASK = (v :: u16) AND MMU_TABLE_NO_FLAGS_MASK"
  "drop_bit 13 ((v AND MMU_TABLE_NO_FLAGS_MASK) AND MMU_TABLE_FLAGS_MASK) = 0"
  using table_entry_parts(1,2) [of v 0] by simp_all

lemma cleared_entries:
  "ent_ok d \<Longrightarrow> ent_ok e \<Longrightarrow> fr d (cleared e s) = fr d s"
  "ent_ok d \<Longrightarrow> ent_ok e \<Longrightarrow> fl d (cleared e s) = (if d = e then 0 else fl d s)"
  by (simp_all only: cleared_def fr_upd and_masks) (simp add: fr_def)

lemma cleared_inv:
  assumes inv: "cow_inv S s" and e: "e \<in> tabs S" and one: "card (users S (fr e s) s) = 1"
  shows "cow_inv S (cleared e s)"
proof -
  have f: "fr d (cleared e s) = fr d s" "fl d (cleared e s) = (if d = e then 0 else fl d s)" if "d \<in> tabs S" for d
    using cleared_entries tabs_ok [OF that] tabs_ok [OF e] by simp_all
  have u: "users S g (cleared e s) = users S g s" for g using f(1) by (auto simp: users_def simp del: split_paired_Ex)
  have pm: "pageMap (cleared e s) = pageMap s" by (simp add: cleared_def)
  show ?thesis
    unfolding cow_inv_def
  proof (intro ballI impI)
    fix d assume d: "d \<in> tabs S" "fr d (cleared e s) \<noteq> FREE_PAGE_MARK"
    show "unat (fr d (cleared e s)) < pageMapSize \<and>
       unat (pageMap (cleared e s) (unat (fr d (cleared e s)))) = card (users S (fr d (cleared e s)) (cleared e s)) \<and>
       (fl d (cleared e s) = 0 \<and> card (users S (fr d (cleared e s)) (cleared e s)) = 1 \<or>
        fl d (cleared e s) = PAGE_FLAG_READ_ONLY)"
      using cow_invD [OF inv d(1)] d f [OF d(1)] u pm one by auto
  qed
qed

lemma cleared_pages: "d \<in> tabs S \<Longrightarrow> e \<in> tabs S \<Longrightarrow> pages (cleared e s) d = pages s d"
  using tabs_ok [of d S] tabs_ok [of e S] by (simp add: pages_def cleared_entries) (simp add: cleared_def)

text \<open>The number of frames not referenced.\<close>

definition free_frames :: "kst \<Rightarrow> nat" where
  "free_frames s = card {i. i < pageMapSize \<and> pageMap s i = 0}"

lemma free_frames_cong: "pageMap s = pageMap s' \<Longrightarrow> free_frames s = free_frames s'"
  by (simp add: free_frames_def)

lemma free_frames_take:
  assumes "\<And>i. i < pageMapSize \<Longrightarrow> pageMap s i = 0 \<Longrightarrow> i \<noteq> t \<Longrightarrow> pageMap s' i = 0"
  shows "free_frames s \<le> Suc (free_frames s')"
proof -
  let ?A = "\<lambda>s. {i. i < pageMapSize \<and> pageMap s i = 0}"
  have "card (?A s) \<le> card (insert t (?A s'))" using assms by (intro card_mono) auto
  also have "\<dots> \<le> Suc (card (?A s'))" by (simp add: card_insert_if)
  finally show ?thesis by (simp add: free_frames_def)
qed

lemma free_frames_some: "0 < free_frames s \<Longrightarrow> mmu_get_free_page s \<noteq> None"
proof
  assume c: "0 < free_frames s" and "mmu_get_free_page s = None"
  then have n: "scan (\<lambda>i. pageMap s i = 0) 0 pageMapSize = None" unfolding mmu_get_free_page_def by blast
  have e: "{i. i < pageMapSize \<and> pageMap s i = 0} = {}" using n [unfolded scan_None] by blast
  show False using c unfolding free_frames_def e by simp
qed

text \<open>What the operations here leave alone.\<close>

definition kept :: "kst \<Rightarrow> kst \<Rightarrow> bool" where
  "kept s s' \<longleftrightarrow> procs s' = procs s \<and> enable_copy_on_write s' = enable_copy_on_write s"

lemma free_page_dec:
  assumes "1 < pageMap s (unat f)"
  shows "mmu_get_free_page (s\<lparr>pageMap := (pageMap s)(unat f := pageMap s (unat f) - 1)\<rparr>) = mmu_get_free_page s"
proof -
  have "pageMap s (unat f) - 1 \<noteq> 0" "pageMap s (unat f) \<noteq> 0" using assms by auto
  then have "(\<lambda>i. pageMap (s\<lparr>pageMap := (pageMap s)(unat f := pageMap s (unat f) - 1)\<rparr>) i = 0) = (\<lambda>i. pageMap s i = 0)"
    by (intro ext) (simp split: if_split)
  then show ?thesis by (simp only: mmu_get_free_page_def)
qed

lemma mmu_get_free_pageD:
  "mmu_get_free_page s = Some t \<Longrightarrow> pageMap s (unat t) = 0 \<and> unat t < pageMapSize"
proof -
  assume "mmu_get_free_page s = Some t"
  then obtain j where "scan (\<lambda>i. pageMap s i = 0) 0 pageMapSize = Some j" "t = of_nat j"
    unfolding mmu_get_free_page_def by blast
  then show ?thesis using scan_SomeD [of "\<lambda>i. pageMap s i = 0" 0 pageMapSize j] by (simp del: scan_numeral)
qed

text \<open>The state after a fault that takes the frame \<open>t\<close>.\<close>

definition copied :: "entry \<Rightarrow> u16 \<Rightarrow> kst \<Rightarrow> kst" where
  "copied e t s = s\<lparr>
     hw_mmu := (hw_mmu s)(cell e := t AND MMU_TABLE_NO_FLAGS_MASK, pte 0 14 0 := fr e s, pte 0 15 0 := t),
     pageMap := (pageMap s)(unat (fr e s) := pageMap s (unat (fr e s)) - 1, unat t := 1),
     hw_ram := (hw_ram s)(unat t := blit (hw_ram s (unat t)) 0 (slice (hw_ram s (unat (fr e s))) 0 4096))\<rparr>"

lemma frame_mask: "unat (t :: u16) < 4096 \<Longrightarrow> t AND MMU_TABLE_NO_FLAGS_MASK = t"
proof -
  assume "unat t < 4096"
  then have "take_bit 13 (unat t) = unat t" by (simp add: take_bit_nat_eq_self_iff)
  then have "take_bit 13 t = t" by (simp only: word_unat_eq_iff unsigned_take_bit_eq)
  then show ?thesis unfolding flag_masks by (simp add: take_bit_eq_mask)
qed

lemma copied_moved:
  assumes "ent_ok e" "unat t < pageMapSize"
  shows "moved e t s (copied e t s)"
proof -
  note t = frame_mask [OF assms(2)]
  have "fr d (copied e t s) = (if d = e then t else fr d s) \<and> fl d (copied e t s) = (if d = e then 0 else fl d s)"
    if "ent_ok d" for d
    using that assms(1) t and_masks [of t] by (simp add: fr_def fl_def copied_def)
  then show ?thesis by (simp add: moved_def) (simp add: copied_def)
qed

lemma pte_windows: "pte 0 14 0 \<noteq> pte 0 15 0"
  using pte_inj [of 0 14 0 0 15 0] by (simp add: entry_ix_def)

lemma check_and_fix_write:
  assumes inv: "cow_inv S s" and e: "e = (p_mmuSelector (procs s p), pg, 0)" "e \<in> tabs S" "fr e s \<noteq> FREE_PAGE_MARK"
  shows "check_and_fix_page p pg 0 True s =
    (if fl e s = 0 then Some (False, s)
     else if card (users S (fr e s) s) = 1 then Some (False, cleared e s)
     else map_option (\<lambda>t. (True, copied e t s)) (mmu_get_free_page s))"
proof -
  note iv = cow_invD [OF inv e(2,3)]
  define f where "f = fr e s"
  have ok: "ent_ok e" using e(2) by (rule tabs_ok)
  have ref: "mmu_get_page_refcnt f s = Some (pageMap s (unat f))"
    using iv(1) by (simp add: mmu_get_page_refcnt_def f_def)
  have cnt: "1 < pageMap s (unat f) \<longleftrightarrow> card (users S f s) \<noteq> 1"
    using iv(2) users_pos [OF e(2), of s] unfolding f_def by (simp add: word_less_nat_alt) linarith
  have dec: "mmu_dec_page_refcnt f s = Some (s\<lparr>pageMap := (pageMap s)(unat f := pageMap s (unat f) - 1)\<rparr>)"
    using iv(1) by (simp add: mmu_dec_page_refcnt_def page_upd_def f_def)
  have flags: "mmu_write_table_flags (p_mmuSelector (procs s p)) pg 0 0 s = cleared e s"
    by (simp add: mmu_tables cleared_def cell_def e(1))
  show ?thesis
  proof (cases "1 < pageMap s (unat f)")
    case True
    have cp: "mmu_write_table_flags (p_mmuSelector (procs s p)) pg 0 0
        (mmu_copy_pages f t 0 14 15 (mmu_write_table (p_mmuSelector (procs s p)) pg 0 t
          (s\<lparr>pageMap := (pageMap s)(unat f := pageMap s (unat f) - 1, unat t := 1)\<rparr>))) = copied e t s"
      if "unat t < pageMapSize" for t
    proof -
      have fm: "f AND MMU_TABLE_NO_FLAGS_MASK = f" using frame_mask iv(1) f_def by simp
      have c: "pte (p_mmuSelector (procs s p)) pg 0 = cell e" by (simp add: cell_def e(1))
      show ?thesis
        using cell_window [OF ok] pte_windows frame_mask [OF that] fm
        by (simp add: mmu_tables mmu_copy_pages_def ram_upd_def frame_of_def copied_def c f_def fun_upd_twist [of _ "cell e"] Let_def)
    qed
    show ?thesis
      using True cnt iv(3) flags
      by (cases "mmu_get_free_page s")
        (auto simp: check_and_fix_page_def fr_fl e(1)[symmetric] f_def[symmetric] ref dec free_page_dec
          mmu_mark_page_def page_upd_def cp dest!: mmu_get_free_pageD)
  next
    case False
    then show ?thesis
      using cnt iv(3) flags by (auto simp: check_and_fix_page_def fr_fl e(1)[symmetric] f_def[symmetric] ref)
  qed
qed

lemma moved_balanced:
  assumes m: "moved e t s s'" and inv: "cow_inv S s" and e: "e \<in> tabs S" "fr e s \<noteq> FREE_PAGE_MARK"
    and t: "pageMap s (unat t) = 0" "unat t < pageMapSize"
  shows "balanced S s s'"
  unfolding balanced_def
proof (intro allI impI)
  fix f :: u16 assume "unat f < pageMapSize"
  have u: "users S t s = {}" by (rule free_unmapped [OF inv t])
  have z: "pageMap s (unat (fr e s)) \<noteq> 0"
    using cow_invD(2) [OF inv e] users_pos [OF e(1), of s] by (metis less_irrefl unat_0)
  have et: "e \<in> users S (fr e s) s" "fr e s \<noteq> t" using e(1) u unfolding users_def by blast+
  have c: "card (users S (fr e s) s) = Suc (card (users S (fr e s) s - {e}))" using et(1) by (metis card_Suc_Diff1 fin_entries)
  have o: "f \<noteq> fr e s \<Longrightarrow> e \<notin> users S f s" by (simp add: users_def)
  note us = moved_users [OF m e(1) u, of f]
  have pm: "pageMap s' = (pageMap s)(unat (fr e s) := pageMap s (unat (fr e s)) - 1, unat t := 1)" by (rule movedD(3) [OF m])
  consider "f = t" | "f = fr e s" "f \<noteq> t" | "f \<noteq> fr e s" "f \<noteq> t" by blast
  then show "unat (pageMap s' (unat f)) + card (users S f s) = unat (pageMap s (unat f)) + card (users S f s')"
  proof cases
    case 1
    then show ?thesis using us u t(1) by (simp add: pm)
  next
    case 2
    then have "unat f \<noteq> unat t" by (simp add: word_unat_eq_iff)
    then have "pageMap s' (unat f) = pageMap s (unat f) - 1" using 2 by (simp add: pm)
    moreover have "users S f s' = users S f s - {e}" using us 2 by simp
    ultimately show ?thesis using c unat_dec [OF z] 2(1) by (simp only:)
  next
    case 3
    then have "unat f \<noteq> unat t" "unat f \<noteq> unat (fr e s)" by (simp_all add: word_unat_eq_iff)
    then have "pageMap s' (unat f) = pageMap s (unat f)" by (simp add: pm)
    moreover have "users S f s' = users S f s" using us 3(2) o [OF 3(1)] by simp
    ultimately show ?thesis by simp
  qed
qed

lemma cleared_balanced: "e \<in> tabs S \<Longrightarrow> balanced S s (cleared e s)"
proof (rule balanced_same)
  assume e: "e \<in> tabs S"
  show "users S f (cleared e s) = users S f s" for f
    unfolding users_def by (rule Collect_cong) (metis tabs_ok cleared_entries(1) e)
qed (simp add: cleared_def)

lemma fixed_page:
  assumes inv: "cow_inv S s" and e: "e = (p_mmuSelector (procs s p), pg, 0)" "e \<in> tabs S" "fr e s \<noteq> FREE_PAGE_MARK"
    and c: "check_and_fix_page p pg 0 True s = Some (r, s')"
  shows "cow_inv S s'" "fl e s' = 0" "fr e s' \<noteq> FREE_PAGE_MARK" "kept s s'" "\<forall>d \<in> tabs S. pages s' d = pages s d"
    "free_frames s \<le> Suc (free_frames s')" "balanced S s s'"
proof -
  have ok: "ent_ok e" using e(2) by (rule tabs_ok)
  note c' = c [unfolded check_and_fix_write [OF inv e]]
  have "cow_inv S s' \<and> fl e s' = 0 \<and> fr e s' \<noteq> FREE_PAGE_MARK \<and> kept s s' \<and> (\<forall>d \<in> tabs S. pages s' d = pages s d) \<and>
      free_frames s \<le> Suc (free_frames s') \<and> balanced S s s'"
  proof (cases "fl e s = 0")
    case True
    then show ?thesis using c' inv e(3) by (simp add: kept_def balanced_refl)
  next
    case ro: False
    show ?thesis
    proof (cases "card (users S (fr e s) s) = 1")
      case True
      then have "s' = cleared e s" using c' ro by simp
      then show ?thesis using cleared_inv [OF inv e(2) True] cleared_entries [OF ok ok] e(3) cleared_pages e(2)
          free_frames_cong [of "cleared e s" s] cleared_balanced [OF e(2)]
        by (simp add: kept_def) (simp add: cleared_def)
    next
      case False
      then obtain t where t: "mmu_get_free_page s = Some t" "s' = copied e t s" using c' ro by auto
      note tt = mmu_get_free_pageD [OF t(1)]
      have m: "moved e t s s'" unfolding t(2) by (rule copied_moved [OF ok]) (use tt in blast)
      have u: "users S t s = {}" by (rule free_unmapped [OF inv]) (use tt in blast)+
      have "t \<noteq> FREE_PAGE_MARK" using tt by auto
      moreover have "pageMap s (unat (fr e s)) \<noteq> 0"
        using cow_invD(2) [OF inv e(2,3)] users_pos [OF e(2), of s] by (metis less_irrefl unat_0)
      then have "free_frames s \<le> Suc (free_frames s')"
        by (intro free_frames_take [of _ "unat t"]) (auto simp: movedD(3) [OF m])
      moreover have "balanced S s s'" by (rule moved_balanced [OF m inv e(2,3)]) (use tt in blast)+
      ultimately show ?thesis
        using moved_inv [OF m inv e(2,3)] moved_pages [OF m e(2,3) u] tt movedD(1,2) [OF m ok]
        by (simp add: kept_def) (simp add: t(2) copied_def)
    qed
  qed
  then show "cow_inv S s'" "fl e s' = 0" "fr e s' \<noteq> FREE_PAGE_MARK" "kept s s'" "\<forall>d \<in> tabs S. pages s' d = pages s d"
    "free_frames s \<le> Suc (free_frames s')" "balanced S s s'"
    by blast+
qed

text \<open>A word stored through the kernel's window.\<close>

definition stored :: "entry \<Rightarrow> nat \<Rightarrow> u16 \<Rightarrow> kst \<Rightarrow> kst" where
  "stored e off v s = s\<lparr>hw_mmu := (hw_mmu s)(pte 0 14 0 := fr e s),
     hw_ram := (hw_ram s)(unat (fr e s) := (hw_ram s (unat (fr e s)))(off := v))\<rparr>"

lemma stored_entries [simp]:
  "ent_ok d \<Longrightarrow> fr d (stored e off v s) = fr d s" "ent_ok d \<Longrightarrow> fl d (stored e off v s) = fl d s"
  "pageMap (stored e off v s) = pageMap s"
  by (simp_all add: fr_def fl_def stored_def)

lemma users_stored [simp]: "users S f (stored e off v s) = users S f s"
  unfolding users_def by (rule Collect_cong) (metis tabs_ok stored_entries(1))

lemma stored_inv [simp]: "cow_inv S (stored e off v s) = cow_inv S s"
  unfolding cow_inv_def using tabs_ok [of _ S] by (simp cong: ball_cong)

lemma slice_upd: "off < n \<Longrightarrow> slice (b(off := v)) 0 n = (slice b 0 n)[off := v]"
  by (rule nth_equalityI) (auto simp: nth_list_update)

lemma page_offset_less: "page_offset a < 4096"
proof -
  have m: "(0xfff :: u16) = mask 12" by (simp add: mask_eq_exp_minus_1)
  have "unat (take_bit 12 a) < 2 ^ 12" unfolding unsigned_take_bit_eq by (rule take_bit_nat_less_exp)
  then show ?thesis unfolding page_offset_def m take_bit_eq_mask by simp
qed

lemma stored_pages:
  assumes inv: "cow_inv S s" and e: "e \<in> tabs S" "fr e s \<noteq> FREE_PAGE_MARK" "fl e s = 0" and d: "d \<in> tabs S" and "off < 4096"
  shows "pages (stored e off v s) d = (if d = e then Some ((the (pages s e))[off := v]) else pages s d)"
proof (cases "d = e")
  case True
  then show ?thesis using e tabs_ok [OF e(1)] slice_upd [OF assms(6)] by (simp add: pages_def) (simp add: stored_def)
next
  case False
  have "card (users S (fr e s) s) = 1" using cow_invD(3) [OF inv e(1,2)] e(3) by simp
  then obtain x where x: "users S (fr e s) s = {x}" by (auto simp: card_1_singleton_iff simp del: split_paired_Ex)
  have "e \<in> users S (fr e s) s" using e(1) by (simp add: users_def)
  then have "d \<notin> users S (fr e s) s" using x False by (simp del: split_paired_Ex)
  then have "fr d s \<noteq> fr e s" using d unfolding users_def by blast
  then have "unat (fr d s) \<noteq> unat (fr e s)" by (simp add: word_unat_eq_iff)
  then show ?thesis using False tabs_ok [OF d] by (simp add: pages_def) (simp add: stored_def)
qed

lemma uputc_cow:
  assumes inv: "cow_inv S s" and e: "e = (p_mmuSelector (procs s p), drop_bit 12 a, 0)" "e \<in> tabs S" "fr e s \<noteq> FREE_PAGE_MARK"
  shows "uputc p a 0 14 v s = None \<longleftrightarrow>
      fl e s \<noteq> 0 \<and> card (users S (fr e s) s) \<noteq> 1 \<and> mmu_get_free_page s = None"
    and "uputc p a 0 14 v s = Some s' \<Longrightarrow> cow_inv S s' \<and> kept s s' \<and>
      (\<forall>d \<in> tabs S. pages s' d = (if d = e then Some ((the (pages s e))[page_offset a := v]) else pages s d)) \<and>
      free_frames s \<le> Suc (free_frames s') \<and> balanced S s s'"
proof -
  show "uputc p a 0 14 v s = None \<longleftrightarrow>
      fl e s \<noteq> 0 \<and> card (users S (fr e s) s) \<noteq> 1 \<and> mmu_get_free_page s = None"
    unfolding uputc_def map_user_def check_and_fix_write [OF inv e]
    by (cases "mmu_get_free_page s") simp_all
  assume "uputc p a 0 14 v s = Some s'"
  then obtain r s1 where c: "check_and_fix_page p (drop_bit 12 a) 0 True s = Some (r, s1)"
    "s' = win_put 14 (page_offset a) v (mmu_write_table 0 14 0 (getPage p a s1) s1)"
    unfolding uputc_def map_user_def by (auto simp: kmonad)
  note f = fixed_page [OF inv e c(1)]
  have "getPage p a s1 = fr e s1" using f(4) e(1) by (simp add: getPage_def fr_fl kept_def)
  moreover have "fr e s1 AND MMU_TABLE_NO_FLAGS_MASK = fr e s1" by (simp add: fr_def and_masks)
  ultimately have s': "s' = stored e (page_offset a) v s1"
    unfolding c(2) by (simp add: win_put_def ram_upd_def frame_of_def mmu_tables stored_def)
  have b: "balanced S s1 (stored e (page_offset a) v s1)" by (rule balanced_same [OF stored_entries(3) users_stored])
  show "cow_inv S s' \<and> kept s s' \<and>
      (\<forall>d \<in> tabs S. pages s' d = (if d = e then Some ((the (pages s e))[page_offset a := v]) else pages s d)) \<and>
      free_frames s \<le> Suc (free_frames s') \<and> balanced S s s'"
    unfolding s' using balanced_trans [OF f(7) b] f stored_pages [OF f(1) e(2) f(3,2) _ page_offset_less] e(2)
      free_frames_cong [OF stored_entries(3), of e "page_offset a" v s1]
    by (simp add: kept_def) (simp add: stored_def)
qed

section \<open>Sharing pages in a fork\<close>

lemma card_word_less: "card {w :: u16. unat w < n} \<le> n"
  using card_inj_on_le [of unat "{w :: u16. unat w < n}" "{..<n}"] by (auto simp: inj_on_def word_unat_eq_iff)

lemma card_users_less: "card (users S f s) < 65535"
proof -
  have "users S f s \<subseteq> {w. unat w < 16} \<times> {w. unat w < 128} \<times> {w. unat w < 2}"
    by (auto simp: users_def tabs_def ent_ok_def)
  then have "card (users S f s) \<le> card ({w :: u16. unat w < 16} \<times> {w :: u16. unat w < 128} \<times> {w :: u16. unat w < 2})"
    by (intro card_mono) simp_all
  also have "\<dots> \<le> 16 * (128 * 2)"
    unfolding card_cartesian_product by (intro mult_le_mono card_word_less)
  finally show ?thesis by simp
qed

text \<open>Two entries share the frame of the first, both read-only, and the frame has one more user.\<close>

definition linked :: "entry \<Rightarrow> entry \<Rightarrow> kst \<Rightarrow> kst" where
  "linked e d s = s\<lparr>
     hw_mmu := (hw_mmu s)(cell d := fr e s OR push_bit 13 PAGE_FLAG_READ_ONLY, cell e := fr e s OR push_bit 13 PAGE_FLAG_READ_ONLY),
     pageMap := (pageMap s)(unat (fr e s) := pageMap s (unat (fr e s)) + 1)\<rparr>"

lemma or_masks: "(v AND MMU_TABLE_NO_FLAGS_MASK OR push_bit 13 PAGE_FLAG_READ_ONLY) AND MMU_TABLE_NO_FLAGS_MASK =
    (v :: u16) AND MMU_TABLE_NO_FLAGS_MASK"
  "drop_bit 13 ((v AND MMU_TABLE_NO_FLAGS_MASK OR push_bit 13 PAGE_FLAG_READ_ONLY) AND MMU_TABLE_FLAGS_MASK) = PAGE_FLAG_READ_ONLY"
  using table_entry_parts(1,2) [of v PAGE_FLAG_READ_ONLY] by simp_all

lemma linked_entries:
  assumes "ent_ok e" "ent_ok d" "ent_ok x"
  shows "fr x (linked e d s) = (if x = d then fr e s else fr x s)"
    "fl x (linked e d s) = (if x = d \<or> x = e then PAGE_FLAG_READ_ONLY else fl x s)"
  using assms or_masks [of "hw_mmu s (cell e)"] by (auto simp: fr_def fl_def linked_def)

lemma linked_inv:
  assumes inv: "cow_inv S s" and e: "e \<in> tabs S" "fr e s \<noteq> FREE_PAGE_MARK"
    and d: "d \<in> tabs S" "fr d s = FREE_PAGE_MARK"
  shows "cow_inv S (linked e d s)"
  unfolding cow_inv_def
proof (intro ballI impI)
  fix x assume x: "x \<in> tabs S" "fr x (linked e d s) \<noteq> FREE_PAGE_MARK"
  let ?s = "linked e d s"
  have f: "fr x ?s = (if x = d then fr e s else fr x s)"
    "fl x ?s = (if x = d \<or> x = e then PAGE_FLAG_READ_ONLY else fl x s)" if "x \<in> tabs S" for x
    using linked_entries [of e d x s] tabs_ok that e(1) d(1) by blast+
  have "users S g ?s = (if g = fr e s then insert d (users S g s) else users S g s)" if "g \<noteq> FREE_PAGE_MARK" for g
  proof -
    have "x \<in> users S g ?s \<longleftrightarrow> x \<in> (if g = fr e s then insert d (users S g s) else users S g s)" for x
      using f(1) [of x] d that by (cases "x = d") (auto simp: users_def)
    then show ?thesis by blast
  qed
  moreover have "d \<notin> users S (fr e s) s" using d e(2) by (simp add: users_def)
  ultimately have u: "card (users S g ?s) = (if g = fr e s then Suc (card (users S g s)) else card (users S g s))"
    if "g \<noteq> FREE_PAGE_MARK" for g using that by simp
  note iv = cow_invD [OF inv e]
  have pm: "unat (pageMap ?s (unat g)) = (if g = fr e s then Suc (card (users S (fr e s) s)) else unat (pageMap s (unat g)))" for g
  proof -
    have "unat (pageMap s (unat (fr e s)) + 1) = Suc (card (users S (fr e s) s))"
      using iv(2) card_users_less [of S "fr e s" s] by (simp add: unat_word_ariths)
    then show ?thesis by (simp add: linked_def word_unat_eq_iff)
  qed
  show "unat (fr x ?s) < pageMapSize \<and> unat (pageMap ?s (unat (fr x ?s))) = card (users S (fr x ?s) ?s) \<and>
     (fl x ?s = 0 \<and> card (users S (fr x ?s) ?s) = 1 \<or> fl x ?s = PAGE_FLAG_READ_ONLY)"
  proof (cases "x = d \<or> x = e")
    case True
    then show ?thesis using iv(1) f [OF x(1)] u pm e(2) d(1) by auto
  next
    case False
    note ix = cow_invD [OF inv x(1)]
    have nx: "fr x s \<noteq> FREE_PAGE_MARK" using x(2) f [OF x(1)] False by simp
    have two: "fl x s = PAGE_FLAG_READ_ONLY" if "fr x s = fr e s"
    proof -
      have "card {x, e} \<le> card (users S (fr x s) s)" using x(1) e(1) that by (intro card_mono) (auto simp: users_def)
      then show ?thesis using False ix(3) [OF nx] by auto
    qed
    show ?thesis using ix [OF nx] two f [OF x(1)] False u [OF nx] pm [of "fr x s"] by auto
  qed
qed

lemma linked_balanced:
  assumes inv: "cow_inv S s" and e: "e \<in> tabs S" "fr e s \<noteq> FREE_PAGE_MARK"
    and d: "d \<in> tabs S" "fr d s = FREE_PAGE_MARK"
  shows "balanced S s (linked e d s)"
  unfolding balanced_def
proof (intro allI impI)
  fix g :: u16 assume "unat g < pageMapSize"
  then have g: "g \<noteq> FREE_PAGE_MARK" by auto
  let ?s = "linked e d s"
  have f: "fr x ?s = (if x = d then fr e s else fr x s)" if "x \<in> tabs S" for x
    using linked_entries(1) [of e d x s] tabs_ok that e(1) d(1) by blast
  have "x \<in> users S g ?s \<longleftrightarrow> x \<in> (if g = fr e s then insert d (users S g s) else users S g s)" for x
    using f [of x] d g by (cases "x = d") (auto simp: users_def)
  then have u: "users S g ?s = (if g = fr e s then insert d (users S g s) else users S g s)" by blast
  have nd: "d \<notin> users S g s" using d(2) g by (simp add: users_def)
  have p: "unat (pageMap s (unat (fr e s)) + 1) = Suc (unat (pageMap s (unat (fr e s))))"
    using cow_invD(2) [OF inv e] card_users_less [of S "fr e s" s] by (simp add: unat_word_ariths)
  have pm: "pageMap ?s = (pageMap s)(unat (fr e s) := pageMap s (unat (fr e s)) + 1)" by (simp add: linked_def)
  show "unat (pageMap ?s (unat g)) + card (users S g s) = unat (pageMap s (unat g)) + card (users S g ?s)"
  proof (cases "g = fr e s")
    case True
    then show ?thesis using u nd p by (simp add: pm)
  next
    case False
    then have "unat g \<noteq> unat (fr e s)" by (simp add: word_unat_eq_iff)
    then show ?thesis using u False by (simp add: pm)
  qed
qed

lemma linked_pages:
  assumes "e \<in> tabs S" "d \<in> tabs S" "x \<in> tabs S"
  shows "pages (linked e d s) x = (if x = d then pages s e else pages s x)"
proof -
  have "hw_ram (linked e d s) = hw_ram s" by (simp add: linked_def)
  then show ?thesis using linked_entries(1) [of e d x s] tabs_ok assms by (cases "x = d") (simp_all add: pages_def)
qed

lemma linked_free:
  assumes "cow_inv S s" "e \<in> tabs S" "fr e s \<noteq> FREE_PAGE_MARK"
  shows "free_frames s \<le> free_frames (linked e d s)"
proof -
  have "pageMap s (unat (fr e s)) \<noteq> 0"
    using cow_invD(2) [OF assms] users_pos [OF assms(2), of s] by (metis less_irrefl unat_0)
  then show ?thesis unfolding free_frames_def by (intro card_mono) (auto simp: linked_def)
qed

lemma fr_pageMap [simp]: "fr e (s\<lparr>pageMap := m\<rparr>) = fr e s"
  by (simp add: fr_def)

text \<open>One step of the sharing loop.\<close>

lemma share_step:
  assumes inv: "cow_inv S s" and e: "e = (sel, pg, c)" "e \<in> tabs S" "fr e s \<noteq> FREE_PAGE_MARK"
    and d: "d = (new, pg, c)" "d \<in> tabs S" "d \<noteq> e"
  shows "map_option (\<lambda>s1. mmu_write_table_flags new pg c PAGE_FLAG_READ_ONLY
      (mmu_write_table_flags sel pg c PAGE_FLAG_READ_ONLY (mmu_write_table new pg c (fr e s) s1)))
      (mmu_inc_page_refcnt (fr e s) s) = Some (linked e d s)"
proof -
  have c: "pte sel pg c = cell e" "pte new pg c = cell d" by (simp_all add: cell_def e(1) d(1))
  have n: "cell d \<noteq> cell e" using d tabs_ok e(2) cell_eq by metis
  have m: "fr e s AND MMU_TABLE_NO_FLAGS_MASK = fr e s" by (simp add: fr_def and_masks)
  show ?thesis
    using cow_invD(1) [OF inv e(2,3)] n
    by (simp add: mmu_inc_page_refcnt_def page_upd_def mmu_tables c linked_def m fr_def[symmetric] fun_upd_twist [of "cell d" "cell e"])
qed

text \<open>The tables of a selector have no holes.\<close>

definition table_len :: "u16 \<Rightarrow> nat" where
  "table_len c = (if c = 0 then 16 else 128)"

definition gapless :: "(entry \<Rightarrow> 'a option) \<Rightarrow> u16 \<Rightarrow> u16 \<Rightarrow> bool" where
  "gapless m sel c \<longleftrightarrow> (\<forall>pg pg'. unat pg < table_len c \<and> unat pg' < unat pg \<and> m (sel, pg, c) \<noteq> None \<longrightarrow>
     m (sel, pg', c) \<noteq> None)"

lemma gapless_cong:
  assumes "\<And>p. unat p < table_len c \<Longrightarrow> m' (sel, p, c) = m (sel, p, c)" "gapless m sel c"
  shows "gapless m' sel c"
  unfolding gapless_def
proof (intro allI impI)
  fix pg pg' :: u16 assume a: "unat pg < table_len c \<and> unat pg' < unat pg \<and> m' (sel, pg, c) \<noteq> None"
  then have "unat pg' < table_len c" by (meson order_less_trans)
  then show "m' (sel, pg', c) \<noteq> None" using a assms(1) [of pg] assms(1) [of pg'] assms(2) unfolding gapless_def by metis
qed

lemma pages_None: "pages s e = None \<longleftrightarrow> fr e s = FREE_PAGE_MARK"
  by (simp add: pages_def)

lemma in_tabs: "sel \<in> S \<Longrightarrow> 0 < unat sel \<Longrightarrow> unat sel < 16 \<Longrightarrow> c = 0 \<or> c = 1 \<Longrightarrow> unat pg < table_len c \<Longrightarrow> (sel, pg, c) \<in> tabs S"
  by (auto simp: tabs_def ent_ok_def table_len_def)

text \<open>
  The two loops of \<^verbatim>\<open>do_fork\<close> over a table: each goes up to the first free entry, gives the new table's entry
  the contents of the old one's, and takes at most \<open>cost\<close> frames per page.
\<close>

locale page_loop =
  fixes loop :: "nat \<Rightarrow> nat \<Rightarrow> kst \<Rightarrow> kst option" and S :: "u16 set" and sel new c :: u16 and cost :: nat
  assumes loop_0: "loop n 0 s = Some s"
    and loop_end: "fr (sel, of_nat n, c) s = FREE_PAGE_MARK \<Longrightarrow> loop n (Suc k) s = Some s"
    and loop_step: "cow_inv S s \<Longrightarrow> (sel, of_nat n, c) \<in> tabs S \<Longrightarrow> (new, of_nat n, c) \<in> tabs S \<Longrightarrow> sel \<noteq> new \<Longrightarrow>
      fr (sel, of_nat n, c) s \<noteq> FREE_PAGE_MARK \<Longrightarrow> fr (new, of_nat n, c) s = FREE_PAGE_MARK \<Longrightarrow> cost \<le> free_frames s \<Longrightarrow>
      \<exists>s1. loop n (Suc k) s = loop (Suc n) k s1 \<and> cow_inv S s1 \<and> kept s s1 \<and> balanced S s s1 \<and> free_frames s \<le> free_frames s1 + cost \<and>
        (\<forall>x \<in> tabs S. pages s1 x = (if x = (new, of_nat n, c) then pages s (sel, of_nat n, c) else pages s x))"
begin

lemma loop_ok:
  assumes "cow_inv S s" "gapless (pages s) sel c" "n + k = table_len c" "c = 0 \<or> c = 1" "sel \<in> S" "new \<in> S" "sel \<noteq> new"
    "0 < unat sel" "unat sel < 16" "0 < unat new" "unat new < 16"
    "\<And>pg. n \<le> unat pg \<Longrightarrow> unat pg < table_len c \<Longrightarrow> pages s (new, pg, c) = None" "k * cost \<le> free_frames s"
  shows "\<exists>s'. loop n k s = Some s' \<and> cow_inv S s' \<and> kept s s' \<and> balanced S s s' \<and> free_frames s \<le> free_frames s' + k * cost \<and>
     (\<forall>x \<in> tabs S. pages s' x = (case x of (y, pg, b) \<Rightarrow>
        if y = new \<and> b = c \<and> n \<le> unat pg then pages s (sel, pg, c) else pages s x))"
  using assms
proof (induction k arbitrary: n s)
  case 0
  then have "unat pg < n" if "(y, pg, c) \<in> tabs S" for y pg
    using that by (auto simp: tabs_def ent_ok_def table_len_def)
  then show ?case using 0 by (force simp: kept_def loop_0 balanced_refl split: prod.split)
next
  case (Suc k)
  define pg where "pg = (of_nat n :: u16)"
  define e where "e = (sel, pg, c)"
  define d where "d = (new, pg, c)"
  have len: "n < table_len c" "table_len c \<le> 128" using Suc.prems(3) by (auto simp: table_len_def)
  then have pg: "unat pg = n" by (simp add: pg_def)
  have et: "e \<in> tabs S" "d \<in> tabs S" unfolding e_def d_def using Suc.prems len pg by (auto intro: in_tabs)
  show ?case
  proof (cases "fr e s = FREE_PAGE_MARK")
    case True
    then have r: "loop n (Suc k) s = Some s" by (simp add: loop_end e_def pg_def)
    have "pages s (sel, p, c) = pages s (new, p, c)" if p: "(new, p, c) \<in> tabs S" "n \<le> unat p" for p
    proof -
      have pl: "unat p < table_len c" using p(1) by (auto simp: tabs_def ent_ok_def table_len_def)
      have e0: "pages s (sel, pg, c) = None" using True by (simp add: pages_None e_def)
      have "p = pg \<or> unat pg < unat p" using p(2) pg by (auto simp: word_unat_eq_iff)
      then have "pages s (sel, p, c) = None" using Suc.prems(2) e0 pl unfolding gapless_def by blast
      then show ?thesis using Suc.prems(12) [OF p(2) pl] by simp
    qed
    then show ?thesis using r Suc.prems(1) by (auto simp: kept_def balanced_refl split: prod.split)
  next
    case False
    have df: "fr d s = FREE_PAGE_MARK" using Suc.prems(12) [of pg] pg len by (simp add: pages_None d_def)
    have cost: "cost \<le> free_frames s" using Suc.prems(13) by simp
    obtain t where t: "loop n (Suc k) s = loop (Suc n) k t" "cow_inv S t" "kept s t" "balanced S s t" "free_frames s \<le> free_frames t + cost"
      "\<forall>x \<in> tabs S. pages t x = (if x = d then pages s e else pages s x)"
      using loop_step [OF Suc.prems(1) et [unfolded e_def d_def pg_def] Suc.prems(7) False [unfolded e_def pg_def]
          df [unfolded d_def pg_def] cost, of k] unfolding e_def d_def pg_def by blast
    have p': "pages t x = (if x = d then pages s e else pages s x)" if "x \<in> tabs S" for x using t(6) that by blast
    have sp: "pages t (sel, p, c) = pages s (sel, p, c)" if "unat p < table_len c" for p
      using p' [of "(sel, p, c)"] in_tabs that Suc.prems(4,5,7,8,9) by (simp add: d_def)
    have g: "gapless (pages t) sel c" by (rule gapless_cong [OF sp Suc.prems(2)])
    have emp: "pages t (new, p, c) = None" if p: "Suc n \<le> unat p" "unat p < table_len c" for p
    proof -
      have "(new, p, c) \<noteq> d" using p(1) pg by (auto simp: d_def)
      then show ?thesis using p' [of "(new, p, c)"] in_tabs p Suc.prems(4,6,10,11,12) by simp
    qed
    have "k * cost \<le> free_frames t" using Suc.prems(13) t(5) by simp
    then obtain s' where s': "loop (Suc n) k t = Some s'" "cow_inv S s'" "kept t s'" "balanced S t s'" "free_frames t \<le> free_frames s' + k * cost"
      "\<forall>x \<in> tabs S. pages s' x = (case x of (y, q, b) \<Rightarrow>
        if y = new \<and> b = c \<and> Suc n \<le> unat q then pages t (sel, q, c) else pages t x)"
      using Suc.IH [where n = "Suc n", OF t(2) g _ Suc.prems(4-11) emp] Suc.prems(3) by auto
    have "kept s s'" using s'(3) t(3) by (simp add: kept_def)
    moreover have "balanced S s s'" by (rule balanced_trans [OF t(4) s'(4)])
    moreover have "free_frames s \<le> free_frames s' + Suc k * cost" using t(5) s'(5) by simp
    moreover have "pages s' x = (case x of (y, q, b) \<Rightarrow> if y = new \<and> b = c \<and> n \<le> unat q then pages s (sel, q, c) else pages s x)"
      if x: "x \<in> tabs S" for x
    proof -
      obtain y q b where xx: "x = (y, q, b)" by (cases x)
      have ql: "unat q < table_len b" using x by (auto simp: xx tabs_def ent_ok_def table_len_def)
      have q: "n \<le> unat q \<longleftrightarrow> q = pg \<or> Suc n \<le> unat q" using pg by (auto simp: word_unat_eq_iff)
      show ?thesis
        using s'(6) x p' [OF x] sp [of q] ql pg q unfolding xx d_def e_def by auto
    qed
    ultimately show ?thesis using t(1) s'(1,2) by auto
  qed
qed

end

interpretation share: page_loop "fork_share sel new c" S sel new c 0 for S sel new c
proof unfold_locales
  fix n k s
  show "fork_share sel new c n 0 s = Some s" by simp
  show "fr (sel, of_nat n, c) s = FREE_PAGE_MARK \<Longrightarrow> fork_share sel new c n (Suc k) s = Some s" by (simp add: fr_fl)
  let ?e = "(sel, of_nat n, c)" and ?d = "(new, of_nat n, c)"
  assume a: "cow_inv S s" "?e \<in> tabs S" "?d \<in> tabs S" "sel \<noteq> new" "fr ?e s \<noteq> FREE_PAGE_MARK" "fr ?d s = FREE_PAGE_MARK"
  have ne: "?d \<noteq> ?e" using a(4) by simp
  have "fork_share sel new c n (Suc k) s = fork_share sel new c (Suc n) k (linked ?e ?d s)"
    using share_step [OF a(1) refl a(2,5) refl a(3) ne] a(5) by (auto simp: fr_fl)
  moreover have "kept s (linked ?e ?d s)" by (simp add: kept_def linked_def)
  moreover have "free_frames s \<le> free_frames (linked ?e ?d s) + 0" using linked_free [OF a(1,2,5), of ?d] by simp
  ultimately show "\<exists>s1. fork_share sel new c n (Suc k) s = fork_share sel new c (Suc n) k s1 \<and> cow_inv S s1 \<and> kept s s1 \<and> balanced S s s1 \<and>
      free_frames s \<le> free_frames s1 + 0 \<and> (\<forall>x \<in> tabs S. pages s1 x = (if x = ?d then pages s ?e else pages s x))"
    using linked_inv [OF a(1,2,5,3,6)] linked_balanced [OF a(1,2,5,3,6)] linked_pages [OF a(2,3)] by blast
qed

section \<open>Copying pages in a fork\<close>

text \<open>An entry that was empty names the free frame \<open>t\<close>, whatever the frame holds afterwards.\<close>

definition fresh_entry :: "entry \<Rightarrow> u16 \<Rightarrow> kst \<Rightarrow> kst \<Rightarrow> bool" where
  "fresh_entry d t s s' \<longleftrightarrow>
     (\<forall>x. ent_ok x \<longrightarrow> fr x s' = (if x = d then t else fr x s) \<and> fl x s' = (if x = d then 0 else fl x s)) \<and>
     pageMap s' = (pageMap s)(unat t := 1) \<and> (\<forall>g. g \<noteq> unat t \<longrightarrow> hw_ram s' g = hw_ram s g)"

lemma fresh_users:
  assumes fe: "fresh_entry d t s s'"
    and "d \<in> tabs S" "fr d s = FREE_PAGE_MARK" "users S t s = {}" "f \<noteq> FREE_PAGE_MARK"
  shows "users S f s' = (if f = t then {d} else users S f s)"
proof -
  have "x \<in> users S f s' \<longleftrightarrow> x \<in> (if f = t then {d} else users S f s)" for x
  proof (cases "x \<in> tabs S")
    case True
    have "fr x s \<noteq> t" using assms(4) True unfolding users_def by blast
    moreover have "fr x s' = (if x = d then t else fr x s)" using fe tabs_ok [OF True] unfolding fresh_entry_def by blast
    ultimately show ?thesis using True assms by (cases "x = d") (auto simp: users_def)
  qed (use assms(2) in \<open>auto simp: users_def\<close>)
  then show ?thesis by blast
qed

lemma fresh_entry_ok:
  assumes inv: "cow_inv S s" and fe: "fresh_entry d t s s'"
    and d: "d \<in> tabs S" "fr d s = FREE_PAGE_MARK" and t: "pageMap s (unat t) = 0" "unat t < pageMapSize"
  shows "cow_inv S s'"
    "x \<in> tabs S \<Longrightarrow> pages s' x = (if x = d then Some (slice (hw_ram s' (unat t)) 0 4096) else pages s x)"
    "free_frames s \<le> Suc (free_frames s')" "balanced S s s'"
proof -
  have tf: "t \<noteq> FREE_PAGE_MARK" using t(2) by auto
  have ut: "users S t s = {}" by (rule free_unmapped [OF inv t])
  have f: "fr x s' = (if x = d then t else fr x s)" "fl x s' = (if x = d then 0 else fl x s)" if "x \<in> tabs S" for x
    using fe tabs_ok [OF that] unfolding fresh_entry_def by blast+
  have pm: "pageMap s' = (pageMap s)(unat t := 1)" using fe unfolding fresh_entry_def by blast
  have nt: "fr x s \<noteq> t" if "x \<in> tabs S" for x using ut that unfolding users_def by blast
  then have nt': "unat (fr x s) \<noteq> unat t" if "x \<in> tabs S" for x using that by (simp add: word_unat_eq_iff)
  note us = fresh_users [OF fe d ut]
  show "cow_inv S s'"
    unfolding cow_inv_def
  proof (intro ballI impI)
    fix x assume x: "x \<in> tabs S" "fr x s' \<noteq> FREE_PAGE_MARK"
    show "unat (fr x s') < pageMapSize \<and> unat (pageMap s' (unat (fr x s'))) = card (users S (fr x s') s') \<and>
        (fl x s' = 0 \<and> card (users S (fr x s') s') = 1 \<or> fl x s' = PAGE_FLAG_READ_ONLY)"
    proof (cases "x = d")
      case True
      then show ?thesis using f [OF x(1)] us [OF tf] t(2) by (simp add: pm)
    next
      case False
      have nf: "fr x s \<noteq> FREE_PAGE_MARK" using x f False by simp
      have "pageMap s' (unat (fr x s)) = pageMap s (unat (fr x s))" using nt' [OF x(1)] by (simp add: pm)
      then show ?thesis using cow_invD [OF inv x(1) nf] f [OF x(1)] False us [OF nf] nt [OF x(1)] by simp
    qed
  qed
  show "pages s' x = (if x = d then Some (slice (hw_ram s' (unat t)) 0 4096) else pages s x)" if x: "x \<in> tabs S"
  proof (cases "x = d")
    case True
    then show ?thesis using f [OF x] tf by (simp add: pages_def)
  next
    case False
    have "hw_ram s' (unat (fr x s)) = hw_ram s (unat (fr x s))" using fe nt' [OF x] unfolding fresh_entry_def by blast
    then show ?thesis using False f [OF x] by (simp add: pages_def)
  qed
  show "free_frames s \<le> Suc (free_frames s')"
    by (rule free_frames_take [of _ "unat t"]) (simp add: pm)
  show "balanced S s s'"
    unfolding balanced_def
  proof (intro allI impI)
    fix g :: u16 assume "unat g < pageMapSize"
    then have g: "g \<noteq> FREE_PAGE_MARK" by auto
    show "unat (pageMap s' (unat g)) + card (users S g s) = unat (pageMap s (unat g)) + card (users S g s')"
    proof (cases "g = t")
      case True
      then show ?thesis using us [OF g] ut t(1) by (simp add: pm)
    next
      case False
      then have "unat g \<noteq> unat t" by (simp add: word_unat_eq_iff)
      then show ?thesis using us [OF g] False by (simp add: pm)
    qed
  qed
qed

text \<open>The new entry names the frame \<open>t\<close>, which holds a copy of the page.\<close>

definition duplicated :: "entry \<Rightarrow> entry \<Rightarrow> u16 \<Rightarrow> kst \<Rightarrow> kst" where
  "duplicated e d t s = s\<lparr>
     hw_mmu := (hw_mmu s)(cell d := t, pte 0 14 0 := fr e s, pte 0 15 0 := t), pageMap := (pageMap s)(unat t := 1),
     hw_ram := (hw_ram s)(unat t := blit (hw_ram s (unat t)) 0 (slice (hw_ram s (unat (fr e s))) 0 4096))\<rparr>"

lemma duplicated_fresh:
  assumes "ent_ok d" "unat t < pageMapSize"
  shows "fresh_entry d t s (duplicated e d t s)"
  using assms frame_mask [OF assms(2)] and_masks [of t] by (auto simp: fresh_entry_def fr_def fl_def duplicated_def)

lemma duplicated_ok:
  assumes inv: "cow_inv S s" and e: "e \<in> tabs S" "fr e s \<noteq> FREE_PAGE_MARK"
    and d: "d \<in> tabs S" "fr d s = FREE_PAGE_MARK" and t: "pageMap s (unat t) = 0" "unat t < pageMapSize"
  shows "cow_inv S (duplicated e d t s)"
    "x \<in> tabs S \<Longrightarrow> pages (duplicated e d t s) x = (if x = d then pages s e else pages s x)"
    "free_frames s \<le> Suc (free_frames (duplicated e d t s))"
    "balanced S s (duplicated e d t s)"
proof -
  note f = fresh_entry_ok [OF inv duplicated_fresh [OF tabs_ok [OF d(1)] t(2), of s e] d t]
  show "cow_inv S (duplicated e d t s)" "free_frames s \<le> Suc (free_frames (duplicated e d t s))" "balanced S s (duplicated e d t s)"
    by (fact f)+
  have "slice (hw_ram (duplicated e d t s) (unat t)) 0 4096 = slice (hw_ram s (unat (fr e s))) 0 4096"
    by (simp add: duplicated_def slice_copy)
  then show "pages (duplicated e d t s) x = (if x = d then pages s e else pages s x)" if "x \<in> tabs S"
    using f(2) [OF that] e(2) by (simp add: pages_def)
qed

interpretation copy: page_loop "fork_copy sel new c" S sel new c 1 for S sel new c
proof unfold_locales
  fix n k s
  show "fork_copy sel new c n 0 s = Some s" by simp
  show "fr (sel, of_nat n, c) s = FREE_PAGE_MARK \<Longrightarrow> fork_copy sel new c n (Suc k) s = Some s" by (simp add: fr_fl)
  let ?e = "(sel, of_nat n, c)" and ?d = "(new, of_nat n, c)"
  assume a: "cow_inv S s" "?e \<in> tabs S" "?d \<in> tabs S" "sel \<noteq> new" "fr ?e s \<noteq> FREE_PAGE_MARK" "fr ?d s = FREE_PAGE_MARK"
    "1 \<le> free_frames s"
  obtain t where t: "mmu_get_free_page s = Some t" using free_frames_some [of s] a(7) by (cases "mmu_get_free_page s") simp_all
  note tt = mmu_get_free_pageD [OF t]
  have c: "pte new (of_nat n) c = cell ?d" by (simp add: cell_def)
  have m: "fr ?e s AND MMU_TABLE_NO_FLAGS_MASK = fr ?e s" by (simp add: fr_def and_masks)
  have "mmu_write_table new (of_nat n) c t (mmu_copy_pages (fr ?e s) t 0 14 15 (s\<lparr>pageMap := (pageMap s)(unat t := 1)\<rparr>)) =
      duplicated ?e ?d t s"
    using cell_window [OF tabs_ok [OF a(3)]] pte_windows frame_mask [of t] tt m
    by (simp add: mmu_tables mmu_copy_pages_def ram_upd_def frame_of_def duplicated_def c fun_upd_twist [of _ "cell ?d"] Let_def)
  then have "fork_copy sel new c n (Suc k) s = fork_copy sel new c (Suc n) k (duplicated ?e ?d t s)"
    using a(5) t tt by (simp add: fr_fl mmu_mark_page_def page_upd_def Let_def)
  moreover have "kept s (duplicated ?e ?d t s)" by (simp add: kept_def duplicated_def)
  moreover have "free_frames s \<le> free_frames (duplicated ?e ?d t s) + 1" using duplicated_ok(3) [OF a(1,2,5,3,6)] tt by simp
  ultimately show "\<exists>s1. fork_copy sel new c n (Suc k) s = fork_copy sel new c (Suc n) k s1 \<and> cow_inv S s1 \<and> kept s s1 \<and> balanced S s s1 \<and>
      free_frames s \<le> free_frames s1 + 1 \<and> (\<forall>x \<in> tabs S. pages s1 x = (if x = ?d then pages s ?e else pages s x))"
    using duplicated_ok(1,2,4) [OF a(1,2,5,3,6)] tt by blast
qed

text \<open>Both tables of a process one after the other.\<close>

definition sel_of :: "kst \<Rightarrow> nat \<Rightarrow> u16" where
  "sel_of s p = p_mmuSelector (procs s p)"

definition table_copied :: "u16 set \<Rightarrow> u16 \<Rightarrow> u16 \<Rightarrow> kst \<Rightarrow> kst \<Rightarrow> bool" where
  "table_copied S sel new s s' \<longleftrightarrow> cow_inv S s' \<and> kept s s' \<and> balanced S s s' \<and>
     (\<forall>x \<in> tabs S. pages s' x = (case x of (y, pg, c) \<Rightarrow> if y = new then pages s (sel, pg, c) else pages s x))"

lemma both_tables:
  assumes L: "page_loop (F 1) S sel new 1 cost" "page_loop (F 0) S sel new 0 cost"
    and inv: "cow_inv S s" "\<And>c. c = 0 \<or> c = 1 \<Longrightarrow> gapless (pages s) sel c"
    and sel: "sel \<in> S" "new \<in> S" "sel \<noteq> new" "0 < unat sel" "unat sel < 16" "0 < unat new" "unat new < 16"
    and emp: "\<And>pg c. (new, pg, c) \<in> tabs S \<Longrightarrow> pages s (new, pg, c) = None" and cost: "144 * cost \<le> free_frames s"
  shows "\<exists>s1 s2. F 1 0 128 s = Some s1 \<and> F 0 0 16 s1 = Some s2 \<and> table_copied S sel new s s2 \<and>
    free_frames s \<le> free_frames s2 + 144 * cost"
proof -
  have tab: "(new, pg, c) \<in> tabs S" "(sel, pg, c) \<in> tabs S" if "unat pg < table_len c" "c = 0 \<or> c = 1" for pg c
    using in_tabs sel that by blast+
  have ok: "c = 0 \<or> c = 1" "unat pg < table_len c" if "(y, pg, c) \<in> tabs S" for y pg c
    using that by (auto simp: tabs_def ent_ok_def table_len_def)
  obtain s1 where s1: "F 1 0 128 s = Some s1" "cow_inv S s1" "kept s s1" "balanced S s s1" "free_frames s \<le> free_frames s1 + 128 * cost"
    "\<forall>x \<in> tabs S. pages s1 x = (case x of (y, pg, b) \<Rightarrow> if y = new \<and> b = 1 \<and> 0 \<le> unat pg then pages s (sel, pg, 1) else pages s x)"
    using page_loop.loop_ok [OF L(1) inv(1) inv(2) _ _ sel, of 0 128] emp tab cost by (force simp: table_len_def)
  have g: "gapless (pages s1) sel 0"
    by (rule gapless_cong [OF _ inv(2)]) (use s1(6) tab sel(3) in auto)
  have e: "pages s1 (new, pg, 0) = None" if "unat pg < table_len 0" for pg
    using s1(6) tab [OF that] emp by auto
  have "16 * cost \<le> free_frames s1" using s1(5) cost by linarith
  then obtain s2 where s2: "F 0 0 16 s1 = Some s2" "cow_inv S s2" "kept s1 s2" "balanced S s1 s2" "free_frames s1 \<le> free_frames s2 + 16 * cost"
    "\<forall>x \<in> tabs S. pages s2 x = (case x of (y, pg, b) \<Rightarrow> if y = new \<and> b = 0 \<and> 0 \<le> unat pg then pages s1 (sel, pg, 0) else pages s1 x)"
    using page_loop.loop_ok [OF L(2) s1(2) g _ _ sel, of 0 16] e by (force simp: table_len_def)
  have "pages s2 x = (case x of (y, pg, c) \<Rightarrow> if y = new then pages s (sel, pg, c) else pages s x)" if x: "x \<in> tabs S" for x
  proof -
    obtain y pg c where xx: "x = (y, pg, c)" by (cases x)
    have "c = 0 \<or> c = 1" "(sel, pg, c) \<in> tabs S" using ok x tab unfolding xx by blast+
    then show ?thesis using s1(6) s2(6) x sel(3) unfolding xx by auto
  qed
  moreover have "kept s s2" using s1(3) s2(3) by (simp add: kept_def)
  moreover have "free_frames s \<le> free_frames s2 + 144 * cost" using s1(5) s2(5) by linarith
  moreover have "balanced S s s2" by (rule balanced_trans [OF s1(4) s2(4)])
  ultimately show ?thesis using s1(1) s2(1,2) unfolding table_copied_def by blast
qed

text \<open>A fork of a process other than the first, with copy on write or without.\<close>

definition fork_cost :: "kst \<Rightarrow> nat" where
  "fork_cost s = (if enable_copy_on_write s then 0 else 144)"

lemma fork_pages_ok:
  assumes "cow_inv S s" "\<And>c. c = 0 \<or> c = 1 \<Longrightarrow> gapless (pages s) (sel_of s p) c"
    "sel_of s p \<in> S" "sel_of s q \<in> S" "sel_of s p \<noteq> sel_of s q"
    "0 < unat (sel_of s p)" "unat (sel_of s p) < 16" "0 < unat (sel_of s q)" "unat (sel_of s q) < 16"
    "\<And>pg c. (sel_of s q, pg, c) \<in> tabs S \<Longrightarrow> pages s (sel_of s q, pg, c) = None"
    "p_pid (procs s p) \<noteq> 0" "fork_cost s \<le> free_frames s"
  shows "\<exists>s'. fork_pages p q s = Some s' \<and> table_copied S (sel_of s p) (sel_of s q) s s' \<and>
    free_frames s \<le> free_frames s' + fork_cost s"
proof (cases "enable_copy_on_write s")
  case True
  then show ?thesis
    using both_tables [of "fork_share (sel_of s p) (sel_of s q)", OF share.page_loop_axioms share.page_loop_axioms assms(1-10)] assms(11)
    by (auto simp: fork_pages_def sel_of_def Let_def fork_cost_def simp del: fork_share.simps)
next
  case False
  then show ?thesis
    using both_tables [of "fork_copy (sel_of s p) (sel_of s q)", OF copy.page_loop_axioms copy.page_loop_axioms assms(1-10)] assms(11,12)
    by (auto simp: fork_pages_def sel_of_def Let_def fork_cost_def simp del: fork_copy.simps)
qed

section \<open>Releasing pages\<close>

text \<open>An entry is given up: its frame has one user less.\<close>

definition unlinked :: "entry \<Rightarrow> kst \<Rightarrow> kst" where
  "unlinked e s = s\<lparr>pageMap := (pageMap s)(unat (fr e s) := pageMap s (unat (fr e s)) - 1),
     hw_mmu := (hw_mmu s)(cell e := FREE_PAGE_MARK)\<rparr>"

lemma unlinked_entries:
  assumes "ent_ok e" "ent_ok x"
  shows "fr x (unlinked e s) = (if x = e then FREE_PAGE_MARK else fr x s)" "fl x (unlinked e s) = (if x = e then 0 else fl x s)"
  using assms by (auto simp: fr_def fl_def unlinked_def)

lemma unlinked_ok:
  assumes inv: "cow_inv S s" and e: "e \<in> tabs S" "fr e s \<noteq> FREE_PAGE_MARK"
  shows "cow_inv S (unlinked e s)" "balanced S s (unlinked e s)" "free_frames s \<le> free_frames (unlinked e s)"
    "x \<in> tabs S \<Longrightarrow> pages (unlinked e s) x = (if x = e then None else pages s x)"
proof -
  let ?s = "unlinked e s"
  have f: "fr x ?s = (if x = e then FREE_PAGE_MARK else fr x s)" "fl x ?s = (if x = e then 0 else fl x s)" if "x \<in> tabs S" for x
    using unlinked_entries [OF tabs_ok [OF e(1)] tabs_ok [OF that]] by blast+
  have u: "users S g ?s = users S g s - {e}" if "g \<noteq> FREE_PAGE_MARK" for g
  proof -
    have "x \<in> users S g ?s \<longleftrightarrow> x \<in> users S g s - {e}" for x
      using f(1) [of x] that by (cases "x = e") (auto simp: users_def)
    then show ?thesis by blast
  qed
  have o: "users S g s - {e} = users S g s" if "g \<noteq> fr e s" for g using that unfolding users_def by blast
  have ee: "e \<in> users S (fr e s) s" using e(1) unfolding users_def by blast
  have c: "card (users S (fr e s) s) = Suc (card (users S (fr e s) s - {e}))" using ee by (metis card_Suc_Diff1 fin_entries)
  have z: "pageMap s (unat (fr e s)) \<noteq> 0" using cow_invD(2) [OF inv e] users_pos [OF e(1), of s] by (metis less_irrefl unat_0)
  have pm: "pageMap ?s = (pageMap s)(unat (fr e s) := pageMap s (unat (fr e s)) - 1)" by (simp add: unlinked_def)
  show b: "balanced S s ?s"
    unfolding balanced_def
  proof (intro allI impI)
    fix g :: u16 assume "unat g < pageMapSize"
    then have g: "g \<noteq> FREE_PAGE_MARK" by auto
    show "unat (pageMap ?s (unat g)) + card (users S g s) = unat (pageMap s (unat g)) + card (users S g ?s)"
    proof (cases "g = fr e s")
      case True
      have "pageMap ?s (unat g) = pageMap s (unat g) - 1" using True by (simp add: pm)
      then show ?thesis using u [OF g] c unat_dec [OF z] True by (simp only:)
    next
      case False
      then have "unat g \<noteq> unat (fr e s)" by (simp add: word_unat_eq_iff)
      then show ?thesis using u [OF g] o [OF False] by (simp add: pm)
    qed
  qed
  show "cow_inv S ?s"
    unfolding cow_inv_def
  proof (intro ballI impI)
    fix x assume x: "x \<in> tabs S" "fr x ?s \<noteq> FREE_PAGE_MARK"
    then have n: "x \<noteq> e" "fr x ?s = fr x s" "fl x ?s = fl x s" "fr x s \<noteq> FREE_PAGE_MARK" using f [OF x(1)] by (auto split: if_splits)
    note ix = cow_invD [OF inv x(1) n(4)]
    have cnt: "unat (pageMap ?s (unat (fr x s))) = card (users S (fr x s) ?s)"
      using b [unfolded balanced_def] ix(1,2) by (metis add.commute add_left_cancel)
    have "card (users S (fr x s) ?s) = 1" if "card (users S (fr x s) s) = 1"
    proof -
      have "fr x s \<noteq> fr e s"
      proof
        assume "fr x s = fr e s"
        then have "card {x, e} \<le> card (users S (fr x s) s)" using x(1) e(1) by (intro card_mono) (auto simp: users_def)
        then show False using that n(1) by simp
      qed
      then show ?thesis using that u [OF n(4)] o by simp
    qed
    then show "unat (fr x ?s) < pageMapSize \<and> unat (pageMap ?s (unat (fr x ?s))) = card (users S (fr x ?s) ?s) \<and>
       (fl x ?s = 0 \<and> card (users S (fr x ?s) ?s) = 1 \<or> fl x ?s = PAGE_FLAG_READ_ONLY)"
      unfolding n(2,3) using ix cnt by blast
  qed
  show "free_frames s \<le> free_frames ?s"
    using z unfolding free_frames_def by (intro card_mono) (auto simp: pm)
  show "pages ?s x = (if x = e then None else pages s x)" if x: "x \<in> tabs S"
  proof -
    have "hw_ram ?s = hw_ram s" by (simp add: unlinked_def)
    then show ?thesis using f(1) [OF x] by (simp add: pages_def)
  qed
qed

lemma free_loop:
  assumes "cow_inv S s" "n + k = table_len c" "c = 0 \<or> c = 1" "sel \<in> S" "0 < unat sel" "unat sel < 16"
    "\<forall>pg pg'. unat pg < table_len c \<and> n \<le> unat pg' \<and> unat pg' < unat pg \<and> pages s (sel, pg, c) \<noteq> None \<longrightarrow> pages s (sel, pg', c) \<noteq> None"
  shows "\<exists>s'. free_pages sel c n k s = Some s' \<and> cow_inv S s' \<and> kept s s' \<and> balanced S s s' \<and> free_frames s \<le> free_frames s' \<and>
     (\<forall>x \<in> tabs S. pages s' x = (case x of (y, pg, b) \<Rightarrow> if y = sel \<and> b = c \<and> n \<le> unat pg then None else pages s x))"
  using assms
proof (induction k arbitrary: n s)
  case 0
  then have "unat pg < n" if "(y, pg, c) \<in> tabs S" for y pg
    using that by (auto simp: tabs_def ent_ok_def table_len_def)
  then show ?case using 0 by (force simp: kept_def balanced_refl split: prod.split)
next
  case (Suc k)
  define pg where "pg = (of_nat n :: u16)"
  define e where "e = (sel, pg, c)"
  have len: "n < table_len c" "table_len c \<le> 128" using Suc.prems(2) by (auto simp: table_len_def)
  then have pg: "unat pg = n" by (simp add: pg_def)
  have et: "e \<in> tabs S" unfolding e_def using Suc.prems len pg by (auto intro: in_tabs)
  have rd: "mmu_read_table sel (of_nat n) c s = fr e s" by (simp add: fr_fl e_def pg_def)
  show ?case
  proof (cases "fr e s = FREE_PAGE_MARK")
    case True
    have "pages s (sel, q, c) = None" if q: "n \<le> unat q" "unat q < table_len c" for q
    proof -
      have e0: "pages s (sel, pg, c) = None" using True by (simp add: pages_None e_def)
      have "q = pg \<or> unat pg < unat q" using q(1) pg by (auto simp: word_unat_eq_iff)
      then show ?thesis using Suc.prems(7) [rule_format, of q pg] q(2) e0 pg by (cases "pages s (sel, q, c)") auto
    qed
    moreover have "unat q < table_len b" if "(y, q, b) \<in> tabs S" for y q b
      using that by (auto simp: tabs_def ent_ok_def table_len_def)
    ultimately show ?thesis using rd True Suc.prems(1) by (auto simp: kept_def balanced_refl split: prod.split)
  next
    case False
    let ?t = "unlinked e s"
    note t = unlinked_ok [OF Suc.prems(1) et False]
    have dec: "mmu_dec_page_refcnt (fr e s) s = Some (s\<lparr>pageMap := (pageMap s)(unat (fr e s) := pageMap s (unat (fr e s)) - 1)\<rparr>)"
      using cow_invD(1) [OF Suc.prems(1) et False] by (simp add: mmu_dec_page_refcnt_def page_upd_def)
    have step: "free_pages sel c n (Suc k) s = free_pages sel c (Suc n) k ?t"
      using False by (simp add: rd dec Let_def) (simp add: unlinked_def mmu_tables cell_def e_def pg_def fr_def)
    have p': "pages ?t (sel, q, c) = (if q = pg then None else pages s (sel, q, c))" if "unat q < table_len c" for q
      using t(4) [of "(sel, q, c)"] in_tabs [OF Suc.prems(4,5,6,3) that] by (simp add: e_def)
    have g: "\<forall>q q'. unat q < table_len c \<and> Suc n \<le> unat q' \<and> unat q' < unat q \<and> pages ?t (sel, q, c) \<noteq> None \<longrightarrow>
      pages ?t (sel, q', c) \<noteq> None"
    proof (intro allI impI)
      fix q q' :: u16 assume q: "unat q < table_len c \<and> Suc n \<le> unat q' \<and> unat q' < unat q \<and> pages ?t (sel, q, c) \<noteq> None"
      then have "unat q' < table_len c" "q \<noteq> pg" "q' \<noteq> pg" using pg by auto
      then show "pages ?t (sel, q', c) \<noteq> None" using p' [of q] p' [of q'] q Suc.prems(7) [rule_format, of q q'] by auto
    qed
    have l: "Suc n + k = table_len c" using Suc.prems(2) by simp
    obtain s' where s': "free_pages sel c (Suc n) k ?t = Some s'" "cow_inv S s'" "kept ?t s'" "balanced S ?t s'" "free_frames ?t \<le> free_frames s'"
      "\<forall>x \<in> tabs S. pages s' x = (case x of (y, q, b) \<Rightarrow> if y = sel \<and> b = c \<and> Suc n \<le> unat q then None else pages ?t x)"
      using Suc.IH [OF t(1) l Suc.prems(3-6) g] by blast
    have "kept s s'" using s'(3) by (simp add: kept_def unlinked_def)
    moreover have "balanced S s s'" by (rule balanced_trans [OF t(2) s'(4)])
    moreover have "free_frames s \<le> free_frames s'" using t(3) s'(5) by simp
    moreover have "pages s' x = (case x of (y, q, b) \<Rightarrow> if y = sel \<and> b = c \<and> n \<le> unat q then None else pages s x)"
      if x: "x \<in> tabs S" for x
    proof -
      obtain y q b where xx: "x = (y, q, b)" by (cases x)
      have q: "n \<le> unat q \<longleftrightarrow> q = pg \<or> Suc n \<le> unat q" using pg by (auto simp: word_unat_eq_iff)
      show ?thesis using s'(6) x t(4) [OF x] q pg unfolding xx e_def by auto
    qed
    ultimately show ?thesis using step s'(1,2) by auto
  qed
qed

text \<open>Both tables of a process that ends.\<close>

lemma freeProcessPages_ok:
  assumes inv: "cow_inv S s" "\<And>c. c = 0 \<or> c = 1 \<Longrightarrow> gapless (pages s) (sel_of s p) c"
    and sel: "sel_of s p \<in> S" "0 < unat (sel_of s p)" "unat (sel_of s p) < 16"
  shows "\<exists>s'. freeProcessPages p s = Some s' \<and> cow_inv S s' \<and> kept s s' \<and> balanced S s s' \<and> free_frames s \<le> free_frames s' \<and>
     (\<forall>x \<in> tabs S. pages s' x = (if fst x = sel_of s p then None else pages s x))"
proof -
  let ?y = "sel_of s p"
  have gap: "\<forall>pg pg'. unat pg < table_len c \<and> 0 \<le> unat pg' \<and> unat pg' < unat pg \<and> pages t (?y, pg, c) \<noteq> None \<longrightarrow>
      pages t (?y, pg', c) \<noteq> None" if "gapless (pages t) ?y c" for t c using that unfolding gapless_def by blast
  obtain s1 where s1: "free_pages ?y 1 0 128 s = Some s1" "cow_inv S s1" "kept s s1" "balanced S s s1" "free_frames s \<le> free_frames s1"
    "\<forall>x \<in> tabs S. pages s1 x = (case x of (y, pg, b) \<Rightarrow> if y = ?y \<and> b = 1 \<and> 0 \<le> unat pg then None else pages s x)"
    using free_loop [OF inv(1) _ _ sel gap [OF inv(2)], of 128 1] by (auto simp: table_len_def)
  have t0: "(?y, pg, 0) \<in> tabs S" if "unat pg < table_len 0" for pg using in_tabs [OF sel _ that] by simp
  have g1: "gapless (pages s1) ?y 0" by (rule gapless_cong [OF _ inv(2)]) (use s1(6) t0 in auto)
  obtain s2 where s2: "free_pages ?y 0 0 16 s1 = Some s2" "cow_inv S s2" "kept s1 s2" "balanced S s1 s2" "free_frames s1 \<le> free_frames s2"
    "\<forall>x \<in> tabs S. pages s2 x = (case x of (y, pg, b) \<Rightarrow> if y = ?y \<and> b = 0 \<and> 0 \<le> unat pg then None else pages s1 x)"
    using free_loop [OF s1(2) _ _ sel gap [OF g1], of 16] by (auto simp: table_len_def)
  have "pages s2 x = (if fst x = ?y then None else pages s x)" if x: "x \<in> tabs S" for x
  proof -
    obtain y pg c where xx: "x = (y, pg, c)" by (cases x)
    have "c = 0 \<or> c = 1" using x by (auto simp: xx tabs_def ent_ok_def)
    then show ?thesis using s1(6) s2(6) x unfolding xx by auto
  qed
  moreover have "freeProcessPages p s = Some s2"
    using s1(1) s2(1) by (simp add: freeProcessPages_def Let_def sel_of_def del: free_pages.simps)
  moreover have "kept s s2" using s1(3) s2(3) by (simp add: kept_def)
  moreover have "balanced S s s2" by (rule balanced_trans [OF s1(4) s2(4)])
  moreover have "free_frames s \<le> free_frames s2" using s1(5) s2(5) by simp
  ultimately show ?thesis using s2(2) by blast
qed

section \<open>Refinement of a copying fork\<close>

text \<open>Writes, forks and the release of a process's pages, by the kernel's functions and on the memories the processes see.\<close>

datatype cow_op = Write nat u16 u16 | Fork nat nat | Release nat

fun cow_exec :: "cow_op \<Rightarrow> kst \<Rightarrow> kst option" where
  "cow_exec (Write p a v) s = uputc p a 0 14 v s"
| "cow_exec (Fork p q) s = fork_pages p q s"
| "cow_exec (Release p) s = freeProcessPages p s"

primrec cow_run :: "cow_op list \<Rightarrow> kst \<Rightarrow> kst option" where
  "cow_run [] s = Some s"
| "cow_run (x # xs) s = Option.bind (cow_exec x s) (cow_run xs)"

type_synonym memories = "entry \<Rightarrow> u16 list option"

definition empty_tables :: "u16 \<Rightarrow> memories \<Rightarrow> bool" where
  "empty_tables sel m \<longleftrightarrow> (\<forall>pg c. m (sel, pg, c) = None)"

fun copy_exec :: "(nat \<Rightarrow> u16) \<Rightarrow> cow_op \<Rightarrow> memories \<Rightarrow> memories option" where
  "copy_exec sel (Write p a v) m = map_option (\<lambda>ws. m((sel p, drop_bit 12 a, 0) \<mapsto> ws[page_offset a := v]))
     (m (sel p, drop_bit 12 a, 0))"
| "copy_exec sel (Fork p q) m = (if sel p \<noteq> sel q \<and> empty_tables (sel q) m
     then Some (\<lambda>(x, pg, c). if x = sel q then m (sel p, pg, c) else m (x, pg, c)) else None)"
| "copy_exec sel (Release p) m = Some (\<lambda>(x, pg, c). if x = sel p then None else m (x, pg, c))"

primrec copy_run :: "(nat \<Rightarrow> u16) \<Rightarrow> cow_op list \<Rightarrow> memories \<Rightarrow> memories option" where
  "copy_run sel [] m = Some m"
| "copy_run sel (x # xs) m = Option.bind (copy_exec sel x m) (copy_run sel xs)"

fun op_procs :: "cow_op \<Rightarrow> nat set" where
  "op_procs (Write p a v) = {p}"
| "op_procs (Fork p q) = {p, q}"
| "op_procs (Release p) = {p}"

text \<open>How many frames an operation may take.\<close>

fun frames_needed :: "bool \<Rightarrow> cow_op \<Rightarrow> nat" where
  "frames_needed share (Write p a v) = 1"
| "frames_needed share (Fork p q) = (if share then 0 else 144)"
| "frames_needed share (Release p) = 0"

text \<open>The memories of the processes \<open>P\<close>, and what holds of the tables while they run.\<close>

definition mem_of :: "nat set \<Rightarrow> kst \<Rightarrow> memories" where
  "mem_of P s e = (if e \<in> tabs (sel_of s ` P) then pages s e else None)"

definition cow_state :: "nat set \<Rightarrow> kst \<Rightarrow> bool" where
  "cow_state P s \<longleftrightarrow> cow_inv (sel_of s ` P) s \<and>
     (\<forall>p \<in> P. p_pid (procs s p) \<noteq> 0 \<and> 0 < unat (sel_of s p) \<and> unat (sel_of s p) < 16 \<and>
       gapless (pages s) (sel_of s p) 0 \<and> gapless (pages s) (sel_of s p) 1)"

lemma kept_sel: "kept s s' \<Longrightarrow> sel_of s' = sel_of s"
  by (simp add: fun_eq_iff sel_of_def kept_def)

lemma cow_stateD:
  assumes "cow_state P s"
  shows "cow_inv (sel_of s ` P) s"
    "p \<in> P \<Longrightarrow> p_pid (procs s p) \<noteq> 0" "p \<in> P \<Longrightarrow> 0 < unat (sel_of s p)" "p \<in> P \<Longrightarrow> unat (sel_of s p) < 16"
    "p \<in> P \<Longrightarrow> c = 0 \<or> c = 1 \<Longrightarrow> gapless (pages s) (sel_of s p) c"
  using assms unfolding cow_state_def by blast+

lemma cow_tabs:
  assumes "cow_state P s" "p \<in> P" "unat pg < table_len c" "c = 0 \<or> c = 1"
  shows "(sel_of s p, pg, c) \<in> tabs (sel_of s ` P)"
  using in_tabs [OF _ cow_stateD(3,4) [OF assms(1,2)] assms(4,3)] assms(2) by blast

lemma cow_state_step:
  assumes c: "cow_state P s" and k: "kept s s'" "cow_inv (sel_of s ` P) s'"
    and g: "\<And>p c. p \<in> P \<Longrightarrow> c = 0 \<or> c = 1 \<Longrightarrow> gapless (mem_of P s') (sel_of s p) c"
  shows "cow_state P s'"
proof -
  note sl = kept_sel [OF k(1)]
  have "gapless (pages s') (sel_of s p) c" if p: "p \<in> P" and cc: "c = 0 \<or> c = 1" for p c
    by (rule gapless_cong [OF _ g [OF p cc]]) (use cow_tabs [OF c p _ cc] in \<open>simp add: mem_of_def sl\<close>)
  then show ?thesis using c k sl unfolding cow_state_def kept_def by simp
qed

lemma mem_gapless:
  assumes "cow_state P s" "p \<in> P" "c = 0 \<or> c = 1"
  shows "gapless (mem_of P s) (sel_of s p) c"
  by (rule gapless_cong [OF _ cow_stateD(5) [OF assms]]) (use cow_tabs [OF assms(1,2) _ assms(3)] in \<open>simp add: mem_of_def\<close>)

lemma write_refines:
  assumes c: "cow_state P s" and p: "p \<in> P" and w: "copy_exec (sel_of s) (Write p a v) (mem_of P s) = Some m" and f: "0 < free_frames s"
  shows "\<exists>s'. uputc p a 0 14 v s = Some s' \<and> cow_state P s' \<and> mem_of P s' = m \<and> kept s s' \<and>
    balanced (sel_of s ` P) s s' \<and> free_frames s \<le> Suc (free_frames s')"
proof -
  let ?S = "sel_of s ` P"
  define e where "e = (sel_of s p, drop_bit 12 a, 0 :: u16)"
  obtain ws where ws: "mem_of P s e = Some ws" "m = (mem_of P s)(e \<mapsto> ws[page_offset a := v])" using w by (auto simp: e_def)
  have et: "e \<in> tabs ?S" "pages s e = Some ws" using ws(1) by (auto simp: mem_of_def split: if_splits)
  have ee: "e = (p_mmuSelector (procs s p), drop_bit 12 a, 0)" by (simp add: e_def sel_of_def)
  have ef: "fr e s \<noteq> FREE_PAGE_MARK" using et(2) pages_None [of s e] by simp
  note u = uputc_cow [OF cow_stateD(1) [OF c] ee et(1) ef, where v = v]
  obtain s' where s': "uputc p a 0 14 v s = Some s'" using u(1) free_frames_some [OF f] by (cases "uputc p a 0 14 v s") simp_all
  note r = u(2) [OF s']
  have sl: "sel_of s' = sel_of s" using r kept_sel by blast
  have m: "mem_of P s' = m"
  proof
    fix d
    show "mem_of P s' d = m d" using r et unfolding ws(2) mem_of_def sl by (cases "d = e") auto
  qed
  have "gapless m (sel_of s q) b" if q: "q \<in> P" "b = 0 \<or> b = 1" for q b
    using mem_gapless [OF c q] ws(1) unfolding ws(2) gapless_def by auto
  then have "cow_state P s'" using cow_state_step [OF c] r m by blast
  then show ?thesis using s' r m by blast
qed

lemma fork_refines:
  assumes c: "cow_state P s" and p: "p \<in> P" "q \<in> P" and w: "copy_exec (sel_of s) (Fork p q) (mem_of P s) = Some m"
    and f: "fork_cost s \<le> free_frames s"
  shows "\<exists>s'. fork_pages p q s = Some s' \<and> cow_state P s' \<and> mem_of P s' = m \<and> kept s s' \<and>
    balanced (sel_of s ` P) s s' \<and> free_frames s \<le> free_frames s' + fork_cost s"
proof -
  let ?S = "sel_of s ` P"
  have n: "sel_of s p \<noteq> sel_of s q" "empty_tables (sel_of s q) (mem_of P s)"
    "m = (\<lambda>(x, pg, c). if x = sel_of s q then mem_of P s (sel_of s p, pg, c) else mem_of P s (x, pg, c))"
    using w by (simp_all split: if_splits)
  have em: "pages s (sel_of s q, pg, b) = None" if "(sel_of s q, pg, b) \<in> tabs ?S" for pg b
    using n(2) that unfolding empty_tables_def mem_of_def by metis
  obtain s' where s': "fork_pages p q s = Some s'" "cow_inv ?S s'" "kept s s'" "balanced ?S s s'" "free_frames s \<le> free_frames s' + fork_cost s"
    "\<forall>x \<in> tabs ?S. pages s' x = (case x of (y, pg, b) \<Rightarrow> if y = sel_of s q then pages s (sel_of s p, pg, b) else pages s x)"
    using fork_pages_ok [OF cow_stateD(1) [OF c] cow_stateD(5) [OF c p(1)] imageI [OF p(1)] imageI [OF p(2)] n(1)
      cow_stateD(3,4) [OF c p(1)] cow_stateD(3,4) [OF c p(2)] em cow_stateD(2) [OF c p(1)] f]
    unfolding table_copied_def by blast
  have sl: "sel_of s' = sel_of s" by (rule kept_sel [OF s'(3)])
  have t: "(sel_of s q, pg, b) \<in> tabs ?S \<longleftrightarrow> (sel_of s p, pg, b) \<in> tabs ?S" for pg b
    using p cow_stateD(3,4) [OF c p(1)] cow_stateD(3,4) [OF c p(2)] by (auto simp: tabs_def ent_ok_def)
  have m: "mem_of P s' = m"
  proof
    fix d :: entry
    obtain y pg b where d: "d = (y, pg, b)" by (cases d)
    show "mem_of P s' d = m d" using s'(6) t [of pg b] unfolding d n(3) mem_of_def sl by auto
  qed
  have "gapless m (sel_of s r) b" if r: "r \<in> P" "b = 0 \<or> b = 1" for r b
    using mem_gapless [OF c p(1) r(2)] mem_gapless [OF c r] unfolding n(3) gapless_def by auto
  then have "cow_state P s'" using cow_state_step [OF c s'(3,2)] m by blast
  then show ?thesis using s' m by blast
qed

lemma release_refines:
  assumes c: "cow_state P s" and p: "p \<in> P" and w: "copy_exec (sel_of s) (Release p) (mem_of P s) = Some m"
  shows "\<exists>s'. freeProcessPages p s = Some s' \<and> cow_state P s' \<and> mem_of P s' = m \<and> kept s s' \<and>
    balanced (sel_of s ` P) s s' \<and> free_frames s \<le> free_frames s'"
proof -
  let ?S = "sel_of s ` P"
  have n: "m = (\<lambda>(x, pg, c). if x = sel_of s p then None else mem_of P s (x, pg, c))" using w by simp
  obtain s' where s': "freeProcessPages p s = Some s'" "cow_inv ?S s'" "kept s s'" "balanced ?S s s'" "free_frames s \<le> free_frames s'"
    "\<forall>x \<in> tabs ?S. pages s' x = (if fst x = sel_of s p then None else pages s x)"
    using freeProcessPages_ok [OF cow_stateD(1) [OF c] cow_stateD(5) [OF c p] imageI [OF p] cow_stateD(3,4) [OF c p]] by blast
  have sl: "sel_of s' = sel_of s" by (rule kept_sel [OF s'(3)])
  have m: "mem_of P s' = m"
  proof
    fix d :: entry
    show "mem_of P s' d = m d" using s'(6) unfolding n mem_of_def sl by (cases d) auto
  qed
  have "gapless m (sel_of s r) b" if r: "r \<in> P" "b = 0 \<or> b = 1" for r b
    using mem_gapless [OF c r] unfolding n gapless_def by auto
  then have "cow_state P s'" using cow_state_step [OF c s'(3,2)] m by blast
  then show ?thesis using s' m by blast
qed

lemma cow_run_refines:
  assumes "cow_state P s" "\<Union> (op_procs ` set ops) \<subseteq> P" "copy_run (sel_of s) ops (mem_of P s) = Some m"
    "sum_list (map (frames_needed (enable_copy_on_write s)) ops) \<le> free_frames s"
  shows "\<exists>s'. cow_run ops s = Some s' \<and> cow_state P s' \<and> mem_of P s' = m \<and> balanced (sel_of s ` P) s s'"
  using assms
proof (induction ops arbitrary: s)
  case (Cons x ops)
  obtain m1 where m1: "copy_exec (sel_of s) x (mem_of P s) = Some m1" "copy_run (sel_of s) ops m1 = Some m"
    using Cons.prems(3) by (auto simp: kmonad)
  let ?need = "\<lambda>xs. sum_list (map (frames_needed (enable_copy_on_write s)) xs)"
  have "\<exists>s1. cow_exec x s = Some s1 \<and> cow_state P s1 \<and> mem_of P s1 = m1 \<and> kept s s1 \<and> balanced (sel_of s ` P) s s1 \<and>
      ?need ops \<le> free_frames s1"
  proof (cases x)
    case (Write p a v)
    have "p \<in> P" "0 < free_frames s" using Cons.prems(2,4) Write by simp_all
    then obtain s1 where "uputc p a 0 14 v s = Some s1" "cow_state P s1" "mem_of P s1 = m1" "kept s s1"
      "balanced (sel_of s ` P) s s1" "free_frames s \<le> Suc (free_frames s1)"
      using write_refines [OF Cons.prems(1)] m1(1) Write by blast
    then show ?thesis using Write Cons.prems(4) by simp
  next
    case (Fork p q)
    have "p \<in> P" "q \<in> P" "fork_cost s \<le> free_frames s" using Cons.prems(2,4) Fork by (simp_all add: fork_cost_def)
    then obtain s1 where "fork_pages p q s = Some s1" "cow_state P s1" "mem_of P s1 = m1" "kept s s1"
      "balanced (sel_of s ` P) s s1" "free_frames s \<le> free_frames s1 + fork_cost s"
      using fork_refines [OF Cons.prems(1)] m1(1) Fork by blast
    then show ?thesis using Fork Cons.prems(4) by (simp add: fork_cost_def)
  next
    case (Release p)
    then have "p \<in> P" using Cons.prems(2) by simp
    then obtain s1 where "freeProcessPages p s = Some s1" "cow_state P s1" "mem_of P s1 = m1" "kept s s1"
      "balanced (sel_of s ` P) s s1" "free_frames s \<le> free_frames s1"
      using release_refines [OF Cons.prems(1)] m1(1) Release by blast
    then show ?thesis using Release Cons.prems(4) by auto
  qed
  then obtain s1 where s1: "cow_exec x s = Some s1" "cow_state P s1" "mem_of P s1 = m1" "kept s s1" "balanced (sel_of s ` P) s s1"
    "?need ops \<le> free_frames s1" by blast
  have "copy_run (sel_of s1) ops (mem_of P s1) = Some m" using m1(2) s1(3) kept_sel [OF s1(4)] by simp
  from Cons.IH [OF s1(2) _ this] s1(4,6) Cons.prems(2) obtain s' where
    s': "cow_run ops s1 = Some s'" "cow_state P s'" "mem_of P s' = m" "balanced (sel_of s1 ` P) s1 s'" by (auto simp: kept_def)
  then show ?case using s1(1) balanced_trans [OF s1(5)] kept_sel [OF s1(4)] by simp
qed (simp add: balanced_refl)

text \<open>
  C7. Fork and copy on write cannot be told from a fork that copies the memory at once, whether the
  kernel shares every code and data page read-only or copies the pages: after any sequence of forks
  into processes with empty tables, writes through the kernel to mapped addresses and releases of the
  pages of a process, every page of every process has the contents the copying semantics gives it, and the operations all return as
  long as there are free frames for them: one per write, and 144 per fork when sharing is switched off.
\<close>

theorem cow_refines_copying:
  assumes "cow_state P s" "\<Union> (op_procs ` set ops) \<subseteq> P" "copy_run (sel_of s) ops (mem_of P s) = Some m"
    "sum_list (map (frames_needed (enable_copy_on_write s)) ops) \<le> free_frames s"
  shows "\<exists>s'. cow_run ops s = Some s' \<and> cow_state P s' \<and> mem_of P s' = m"
  using cow_run_refines [OF assms] by blast

text \<open>Two processes, the first with one data page in frame 16, the second with empty tables.\<close>

definition one_page :: kst where
  "one_page = (power_on (\<lambda>_. undefined))\<lparr>enable_copy_on_write := True,
     hw_mmu := (\<lambda>_. FREE_PAGE_MARK)(pte 1 0 0 := 16), pageMap := (\<lambda>_. 0)(16 := 1),
     procs := (\<lambda>_. zero_proc)(0 := zero_proc\<lparr>p_pid := 1, p_mmuSelector := 1\<rparr>, 1 := zero_proc\<lparr>p_pid := 2, p_mmuSelector := 2\<rparr>)\<rparr>"

lemma one_page_entries:
  "ent_ok e \<Longrightarrow> fr e one_page = (if e = (1, 0, 0) then 16 else FREE_PAGE_MARK)" "ent_ok e \<Longrightarrow> fl e one_page = 0"
proof -
  assume e: "ent_ok e"
  have "ent_ok (1, 0, 0)" by (simp add: ent_ok_def)
  then have "pte 1 0 0 = cell e \<longleftrightarrow> e = (1, 0, 0)" using cell_eq [of "(1, 0, 0)" e] e by (auto simp: cell_def)
  then show "fr e one_page = (if e = (1, 0, 0) then 16 else FREE_PAGE_MARK)" "fl e one_page = 0"
    by (auto simp: fr_def fl_def one_page_def)
qed

lemma one_page_state: "cow_state {0, 1} one_page" "sel_of one_page 0 = 1" "sel_of one_page 1 = 2" "1 \<le> free_frames one_page"
  "enable_copy_on_write one_page"
proof -
  show s: "sel_of one_page 0 = 1" "sel_of one_page 1 = 2" "enable_copy_on_write one_page" by (simp_all add: sel_of_def one_page_def)
  have t: "(1, 0, 0) \<in> tabs {1, 2}" by (simp add: tabs_def ent_ok_def)
  have f: "fr e one_page = (if e = (1, 0, 0) then 16 else FREE_PAGE_MARK)" "fl e one_page = 0" if "e \<in> tabs {1, 2}" for e
    using one_page_entries [OF tabs_ok [OF that]] .
  have "e \<in> users {1, 2} 16 one_page \<longleftrightarrow> e = (1, 0, 0)" for e
    using f(1) [of e] t unfolding users_def by (cases "e = (1, 0, 0)") simp_all
  then have u: "users {1, 2} 16 one_page = {(1, 0, 0)}" by blast
  have inv: "cow_inv {1, 2} one_page"
    unfolding cow_inv_def
  proof (intro ballI impI)
    fix e assume e: "e \<in> tabs {1, 2}" "fr e one_page \<noteq> FREE_PAGE_MARK"
    then have "fr e one_page = 16" using f(1) by (simp split: if_splits)
    then show "unat (fr e one_page) < pageMapSize \<and>
        unat (pageMap one_page (unat (fr e one_page))) = card (users {1, 2} (fr e one_page) one_page) \<and>
        (fl e one_page = 0 \<and> card (users {1, 2} (fr e one_page) one_page) = 1 \<or> fl e one_page = PAGE_FLAG_READ_ONLY)"
      using u f(2) [OF e(1)] by simp (simp add: one_page_def)
  qed
  have "pages one_page (x, pg, c) = None" if "ent_ok (x, pg, c)" "unat pg \<noteq> 0" for x pg c
    using that one_page_entries(1) [OF that(1)] by (auto simp: pages_None)
  then have "gapless (pages one_page) x c" if "0 < unat x" "unat x < 16" "c = 0 \<or> c = 1" for x c
    using that unfolding gapless_def table_len_def by (fastforce simp: ent_ok_def)
  moreover have "p_pid (procs one_page 0) = 1" "p_pid (procs one_page 1) = 2"
    by (simp_all add: one_page_def)
  ultimately show "cow_state {0, 1} one_page"
    using inv s by (simp add: cow_state_def)
  have "{0} \<subseteq> {i. i < pageMapSize \<and> pageMap one_page i = 0}" by (simp add: one_page_def)
  then have "card {0 :: nat} \<le> free_frames one_page" unfolding free_frames_def by (intro card_mono) auto
  then show "1 \<le> free_frames one_page" by simp
qed

theorem cow_refines_copying_witness:
  "\<exists>s'. cow_run [Fork 0 1, Write 1 5 9] one_page = Some s' \<and> pages s' (1, 0, 0) = pages one_page (1, 0, 0) \<and>
     pages s' (2, 0, 0) = Some ((the (pages one_page (1, 0, 0)))[5 := 9])"
proof -
  let ?m = "mem_of {0, 1} one_page"
  have t: "(1, 0, 0) \<in> tabs {1, 2}" "(2, 0, 0) \<in> tabs {1, 2}" by (simp_all add: tabs_def ent_ok_def)
  have "?m (2, pg, c) = None" for pg c
    using one_page_entries(1) [of "(2, pg, c)"] tabs_ok by (auto simp: mem_of_def pages_None)
  then have p: "pages one_page (1, 0, 0) \<noteq> None" "?m (1, 0, 0) = pages one_page (1, 0, 0)" "empty_tables 2 ?m"
    using one_page_entries(1) [of "(1, 0, 0)"] one_page_state(2,3) t
    by (simp_all add: pages_None ent_ok_def mem_of_def empty_tables_def)
  obtain ws where ws: "pages one_page (1, 0, 0) = Some ws" using p(1) by blast
  have d: "drop_bit 12 (5 :: u16) = 0" "page_offset 5 = 5" by (simp_all add: page_offset_def)
  have r: "\<exists>m. copy_run (sel_of one_page) [Fork 0 1, Write 1 5 9] ?m = Some m \<and> m (1, 0, 0) = Some ws \<and> m (2, 0, 0) = Some (ws[5 := 9])"
    using p ws d one_page_state(2,3) by simp
  then obtain m where m: "copy_run (sel_of one_page) [Fork 0 1, Write 1 5 9] ?m = Some m" "m (1, 0, 0) = Some ws"
    "m (2, 0, 0) = Some (ws[5 := 9])" by blast
  obtain s' where s': "cow_run [Fork 0 1, Write 1 5 9] one_page = Some s'" "mem_of {0, 1} s' = m"
    using cow_refines_copying [OF one_page_state(1) _ m(1)] one_page_state(4,5) by auto
  have "pages s' e = m e" if "m e \<noteq> None" for e
    using that unfolding s'(2) [symmetric] mem_of_def by (simp split: if_splits)
  then show ?thesis using s'(1) m(2,3) ws by simp
qed

text \<open>
  C11. No frame is lost and none is given up too early: whatever sequence of forks, writes and releases
  is carried out, the reference count of every frame changes by as much as the number of table
  entries that name it; so when a process has forked and its child's pages are released, every frame
  that only the child used is free again.
\<close>

theorem frames_accounted:
  assumes "cow_state P s" "\<Union> (op_procs ` set ops) \<subseteq> P" "copy_run (sel_of s) ops (mem_of P s) = Some m"
    "sum_list (map (frames_needed (enable_copy_on_write s)) ops) \<le> free_frames s"
  shows "\<exists>s'. cow_run ops s = Some s' \<and> (\<forall>f. unat f < pageMapSize \<longrightarrow>
    unat (pageMap s' (unat f)) + card (users (sel_of s ` P) f s) = unat (pageMap s (unat f)) + card (users (sel_of s ` P) f s'))"
  using cow_run_refines [OF assms] unfolding balanced_def by blast

text \<open>After a fork, a write by the child and its end, the parent is the only user of its page.\<close>

theorem frames_accounted_witness:
  "\<exists>s'. cow_run [Fork 0 1, Write 1 5 9, Release 1] one_page = Some s' \<and>
     unat (pageMap s' 16) = card (users {1, 2} 16 s')"
proof -
  let ?m = "mem_of {0, 1} one_page"
  have t: "(1, 0, 0) \<in> tabs {1, 2}" by (simp add: tabs_def ent_ok_def)
  have "?m (2, pg, c) = None" for pg c
    using one_page_entries(1) [of "(2, pg, c)"] tabs_ok by (auto simp: mem_of_def pages_None)
  then have p: "pages one_page (1, 0, 0) \<noteq> None" "?m (1, 0, 0) = pages one_page (1, 0, 0)" "empty_tables 2 ?m"
    using one_page_entries(1) [of "(1, 0, 0)"] one_page_state(2,3) t
    by (simp_all add: pages_None ent_ok_def mem_of_def empty_tables_def)
  obtain ws where ws: "pages one_page (1, 0, 0) = Some ws" using p(1) by blast
  have d: "drop_bit 12 (5 :: u16) = 0" "page_offset 5 = 5" by (simp_all add: page_offset_def)
  obtain m where m: "copy_run (sel_of one_page) [Fork 0 1, Write 1 5 9, Release 1] ?m = Some m"
    using p ws d one_page_state(2,3) by simp
  have im: "sel_of one_page ` {0, 1} = {1, 2}" using one_page_state(2,3) by simp
  obtain s' where s': "cow_run [Fork 0 1, Write 1 5 9, Release 1] one_page = Some s'"
    "\<forall>f. unat f < pageMapSize \<longrightarrow> unat (pageMap s' (unat f)) + card (users {1, 2} f one_page) =
       unat (pageMap one_page (unat f)) + card (users {1, 2} f s')"
    using frames_accounted [OF one_page_state(1) _ m] one_page_state(4,5) unfolding im by auto
  have "unat (pageMap one_page (unat (16 :: u16))) = card (users {1, 2} 16 one_page)"
    using cow_invD(2) [OF cow_stateD(1) [OF one_page_state(1)], of "(1, 0, 0)"] t one_page_entries(1) [of "(1, 0, 0)"] unfolding im
    by (simp add: ent_ok_def)
  then have "unat (pageMap s' (unat (16 :: u16))) = card (users {1, 2} 16 s')" using s'(2) [rule_format, of 16] by simp
  then show ?thesis using s'(1) by auto
qed

end
