(* ===== verification/Scheduling.thy ===== *)
theory Scheduling
  imports Sched
begin

text \<open>
  Properties of the scheduler: which task \<^verbatim>\<open>resched\<close> switches to and when it cannot return, what
  pending signals do, the time slice, the exact effect of \<^verbatim>\<open>wakeup\<close>, and the lock that is free
  between any two operations.
\<close>

section \<open>The scan for the next task\<close>

text \<open>The order in which the tasks other than the current one are looked at.\<close>

definition task_order :: "nat \<Rightarrow> nat list" where
  "task_order c = [Suc c ..< 16] @ [0 ..< c]"

lemma next_task_current: "next_task s (currentTask s) = Some (currentTask s)"
  by (subst next_task.simps) simp

lemma next_task_step:
  "n \<noteq> currentTask s \<Longrightarrow> n \<le> 15 \<Longrightarrow>
   next_task s n = (if runnable (procs s n) then Some n else next_task s (Suc n))"
  by (subst next_task.simps) simp

lemma next_task_wrap:
  "currentTask s < 16 \<Longrightarrow> next_task s 16 = (if runnable (procs s 0) then Some 0 else next_task s 1)"
  by (subst next_task.simps) simp

text \<open>A stretch of entries without the current task.\<close>

lemma next_task_stretch:
  "a + k \<le> 16 \<Longrightarrow> (\<And>i. a \<le> i \<Longrightarrow> i < a + k \<Longrightarrow> i \<noteq> currentTask s) \<Longrightarrow>
   next_task s a = (case find (\<lambda>i. runnable (procs s i)) [a ..< a + k] of
     Some n \<Rightarrow> Some n | None \<Rightarrow> next_task s (a + k))"
proof (induction k arbitrary: a)
  case (Suc k)
  have step: "next_task s a = (if runnable (procs s a) then Some a else next_task s (Suc a))"
    using Suc.prems by (intro next_task_step) auto
  have "next_task s (Suc a) = (case find (\<lambda>i. runnable (procs s i)) [Suc a ..< Suc a + k] of
     Some n \<Rightarrow> Some n | None \<Rightarrow> next_task s (Suc a + k))"
    using Suc.prems by (intro Suc.IH) auto
  moreover have "[a ..< a + Suc k] = a # [Suc a ..< Suc a + k]" by (simp add: upt_conv_Cons)
  ultimately show ?case using step by (simp only: find.simps add_Suc_shift split: if_split) simp
qed simp

lemma find_append: "find P (xs @ ys) = (case find P xs of Some x \<Rightarrow> Some x | None \<Rightarrow> find P ys)"
  by (induction xs) auto

lemma next_task_found:
  assumes c: "currentTask s = c" "c \<le> 15"
    and f: "find (\<lambda>i. runnable (procs s i)) (task_order c) = Some n"
  shows "next_task s (Suc c) = Some n"
proof -
  let ?f = "find (\<lambda>i. runnable (procs s i))"
  have a: "next_task s (Suc c) = (case ?f [Suc c ..< 16] of Some n \<Rightarrow> Some n | None \<Rightarrow> next_task s 16)"
  proof -
    have e: "Suc c + (16 - Suc c) = 16" using c by simp
    then show ?thesis using next_task_stretch [of "Suc c" "16 - Suc c" s, unfolded e] c by simp
  qed
  show ?thesis
  proof (cases "?f [Suc c ..< 16]")
    case None
    with f have f0: "?f [0 ..< c] = Some n" by (simp add: task_order_def find_append)
    then have "0 < c" by (cases c) auto
    then have "next_task s 16 = next_task s 0"
      using next_task_wrap [of s] next_task_step [of 0 s] c by simp
    also have "\<dots> = Some n" using next_task_stretch [of 0 c s] c f0 by simp
    finally show ?thesis using a None by simp
  next
    case (Some m)
    with a f show ?thesis by (simp add: task_order_def find_append)
  qed
qed

lemma find_runnable: "find (\<lambda>i. runnable (procs s i)) xs = Some n \<Longrightarrow> n \<in> set xs \<and> runnable (procs s n)"
  by (induction xs) (auto split: if_splits)

lemma task_order_set: "n \<in> set (task_order c) \<Longrightarrow> c \<le> 15 \<Longrightarrow> n \<le> 15 \<and> n \<noteq> c"
  by (auto simp: task_order_def)

lemma runnable_not_kworker: "runnable p \<Longrightarrow> p_state p \<noteq> PROC_STATE_KWORKER"
  by (auto simp: runnable_def)

lemma runnable_frame: "runnable (p_intFrame_update g p) = runnable p"
  by (simp add: runnable_def)

lemma runnable_frames: "(\<lambda>i. runnable (((procs s)(c := p_intFrame_update g (procs s c))) i)) = (\<lambda>i. runnable (procs s i))"
  by (auto simp: runnable_frame)

section \<open>Switching\<close>

lemma save_frame_simps [simp]:
  "currentTask (save_frame k s) = currentTask s" "TIMESLICE (save_frame k s) = TIMESLICE s"
  "kernelTaskQueue (save_frame k s) = kernelTaskQueue s" "schedMx (save_frame k s) = schedMx s"
  "stack_get k' (save_frame k s) = stack_get k' s"
  by (simp_all add: save_frame_def Let_def stack_get_def split: istack.split)

lemma save_frame_procs:
  "procs (save_frame k s) i = procs s i \<or>
   procs (save_frame k s) i = p_intFrame_update (\<lambda>_. frame_at (stack_get k s)) (procs s i)"
  by (simp add: save_frame_def Let_def)

lemma save_frame_runnable [simp]: "runnable (procs (save_frame k s) i) = runnable (procs s i)"
  using save_frame_procs [of k s i] by (auto simp: runnable_frame)

lemma save_frame_state [simp]:
  "p_state (procs (save_frame k s) i) = p_state (procs s i)"
  "p_signalsPending (procs (save_frame k s) i) = p_signalsPending (procs s i)"
  "p_pid (procs (save_frame k s) i) = p_pid (procs s i)"
  using save_frame_procs [of k s i] by auto

lemma save_frame_other: "i \<noteq> currentTask s \<Longrightarrow> procs (save_frame k s) i = procs s i"
  by (simp add: save_frame_def Let_def)

lemma stack_get_set [simp]: "stack_get k (stack_set k b s) = b"
  by (simp add: stack_get_def stack_set_def split: istack.split)

lemma stack_set_simps [simp]:
  "procs (stack_set k b s) = procs s" "TIMESLICE (stack_set k b s) = TIMESLICE s"
  "schedMx (stack_set k b s) = schedMx s" "kernelTaskQueue (stack_set k b s) = kernelTaskQueue s"
  by (simp_all add: stack_set_def split: istack.split)

lemma stack_get_upd [simp]:
  "stack_get k (s\<lparr>currentTask := a\<rparr>) = stack_get k s" "stack_get k (s\<lparr>cProc := b\<rparr>) = stack_get k s"
  "stack_get k (s\<lparr>ticksToSwitch := c\<rparr>) = stack_get k s" "stack_get k (proc_upd i f s) = stack_get k s"
  by (simp_all add: stack_get_def split: istack.split)

lemma switch_to_simps [simp]:
  "currentTask (switch_to k n s) = n" "cProc (switch_to k n s) = Some n"
  "ticksToSwitch (switch_to k n s) = TIMESLICE s" "schedMx (switch_to k n s) = schedMx s"
  "kernelTaskQueue (switch_to k n s) = kernelTaskQueue s"
  by (simp_all add: switch_to_def Let_def)

lemma switch_to_frame: "frame_at (stack_get k (switch_to k n s)) = p_intFrame (procs s n)"
  by (simp add: switch_to_def Let_def)

lemma switch_to_procs:
  "procs (switch_to k n s) i = (if i = n \<and> p_state (procs s n) = PROC_STATE_NEW
     then p_state_update (\<lambda>_. PROC_STATE_RUN) (procs s i) else procs s i)"
  by (simp add: switch_to_def Let_def)

definition killed :: "proc \<Rightarrow> bool" where
  "killed p \<longleftrightarrow> p_signalsPending p \<noteq> 0 \<and> (getSignalFromMask (p_signalsPending p) = SIGKILL \<or>
     getSignalFromMask (p_signalsPending p) = SIGPIPE)"

lemma select_task_plain:
  assumes "next_task s st = Some n" "n \<le> 15" "p_state (procs s n) \<noteq> PROC_STATE_KWORKER" "\<not> killed (procs s n)"
  shows "select_task st s = Some (n, s)"
  using assms by (subst select_task.simps) (auto simp: Let_def killed_def)

text \<open>
  C13. Round robin: \<^verbatim>\<open>resched\<close> switches to the first runnable task after the current one in the cyclic
  order of the table, when no fatal signal is pending for it.  The interrupted task's frame is saved in its entry, the
  chosen task's frame is on the interrupt stack, and the time slice starts afresh.
\<close>

theorem resched_round_robin:
  assumes "currentTask s = c" "c < 15" "p_state (procs s c) = PROC_STATE_RUN"
    "find (\<lambda>i. runnable (procs s i)) (task_order c) = Some n" "\<not> killed (procs s n)"
  shows "\<exists>s'. resched k s = Some s' \<and> currentTask s' = n \<and> cProc s' = Some n \<and>
    frame_at (stack_get k s') = p_intFrame (procs s n) \<and>
    p_intFrame (procs s' c) = frame_at (stack_get k s) \<and> ticksToSwitch s' = TIMESLICE s \<and>
    p_state (procs s' n) \<noteq> PROC_STATE_NEW \<and> (\<forall>i. i \<noteq> c \<and> i \<noteq> n \<longrightarrow> procs s' i = procs s i)"
proof -
  let ?s = "save_frame k s"
  note r = find_runnable [OF assms(4)]
  have n: "n \<le> 15" "n \<noteq> c" using task_order_set [of n c] r assms(2) by auto
  have "next_task ?s (Suc c) = Some n" using assms by (intro next_task_found) simp_all
  moreover have "\<not> killed (procs ?s n)" using assms(5) by (simp add: killed_def)
  moreover have "p_state (procs ?s n) \<noteq> PROC_STATE_KWORKER" using r runnable_not_kworker by simp
  ultimately have sel: "select_task (Suc c) ?s = Some (n, ?s)" using n(1) by (intro select_task_plain)
  have o: "procs ?s i = procs s i" if "i \<noteq> c" for i using that assms(1) by (simp add: save_frame_other)
  have "p_intFrame (procs ?s c) = frame_at (stack_get k s)"
    using assms(1-3) by (simp add: save_frame_def Let_def)
  then show ?thesis
    using sel o n(2) assms(1) switch_to_frame [of k n ?s] by (simp add: resched_def switch_to_procs)
qed

theorem resched_round_robin_witness:
  "\<exists>s s'. find (\<lambda>i. runnable (procs s i)) (task_order 3) = Some 1 \<and> resched Sched_stack s = Some s' \<and>
     currentTask s' = 1 \<and> p_intFrame (procs s' 3) = frame_at (sched_stack s)"
proof -
  define s where "s = (power_on (\<lambda>_. undefined))\<lparr>currentTask := 3,
    procs := (\<lambda>i. zero_proc\<lparr>p_state := (if i = 3 \<or> i = 1 then PROC_STATE_RUN else PROC_STATE_SLEEP)\<rparr>)\<rparr>"
  have p: "p_state (procs s i) = (if i = 3 \<or> i = 1 then PROC_STATE_RUN else PROC_STATE_SLEEP)"
    "p_signalsPending (procs s i) = 0" "currentTask s = 3" for i by (simp_all add: s_def)
  have f: "find (\<lambda>i. runnable (procs s i)) (task_order 3) = Some 1"
    by (simp add: task_order_def runnable_def p upt_rec)
  have "\<not> killed (procs s 1)" by (simp add: killed_def p)
  then have "\<exists>s'. resched Sched_stack s = Some s' \<and> currentTask s' = 1 \<and> p_intFrame (procs s' 3) = frame_at (sched_stack s)"
    using resched_round_robin [of s 3 1 Sched_stack] f by (auto simp: p stack_get_def)
  with f show ?thesis by blast
qed

section \<open>No runnable task\<close>

lemma next_task_idle:
  assumes "currentTask s = 0" "\<And>i. i \<le> 15 \<Longrightarrow> \<not> runnable (procs s i)" "next_task s n = Some y" "0 < n"
  shows False
proof -
  have "\<And>s n y. next_task s n = Some y \<Longrightarrow> currentTask s = 0 \<and> (\<forall>i\<le>15. \<not> runnable (procs s i)) \<and> 0 < n \<longrightarrow> False"
  proof (rule next_task.raw_induct [where P = "\<lambda>s n y. currentTask s = 0 \<and> (\<forall>i\<le>15. \<not> runnable (procs s i)) \<and> 0 < n \<longrightarrow> False"])
    fix nt s n y
    assume ih: "\<And>s n y. nt s n = Some y \<Longrightarrow> currentTask s = 0 \<and> (\<forall>i\<le>15. \<not> runnable (procs s i)) \<and> 0 < n \<longrightarrow> False"
      and b: "(if n \<noteq> currentTask s then let n' = if n > MAXPROC then 0 else n
         in if runnable (procs s n') then Some n' else nt s (Suc n') else Some n) = Some y"
    show "currentTask s = 0 \<and> (\<forall>i\<le>15. \<not> runnable (procs s i)) \<and> 0 < n \<longrightarrow> False"
    proof
      assume a: "currentTask s = 0 \<and> (\<forall>i\<le>15. \<not> runnable (procs s i)) \<and> 0 < n"
      then have "nt s (Suc (if n > MAXPROC then 0 else n)) = Some y"
        using b by (auto simp: Let_def split: if_splits)
      from ih [OF this] a show False by blast
    qed
  qed
  then show False using assms by blast
qed

lemma resched_idle:
  assumes "currentTask s = 0" "\<forall>i\<le>15. \<not> runnable (procs s i)"
  shows "resched k s = None"
proof -
  have "next_task (save_frame k s) 1 = None"
  proof (cases "next_task (save_frame k s) 1")
    case (Some y)
    have "False"
    proof (rule next_task_idle [OF _ _ Some])
      show "currentTask (save_frame k s) = 0" using assms(1) by simp
      show "\<not> runnable (procs (save_frame k s) i)" if "i \<le> 15" for i
        unfolding save_frame_runnable using assms(2) that by blast
    qed simp
    then show ?thesis ..
  qed
  then have "select_task 1 (save_frame k s) = None" by (subst select_task.simps) simp
  with assms(1) show ?thesis by (simp add: resched_def)
qed

text \<open>
  C34. When the current task is entry 0 and no entry is runnable, \<^verbatim>\<open>resched\<close> never returns: the scan
  passes the end of the table before it compares with the current task and goes round forever.
\<close>

theorem resched_idle_diverges:
  assumes "currentTask s = 0" "\<forall>i\<le>15. \<not> runnable (procs s i)"
  shows "resched k s = None"
  using assms by (rule resched_idle)

theorem resched_idle_diverges_witness: "resched Sched_stack (power_on (\<lambda>_. undefined)) = None"
  by (rule resched_idle_diverges) (simp_all add: runnable_def)

section \<open>Signals\<close>

lemma bit_8: "bit (8 :: u16) j \<longleftrightarrow> j = 3"
proof -
  have e: "(8 :: u16) = 2 ^ 3" by simp
  show ?thesis by (simp only: e bit_exp_iff) (auto simp: possible_bit_def)
qed

lemma getSignal_lowest: "getSignalFromMask m = k \<longleftrightarrow>
    k < SIGNUM \<and> bit m k \<and> (\<forall>j<k. \<not> bit m j) \<or> k = SIGNUM \<and> (\<forall>j<SIGNUM. \<not> bit m j)"
proof (cases "scan (\<lambda>i. bit m i) 0 SIGNUM")
  case None
  then have n: "\<forall>j<SIGNUM. \<not> bit m j" unfolding scan_None .
  then show ?thesis by (simp only: getSignalFromMask_def None option.case) blast
next
  case (Some i)
  then have i: "i < SIGNUM \<and> bit m i \<and> (\<forall>j<i. \<not> bit m j)" unfolding scan_Some_iff .
  have "k = i" if "k < SIGNUM" "bit m k" "\<forall>j<k. \<not> bit m j"
    using that i by (blast intro: linorder_neqE_nat)
  with i show ?thesis by (simp only: getSignalFromMask_def Some option.case) blast
qed

lemma mask_8: "\<forall>j<SIGKILL. \<not> bit (8 :: u16) j" "bit (8 :: u16) SIGKILL"
  unfolding bit_8 by simp_all

text \<open>
  Only a mask whose lowest bit is \<^verbatim>\<open>SIGKILL\<close> is fatal: \<^verbatim>\<open>SIGPIPE\<close>, numbered beyond the four signals
  the mask is searched for, is never recognised, and neither is \<^verbatim>\<open>SIGKILL\<close> behind a lower signal.
\<close>

theorem fatal_signals: "killed p \<longleftrightarrow> bit (p_signalsPending p) SIGKILL \<and> (\<forall>j<SIGKILL. \<not> bit (p_signalsPending p) j)"
proof -
  have "p_signalsPending p \<noteq> 0" if "bit (p_signalsPending p) SIGKILL" using that by auto
  moreover have "getSignalFromMask (p_signalsPending p) \<noteq> SIGPIPE"
    by (simp add: getSignal_lowest)
  ultimately show ?thesis
    using getSignal_lowest [of "p_signalsPending p" SIGKILL] by (auto simp: killed_def)
qed

theorem fatal_signals_witness:
  "\<not> killed (zero_proc\<lparr>p_signalsPending := push_bit SIGPIPE 1\<rparr>) \<and>
   \<not> killed (zero_proc\<lparr>p_signalsPending := push_bit SIGKILL 1 OR 1\<rparr>) \<and>
   killed (zero_proc\<lparr>p_signalsPending := push_bit SIGKILL 1\<rparr>)"
proof -
  have b: "bit (push_bit k 1 :: u16) j \<longleftrightarrow> j = k \<and> j < 16" for j k
    by (auto simp: bit_exp_iff possible_bit_def)
  have "\<not> bit (push_bit SIGPIPE 1 :: u16) SIGKILL" "bit (push_bit SIGKILL 1 :: u16) SIGKILL"
    "\<forall>j<SIGKILL. \<not> bit (push_bit SIGKILL 1 :: u16) j" unfolding b by simp_all
  moreover have "\<exists>j<SIGKILL. bit (push_bit SIGKILL 1 OR 1 :: u16) j" by (intro exI [of _ 0]) simp
  moreover have p: "p_signalsPending (zero_proc\<lparr>p_signalsPending := m\<rparr>) = m" for m
    by (simp add: zero_proc_def)
  ultimately show ?thesis unfolding fatal_signals p by blast
qed

text \<open>
  C32. A killed task that \<^verbatim>\<open>resched\<close> comes to is not resumed: it is handed to the kernel worker with an
  exit request in the first free entry of the task queue, and the scan goes on behind it.
\<close>

theorem killed_task_exits:
  assumes "next_task s st = Some n" "n \<le> 15" "runnable (procs s n)" "killed (procs s n)"
    "scan (\<lambda>i. kt_type (kernelTaskQueue s i) = KERNEL_TASK_NONE) 0 MAX_QUEUE_SIZE = Some q"
  shows "\<exists>t. select_task st s = select_task (Suc n) t \<and> p_state (procs t n) = PROC_STATE_KWORKER \<and>
    \<not> runnable (procs t n) \<and> (\<forall>i. i \<noteq> n \<longrightarrow> procs t i = procs s i) \<and>
    kernelTaskQueue t = (kernelTaskQueue s)(q := \<lparr>kt_type = KERNEL_TASK_EXIT, kt_callerPid = p_pid (procs s n), kt_args = 0\<rparr>)"
proof -
  let ?t = "proc_upd n (p_state_update (\<lambda>_. PROC_STATE_KWORKER)) (addKernelTask KERNEL_TASK_EXIT (p_pid (procs s n)) 0 s)"
  have "select_task st s = select_task (Suc n) ?t"
    using assms(1-4) runnable_not_kworker [OF assms(3)]
    by (subst select_task.simps) (simp add: Let_def killed_def)
  moreover have "addKernelTask KERNEL_TASK_EXIT (p_pid (procs s n)) 0 s =
      task_upd q \<lparr>kt_type = KERNEL_TASK_EXIT, kt_callerPid = p_pid (procs s n), kt_args = 0\<rparr> s"
    using assms(5) by (simp add: addKernelTask_def del: scan_numeral)
  ultimately show ?thesis by (intro exI [of _ ?t]) (simp add: task_upd_def runnable_def)
qed

theorem killed_task_exits_witness:
  "\<exists>s t. runnable (procs s 2) \<and> killed (procs s 2) \<and> select_task 1 s = select_task 3 t \<and>
     p_state (procs t 2) = PROC_STATE_KWORKER \<and> kt_type (kernelTaskQueue t 0) = KERNEL_TASK_EXIT"
proof -
  define s where "s = (power_on (\<lambda>_. undefined))\<lparr>procs := (\<lambda>_. zero_proc)
    (2 := zero_proc\<lparr>p_state := PROC_STATE_RUN, p_signalsPending := 8\<rparr>)\<rparr>"
  have "killed (procs s 2)" using mask_8 by (simp add: killed_def s_def getSignal_lowest)
  moreover have "runnable (procs s 2)" by (simp add: runnable_def s_def)
  moreover have "next_task s 1 = Some 2"
    using next_task_stretch [of 1 2 s] calculation(2) by (simp add: s_def runnable_def upt_rec)
  moreover have "scan (\<lambda>i. kt_type (kernelTaskQueue s i) = KERNEL_TASK_NONE) 0 MAX_QUEUE_SIZE = Some 0"
    by (simp add: s_def)
  ultimately show ?thesis using killed_task_exits [of s 1 2 0] by (fastforce simp: numeral_3_eq_3)
qed

text \<open>
  When the task queue is full the request of a killed task is dropped without a trace, and yet the
  task leaves the set of runnable tasks: nothing in the queue stands for its exit.  Only a task that also has an
  entry in the wait queue comes back, when the worker retries its request.
\<close>

theorem killed_task_lost:
  assumes "next_task s st = Some n" "n \<le> 15" "runnable (procs s n)" "killed (procs s n)"
    "\<forall>i<MAX_QUEUE_SIZE. kt_type (kernelTaskQueue s i) \<noteq> KERNEL_TASK_NONE"
  shows "\<exists>t. select_task st s = select_task (Suc n) t \<and> p_state (procs t n) = PROC_STATE_KWORKER \<and>
    kernelTaskQueue t = kernelTaskQueue s"
proof -
  let ?t = "proc_upd n (p_state_update (\<lambda>_. PROC_STATE_KWORKER)) (addKernelTask KERNEL_TASK_EXIT (p_pid (procs s n)) 0 s)"
  have "scan (\<lambda>i. kt_type (kernelTaskQueue s i) = KERNEL_TASK_NONE) 0 MAX_QUEUE_SIZE = None"
    unfolding scan_None using assms(5) by blast
  then have "addKernelTask KERNEL_TASK_EXIT (p_pid (procs s n)) 0 s = s"
    unfolding addKernelTask_def by (simp del: scan_numeral)
  then show ?thesis
    using assms(1-4) runnable_not_kworker [OF assms(3)]
    by (subst select_task.simps) (intro exI [of _ ?t], simp add: Let_def killed_def)
qed

theorem killed_task_lost_witness:
  "\<exists>s t. runnable (procs s 2) \<and> killed (procs s 2) \<and> select_task 1 s = select_task 3 t \<and>
     p_state (procs t 2) = PROC_STATE_KWORKER \<and> kernelTaskQueue t = kernelTaskQueue s"
proof -
  define s where "s = (power_on (\<lambda>_. undefined))\<lparr>procs := (\<lambda>_. zero_proc)
    (2 := zero_proc\<lparr>p_state := PROC_STATE_RUN, p_signalsPending := 8\<rparr>),
    kernelTaskQueue := (\<lambda>_. \<lparr>kt_type = KERNEL_TASK_WAITPID, kt_callerPid = 1, kt_args = 0\<rparr>)\<rparr>"
  have "killed (procs s 2)" using mask_8 by (simp add: killed_def s_def getSignal_lowest)
  moreover have "runnable (procs s 2)" by (simp add: runnable_def s_def)
  moreover have "next_task s 1 = Some 2"
    using next_task_stretch [of 1 2 s] calculation(2) by (simp add: s_def runnable_def upt_rec)
  moreover have "\<forall>i<MAX_QUEUE_SIZE. kt_type (kernelTaskQueue s i) \<noteq> KERNEL_TASK_NONE"
    by (simp add: s_def)
  ultimately show ?thesis using killed_task_lost [of s 1 2] by (auto simp: numeral_3_eq_3)
qed

section \<open>The time slice\<close>

text \<open>\<open>n\<close> timer interrupts in a row.\<close>

primrec timer_run :: "nat \<Rightarrow> kst \<Rightarrow> kst option" where
  "timer_run 0 s = Some s"
| "timer_run (Suc n) s = Option.bind (timer_interrupt s) (timer_run n)"

lemma timer_interrupt_counts:
  assumes "1 < unat (ticksToSwitch s)"
  shows "timer_interrupt s = Some (s\<lparr>ticks := ticks s + 1, ticksToSwitch := ticksToSwitch s - 1\<rparr>)"
    "unat (ticksToSwitch s - 1) = unat (ticksToSwitch s) - 1"
proof -
  show u: "unat (ticksToSwitch s - 1) = unat (ticksToSwitch s) - 1"
    using assms by (simp add: unat_sub word_le_nat_alt)
  have "ticksToSwitch s \<noteq> 0" "ticksToSwitch s - 1 \<noteq> 0" using assms u by auto
  then show "timer_interrupt s = Some (s\<lparr>ticks := ticks s + 1, ticksToSwitch := ticksToSwitch s - 1\<rparr>)"
    by (simp add: timer_interrupt_def Let_def)
qed

text \<open>
  A task is preempted after exactly the ticks left of its slice: the timer interrupts before the
  last only count, and the last one enters \<^verbatim>\<open>resched\<close> with the counter at zero.
\<close>

theorem timer_preempts:
  assumes "0 < unat (ticksToSwitch s)"
  shows "timer_run (unat (ticksToSwitch s)) s =
    resched Sched_stack (s\<lparr>ticks := ticks s + ticksToSwitch s, ticksToSwitch := 0\<rparr>)"
  using assms
proof (induction "unat (ticksToSwitch s)" arbitrary: s)
  case (Suc n)
  show ?case
  proof (cases "n = 0")
    case True
    then have "unat (ticksToSwitch s) = unat (1 :: u16)" using Suc.hyps(2) by simp
    then have t: "ticksToSwitch s = 1" by (simp only: word_unat_eq_iff)
    then have "timer_interrupt s = resched Sched_stack (s\<lparr>ticks := ticks s + 1, ticksToSwitch := 0\<rparr>)"
      by (simp add: timer_interrupt_def Let_def)
    then show ?thesis using t
      by (cases "resched Sched_stack (s\<lparr>ticks := ticks s + 1, ticksToSwitch := 0\<rparr>)") simp_all
  next
    case False
    let ?s = "s\<lparr>ticks := ticks s + 1, ticksToSwitch := ticksToSwitch s - 1\<rparr>"
    have gt: "1 < unat (ticksToSwitch s)" using False Suc.hyps(2) by simp
    note c = timer_interrupt_counts [OF gt]
    have n: "unat (ticksToSwitch ?s) = n" using c(2) Suc.hyps(2) by simp
    have "timer_run n ?s = resched Sched_stack (?s\<lparr>ticks := ticks ?s + ticksToSwitch ?s, ticksToSwitch := 0\<rparr>)"
      using Suc.hyps(1) [of ?s] n False by simp
    then show ?thesis using c(1) Suc.hyps(2) [symmetric] by simp
  qed
qed simp

theorem timer_preempts_witness:
  "timer_run 3 ((power_on (\<lambda>_. undefined))\<lparr>ticksToSwitch := 3\<rparr>) = None"
proof -
  let ?s = "(power_on (\<lambda>_. undefined))\<lparr>ticksToSwitch := 3\<rparr>"
  have "resched Sched_stack (?s\<lparr>ticks := ticks ?s + 3, ticksToSwitch := 0\<rparr>) = None"
    using resched_idle [of "?s\<lparr>ticks := ticks ?s + 3, ticksToSwitch := 0\<rparr>"] by (simp add: runnable_def)
  then show ?thesis using timer_preempts [of ?s] by simp
qed

section \<open>Sleeping and waking\<close>

lemma fort_each:
  assumes "\<And>i t. procs (body i t) = (procs t)(i := g (procs t i))"
  shows "procs (fort a k body s) = (\<lambda>i. if a \<le> i \<and> i < a + k then g (procs s i) else procs s i)"
proof (induction k arbitrary: a s)
  case (Suc k)
  show ?case by (rule ext) (auto simp: Suc assms le_Suc_eq)
qed (auto simp: fun_eq_iff)

text \<open>
  \<^verbatim>\<open>wakeup\<close> makes exactly the tasks sleeping on the event runnable again, changes nothing else in the
  process table, and gives the scheduler lock back.
\<close>

theorem wakeup_exact:
  assumes "schedMx s \<noteq> 1"
  shows "\<exists>s'. wakeup event s = Some s' \<and> schedMx s' = 0 \<and> procs s' = (\<lambda>i.
    if i < MAXPROC \<and> p_state (procs s i) = PROC_STATE_SLEEP \<and> p_waitingOn (procs s i) = event
    then (procs s i)\<lparr>p_state := PROC_STATE_RUN, p_waitingOn := 0\<rparr> else procs s i)"
proof -
  let ?g = "\<lambda>q. if p_state q = PROC_STATE_SLEEP \<and> p_waitingOn q = event
    then q\<lparr>p_state := PROC_STATE_RUN, p_waitingOn := 0\<rparr> else q"
  let ?b = "\<lambda>i t. if p_state (procs t i) = PROC_STATE_SLEEP \<and> p_waitingOn (procs t i) = event
    then proc_upd i (\<lambda>q. q\<lparr>p_state := PROC_STATE_RUN, p_waitingOn := 0\<rparr>) t else t"
  have "procs (fort 0 MAXPROC ?b (s\<lparr>schedMx := 1\<rparr>)) =
      (\<lambda>i. if 0 \<le> i \<and> i < 0 + MAXPROC then ?g (procs (s\<lparr>schedMx := 1\<rparr>) i) else procs (s\<lparr>schedMx := 1\<rparr>) i)"
    by (rule fort_each) auto
  then show ?thesis
    using assms
    by (simp add: wakeup_def lock_sched_def spinlock_lock_def unlock_sched_def spinlock_unlock_def fun_eq_iff del: fort_numeral)
qed

theorem wakeup_exact_witness:
  "\<exists>s s'. p_state (procs s 4) = PROC_STATE_SLEEP \<and> wakeup 7 s = Some s' \<and> p_state (procs s' 4) = PROC_STATE_RUN \<and>
     p_state (procs s' 5) = PROC_STATE_SLEEP"
proof -
  define s where "s = (power_on (\<lambda>_. undefined))\<lparr>procs := (\<lambda>i. zero_proc\<lparr>p_state := PROC_STATE_SLEEP,
    p_waitingOn := (if i = 4 then 7 else 8)\<rparr>)\<rparr>"
  have p: "p_state (procs s i) = PROC_STATE_SLEEP" "p_waitingOn (procs s i) = (if i = 4 then 7 else 8)" for i
    by (simp_all add: s_def)
  have "schedMx s \<noteq> 1" by (simp add: s_def)
  from wakeup_exact [OF this, of 7] obtain s' where "wakeup 7 s = Some s'" "procs s' = (\<lambda>i.
    if i < MAXPROC \<and> p_state (procs s i) = PROC_STATE_SLEEP \<and> p_waitingOn (procs s i) = 7
    then (procs s i)\<lparr>p_state := PROC_STATE_RUN, p_waitingOn := 0\<rparr> else procs s i)" by blast
  then show ?thesis by (intro exI [of _ s] exI [of _ s']) (simp add: p)
qed

section \<open>The scheduler lock\<close>

text \<open>
  The operations that interrupt handlers and the kernel worker run on the process table.  Each is
  one step: interrupts are disabled while a handler runs.
\<close>

inductive sched_step :: "kst \<Rightarrow> kst \<Rightarrow> bool" where
  free_proc: "get_free_proc s = Some (r, s') \<Longrightarrow> sched_step s s'"
| run: "sched_step s (run_proc p s)"
| gen_pid: "sched_step s (snd (sched_genPid s))"
| task: "sched_step s (addKernelTask task callerPid args s)"
| signal: "sendSig pid sig s = Some s' \<Longrightarrow> sched_step s s'"
| sleep: "sleep p event s = Some s' \<Longrightarrow> sched_step s s'"
| wakeup: "wakeup event s = Some s' \<Longrightarrow> sched_step s s'"
| timer: "timer_interrupt s = Some s' \<Longrightarrow> sched_step s s'"
| resched: "resched k s = Some s' \<Longrightarrow> sched_step s s'"

inductive sched_reachable :: "kst \<Rightarrow> bool" where
  init: "sched_reachable (sched_init s)"
| step: "sched_reachable s \<Longrightarrow> sched_step s s' \<Longrightarrow> sched_reachable s'"

inductive_cases sched_stepE: "sched_step s s'"

lemma lock_sched_iff: "lock_sched s = Some t \<longleftrightarrow> schedMx s \<noteq> 1 \<and> t = s\<lparr>schedMx := 1\<rparr>"
  by (auto simp: lock_sched_def spinlock_lock_def)

lemma unlock_sched_mx [simp]: "schedMx (unlock_sched s) = 0"
  by (simp add: unlock_sched_def spinlock_unlock_def)

lemma addKernelTask_mx [simp]: "schedMx (addKernelTask t c a s) = schedMx s"
  by (simp add: addKernelTask_def task_upd_def split: option.split del: scan_numeral)

lemma select_task_mx: "select_task st s = Some (n, s') \<Longrightarrow> schedMx s' = schedMx s \<and> n \<le> MAXPROC \<and> TIMESLICE s' = TIMESLICE s"
proof -
  let ?P = "\<lambda>st s y. schedMx (snd y) = schedMx s \<and> fst y \<le> MAXPROC \<and> TIMESLICE (snd y) = TIMESLICE s"
  have "\<And>st s y. select_task st s = Some y \<Longrightarrow> ?P st s y"
  proof (rule select_task.raw_induct [where P = ?P])
    fix select st s y
    assume ih: "\<And>st s y. select st s = Some y \<Longrightarrow> ?P st s y"
      and b: "Option.bind (next_task s st) (\<lambda>n. Option.bind (require (n \<le> MAXPROC)) (\<lambda>_. let p = procs s n
        in Option.bind (require (p_state p \<noteq> PROC_STATE_KWORKER)) (\<lambda>_.
          if p_signalsPending p \<noteq> 0 \<and> (getSignalFromMask (p_signalsPending p) = SIGKILL \<or>
             getSignalFromMask (p_signalsPending p) = SIGPIPE)
          then select (Suc n) (proc_upd n (p_state_update (\<lambda>_. PROC_STATE_KWORKER))
            (addKernelTask KERNEL_TASK_EXIT (p_pid p) 0 s)) else Some (n, s)))) = Some y"
    from b obtain n where n: "n \<le> MAXPROC"
      "(if killed (procs s n) then select (Suc n) (proc_upd n (p_state_update (\<lambda>_. PROC_STATE_KWORKER))
         (addKernelTask KERNEL_TASK_EXIT (p_pid (procs s n)) 0 s)) else Some (n, s)) = Some y"
      by (auto simp: kmonad Let_def killed_def)
    have t: "TIMESLICE (addKernelTask KERNEL_TASK_EXIT (p_pid (procs s n)) 0 s) = TIMESLICE s"
      by (simp add: addKernelTask_def task_upd_def split: option.split del: scan_numeral)
    show "?P st s y"
    proof (cases "killed (procs s n)")
      case True
      with n(2) have "select (Suc n) (proc_upd n (p_state_update (\<lambda>_. PROC_STATE_KWORKER))
         (addKernelTask KERNEL_TASK_EXIT (p_pid (procs s n)) 0 s)) = Some y" by simp
      from ih [OF this] t show ?thesis by simp
    qed (use n in auto)
  qed
  then show "select_task st s = Some (n, s') \<Longrightarrow> schedMx s' = schedMx s \<and> n \<le> MAXPROC \<and> TIMESLICE s' = TIMESLICE s"
    by fastforce
qed

lemma save_frame_mx: "schedMx (save_frame k s) = schedMx s"
  by simp

lemma resched_mx: "resched k s = Some s' \<Longrightarrow> schedMx s' = schedMx s"
  by (auto simp: resched_def kmonad dest!: select_task_mx)

lemma timer_mx: "timer_interrupt s = Some s' \<Longrightarrow> schedMx s' = schedMx s"
  by (auto simp: timer_interrupt_def Let_def dest!: resched_mx split: if_splits)

lemma sched_step_mx: "sched_step s s' \<Longrightarrow> schedMx s = 0 \<Longrightarrow> schedMx s' = 0"
  by (erule sched_stepE)
     (auto simp: get_free_proc_def run_proc_def sched_genPid_def sendSig_def sleep_def wakeup_def kmonad lock_sched_iff Let_def
       dest: resched_mx timer_mx split: option.splits simp del: scan_numeral fort_numeral)

lemma sched_init_procs: "procs (sched_init s) = (\<lambda>i. if i < MAXPROC then (procs s i)\<lparr>p_state := PROC_STATE_NONE,
    p_signalsPending := 0, p_isThread := 0\<rparr> else procs s i)"
proof -
  let ?g = "\<lambda>p. p\<lparr>p_state := PROC_STATE_NONE, p_signalsPending := 0, p_isThread := 0\<rparr>"
  have "procs (fort 0 MAXPROC (\<lambda>i. proc_upd i ?g) t) = (\<lambda>i. if 0 \<le> i \<and> i < 0 + MAXPROC then ?g (procs t i) else procs t i)" for t
    by (rule fort_each) simp
  then show ?thesis by (simp add: sched_init_def fun_eq_iff del: fort_numeral)
qed

text \<open>
  C14. In every state reached from \<^verbatim>\<open>sched_init\<close> by the scheduler's operations the scheduler lock is
  free, so that none of the operations that take it ever spins: each of them returns.
\<close>

theorem sched_lock_free:
  assumes "sched_reachable s"
  shows "schedMx s = 0 \<and> get_free_proc s \<noteq> None \<and> sendSig pid sig s \<noteq> None \<and>
    sleep p event s \<noteq> None \<and> wakeup event s \<noteq> None"
proof -
  have mx: "schedMx s = 0" using assms
  proof (induction rule: sched_reachable.induct)
    case (init s)
    have "schedMx (fort 0 MAXPROC (\<lambda>i. proc_upd i (\<lambda>p. p\<lparr>p_state := PROC_STATE_NONE, p_signalsPending := 0,
        p_isThread := 0\<rparr>)) t) = schedMx t" for t
      by (rule fort_inv [where I = "\<lambda>_ u. schedMx u = schedMx t"]) simp_all
    then show ?case by (simp add: sched_init_def spinlock_init_def del: fort_numeral)
  qed (rule sched_step_mx)
  then have "lock_sched s = Some (s\<lparr>schedMx := 1\<rparr>)" by (simp add: lock_sched_iff)
  with mx show ?thesis
    by (simp add: get_free_proc_def sendSig_def sleep_def wakeup_def Let_def split: option.split del: scan_numeral fort_numeral)
qed

theorem sched_lock_free_witness:
  "\<exists>s. sched_reachable s \<and> p_state (procs s 0) = PROC_STATE_CONSTRUCT \<and> schedMx s = 0 \<and> wakeup 3 s \<noteq> None"
proof -
  let ?i = "sched_init (power_on (\<lambda>_. undefined))"
  have i: "sched_reachable ?i" by (rule sched_reachable.init)
  have p: "p_state (procs ?i 0) = PROC_STATE_NONE" by (simp add: sched_init_procs)
  have "get_free_proc ?i \<noteq> None" using sched_lock_free [OF i] by blast
  then obtain r s where r: "get_free_proc ?i = Some (r, s)" by auto
  have s: "sched_reachable s" by (rule sched_reachable.step [OF i sched_step.free_proc [OF r]])
  moreover have "p_state (procs s 0) = PROC_STATE_CONSTRUCT"
    using r p by (auto simp: get_free_proc_def kmonad lock_sched_iff unlock_sched_def simp flip: numeral_eq_Suc)
  ultimately show ?thesis using sched_lock_free [OF s] by blast
qed

end
