(* ===== verification/Lifecycle.thy ===== *)
theory Lifecycle
  imports Resume Cow Scheduling
begin

text \<open>
  The life of a process as the kernel worker manages it: the child's record made by \<^verbatim>\<open>do_fork\<close>, what
  \<^verbatim>\<open>do_kernel_task_exit\<close> gives back (descriptors, pages, selector), and how \<^verbatim>\<open>do_kernel_task_waitpid\<close>
  delivers the exit code to the parent and frees the entry of the child.
\<close>

section \<open>Closing the descriptors of a process\<close>

definition descriptors :: "nat \<Rightarrow> nat \<Rightarrow> nat \<Rightarrow> kst \<Rightarrow> nat" where
  "descriptors j p f s = card {fd. fd < j \<and> p_openFiles (procs s p) fd = Some f}"

lemma descriptors_Suc:
  "descriptors (Suc j) p f s = descriptors j p f s + (if p_openFiles (procs s p) j = Some f then 1 else 0)"
proof -
  let ?D = "\<lambda>j. {fd. fd < j \<and> p_openFiles (procs s p) fd = Some f}"
  have "?D (Suc j) = (if p_openFiles (procs s p) j = Some f then insert j (?D j) else ?D j)" by (auto simp: less_Suc_eq)
  moreover have "j \<notin> ?D j" "finite (?D j)" by auto
  ultimately show ?thesis by (simp add: descriptors_def)
qed

lemma descriptors_le: "j \<le> k \<Longrightarrow> descriptors j p f s \<le> descriptors k p f s"
  unfolding descriptors_def by (intro card_mono) auto

text \<open>The files of which the first \<open>j\<close> descriptors of the process hold the last references.\<close>

definition let_go :: "nat \<Rightarrow> nat \<Rightarrow> kst \<Rightarrow> nat set" where
  "let_go j p s = {f. 0 < descriptors j p f s \<and> descriptors j p f s = unat (f_refcnt (file_at f s))}"

text \<open>The process table and the open files with the first \<open>j\<close> descriptors of the process closed.\<close>

definition without_fds :: "nat \<Rightarrow> nat \<Rightarrow> kst \<Rightarrow> nat \<Rightarrow> proc" where
  "without_fds j p s = (procs s)(p := (procs s p)\<lparr>p_openFiles := \<lambda>fd. if fd < j then None else p_openFiles (procs s p) fd\<rparr>)"

definition closed :: "nat \<Rightarrow> nat \<Rightarrow> kst \<Rightarrow> FILE slot_set \<Rightarrow> bool" where
  "closed j p s u \<longleftrightarrow>
     (\<forall>f. set_el u f = (set_el (openFiles s) f)\<lparr>f_refcnt := f_refcnt (set_el (openFiles s) f) - of_nat (descriptors j p f s)\<rparr>) \<and>
     set_capacity u = set_capacity (openFiles s) \<and> set_live u = set_live (openFiles s) - let_go j p s"

text \<open>
  The counts of the open files of the process are not below the number of its descriptors, and a device that
  is closed with its last reference has no close operation.
\<close>

definition plain_close :: "nat \<Rightarrow> kst \<Rightarrow> bool" where
  "plain_close f s \<longleftrightarrow> f < set_capacity (openFiles s) \<and> (S_ISCHR (f_flags (file_at f s)) \<longrightarrow>
     (\<exists>ops. dev_entry (f_device (file_at f s)) s = Some ops \<and> dv_close ops = None))"

definition files_held :: "nat \<Rightarrow> kst \<Rightarrow> bool" where
  "files_held p s \<longleftrightarrow> (\<forall>fd < MAX_FILES_PER_PROC. \<forall>f. p_openFiles (procs s p) fd = Some f \<longrightarrow>
     descriptors MAX_FILES_PER_PROC p f s \<le> unat (f_refcnt (file_at f s)) \<and>
     (descriptors MAX_FILES_PER_PROC p f s = unat (f_refcnt (file_at f s)) \<longrightarrow> plain_close f s))"

lemma k_close_held:
  assumes "f_refcnt (file_at f s) = 1 \<Longrightarrow> plain_close f s"
  shows "\<exists>u. k_close f s = Some (s\<lparr>openFiles := u\<rparr>) \<and>
    set_el u = (set_el (openFiles s))(f := f_refcnt_update (\<lambda>c. c - 1) (set_el (openFiles s) f)) \<and>
    set_capacity u = set_capacity (openFiles s) \<and>
    set_live u = set_live (openFiles s) - (if f_refcnt (file_at f s) = 1 then {f} else {})"
proof -
  define v where "v = (openFiles s)\<lparr>set_el := (set_el (openFiles s))(f := f_refcnt_update (\<lambda>c. c - 1) (set_el (openFiles s) f))\<rparr>"
  have u: "file_upd f (f_refcnt_update (\<lambda>c. c - 1)) s = s\<lparr>openFiles := v\<rparr>" by (simp add: file_upd_def v_def)
  have l: "set_live v = set_live (openFiles s)" by (simp add: set_live_def v_def)
  have fa: "file_at f (s\<lparr>openFiles := v\<rparr>) = f_refcnt_update (\<lambda>c. c - 1) (file_at f s)" by (simp add: file_at_def v_def)
  show ?thesis
  proof (cases "f_refcnt (file_at f s) = 1")
    case False
    then have "k_close f s = Some (s\<lparr>openFiles := v\<rparr>)" by (simp add: k_close_def u fa)
    then show ?thesis using False l by (intro exI [of _ v]) (simp add: v_def)
  next
    case True
    note pc = assms [OF True, unfolded plain_close_def]
    obtain t where t: "set_remove_by_element v f = Some t" using pc by (simp add: set_remove_by_element_def require_def v_def)
    have e: "set_el t = set_el v" "set_capacity t = set_capacity v" using t by (auto simp: set_remove_by_element_def kmonad)
    have dv: "dev_entry d (s\<lparr>openFiles := v\<rparr>) = dev_entry d s" for d by (simp add: dev_entry_def)
    have "k_close f s = Some (s\<lparr>openFiles := t\<rparr>)" using True pc t by (auto simp: k_close_def u fa dv Let_def)
    then show ?thesis using True e set_remove_by_element_live [OF t] l by (intro exI [of _ t]) (simp add: v_def)
  qed
qed

lemma closed_None:
  assumes "p_openFiles (procs s p) j = None"
  shows "closed (Suc j) p s u = closed j p s u" "without_fds (Suc j) p s = without_fds j p s"
proof -
  have d: "descriptors (Suc j) p f s = descriptors j p f s" for f using assms by (simp add: descriptors_Suc)
  show "closed (Suc j) p s u = closed j p s u" by (simp add: closed_def let_go_def d)
  have "(\<lambda>fd. if fd < Suc j then None else p_openFiles (procs s p) fd) = (\<lambda>fd. if fd < j then None else p_openFiles (procs s p) fd)"
    using assms by (auto simp: fun_eq_iff less_Suc_eq)
  then show "without_fds (Suc j) p s = without_fds j p s" by (simp add: without_fds_def)
qed

lemma closed_Some:
  assumes c: "closed j p s u" and j: "j < MAX_FILES_PER_PROC" "p_openFiles (procs s p) j = Some f" and held: "files_held p s"
    and t: "t = s\<lparr>openFiles := u, procs := without_fds j p s\<rparr>"
  shows "\<exists>u1. k_close f t = Some (t\<lparr>openFiles := u1\<rparr>) \<and> closed (Suc j) p s u1"
proof -
  let ?r = "unat (f_refcnt (file_at f s))" and ?d = "descriptors j p f s"
  note c = c [unfolded closed_def]
  have h: "descriptors MAX_FILES_PER_PROC p f s \<le> ?r" "descriptors MAX_FILES_PER_PROC p f s = ?r \<longrightarrow> plain_close f s"
    using held j unfolding files_held_def by blast+
  have d: "descriptors (Suc j) p f s = Suc ?d" using j(2) by (simp add: descriptors_Suc)
  then have le: "Suc ?d \<le> descriptors MAX_FILES_PER_PROC p f s" using descriptors_le [of "Suc j" MAX_FILES_PER_PROC p f s] j(1) by simp
  have sm: "?d < 65536" using le h(1) unat_u16_less [of "f_refcnt (file_at f s)"] by linarith
  have ft: "file_at f t = (file_at f s)\<lparr>f_refcnt := f_refcnt (file_at f s) - of_nat ?d\<rparr>" using c by (simp add: file_at_def t)
  have ud: "unat (of_nat ?d :: u16) = ?d" using sm by (intro unat_of_nat_u16_small)
  then have "unat (f_refcnt (file_at f s) - of_nat ?d) = ?r - ?d"
    using le h(1) by (subst unat_sub) (simp_all add: word_le_nat_alt)
  then have rt: "unat (f_refcnt (file_at f t)) = ?r - ?d" unfolding ft by simp
  have one: "f_refcnt (file_at f t) = 1 \<longleftrightarrow> Suc ?d = ?r" unfolding word_unat_eq_iff rt using le h(1) by auto
  have pc: "plain_close f t" if "f_refcnt (file_at f t) = 1"
  proof -
    have "plain_close f s" using that one h le by simp
    moreover have "dev_entry x t = dev_entry x s" for x by (simp add: dev_entry_def t)
    ultimately show ?thesis using c unfolding plain_close_def ft by (simp add: t)
  qed
  have ou: "openFiles t = u" by (simp add: t)
  obtain u1 where u1: "k_close f t = Some (t\<lparr>openFiles := u1\<rparr>)" "set_el u1 = (set_el u)(f := f_refcnt_update (\<lambda>c. c - 1) (set_el u f))"
    "set_capacity u1 = set_capacity u" "set_live u1 = set_live u - (if f_refcnt (file_at f t) = 1 then {f} else {})"
    using k_close_held [of f t, OF pc] unfolding ou by blast
  have ds: "descriptors (Suc j) p g s = (if g = f then Suc ?d else descriptors j p g s)" for g using j(2) by (simp add: descriptors_Suc)
  have "let_go (Suc j) p s = let_go j p s \<union> (if Suc ?d = ?r then {f} else {})"
    using le h(1) unfolding let_go_def ds by (auto split: if_splits)
  then have l: "set_live u1 = set_live (openFiles s) - let_go (Suc j) p s" using u1(4) c one by auto
  have e: "set_el u1 g = (set_el (openFiles s) g)\<lparr>f_refcnt := f_refcnt (set_el (openFiles s) g) - of_nat (descriptors (Suc j) p g s)\<rparr>" for g
    using c by (cases "g = f") (simp_all add: u1(2) ds algebra_simps)
  show ?thesis using u1(1,3) l e c unfolding closed_def by auto
qed

lemma close_files_held:
  assumes "files_held p s"
  shows "\<exists>u. close_files p s = Some (s\<lparr>openFiles := u, procs := without_fds MAX_FILES_PER_PROC p s\<rparr>) \<and> closed MAX_FILES_PER_PROC p s u"
proof -
  let ?I = "\<lambda>j t. \<exists>u. t = s\<lparr>openFiles := u, procs := without_fds j p s\<rparr> \<and> closed j p s u"
  have "\<exists>s'. close_files p s = Some s' \<and> ?I (0 + MAX_FILES_PER_PROC) s'"
    unfolding close_files_def
  proof (rule forn_rule)
    fix j t assume j: "j < 0 + MAX_FILES_PER_PROC" and "?I j t"
    then obtain u where u: "t = s\<lparr>openFiles := u, procs := without_fds j p s\<rparr>" "closed j p s u" by blast
    have o: "p_openFiles (procs t p) j = p_openFiles (procs s p) j" by (simp add: u(1) without_fds_def)
    show "\<exists>t'. (case p_openFiles (procs t p) j of None \<Rightarrow> Some t
        | Some f \<Rightarrow> do { t1 \<leftarrow> k_close f t; Some (proc_upd p (\<lambda>q. q\<lparr>p_openFiles := (p_openFiles q)(j := None)\<rparr>) t1) }) = Some t' \<and> ?I (Suc j) t'"
    proof (cases "p_openFiles (procs s p) j")
      case None
      then show ?thesis using u closed_None [of s p j] unfolding o by auto
    next
      case (Some f)
      then obtain u1 where u1: "k_close f t = Some (t\<lparr>openFiles := u1\<rparr>)" "closed (Suc j) p s u1"
        using closed_Some [OF u(2) _ Some assms u(1)] j by auto
      have "(\<lambda>fd. if fd < Suc j then None else p_openFiles (procs s p) fd) = (\<lambda>fd. if fd < j then None else p_openFiles (procs s p) fd)(j := None)"
        by (auto simp: fun_eq_iff less_Suc_eq)
      then have "proc_upd p (\<lambda>q. q\<lparr>p_openFiles := (p_openFiles q)(j := None)\<rparr>) (t\<lparr>openFiles := u1\<rparr>) =
          s\<lparr>openFiles := u1, procs := without_fds (Suc j) p s\<rparr>"
        by (simp add: proc_upd_def u(1) without_fds_def)
      then show ?thesis using u1 Some unfolding o by auto
    qed
  next
    have "s = s\<lparr>openFiles := openFiles s, procs := without_fds 0 p s\<rparr>" by (simp add: without_fds_def)
    then show "?I 0 s" by (intro exI [of _ "openFiles s"]) (simp add: closed_def descriptors_def let_go_def)
  qed
  then show ?thesis by auto
qed

section \<open>Releasing the pages\<close>

text \<open>Only the reference counts and the entries of the process's own selector change.\<close>

definition released :: "u16 \<Rightarrow> kst \<Rightarrow> kst \<Rightarrow> bool" where
  "released sel s s' \<longleftrightarrow> s' = s\<lparr>hw_mmu := hw_mmu s', pageMap := pageMap s'\<rparr> \<and>
     (\<forall>x. ent_ok x \<and> fst x \<noteq> sel \<longrightarrow> hw_mmu s' (cell x) = hw_mmu s (cell x))"

lemma released_refl: "released sel s s"
  by (simp add: released_def)

lemma released_trans:
  assumes "released sel s t" "released sel t u"
  shows "released sel s u"
proof -
  have t: "t = s\<lparr>hw_mmu := hw_mmu t, pageMap := pageMap t\<rparr>" and u: "u = t\<lparr>hw_mmu := hw_mmu u, pageMap := pageMap u\<rparr>"
    using assms unfolding released_def by blast+
  have "u = s\<lparr>hw_mmu := hw_mmu u, pageMap := pageMap u\<rparr>" by (subst u, subst (1) t) simp
  then show ?thesis using assms unfolding released_def by auto
qed

lemma free_pages_released:
  assumes "free_pages sel c n k s = Some s'" "n + k \<le> table_len c" "c = 0 \<or> c = 1" "0 < unat sel" "unat sel < 16"
  shows "released sel s s'"
  using assms(1,2)
proof (induction k arbitrary: n s)
  case (Suc k)
  let ?f = "mmu_read_table sel (of_nat n) c s"
  show ?case
  proof (cases "?f = FREE_PAGE_MARK")
    case False
    obtain s1 where s1: "mmu_dec_page_refcnt ?f s = Some s1"
      "free_pages sel c (Suc n) k (mmu_write_table sel (of_nat n) c FREE_PAGE_MARK s1) = Some s'"
      using Suc.prems(1) False by (auto simp: Let_def kmonad)
    have l: "table_len c \<le> 128" by (simp add: table_len_def)
    then have "unat (of_nat n :: u16) = n" using Suc.prems(2) by simp
    then have e: "ent_ok (sel, of_nat n, c)" using Suc.prems(2) assms(3-5) by (auto simp: ent_ok_def table_len_def)
    have m: "mmu_write_table sel (of_nat n) c FREE_PAGE_MARK s1 = s1\<lparr>hw_mmu := (hw_mmu s1)(cell (sel, of_nat n, c) := FREE_PAGE_MARK)\<rparr>"
      by (simp add: mmu_tables cell_def)
    obtain pm where pm: "s1 = s\<lparr>pageMap := pm\<rparr>"
      using s1(1) by (auto simp: mmu_dec_page_refcnt_def page_upd_def kmonad)
    have "cell x \<noteq> cell (sel, of_nat n, c)" if "ent_ok x \<and> fst x \<noteq> sel" for x
      using that cell_eq [OF _ e] by auto
    then have "released sel s (mmu_write_table sel (of_nat n) c FREE_PAGE_MARK s1)" unfolding m unfolding released_def pm
      by (simp del: split_paired_All)
    moreover have "released sel (mmu_write_table sel (of_nat n) c FREE_PAGE_MARK s1) s'"
      using Suc.IH [OF s1(2)] Suc.prems(2) by simp
    ultimately show ?thesis by (rule released_trans)
  qed (use Suc.prems(1) in \<open>simp add: released_refl\<close>)
qed (simp add: released_refl)

lemma freeProcessPages_released:
  assumes "freeProcessPages p s = Some s'" "0 < unat (sel_of s p)" "unat (sel_of s p) < 16"
  shows "released (sel_of s p) s s'"
proof -
  obtain s1 where s1: "free_pages (sel_of s p) 1 0 128 s = Some s1" "free_pages (sel_of s p) 0 0 16 s1 = Some s'"
    using assms(1) by (auto simp: freeProcessPages_def sel_of_def Let_def kmonad simp del: free_pages.simps)
  have l: "0 + 128 \<le> table_len 1" "0 + 16 \<le> table_len 0" by (simp_all add: table_len_def)
  show ?thesis
    by (rule released_trans [OF free_pages_released [OF s1(1) l(1)] free_pages_released [OF s1(2) l(2)]]) (use assms(2,3) in simp_all)
qed

lemma same_entries_user:
  assumes u: "user_space q s" and p: "p_mmuSelector (procs s' q) = p_mmuSelector (procs s q)" "hw_ram s' = hw_ram s"
    and m: "\<And>pg. ent_ok (sel_of s q, pg, 0) \<Longrightarrow> hw_mmu s' (cell (sel_of s q, pg, 0)) = hw_mmu s (cell (sel_of s q, pg, 0))"
  shows "user_space q s'" "umem q s' = umem q s"
proof -
  let ?x = "p_mmuSelector (procs s q)"
  have x: "0 < unat ?x" "unat ?x < 16" "sel_of s q = ?x" using u by (simp_all add: user_space_def Let_def sel_of_def)
  have e: "mmu_read_table ?x pg 0 s' = mmu_read_table ?x pg 0 s" "mmu_read_table_flags ?x pg 0 s' = mmu_read_table_flags ?x pg 0 s"
    if "unat pg < 16" for pg
    using m [of pg] x that by (simp_all add: mmu_tables cell_def ent_ok_def)
  have "getPage q a s' = getPage q a s" for a using e(1) [OF addr_page] by (simp add: getPage_def p)
  then show "umem q s' = umem q s" by (simp add: fun_eq_iff umem_def p)
  show "user_space q s'" using u unfolding user_space_def p Let_def by (auto simp: e)
qed

lemma released_user:
  assumes r: "released sel s s'" and u: "user_space q s" "sel_of s q \<noteq> sel"
  shows "user_space q s'" "umem q s' = umem q s"
proof -
  have s: "s' = s\<lparr>hw_mmu := hw_mmu s', pageMap := pageMap s'\<rparr>" using r unfolding released_def by blast
  have p: "p_mmuSelector (procs s' q) = p_mmuSelector (procs s q)" "hw_ram s' = hw_ram s" by (subst s, simp)+
  have m: "hw_mmu s' (cell (sel_of s q, pg, 0)) = hw_mmu s (cell (sel_of s q, pg, 0))" if "ent_ok (sel_of s q, pg, 0)" for pg
    using r u(2) that unfolding released_def by auto
  show "user_space q s'" "umem q s' = umem q s" by (rule same_entries_user [OF u(1) p m]; assumption)+
qed

text \<open>A process gives back one reference to a frame for each of its entries that names it.\<close>

lemma released_frames:
  assumes b: "balanced S s s'" and r: "released x s s'" and x: "x \<in> S" and e: "\<And>e. e \<in> tabs {x} \<Longrightarrow> pages s' e = None"
    and f: "unat f < pageMapSize"
  shows "unat (pageMap s' (unat f)) + card (users {x} f s) = unat (pageMap s (unat f))"
proof -
  have nf: "f \<noteq> FREE_PAGE_MARK" using f by auto
  have n: "users {x} f s' = {}" using e nf unfolding pages_None users_def by auto
  have o: "users (S - {x}) f s' = users (S - {x}) f s"
    using r unfolding users_def tabs_def released_def fr_def by auto
  have split: "users S f t = users {x} f t \<union> users (S - {x}) f t" "users {x} f t \<inter> users (S - {x}) f t = {}" for t
    using x by (auto simp: users_def tabs_def)
  then have "card (users S f t) = card (users {x} f t) + card (users (S - {x}) f t)" for t
    using card_Un_disjoint [OF fin_entries fin_entries, of "users {x} f t" "users (S - {x}) f t"] by simp
  then show ?thesis using b f n o unfolding balanced_def by fastforce
qed

section \<open>Exit\<close>

lemma cow_state_cong:
  assumes "hw_ram s' = hw_ram s" "pageMap s' = pageMap s" "\<And>e. ent_ok e \<Longrightarrow> hw_mmu s' (cell e) = hw_mmu s (cell e)"
    "\<And>q. p_pid (procs s' q) = p_pid (procs s q)" "\<And>q. p_mmuSelector (procs s' q) = p_mmuSelector (procs s q)"
  shows "cow_state P s' = cow_state P s" "mem_of P s' = mem_of P s" "sel_of s' = sel_of s"
proof -
  show sl: "sel_of s' = sel_of s" using assms(5) by (simp add: fun_eq_iff sel_of_def)
  have f: "fr e s' = fr e s" "fl e s' = fl e s" if "ent_ok e" for e using assms(3) [OF that] by (simp_all add: fr_def fl_def)
  have pg: "pages s' e = pages s e" if "ent_ok e" for e using f [OF that] assms(1) by (simp add: pages_def)
  have t: "ent_ok e" if "e \<in> tabs S" for e S using that by (simp add: tabs_def)
  show m: "mem_of P s' = mem_of P s" using pg t unfolding mem_of_def sl by (auto simp: fun_eq_iff)
  have u: "users S g s' = users S g s" for S g unfolding users_def using f t by (auto simp del: split_paired_Ex)
  have inv: "cow_inv S s' = cow_inv S s" for S
    unfolding cow_inv_def by (rule ball_cong [OF refl]) (use f t u assms(2) in simp)
  have g: "gapless (pages s') x c = gapless (pages s) x c" if "0 < unat x" "unat x < 16" "c = 0 \<or> c = 1" for x c
  proof -
    have "pages s' (x, pg, c) = pages s (x, pg, c)" if "unat pg < table_len c" for pg
      using pg [of "(x, pg, c)"] that \<open>0 < unat x\<close> \<open>unat x < 16\<close> \<open>c = 0 \<or> c = 1\<close> by (auto simp: ent_ok_def table_len_def)
    then show ?thesis using gapless_cong [of c "pages s'" x "pages s"] gapless_cong [of c "pages s" x "pages s'"] by metis
  qed
  show "cow_state P s' = cow_state P s" unfolding cow_state_def sl inv assms(4) using g by blast
qed

lemma viewed_same:
  assumes "viewed p s s'"
  shows "pageMap s' = pageMap s" "ent_ok e \<Longrightarrow> hw_mmu s' (cell e) = hw_mmu s (cell e)" "kernelTaskQueue s' = kernelTaskQueue s"
    "selectorMap s' = selectorMap s" "devList s' = devList s"
proof -
  have e: "s' = s\<lparr>hw_mmu := (hw_mmu s)(pte 0 14 0 := hw_mmu s' (pte 0 14 0)), hw_ram := hw_ram s'\<rparr>"
    using assms unfolding viewed_def by blast
  show "pageMap s' = pageMap s" "kernelTaskQueue s' = kernelTaskQueue s" "selectorMap s' = selectorMap s" "devList s' = devList s" by (subst e, simp)+
  show "hw_mmu s' (cell e) = hw_mmu s (cell e)" if "ent_ok e" by (subst e) (simp add: that)
qed

text \<open>What a process gives back when it ends.\<close>

lemma exit_ok:
  assumes c: "findProcByPid (kt_callerPid (kernelTaskQueue s i)) s = Some c" "p_isThread (procs s c) = 0" "user_space c s"
    and mem: "cow_state P s" "c \<in> P"
    and held: "files_held c s"
  shows "\<exists>s'. do_kernel_task_exit i s = Some s' \<and> cow_state P s' \<and>
    procs s' = (procs s)(c := (procs s c)\<lparr>p_retval := umem c s (kt_args (kernelTaskQueue s i) + 1), p_state := PROC_STATE_ZOMBIE,
      p_openFiles := \<lambda>fd. if fd < MAX_FILES_PER_PROC then None else p_openFiles (procs s c) fd\<rparr>) \<and>
    kernelTaskQueue s' = (kernelTaskQueue s)(i := (kernelTaskQueue s i)\<lparr>kt_type := KERNEL_TASK_NONE\<rparr>) \<and>
    mem_of P s' = (\<lambda>(x, pg, b). if x = sel_of s c then None else mem_of P s (x, pg, b)) \<and>
    selectorMap s' = (selectorMap s)(unat (sel_of s c) := 0) \<and>
    (\<forall>f. file_at f s' = (file_at f s)\<lparr>f_refcnt := f_refcnt (file_at f s) - of_nat (descriptors MAX_FILES_PER_PROC c f s)\<rparr>) \<and>
    (\<forall>q. user_space q s \<and> sel_of s q \<noteq> sel_of s c \<longrightarrow> user_space q s' \<and> umem q s' = umem q s) \<and>
    set_live (openFiles s') = set_live (openFiles s) - let_go MAX_FILES_PER_PROC c s \<and>
    (\<forall>f. unat f < pageMapSize \<longrightarrow> unat (pageMap s' (unat f)) + card (users {sel_of s c} f s) = unat (pageMap s (unat f)))"
proof -
  let ?a = "kt_args (kernelTaskQueue s i)"
  obtain s1 where g: "ugets c ?a 0 14 2 False s = Some (uwords c s ?a 2, s1)" "viewed c s s1" "hw_ram s1 = hw_ram s"
    using ugets_ok [OF c(3), of ?a 2 False] by auto
  note vf = viewed_frame [OF g(2)] viewed_same [OF g(2)]
  have code: "uwords c s ?a 2 ! 1 = umem c s (?a + 1)" by (simp add: uwords_Suc numeral_2_eq_2)
  define s2 where "s2 = finish_task i (proc_upd c (\<lambda>q. q\<lparr>p_retval := umem c s (?a + 1), p_state := PROC_STATE_ZOMBIE\<rparr>) s1)"
  have p2: "procs s2 = (procs s)(c := (procs s c)\<lparr>p_retval := umem c s (?a + 1), p_state := PROC_STATE_ZOMBIE\<rparr>)"
    "kernelTaskQueue s2 = (kernelTaskQueue s)(i := (kernelTaskQueue s i)\<lparr>kt_type := KERNEL_TASK_NONE\<rparr>)"
    "openFiles s2 = openFiles s" "selectorMap s2 = selectorMap s" "hw_ram s2 = hw_ram s" "hw_mmu s2 = hw_mmu s1" "pageMap s2 = pageMap s"
    using vf g(3) by (simp_all add: s2_def finish_task_def task_upd_def)
  have "devList s2 = devList s" using vf(11) by (simp add: s2_def finish_task_def task_upd_def proc_upd_def)
  then have o2: "p_openFiles (procs s2 c) = p_openFiles (procs s c)" "file_at f s2 = file_at f s" "dev_entry d s2 = dev_entry d s" for f d
    by (simp_all add: p2 file_at_def dev_entry_def)
  have cc: "descriptors k c f s2 = descriptors k c f s" for k f by (simp add: descriptors_def o2)
  have "files_held c s2" using held by (simp add: files_held_def plain_close_def o2 cc p2)
  from close_files_held [OF this] obtain u where u: "close_files c s2 = Some (s2\<lparr>openFiles := u, procs := without_fds MAX_FILES_PER_PROC c s2\<rparr>)"
    "closed MAX_FILES_PER_PROC c s2 u" by blast
  define s3 where "s3 = s2\<lparr>openFiles := u, procs := without_fds MAX_FILES_PER_PROC c s2\<rparr>"
  have cf: "close_files c s2 = Some s3" using u(1) unfolding s3_def .
  have p3: "procs s3 = (procs s)(c := (procs s c)\<lparr>p_retval := umem c s (?a + 1), p_state := PROC_STATE_ZOMBIE,
      p_openFiles := \<lambda>fd. if fd < MAX_FILES_PER_PROC then None else p_openFiles (procs s c) fd\<rparr>)"
    "kernelTaskQueue s3 = kernelTaskQueue s2" "selectorMap s3 = selectorMap s" "hw_ram s3 = hw_ram s" "hw_mmu s3 = hw_mmu s1" "pageMap s3 = pageMap s"
    "file_at f s3 = (file_at f s)\<lparr>f_refcnt := f_refcnt (file_at f s) - of_nat (descriptors MAX_FILES_PER_PROC c f s)\<rparr>" for f
    using u(2) o2 cc by (simp_all add: s3_def without_fds_def closed_def p2 file_at_def cong: if_cong)
  have lv: "set_live (openFiles s3) = set_live (openFiles s) - let_go MAX_FILES_PER_PROC c s"
    using u(2) by (simp add: s3_def closed_def let_go_def cc o2 p2)
  have k: "cow_state P s3 = cow_state P s" "mem_of P s3 = mem_of P s" "sel_of s3 = sel_of s"
    using cow_state_cong(1,2) [of s3 s P] cow_state_cong(3) [of s3 s] p3 vf by auto
  obtain s4 where s4: "freeProcessPages c s3 = Some s4" "cow_state P s4"
    "mem_of P s4 = (\<lambda>(x, pg, b). if x = sel_of s c then None else mem_of P s (x, pg, b))" "kept s3 s4" "balanced (sel_of s ` P) s3 s4"
    using release_refines [of P s3 c] mem k by auto
  have rl: "released (sel_of s c) s3 s4"
    using freeProcessPages_released [OF s4(1)] cow_stateD(3,4) [OF mem] k(3) by simp
  have e4: "s4 = s3\<lparr>hw_mmu := hw_mmu s4, pageMap := pageMap s4\<rparr>" using rl unfolding released_def by blast
  have p4: "procs s4 = procs s3" "kernelTaskQueue s4 = kernelTaskQueue s3" "selectorMap s4 = selectorMap s3" "openFiles s4 = openFiles s3"
    by (subst e4, simp)+
  define s5 where "s5 = s4\<lparr>selectorMap := (selectorMap s4)(unat (sel_of s c) := 0)\<rparr>"
  have sb: "unat (sel_of s c) < mmuSelectorNum" using cow_stateD(4) [OF mem] by simp
  have sel4: "p_mmuSelector (procs s4 c) = sel_of s c" using k(3) p4(1) by (simp add: sel_of_def p3)
  have r: "do_kernel_task_exit i s = Some s5"
    using c cf s4(1) sb sel4 g(1) p2(1)
    by (simp add: do_kernel_task_exit_def get_req_def code [unfolded One_nat_def] Let_def flip: s2_def) (simp add: mmu_mark_selector_def s5_def)
  have pm: "unat (pageMap s4 (unat f)) + card (users {sel_of s c} f s) = unat (pageMap s (unat f))" if f: "unat f < pageMapSize" for f
  proof -
    have x: "sel_of s c \<in> sel_of s ` P" using mem(2) by blast
    have sl4: "sel_of s4 = sel_of s" using kept_sel [OF s4(4)] k(3) by simp
    have "pages s4 e = None" if e: "e \<in> tabs {sel_of s c}" for e
    proof -
      have "e \<in> tabs (sel_of s4 ` P)" "fst e = sel_of s c" using e x sl4 by (auto simp: tabs_def)
      then show ?thesis using fun_cong [OF s4(3), of e] by (cases e) (simp add: mem_of_def)
    qed
    then have "unat (pageMap s4 (unat f)) + card (users {sel_of s c} f s3) = unat (pageMap s3 (unat f))"
      by (rule released_frames [OF s4(5) rl x _ f])
    moreover have "users {sel_of s c} f s3 = users {sel_of s c} f s"
      using vf(8) tabs_ok unfolding users_def fr_def by (auto simp: p3(5))
    ultimately show ?thesis by (simp add: p3(6))
  qed
  have u1: "user_space q s3" "umem q s3 = umem q s" if "user_space q s" for q
  proof -
    have ps: "p_mmuSelector (procs s3 q) = p_mmuSelector (procs s q)" by (simp add: p3(1))
    have m: "hw_mmu s3 (cell (sel_of s q, pg, 0)) = hw_mmu s (cell (sel_of s q, pg, 0))" if "ent_ok (sel_of s q, pg, 0)" for pg
      using vf(8) [OF that] by (simp add: p3(5))
    show "user_space q s3" "umem q s3 = umem q s" by (rule same_entries_user [OF that ps p3(4) m]; assumption)+
  qed
  have u5: "user_space q s5 \<and> umem q s5 = umem q s" if q: "user_space q s" "sel_of s q \<noteq> sel_of s c" for q
  proof -
    have "same_tables q s4 s5" by (simp add: same_tables_def s5_def)
    moreover have "sel_of s3 q \<noteq> sel_of s c" using q(2) k(3) by simp
    ultimately show ?thesis
      using same_tablesD [of q s4 s5] released_user [OF rl u1(1) [OF q(1)]] u1(2) [OF q(1)] by (simp only:) simp
  qed
  have "cow_state P s5 = cow_state P s4" "mem_of P s5 = mem_of P s4"
    using cow_state_cong(1,2) [of s5 s4 P] by (simp_all add: s5_def)
  then have k5: "cow_state P s5" "mem_of P s5 = (\<lambda>(x, pg, b). if x = sel_of s c then None else mem_of P s (x, pg, b))"
    using s4(2,3) by (simp_all only:)
  have e5: "procs s5 = procs s4" "kernelTaskQueue s5 = kernelTaskQueue s4" "selectorMap s5 = (selectorMap s4)(unat (sel_of s c) := 0)"
    "openFiles s5 = openFiles s4" by (simp_all add: s5_def)
  have t5: "procs s5 = procs s3" "kernelTaskQueue s5 = kernelTaskQueue s2" "selectorMap s5 = (selectorMap s)(unat (sel_of s c) := 0)"
    unfolding e5 p4 p3(2,3) by (rule refl)+
  have f5: "file_at f s5 = file_at f s3" for f unfolding file_at_def e5 p4 by (rule refl)
  show ?thesis
    by (rule exI [of _ s5], intro conjI allI impI)
       (rule r k5 t5(1) [unfolded p3(1)] t5(2) [unfolded p2(2)] t5(3) f5 [unfolded p3(7)] | use u5 in blast |
         use lv pm in \<open>simp add: s5_def p4\<close>)+
qed

section \<open>Waiting for a child\<close>

lemma find_procs_cong: "procs s' = procs s \<Longrightarrow> findProcByPid k s' = findProcByPid k s" "procs s' = procs s \<Longrightarrow> findProcByParent p s' = findProcByParent p s"
  by (simp_all only: findProcByPid_def findProcByParent_def)

text \<open>The process a wait request is for.\<close>

definition awaited :: "nat \<Rightarrow> u16 \<Rightarrow> kst \<Rightarrow> nat option" where
  "awaited p k s = (if 0 < sint k then findProcByPid k s else findProcByParent p s)"

lemma request_words: "uwords p s a 4 = [umem p s a, umem p s (a + 1), umem p s (a + 2), umem p s (a + 3)]"
  by (simp add: uwords_def upt_rec_numeral numeral_eq_Suc add.commute)

lemma waitpid_request:
  assumes "findProcByPid (kt_callerPid (kernelTaskQueue s j)) s = Some p" "user_space p s"
  obtains s1 where "get_req p (kt_args (kernelTaskQueue s j)) 4 s = Some (uwords p s (kt_args (kernelTaskQueue s j)) 4, s1)"
    "viewed p s s1" "hw_ram s1 = hw_ram s" "user_space p s1" "umem p s1 = umem p s"
proof -
  obtain s1 where g: "ugets p (kt_args (kernelTaskQueue s j)) 0 14 4 False s = Some (uwords p s (kt_args (kernelTaskQueue s j)) 4, s1)"
    "viewed p s s1" "hw_ram s1 = hw_ram s" using ugets_ok [OF assms(2), of "kt_args (kernelTaskQueue s j)" 4 False] by auto
  then show thesis using that viewed_getPage(1) [OF g(2) assms(2)] umem_viewed [OF g(2) assms(2) g(3)] by (simp add: get_req_def)
qed

lemma waitpid_ok:
  assumes p: "findProcByPid (kt_callerPid (kernelTaskQueue s j)) s = Some p" "user_space p s"
    and c: "awaited p (umem p s (kt_args (kernelTaskQueue s j) + 1)) s = Some c" "p_state (procs s c) = PROC_STATE_ZOMBIE" "c \<noteq> p"
  shows "\<exists>s'. do_kernel_task_waitpid j s = Some s' \<and>
    procs s' = (procs s)(c := (procs s c)\<lparr>p_state := PROC_STATE_NONE\<rparr>, p := (procs s p)\<lparr>p_state := PROC_STATE_RUN\<rparr>) \<and>
    kernelTaskQueue s' = (kernelTaskQueue s)(j := (kernelTaskQueue s j)\<lparr>kt_type := KERNEL_TASK_NONE\<rparr>) \<and>
    umem p s' = uput ((uwords p s (kt_args (kernelTaskQueue s j)) 4)[1 := p_pid (procs s c)]) (kt_args (kernelTaskQueue s j))
      ((umem p s)(umem p s (kt_args (kernelTaskQueue s j) + 2) := p_retval (procs s c)))"
proof -
  let ?a = "kt_args (kernelTaskQueue s j)"
  let ?req = "uwords p s ?a 4"
  obtain s1 where g: "get_req p ?a 4 s = Some (?req, s1)" "viewed p s s1" "hw_ram s1 = hw_ram s" "user_space p s1" "umem p s1 = umem p s"
    using waitpid_request [OF p] by blast
  note vf = viewed_frame [OF g(2)] viewed_same [OF g(2)]
  have w: "?req ! 1 = umem p s (?a + 1)" "?req ! 2 = umem p s (?a + 2)" "length ?req = 4" by (simp_all add: request_words)
  have f: "(if 0 < sint (?req ! 1) then findProcByPid (?req ! 1) s1 else findProcByParent p s1) = Some c"
    using c(1) unfolding w awaited_def find_procs_cong [OF vf(1)] .
  define s2 where "s2 = set_state p PROC_STATE_RUN (set_state c PROC_STATE_NONE s1)"
  have p2: "procs s2 = (procs s)(c := (procs s c)\<lparr>p_state := PROC_STATE_NONE\<rparr>, p := (procs s p)\<lparr>p_state := PROC_STATE_RUN\<rparr>)"
    "kernelTaskQueue s2 = kernelTaskQueue s" "hw_ram s2 = hw_ram s1" "hw_mmu s2 = hw_mmu s1"
    using vf c(3) by (auto simp: s2_def set_state_def proc_upd_def fun_eq_iff)
  have st: "same_tables p s1 s2" using p2 vf(1) by (simp add: same_tables_def)
  have u2: "user_space p s2" "umem p s2 = umem p s" using same_tablesD [OF st] g(4,5) by simp_all
  let ?req2 = "?req[1 := p_pid (procs s c)]"
  obtain s3 where s3: "uputs p (?req ! 2) 0 14 1 False [p_retval (procs s c)] s2 = Some (1, s3)" "viewed p s2 s3"
    "umem p s3 = uput [p_retval (procs s c)] (?req ! 2) (umem p s)"
    using uputs_ok [OF u2(1), of 1 "[p_retval (procs s c)]" "?req ! 2" False] u2(2) by auto
  have l: "4 \<le> length ?req2" "length ?req2 = 4" using w(3) by simp_all
  obtain s4 where s4: "uputs p ?a 0 14 4 False ?req2 s3 = Some (4, s4)" "viewed p s3 s4" "umem p s4 = uput ?req2 ?a (umem p s3)"
    using uputs_ok [OF viewed_getPage(1) [OF s3(2) u2(1)] l(1), of ?a False] l(2) by auto
  have q: "kernelTaskQueue s3 = kernelTaskQueue s" "procs s4 = procs s2" "kernelTaskQueue s4 = kernelTaskQueue s"
    using viewed_frame [OF s3(2)] viewed_same [OF s3(2)] viewed_frame [OF s4(2)] viewed_same [OF s4(2)] p2(2) by simp_all
  have e2: "p_pid (procs s2 c) = p_pid (procs s c)" "p_retval (procs s2 c) = p_retval (procs s c)" using c(3) by (simp_all add: p2)
  have "do_kernel_task_waitpid j s = Some (finish_task j s4)"
    using f c(2) s3(1) s4(1) g(1) p(1) l(2)
    by (simp add: do_kernel_task_waitpid_def vf(1) e2 q(1) put_req_def Let_def flip: s2_def)
  moreover have "procs (finish_task j s4) = procs s2" "same_tables p s4 (finish_task j s4)"
    "kernelTaskQueue (finish_task j s4) = (kernelTaskQueue s)(j := (kernelTaskQueue s j)\<lparr>kt_type := KERNEL_TASK_NONE\<rparr>)"
    by (simp_all add: finish_task_def task_upd_def q same_tables_def)
  moreover have "umem p (finish_task j s4) = umem p s4" by (rule same_tablesD(1)) fact
  ultimately show ?thesis using s4(3) s3(3) p2(1) unfolding w(2) by (intro exI [of _ "finish_task j s4"]) simp
qed

lemma uput_back:
  assumes "\<And>i. i < 4 \<Longrightarrow> b \<noteq> a + of_nat i"
  shows "uput (uwords p s a 4) a ((umem p s)(b := v)) = (umem p s)(b := v)"
proof -
  have b: "b \<noteq> a" "b \<noteq> a + 1" "b \<noteq> a + 2" "b \<noteq> a + 3"
    using assms [of 0] assms [of 1] assms [of 2] assms [of 3] by simp_all
  then show ?thesis unfolding request_words uput_field by (simp add: fun_eq_iff)
qed

text \<open>
  C9. A child that exits is reaped by the parent that waits for it.  The exit request takes the child's
  pages and its selector: every frame has one reference less for each of the child's entries that named it, so that the
  frames that were the child's alone have none left and are free.  Every file has one reference less for each of the child's descriptors, and
  the files whose last references these were are no longer open.  The memory of all other processes stays as it
  is.  The wait request then stores the exit code where the parent asked for it, makes the parent runnable and
  frees the child's entry.  A file the child holds the last reference to must not be a device with a close
  operation of its own.
\<close>

theorem exit_then_wait:
  assumes c: "findProcByPid (kt_callerPid (kernelTaskQueue s i)) s = Some c" "p_isThread (procs s c) = 0" "user_space c s"
    and p: "findProcByPid (kt_callerPid (kernelTaskQueue s j)) s = Some p" "user_space p s" "i \<noteq> j" "sel_of s p \<noteq> sel_of s c"
    and w: "a = kt_args (kernelTaskQueue s j)" "umem p s (a + 1) = kt_callerPid (kernelTaskQueue s i)"
      "0 < sint (kt_callerPid (kernelTaskQueue s i))" "b = umem p s (a + 2)" "\<And>k. k < 4 \<Longrightarrow> b \<noteq> a + of_nat k"
    and mem: "cow_state P s" "c \<in> P"
    and held: "files_held c s"
  shows "\<exists>s1 s2. do_kernel_task_exit i s = Some s1 \<and> do_kernel_task_waitpid j s1 = Some s2 \<and>
    mem_of P s1 = (\<lambda>(x, pg, d). if x = sel_of s c then None else mem_of P s (x, pg, d)) \<and> cow_state P s1 \<and>
    selectorMap s1 (unat (sel_of s c)) = 0 \<and> (\<forall>fd < MAX_FILES_PER_PROC. p_openFiles (procs s1 c) fd = None) \<and>
    (\<forall>f. f_refcnt (file_at f s1) = f_refcnt (file_at f s) - of_nat (descriptors MAX_FILES_PER_PROC c f s)) \<and>
    set_live (openFiles s1) = set_live (openFiles s) - let_go MAX_FILES_PER_PROC c s \<and>
    (\<forall>f. unat f < pageMapSize \<longrightarrow> unat (pageMap s1 (unat f)) + card (users {sel_of s c} f s) = unat (pageMap s (unat f))) \<and>
    umem p s2 = (umem p s)(b := umem c s (kt_args (kernelTaskQueue s i) + 1)) \<and>
    p_state (procs s2 p) = PROC_STATE_RUN \<and> p_state (procs s2 c) = PROC_STATE_NONE \<and>
    kt_type (kernelTaskQueue s2 i) = KERNEL_TASK_NONE \<and> kt_type (kernelTaskQueue s2 j) = KERNEL_TASK_NONE"
proof -
  let ?code = "umem c s (kt_args (kernelTaskQueue s i) + 1)"
  let ?k = "kt_callerPid (kernelTaskQueue s i)"
  obtain s1 where s1: "do_kernel_task_exit i s = Some s1" "cow_state P s1"
    "procs s1 = (procs s)(c := (procs s c)\<lparr>p_retval := ?code, p_state := PROC_STATE_ZOMBIE,
      p_openFiles := \<lambda>fd. if fd < MAX_FILES_PER_PROC then None else p_openFiles (procs s c) fd\<rparr>)"
    "kernelTaskQueue s1 = (kernelTaskQueue s)(i := (kernelTaskQueue s i)\<lparr>kt_type := KERNEL_TASK_NONE\<rparr>)"
    "mem_of P s1 = (\<lambda>(x, pg, b). if x = sel_of s c then None else mem_of P s (x, pg, b))"
    "selectorMap s1 = (selectorMap s)(unat (sel_of s c) := 0)"
    "\<forall>f. file_at f s1 = (file_at f s)\<lparr>f_refcnt := f_refcnt (file_at f s) - of_nat (descriptors MAX_FILES_PER_PROC c f s)\<rparr>"
    "\<forall>q. user_space q s \<and> sel_of s q \<noteq> sel_of s c \<longrightarrow> user_space q s1 \<and> umem q s1 = umem q s"
    "set_live (openFiles s1) = set_live (openFiles s) - let_go MAX_FILES_PER_PROC c s"
    "\<forall>f. unat f < pageMapSize \<longrightarrow> unat (pageMap s1 (unat f)) + card (users {sel_of s c} f s) = unat (pageMap s (unat f))"
    using exit_ok [OF c mem held] by (elim exE conjE) (rule that)
  have us: "user_space p s1" "umem p s1 = umem p s" using s1(8) p by blast+
  have pc: "p \<noteq> c" using p(4) by auto
  have pid: "p_pid (procs s c) = ?k" "p_state (procs s c) \<noteq> PROC_STATE_NONE" using findProcByPidD [OF c(1)] by simp_all
  have same: "(\<lambda>x. p_pid (procs s1 x) = k \<and> p_state (procs s1 x) \<noteq> PROC_STATE_NONE) = (\<lambda>x. p_pid (procs s x) = k \<and> p_state (procs s x) \<noteq> PROC_STATE_NONE)"
    for k using pid(2) by (auto simp: fun_eq_iff s1(3))
  have find: "findProcByPid k s1 = findProcByPid k s" for k unfolding findProcByPid_def same ..
  have q: "kernelTaskQueue s1 j = kernelTaskQueue s j" using p(3) by (simp add: s1(4))
  have aw: "awaited p (umem p s1 (kt_args (kernelTaskQueue s1 j) + 1)) s1 = Some c"
    using w(1-3) c(1) by (simp add: awaited_def q us(2) find)
  have fp: "findProcByPid (kt_callerPid (kernelTaskQueue s1 j)) s1 = Some p" using p(1) by (simp add: q find)
  have z: "p_state (procs s1 c) = PROC_STATE_ZOMBIE" "p_retval (procs s1 c) = ?code" "p_pid (procs s1 c) = ?k"
    by (simp_all add: s1(3) pid)
  obtain s2 where s2: "do_kernel_task_waitpid j s1 = Some s2"
    "procs s2 = (procs s1)(c := (procs s1 c)\<lparr>p_state := PROC_STATE_NONE\<rparr>, p := (procs s1 p)\<lparr>p_state := PROC_STATE_RUN\<rparr>)"
    "kernelTaskQueue s2 = (kernelTaskQueue s1)(j := (kernelTaskQueue s1 j)\<lparr>kt_type := KERNEL_TASK_NONE\<rparr>)"
    "umem p s2 = uput ((uwords p s1 a 4)[1 := ?k]) a ((umem p s1)(umem p s1 (a + 2) := ?code))"
    using waitpid_ok [OF fp us(1) aw z(1)] pc unfolding z(2,3) q w(1) [symmetric] by auto
  have "(uwords p s1 a 4)[1 := ?k] = uwords p s a 4" using w(2) by (simp add: request_words us(2))
  then have m: "umem p s2 = (umem p s)(b := ?code)" using s2(4) uput_back [OF w(5)] by (simp add: us(2) w(4))
  have e: "selectorMap s1 (unat (sel_of s c)) = 0" "\<forall>fd < MAX_FILES_PER_PROC. p_openFiles (procs s1 c) fd = None"
    "\<forall>f. f_refcnt (file_at f s1) = f_refcnt (file_at f s) - of_nat (descriptors MAX_FILES_PER_PROC c f s)"
    "p_state (procs s2 p) = PROC_STATE_RUN" "p_state (procs s2 c) = PROC_STATE_NONE"
    "kt_type (kernelTaskQueue s2 i) = KERNEL_TASK_NONE" "kt_type (kernelTaskQueue s2 j) = KERNEL_TASK_NONE"
    using s1(7) pc p(3) by (simp_all add: s1(3,6) s2(2,3) s1(4))
  show ?thesis by (rule exI [of _ s1], rule exI [of _ s2], intro conjI) (rule s1(1,2,5,9,10) s2(1) m e)+
qed

text \<open>
  A parent, process 5 in entry 0, waits for its child, process 6 in entry 1, which exits with code 42.  The
  data page \<open>pg\<close> of selector \<open>x\<close> is frame \<open>16 x + pg\<close>; they share the file of descriptor 0.
\<close>

definition two_maps :: "nat \<Rightarrow> u16" where
  "two_maps k = (let x = take_bit 4 (drop_bit 8 k); pg = take_bit 8 k in
     if \<not> bit k 12 \<and> (x = 1 \<or> x = 2) \<and> pg < 16 then of_nat (16 * x + pg) else FREE_PAGE_MARK)"

definition parent_child :: kst where
  "parent_child = (power_on (\<lambda>_. undefined))\<lparr>
     hw_mmu := two_maps, pageMap := (\<lambda>f. if 16 \<le> f \<and> f < 48 then 1 else 0),
     hw_ram := (\<lambda>f off. if f = 16 \<and> off = 101 then 6 else if f = 16 \<and> off = 102 then 200 else if f = 32 \<and> off = 301 then 42 else 0),
     procs := (\<lambda>_. zero_proc)(
       0 := zero_proc\<lparr>p_pid := 5, p_state := PROC_STATE_KWORKER, p_mmuSelector := 1, p_openFiles := (\<lambda>_. None)(0 := Some 3)\<rparr>,
       1 := zero_proc\<lparr>p_pid := 6, p_state := PROC_STATE_KWORKER, p_mmuSelector := 2, p_openFiles := (\<lambda>_. None)(0 := Some 3), p_parent := Some 0\<rparr>),
     openFiles := zero_slots \<lparr>f_mode = 0, f_node = \<lparr>fn_dev = 0, fn_idx = 0\<rparr>, f_size = 0, f_pos = 0, f_device = 0, f_flags = 0, f_refcnt = 2\<rparr>,
     kernelTaskQueue := (\<lambda>_. \<lparr>kt_type = 0, kt_callerPid = 0, kt_args = 0\<rparr>)(
       0 := \<lparr>kt_type = KERNEL_TASK_WAITPID, kt_callerPid = 5, kt_args = 100\<rparr>,
       1 := \<lparr>kt_type = KERNEL_TASK_EXIT, kt_callerPid = 6, kt_args = 300\<rparr>),
     selectorMap := (\<lambda>_. 1)\<rparr>"

lemma pte_fields:
  assumes "entry_ix x pg c"
  shows "take_bit 4 (drop_bit 8 (pte x pg c)) = unat x" "take_bit 8 (pte x pg c) = unat pg" "bit (pte x pg c) 12 = (c = 1)"
proof -
  have u: "unat x < 2 ^ 4" "unat pg < 2 ^ 8" "unat c < 2 ^ 1" using assms by (simp_all add: entry_ix_def)
  have hb: "\<not> bit x (n - 8)" if "12 \<le> n" for n using high_bits [OF u(1), of "n - 8"] that by simp
  show "take_bit 4 (drop_bit 8 (pte x pg c)) = unat x"
  proof (rule bit_eqI)
    fix n
    show "bit (take_bit 4 (drop_bit 8 (pte x pg c))) n = bit (unat x) n"
      using high_bits [OF u(1), of n] bit_pte [of "8 + n" x pg c]
      by (cases "n < 4") (auto simp: bit_take_bit_iff bit_drop_bit_eq bit_unsigned_iff)
  qed
  show "take_bit 8 (pte x pg c) = unat pg"
  proof (rule bit_eqI)
    fix n
    show "bit (take_bit 8 (pte x pg c)) n = bit (unat pg) n"
      using high_bits [OF u(2), of n] bit_pte [of n x pg c]
      by (cases "n < 8") (auto simp: bit_take_bit_iff bit_unsigned_iff)
  qed
  have "c = 0 \<or> c = 1" using u(3) by (auto simp: word_unat_eq_iff)
  then show "bit (pte x pg c) 12 = (c = 1)" using hb [of 12] bit_pte [of 12 x pg c] by auto
qed

lemma parent_child_entries:
  assumes "(x, pg, c) \<in> tabs {1, 2}"
  shows "fr (x, pg, c) parent_child = (if c = 0 then of_nat (16 * unat x + unat pg) else FREE_PAGE_MARK)"
    "fl (x, pg, c) parent_child = 0"
proof -
  have e: "entry_ix x pg c" "x = 1 \<or> x = 2" "c = 0 \<and> unat pg < 16 \<or> c = 1" using assms by (auto simp: tabs_def ent_ok_def entry_ix_def)
  have m: "hw_mmu parent_child (pte x pg c) = (if c = 0 then of_nat (16 * unat x + unat pg) else FREE_PAGE_MARK)"
    using e pte_fields [OF e(1)] by (auto simp: parent_child_def two_maps_def Let_def)
  have k: "16 * unat x + unat pg < 48" if "c = 0" using e that by auto
  have s: "unat (of_nat (16 * unat x + unat pg) :: u16) < 4096" if "c = 0"
    using k [OF that] unfolding unat_of_nat_u16 by (rule order_le_less_trans [OF mod_less_eq_dividend order_less_trans]) simp
  have "unat (of_nat (16 * unat x + unat pg) :: u16) < 2 ^ 13" if "c = 0" using s [OF that] by (rule order_less_trans) simp
  then have h: "\<not> bit (of_nat (16 * unat x + unat pg) :: u16) n" if "c = 0" "13 \<le> n" for n using high_bits that by blast
  have "drop_bit 13 (of_nat (16 * unat x + unat pg) AND MMU_TABLE_FLAGS_MASK :: u16) = 0" if "c = 0"
    unfolding flag_masks by (rule bit_word_eqI, unfold bit_drop_bit_eq comp_def bit_and_iff) (use h [OF that] in fastforce)
  then show "fr (x, pg, c) parent_child = (if c = 0 then of_nat (16 * unat x + unat pg) else FREE_PAGE_MARK)" "fl (x, pg, c) parent_child = 0"
    using frame_mask [OF s] by (auto simp: fr_def fl_def cell_def m)
qed

lemma parent_child_frames:
  assumes "e \<in> tabs {1, 2}"
  shows "fr e parent_child \<noteq> FREE_PAGE_MARK \<longleftrightarrow> snd (snd e) = 0" "fl e parent_child = 0"
    "snd (snd e) = 0 \<Longrightarrow> unat (fr e parent_child) = 16 * unat (fst e) + unat (fst (snd e)) \<and>
       16 \<le> unat (fr e parent_child) \<and> unat (fr e parent_child) < 48"
proof -
  obtain x pg c where e: "e = (x, pg, c)" by (cases e)
  have t: "x = 1 \<or> x = 2" "c = 0 \<and> unat pg < 16 \<or> c = 1" using assms by (auto simp: e tabs_def ent_ok_def)
  note f = parent_child_entries [OF assms [unfolded e]]
  have k: "16 * unat x + unat pg < 48" "16 \<le> 16 * unat x + unat pg" if "c = 0" using t that by auto
  have u: "unat (of_nat (16 * unat x + unat pg) :: u16) = 16 * unat x + unat pg" if "c = 0" using k [OF that] by (intro unat_of_nat_u16_small) linarith
  have n: "of_nat (16 * unat x + unat pg) \<noteq> FREE_PAGE_MARK" if "c = 0"
  proof
    assume "of_nat (16 * unat x + unat pg) = FREE_PAGE_MARK"
    then have "unat (of_nat (16 * unat x + unat pg) :: u16) = 0x1fff" by simp
    then show False using u [OF that] k [OF that] by linarith
  qed
  show "fr e parent_child \<noteq> FREE_PAGE_MARK \<longleftrightarrow> snd (snd e) = 0" using f(1) n by (simp add: e)
  show "fl e parent_child = 0" using f(2) by (simp add: e)
  show "snd (snd e) = 0 \<Longrightarrow> unat (fr e parent_child) = 16 * unat (fst e) + unat (fst (snd e)) \<and>
       16 \<le> unat (fr e parent_child) \<and> unat (fr e parent_child) < 48" using f(1) u k by (simp add: e)
qed

lemma parent_child_inj:
  assumes "d \<in> tabs {1, 2}" "e \<in> tabs {1, 2}" "fr d parent_child = fr e parent_child" "fr e parent_child \<noteq> FREE_PAGE_MARK"
  shows "d = e"
proof -
  have z: "snd (snd d) = 0" "snd (snd e) = 0" using parent_child_frames(1) assms by metis+
  have s: "unat (fst (snd d)) < 16" "unat (fst (snd e)) < 16" using assms(1,2) z by (cases d; cases e; auto simp: tabs_def ent_ok_def)+
  have "16 * unat (fst d) + unat (fst (snd d)) = 16 * unat (fst e) + unat (fst (snd e))"
    using parent_child_frames(3) [OF assms(1) z(1)] parent_child_frames(3) [OF assms(2) z(2)] assms(3) by metis
  then have "unat (fst d) = unat (fst e) \<and> unat (fst (snd d)) = unat (fst (snd e))" using s by presburger
  then show ?thesis using z by (simp add: word_unat_eq_iff prod_eq_iff)
qed

lemma parent_child_state:
  "cow_state {0, 1} parent_child" "sel_of parent_child 0 = 1" "sel_of parent_child 1 = 2"
  "user_space 0 parent_child" "user_space 1 parent_child"
proof -
  show s: "sel_of parent_child 0 = 1" "sel_of parent_child 1 = 2" by (simp_all add: sel_of_def parent_child_def)
  have inv: "cow_inv {1, 2} parent_child"
    unfolding cow_inv_def
  proof (intro ballI impI)
    fix e assume e: "e \<in> tabs {1, 2}" "fr e parent_child \<noteq> FREE_PAGE_MARK"
    have "users {1, 2} (fr e parent_child) parent_child = {e}"
      unfolding users_def using parent_child_inj e by blast
    then have u: "card (users {1, 2} (fr e parent_child) parent_child) = 1" by simp
    have b: "16 \<le> unat (fr e parent_child) \<and> unat (fr e parent_child) < 48" using parent_child_frames(1,3) [OF e(1)] e(2) by blast
    then have "unat (pageMap parent_child (unat (fr e parent_child))) = 1" by (simp add: parent_child_def)
    then show "unat (fr e parent_child) < pageMapSize \<and>
        unat (pageMap parent_child (unat (fr e parent_child))) = card (users {1, 2} (fr e parent_child) parent_child) \<and>
        (fl e parent_child = 0 \<and> card (users {1, 2} (fr e parent_child) parent_child) = 1 \<or> fl e parent_child = PAGE_FLAG_READ_ONLY)"
      using u b parent_child_frames(2) [OF e(1)] by simp
  qed
  have p: "(pages parent_child (x, pg, c) \<noteq> None) = (c = 0)" if "x = 1 \<or> x = 2" "c = 0 \<or> c = 1" "unat pg < table_len c" for x pg c
  proof -
    have "(x, pg, c) \<in> tabs {1, 2}" using that by (auto simp: tabs_def ent_ok_def table_len_def)
    then show ?thesis using parent_child_frames(1) pages_None by (metis snd_conv)
  qed
  have g: "gapless (pages parent_child) x c" if "x = 1 \<or> x = 2" "c = 0 \<or> c = 1" for x c
    unfolding gapless_def
  proof (intro allI impI)
    fix pg pg' :: u16 assume a: "unat pg < table_len c \<and> unat pg' < unat pg \<and> pages parent_child (x, pg, c) \<noteq> None"
    then have "unat pg' < table_len c" by linarith
    then show "pages parent_child (x, pg', c) \<noteq> None" using a p [OF that] by blast
  qed
  have "p_pid (procs parent_child 0) = 5" "p_pid (procs parent_child 1) = 6" by (simp_all add: parent_child_def)
  then show "cow_state {0, 1} parent_child" using inv s g by (simp add: cow_state_def)
  have us: "user_space q parent_child" if x: "sel_of parent_child q = x" "x = 1 \<or> x = 2" for q x
  proof -
    have t: "(x, pg, 0) \<in> tabs {1, 2}" if "unat pg < 16" for pg using x(2) that by (auto simp: tabs_def ent_ok_def)
    have ix: "p_mmuSelector (procs parent_child q) = x" using x(1) by (simp add: sel_of_def)
    have "pg = pg'" if "unat pg < 16" "unat pg' < 16" "fr (x, pg, 0) parent_child = fr (x, pg', 0) parent_child" for pg pg'
      using parent_child_inj [OF t [OF that(1)] t [OF that(2)] that(3)] parent_child_frames(1) [OF t [OF that(2)]] by simp
    then show ?thesis unfolding user_space_def ix Let_def fr_fl using parent_child_frames(2) [OF t] x(2) by auto
  qed
  show "user_space 0 parent_child" by (rule us [OF s(1)]) simp
  show "user_space 1 parent_child" by (rule us [OF s(2)]) simp
qed

lemma parent_child_words:
  "umem 0 parent_child 101 = 6" "umem 0 parent_child 102 = 200" "umem 1 parent_child 301 = 42"
proof -
  have t: "(1, 0, 0) \<in> tabs {1, 2}" "(2, 0, 0) \<in> tabs {1, 2}" by (simp_all add: tabs_def ent_ok_def)
  have f: "fr (1, 0, 0) parent_child = 16" "fr (2, 0, 0) parent_child = 32"
    using parent_child_entries(1) [OF t(1)] parent_child_entries(1) [OF t(2)] by simp_all
  have g: "getPage 0 101 parent_child = 16" "getPage 0 102 parent_child = 16" "getPage 1 301 parent_child = 32"
    using f parent_child_state(2,3) by (simp_all add: getPage_def fr_fl sel_of_def)
  show "umem 0 parent_child 101 = 6" "umem 0 parent_child 102 = 200" "umem 1 parent_child 301 = 42"
    unfolding umem_def g page_offset_def by (simp_all add: parent_child_def)
qed

theorem exit_then_wait_witness:
  "\<exists>s1 s2. do_kernel_task_exit 1 parent_child = Some s1 \<and> do_kernel_task_waitpid 0 s1 = Some s2 \<and> umem 0 s2 200 = 42 \<and>
     pageMap parent_child 32 = 1 \<and> pageMap s1 32 = 0 \<and> f_refcnt (file_at 3 s1) = 1 \<and> p_state (procs s2 0) = PROC_STATE_RUN \<and> p_state (procs s2 1) = PROC_STATE_NONE"
proof -
  note st = parent_child_state and ws = parent_child_words
  have q: "kernelTaskQueue parent_child 0 = \<lparr>kt_type = KERNEL_TASK_WAITPID, kt_callerPid = 5, kt_args = 100\<rparr>"
    "kernelTaskQueue parent_child 1 = \<lparr>kt_type = KERNEL_TASK_EXIT, kt_callerPid = 6, kt_args = 300\<rparr>"
    by (simp_all add: parent_child_def)
  have f: "findProcByPid 5 parent_child = Some 0" "findProcByPid 6 parent_child = Some 1"
    by (simp_all add: findProcByPid_def parent_child_def)
  have d: "p_openFiles (procs parent_child 1) fd = (if fd = 0 then Some 3 else None)" for fd by (simp add: parent_child_def)
  have "{fd. fd < MAX_FILES_PER_PROC \<and> p_openFiles (procs parent_child 1) fd = Some 3} = {0}" unfolding d by auto
  then have cc: "descriptors MAX_FILES_PER_PROC 1 3 parent_child = 1" by (simp add: descriptors_def)
  have r: "f_refcnt (file_at 3 parent_child) = 2" by (simp add: parent_child_def file_at_def zero_slots_def)
  have sh: "files_held 1 parent_child" unfolding files_held_def unfolding d using cc r by (auto split: if_splits)
  have fr: "fr (2, 0, 0) parent_child = 32" using parent_child_entries(1) [of 2 0 0] by (simp add: tabs_def ent_ok_def)
  have "users {2} 32 parent_child = {(2, 0, 0)}"
  proof -
    have t: "(2, 0, 0) \<in> tabs {2}" "tabs {2} \<subseteq> tabs {1, 2}" by (simp add: tabs_def ent_ok_def) (auto simp: tabs_def)
    have "e = (2, 0, 0)" if e: "e \<in> tabs {2}" "fr e parent_child = 32" for e
    proof (rule parent_child_inj)
      show "e \<in> tabs {1, 2}" "(2, 0, 0) \<in> tabs {1, 2}" using e(1) t by blast+
      show "fr e parent_child = fr (2, 0, 0) parent_child" using e(2) fr by (simp only:)
      show "fr (2, 0, 0) parent_child \<noteq> FREE_PAGE_MARK" unfolding fr by simp
    qed
    then show ?thesis unfolding users_def using t(1) fr by blast
  qed
  then have u32: "card (users {2} 32 parent_child) = 1" by simp
  have th: "p_isThread (procs parent_child 1) = 0" by (simp add: parent_child_def)
  have fp: "findProcByPid (kt_callerPid (kernelTaskQueue parent_child 1)) parent_child = Some 1"
    "findProcByPid (kt_callerPid (kernelTaskQueue parent_child 0)) parent_child = Some 0" unfolding q using f by simp_all
  have far: "(200 :: u16) \<noteq> 100 + of_nat k" if "k < 4" for k
  proof -
    have "k = 0 \<or> k = 1 \<or> k = 2 \<or> k = 3" using that by linarith
    then show ?thesis by auto
  qed
  obtain s1 s2 where s: "do_kernel_task_exit 1 parent_child = Some s1" "do_kernel_task_waitpid 0 s1 = Some s2"
    "\<forall>f. f_refcnt (file_at f s1) = f_refcnt (file_at f parent_child) - of_nat (descriptors MAX_FILES_PER_PROC 1 f parent_child)"
    "umem 0 s2 = (umem 0 parent_child)(200 := umem 1 parent_child (kt_args (kernelTaskQueue parent_child 1) + 1))"
    "p_state (procs s2 0) = PROC_STATE_RUN" "p_state (procs s2 1) = PROC_STATE_NONE"
    "\<forall>f. unat f < pageMapSize \<longrightarrow> unat (pageMap s1 (unat f)) + card (users {2} f parent_child) = unat (pageMap parent_child (unat f))"
    using exit_then_wait [where i = 1 and j = 0 and a = 100 and b = 200, OF fp(1) th st(5) fp(2) st(4) _ _ _ _ _ _ far st(1) _ sh]
      st(2,3) q ws by auto
  have p32: "pageMap parent_child 32 = 1" by (simp add: parent_child_def)
  then have "pageMap s1 32 = 0" using s(7) [rule_format, of 32] u32 by (simp add: unat_eq_0)
  moreover have "umem 0 s2 200 = 42" using s(4) ws q by simp
  moreover have "f_refcnt (file_at 3 s1) = 1" using s(3) cc r by simp
  ultimately show ?thesis using s p32 by blast
qed

text \<open>
  C39. A parent that waits for any child looks at the first of its children in the process table only:
  while that one lives the request stays queued and no child is reaped, even if others have exited.
\<close>

theorem wait_any_first_child:
  assumes p: "findProcByPid (kt_callerPid (kernelTaskQueue s j)) s = Some p" "user_space p s"
    and w: "a = kt_args (kernelTaskQueue s j)" "sint (umem p s (a + 1)) \<le> 0" "umem p s (a + 3) \<noteq> WNOHANG"
    and c: "findProcByParent p s = Some c" "p_state (procs s c) \<noteq> PROC_STATE_ZOMBIE"
  shows "\<exists>s'. do_kernel_task_waitpid j s = Some s' \<and> procs s' = procs s \<and> kernelTaskQueue s' = kernelTaskQueue s \<and> umem p s' = umem p s"
proof -
  obtain s1 where g: "get_req p a 4 s = Some (uwords p s a 4, s1)"
    "viewed p s s1" "hw_ram s1 = hw_ram s" "user_space p s1" "umem p s1 = umem p s"
    using waitpid_request [OF p] unfolding w(1) by blast
  note vf = viewed_frame [OF g(2)] viewed_same [OF g(2)]
  have r: "uwords p s a 4 ! 1 = umem p s (a + 1)" "uwords p s a 4 ! 3 = umem p s (a + 3)" by (simp_all add: request_words)
  have f: "findProcByParent p s1 = Some c" using c(1) find_procs_cong(2) [OF vf(1)] by simp
  have "do_kernel_task_waitpid j s = Some s1"
    using p(1) g(1) w(2,3) c(2) f r
    by (simp add: do_kernel_task_waitpid_def waitpid_none_def vf(1) flip: w(1))
  then show ?thesis using vf g(5) by blast
qed

text \<open>The first child is alive, the second, process 7 in entry 2, has exited.\<close>

definition two_children :: kst where
  "two_children = parent_child\<lparr>
     procs := (procs parent_child)(2 := zero_proc\<lparr>p_pid := 7, p_state := PROC_STATE_ZOMBIE, p_parent := Some 0\<rparr>),
     kernelTaskQueue := (kernelTaskQueue parent_child)(0 := \<lparr>kt_type = KERNEL_TASK_WAITPID, kt_callerPid = 5, kt_args = 500\<rparr>)\<rparr>"

theorem wait_any_first_child_witness:
  "\<exists>s'. do_kernel_task_waitpid 0 two_children = Some s' \<and> p_state (procs s' 2) = PROC_STATE_ZOMBIE \<and>
     kt_type (kernelTaskQueue s' 0) = KERNEL_TASK_WAITPID"
proof -
  have e: "p_mmuSelector (procs two_children 0) = p_mmuSelector (procs parent_child 0)" "hw_ram two_children = hw_ram parent_child"
    "hw_mmu two_children = hw_mmu parent_child" by (simp_all add: two_children_def)
  have u: "user_space 0 two_children" "umem 0 two_children = umem 0 parent_child"
    by (rule same_entries_user [OF parent_child_state(4) e(1,2)], simp add: e(3))+
  have t: "(1, 0, 0) \<in> tabs {1, 2}" by (simp add: tabs_def ent_ok_def)
  have g: "getPage 0 501 parent_child = 16" "getPage 0 503 parent_child = 16"
    using parent_child_entries(1) [OF t] parent_child_state(2) by (simp_all add: getPage_def fr_fl sel_of_def)
  have w: "umem 0 parent_child 501 = 0" "umem 0 parent_child 503 = 0"
    unfolding umem_def g page_offset_def by (simp_all add: parent_child_def)
  have q: "kernelTaskQueue two_children 0 = \<lparr>kt_type = KERNEL_TASK_WAITPID, kt_callerPid = 5, kt_args = 500\<rparr>"
    by (simp add: two_children_def)
  have f: "findProcByPid 5 two_children = Some 0" "findProcByParent 0 two_children = Some 1"
    by (simp_all add: findProcByPid_def findProcByParent_def two_children_def parent_child_def)
  have z: "p_state (procs two_children 1) \<noteq> PROC_STATE_ZOMBIE" "p_state (procs two_children 2) = PROC_STATE_ZOMBIE"
    by (simp_all add: two_children_def parent_child_def)
  have fp: "findProcByPid (kt_callerPid (kernelTaskQueue two_children 0)) two_children = Some 0" unfolding q using f by simp
  show ?thesis
    using wait_any_first_child [where j = 0 and a = 500, OF fp u(1) _ _ _ f(2) z(1)] w q z(2) u(2) by auto
qed

section \<open>Fork\<close>

definition opened :: "nat \<Rightarrow> nat \<Rightarrow> kst \<Rightarrow> kst" where
  "opened j p s = s\<lparr>openFiles := (openFiles s)\<lparr>set_el := \<lambda>f. (set_el (openFiles s) f)
     \<lparr>f_refcnt := f_refcnt (set_el (openFiles s) f) + of_nat (descriptors j p f s)\<rparr>\<rparr>\<rparr>"

lemma fork_files_opened: "fork_files p s = opened MAX_FILES_PER_PROC p s"
proof -
  have "fork_files p s = opened (0 + MAX_FILES_PER_PROC) p s"
    unfolding fork_files_def
  proof (rule fort_inv [where I = "\<lambda>j t. t = opened j p s"])
    fix j t assume t: "t = opened j p s"
    have o: "p_openFiles (procs t p) j = p_openFiles (procs s p) j" by (simp add: t opened_def)
    show "(case p_openFiles (procs t p) j of Some f \<Rightarrow> file_upd f (f_refcnt_update (\<lambda>c. c + 1)) t | None \<Rightarrow> t) = opened (Suc j) p s"
    proof (cases "p_openFiles (procs s p) j")
      case None
      then have "descriptors (Suc j) p f s = descriptors j p f s" for f by (simp add: descriptors_Suc)
      then show ?thesis using None o t by (simp add: opened_def)
    next
      case (Some f)
      have "(\<lambda>g. (set_el (openFiles s) g)\<lparr>f_refcnt := f_refcnt (set_el (openFiles s) g) + of_nat (descriptors (Suc j) p g s)\<rparr>) =
          (\<lambda>g. (set_el (openFiles s) g)\<lparr>f_refcnt := f_refcnt (set_el (openFiles s) g) + of_nat (descriptors j p g s)\<rparr>)
            (f := f_refcnt_update (\<lambda>c. c + 1) ((set_el (openFiles s) f)\<lparr>f_refcnt := f_refcnt (set_el (openFiles s) f) + of_nat (descriptors j p f s)\<rparr>))"
        using Some by (auto simp: fun_eq_iff descriptors_Suc algebra_simps)
      then show ?thesis using Some o unfolding t opened_def by (simp add: file_upd_def)
    qed
  qed (simp add: opened_def descriptors_def)
  then show ?thesis by simp
qed

text \<open>The page loops of a fork change the tables, the counts and the frames only.\<close>

definition tables_only :: "kst \<Rightarrow> kst \<Rightarrow> bool" where
  "tables_only s s' \<longleftrightarrow> s' = s\<lparr>hw_mmu := hw_mmu s', hw_ram := hw_ram s', pageMap := pageMap s'\<rparr>"

lemma tables_only_trans:
  assumes "tables_only s t" "tables_only t u"
  shows "tables_only s u"
proof -
  have t: "t = s\<lparr>hw_mmu := hw_mmu t, hw_ram := hw_ram t, pageMap := pageMap t\<rparr>"
    and u: "u = t\<lparr>hw_mmu := hw_mmu u, hw_ram := hw_ram u, pageMap := pageMap u\<rparr>" using assms unfolding tables_only_def by blast+
  show ?thesis unfolding tables_only_def by (subst u, subst (1) t) simp
qed

lemma tables_only_refl: "tables_only s s" by (simp add: tables_only_def)

lemma tables_only_ops:
  "tables_only s (mmu_write_table x pg c e s)" "tables_only s (mmu_write_table_flags x pg c f s)"
  "tables_only s (mmu_copy_pages a b x y z s)" "page_upd f g s = Some s' \<Longrightarrow> tables_only s s'"
  by (auto simp: tables_only_def mmu_tables mmu_copy_pages_def ram_upd_def Let_def page_upd_def kmonad)

lemma fork_copy_only: "fork_copy x y c n k s = Some s' \<Longrightarrow> tables_only s s'"
proof (induction k arbitrary: n s)
  case (Suc k)
  let ?f = "mmu_read_table x (of_nat n) c s"
  show ?case
  proof (cases "?f = FREE_PAGE_MARK")
    case False
    then obtain t s1 where t: "page_upd t (\<lambda>_. 1) s = Some s1"
      "fork_copy x y c (Suc n) k (mmu_write_table y (of_nat n) c t (mmu_copy_pages ?f t 0 14 15 s1)) = Some s'"
      using Suc.prems by (auto simp: Let_def kmonad mmu_mark_page_def)
    note o = tables_only_ops(4) [OF t(1)] tables_only_ops(3) [of s1 ?f t 0 14 15] tables_only_ops(1) Suc.IH [OF t(2)]
    show ?thesis by (rule tables_only_trans [OF o(1) tables_only_trans [OF o(2) tables_only_trans [OF o(3,4)]]])
  qed (use Suc.prems in \<open>simp add: tables_only_refl\<close>)
qed (simp add: tables_only_refl)

lemma fork_share_only: "fork_share x y c n k s = Some s' \<Longrightarrow> tables_only s s'"
proof (induction k arbitrary: n s)
  case (Suc k)
  let ?f = "mmu_read_table x (of_nat n) c s"
  show ?case
  proof (cases "?f = FREE_PAGE_MARK")
    case False
    then obtain s1 where t: "page_upd ?f (\<lambda>c. c + 1) s = Some s1"
      "fork_share x y c (Suc n) k (mmu_write_table_flags y (of_nat n) c PAGE_FLAG_READ_ONLY
         (mmu_write_table_flags x (of_nat n) c PAGE_FLAG_READ_ONLY (mmu_write_table y (of_nat n) c ?f s1))) = Some s'"
      using Suc.prems by (auto simp: Let_def kmonad mmu_inc_page_refcnt_def)
    note o = tables_only_ops(4) [OF t(1)] tables_only_ops(1) tables_only_ops(2) tables_only_ops(2) Suc.IH [OF t(2)]
    show ?thesis
      by (rule tables_only_trans [OF o(1) tables_only_trans [OF o(2) tables_only_trans [OF o(3) tables_only_trans [OF o(4,5)]]]])
  qed (use Suc.prems in \<open>simp add: tables_only_refl\<close>)
qed (simp add: tables_only_refl)

lemma fork_pages_only: "fork_pages p q s = Some s' \<Longrightarrow> tables_only s s'"
  by (auto simp: fork_pages_def Let_def kmonad simp del: fork_copy.simps fork_share.simps split: if_splits
      dest!: fork_copy_only fork_share_only intro: tables_only_trans)

lemma same_tables_cow:
  assumes "hw_mmu s' = hw_mmu s" "hw_ram s' = hw_ram s" "pageMap s' = pageMap s"
  shows "cow_inv S s' = cow_inv S s" "pages s' = pages s" "users S f s' = users S f s" "free_frames s' = free_frames s" "balanced S s s'"
proof -
  have f: "fr e s' = fr e s" "fl e s' = fl e s" for e using assms by (simp_all add: fr_def fl_def)
  have u: "users S g s' = users S g s" for g unfolding users_def f ..
  show "cow_inv S s' = cow_inv S s" unfolding cow_inv_def f u assms(3) ..
  show "pages s' = pages s" by (simp add: fun_eq_iff pages_def f assms(2))
  show "users S f s' = users S f s" by (rule u)
  show "free_frames s' = free_frames s" by (rule free_frames_cong [OF assms(3)])
  show "balanced S s s'" by (rule balanced_same [OF assms(3) u])
qed

text \<open>The record of the child.\<close>

definition child_of :: "nat \<Rightarrow> u16 \<Rightarrow> kst \<Rightarrow> proc" where
  "child_of p n s = (procs s p)\<lparr>p_state := PROC_STATE_CONSTRUCT, p_pid := nextPid s + 1, p_parent := Some p, p_mmuSelector := n,
     p_isThread := 0, p_intFrame := (p_intFrame (procs s p))\<lparr>fr_SW := (fr_SW (p_intFrame (procs s p)) AND 0xff00) OR (n AND 0x00ff)\<rparr>\<rparr>"

text \<open>A number that no process has is found in the new entry, and all others where they were.\<close>

lemma child_found:
  assumes c: "scan (\<lambda>i. p_state (procs s i) = PROC_STATE_NONE) 0 MAXPROC = Some c"
    and k: "\<forall>q. p_state (procs s q) \<noteq> PROC_STATE_NONE \<longrightarrow> p_pid (procs s q) \<noteq> k"
    and t: "procs t = (procs s)(c := q)" "p_pid q = k" "p_state q \<noteq> PROC_STATE_NONE"
  shows "findProcByPid k t = Some c \<and> (\<forall>j. j \<noteq> k \<longrightarrow> findProcByPid j t = findProcByPid j s)"
proof -
  have cs: "c < MAXPROC" "p_state (procs s c) = PROC_STATE_NONE" using scan_SomeD [OF c] by simp_all
  have "(\<lambda>i. p_pid (procs t i) = k \<and> p_state (procs t i) \<noteq> PROC_STATE_NONE) = (\<lambda>i. i = c)"
    using k t by (auto simp: fun_eq_iff)
  moreover have "scan (\<lambda>i. i = c) 0 MAXPROC = Some c" using cs(1) by (simp add: scan_Some_iff del: scan_numeral)
  ultimately have "findProcByPid k t = Some c" unfolding findProcByPid_def by (simp only:)
  moreover have "findProcByPid j t = findProcByPid j s" if "j \<noteq> k" for j
  proof -
    have "(\<lambda>i. p_pid (procs t i) = j \<and> p_state (procs t i) \<noteq> PROC_STATE_NONE) = (\<lambda>i. p_pid (procs s i) = j \<and> p_state (procs s i) \<noteq> PROC_STATE_NONE)"
      using that cs(2) t by (auto simp: fun_eq_iff)
    then show ?thesis unfolding findProcByPid_def by (simp only:)
  qed
  ultimately show ?thesis by blast
qed

text \<open>
  C10. \<^verbatim>\<open>do_fork\<close> makes a copy of a process: the first free entry of the process table gets the parent's
  record, with the next number of the counter, the parent as parent, and the first free selector in its registers, and
  stays out of the scheduler's sight; every file has one more reference for each of the parent's
  descriptors; and the child's pages have the contents of the parent's, those of all others stay.  The counter wraps
  around and does not look whether a number is in use; when no process has it, the child is found under it
  and every other process under its own.
\<close>

theorem fork_child:
  assumes lock: "schedMx s \<noteq> 1" and c: "scan (\<lambda>i. p_state (procs s i) = PROC_STATE_NONE) 0 MAXPROC = Some c"
    and n: "mmu_get_free_selector s = Some n" "0 < unat n" "unat n < 16" "n \<in> S"
    and p: "p_state (procs s p) \<noteq> PROC_STATE_NONE" "p_pid (procs s p) \<noteq> 0" "sel_of s p \<in> S" "sel_of s p \<noteq> n"
      "0 < unat (sel_of s p)" "unat (sel_of s p) < 16"
    and mem: "cow_inv S s" "gapless (pages s) (sel_of s p) 0" "gapless (pages s) (sel_of s p) 1"
      "\<And>pg d. (n, pg, d) \<in> tabs S \<Longrightarrow> pages s (n, pg, d) = None" "fork_cost s \<le> free_frames s"
  shows "\<exists>s'. do_fork p False s = Some (Some c, s') \<and> procs s' = (procs s)(c := child_of p n s) \<and> nextPid s' = nextPid s + 1 \<and>
    selectorMap s' = (selectorMap s)(unat n := 1) \<and>
    (\<forall>f. f_refcnt (file_at f s') = f_refcnt (file_at f s) + of_nat (descriptors MAX_FILES_PER_PROC p f s)) \<and>
    cow_inv S s' \<and> balanced S s s' \<and>
    (\<forall>x \<in> tabs S. pages s' x = (case x of (y, pg, d) \<Rightarrow> if y = n then pages s (sel_of s p, pg, d) else pages s x)) \<and>
    ((\<forall>q. p_state (procs s q) \<noteq> PROC_STATE_NONE \<longrightarrow> p_pid (procs s q) \<noteq> nextPid s + 1) \<longrightarrow>
      findProcByPid (nextPid s + 1) s' = Some c \<and> (\<forall>k. k \<noteq> nextPid s + 1 \<longrightarrow> findProcByPid k s' = findProcByPid k s))"
proof -
  have cp: "c \<noteq> p" using scan_SomeD [OF c] p(1) by auto
  define s6 where "s6 = s\<lparr>procs := (procs s)(c := child_of p n s), nextPid := nextPid s + 1, schedMx := 0,
    selectorMap := (selectorMap s)(unat n := 1)\<rparr>"
  have e6: "hw_mmu s6 = hw_mmu s" "hw_ram s6 = hw_ram s" "pageMap s6 = pageMap s" "openFiles s6 = openFiles s"
    "enable_copy_on_write s6 = enable_copy_on_write s" by (simp_all add: s6_def)
  have sl: "sel_of s6 p = sel_of s p" "sel_of s6 c = n" using cp by (simp_all add: s6_def sel_of_def child_of_def)
  note t = same_tables_cow [OF e6(1-3)]
  have emp: "pages s6 (n, pg, d) = None" if "(n, pg, d) \<in> tabs S" for pg d using mem(4) [OF that] t(2) by simp
  have gap: "gapless (pages s6) (sel_of s6 p) d" if "d = 0 \<or> d = 1" for d using mem(2,3) that unfolding t(2) sl by auto
  have pid: "p_pid (procs s6 p) \<noteq> 0" using cp p(2) by (simp add: s6_def)
  have cost: "fork_cost s6 \<le> free_frames s6" using mem(5) unfolding t(4) by (simp add: fork_cost_def e6(5))
  obtain s7 where s7: "fork_pages p c s6 = Some s7" "table_copied S (sel_of s p) n s6 s7"
    using fork_pages_ok [of S s6 p c, OF _ gap _ _ _ _ _ _ _ _ pid cost] mem(1) p(3-6) n(2-4) emp unfolding sl t(1) by auto
  have k7: "cow_inv S s7" "kept s6 s7" "balanced S s6 s7"
    "\<forall>x \<in> tabs S. pages s7 x = (case x of (y, pg, d) \<Rightarrow> if y = n then pages s (sel_of s p, pg, d) else pages s x)"
    using s7(2) unfolding table_copied_def t(2) by blast+
  have o7: "s7 = s6\<lparr>hw_mmu := hw_mmu s7, hw_ram := hw_ram s7, pageMap := pageMap s7\<rparr>"
    using fork_pages_only [OF s7(1)] unfolding tables_only_def .
  have p7: "procs s7 = procs s6" "nextPid s7 = nextPid s + 1" "selectorMap s7 = selectorMap s6" "openFiles s7 = openFiles s"
    by (subst o7, simp add: s6_def)+
  define s8 where "s8 = opened MAX_FILES_PER_PROC p s7"
  have p8: "procs s8 = procs s7" "nextPid s8 = nextPid s7" "selectorMap s8 = selectorMap s7" "hw_mmu s8 = hw_mmu s7" "hw_ram s8 = hw_ram s7"
    "pageMap s8 = pageMap s7" by (simp_all add: s8_def opened_def)
  note t8 = same_tables_cow [OF p8(4-6)]
  have d7: "descriptors k p f s7 = descriptors k p f s" for k f using cp by (simp add: descriptors_def p7 s6_def)
  have files: "f_refcnt (file_at f s8) = f_refcnt (file_at f s) + of_nat (descriptors MAX_FILES_PER_PROC p f s)" for f
    using d7 by (simp add: file_at_def s8_def opened_def p7(4))
  have sb: "unat n < mmuSelectorNum" using n(3) by simp
  let ?s1 = "unlock_sched (proc_upd c (p_state_update (\<lambda>_. PROC_STATE_CONSTRUCT)) (s\<lparr>schedMx := 1\<rparr>))"
  have g: "get_free_proc s = Some (Some c, ?s1)"
    using c lock lock_sched_iff [of s "s\<lparr>schedMx := 1\<rparr>"] by (simp add: get_free_proc_def del: scan_numeral)
  define s2 where "s2 = proc_upd c (\<lambda>_. (procs ?s1 p)\<lparr>p_state := PROC_STATE_CONSTRUCT\<rparr>) ?s1"
  define s4 where "s4 = proc_upd c (\<lambda>q. q\<lparr>p_pid := nextPid s + 1, p_parent := Some p\<rparr>) (s2\<lparr>nextPid := nextPid s + 1\<rparr>)"
  have n1: "nextPid ?s1 = nextPid s" "nextPid s2 = nextPid s" by (simp_all add: s2_def proc_upd_def unlock_sched_def)
  define s5 where "s5 = (proc_upd c (p_mmuSelector_update (\<lambda>_. n)) s4)\<lparr>selectorMap := (selectorMap s)(unat n := 1)\<rparr>"
  have m4: "selectorMap s4 = selectorMap s" by (simp add: s4_def s2_def proc_upd_def unlock_sched_def)
  then have fs: "mmu_get_free_selector s4 = Some n" using n(1) by (simp add: mmu_get_free_selector_def del: scan_numeral)
  have mk: "mmu_mark_selector n 1 (proc_upd c (p_mmuSelector_update (\<lambda>_. n)) s4) = Some s5"
    using sb m4 by (simp add: mmu_mark_selector_def s5_def)
  have x6: "proc_upd c (\<lambda>q. q\<lparr>p_isThread := 0, p_intFrame := (p_intFrame q)\<lparr>fr_SW := (fr_SW (p_intFrame q) AND 0xff00)
      OR (p_mmuSelector q AND 0x00ff)\<rparr>\<rparr>) s5 = s6"
    using cp by (simp add: s5_def s4_def s2_def s6_def proc_upd_def unlock_sched_def spinlock_unlock_def child_of_def)
  have "do_fork p False s = do {
      s7 \<leftarrow> fork_pages p c (proc_upd c (\<lambda>q. q\<lparr>p_isThread := 0, p_intFrame := (p_intFrame q)\<lparr>fr_SW := (fr_SW (p_intFrame q) AND 0xff00)
        OR (p_mmuSelector q AND 0x00ff)\<rparr>\<rparr>) s5);
      Some (Some c, fork_files p s7) }"
    unfolding do_fork_def g
    by (simp add: Let_def sched_genPid_def n1 flip: s2_def) (simp add: fs mk flip: s4_def)
  then have r: "do_fork p False s = Some (Some c, s8)" unfolding x6 s7(1) s8_def by (simp add: fork_files_opened)
  have find: "findProcByPid (nextPid s + 1) s8 = Some c \<and> (\<forall>k. k \<noteq> nextPid s + 1 \<longrightarrow> findProcByPid k s8 = findProcByPid k s)"
    if "\<forall>q. p_state (procs s q) \<noteq> PROC_STATE_NONE \<longrightarrow> p_pid (procs s q) \<noteq> nextPid s + 1"
    by (rule child_found [OF c that, where q = "child_of p n s"]) (use p8 p7 in \<open>simp_all add: s6_def child_of_def\<close>)
  show ?thesis
    by (rule exI [of _ s8], intro conjI allI impI)
      (use r p8 p7 files find t8 k7 balanced_trans [OF t(5) balanced_trans [OF k7(3) t8(5)]] in \<open>simp_all add: s6_def\<close>)
qed

text \<open>A process with one page forks; the child gets entry 1 and selector 2.\<close>

definition forking :: kst where
  "forking = one_page\<lparr>procs := (\<lambda>_. zero_proc)(0 := zero_proc\<lparr>p_pid := 1, p_state := PROC_STATE_RUN, p_mmuSelector := 1\<rparr>),
     selectorMap := (\<lambda>_. 0)(0 := 1, 1 := 1), nextPid := 1\<rparr>"

theorem fork_child_witness:
  "\<exists>s'. do_fork 0 False forking = Some (Some 1, s') \<and> p_pid (procs s' 1) = 2 \<and> findProcByPid 2 s' = Some 1 \<and> findProcByPid 1 s' = Some 0 \<and> p_mmuSelector (procs s' 1) = 2 \<and>
     pages s' (2, 0, 0) = pages forking (1, 0, 0)"
proof -
  have e: "hw_mmu forking = hw_mmu one_page" "hw_ram forking = hw_ram one_page" "pageMap forking = pageMap one_page"
    by (simp_all add: forking_def)
  note t = same_tables_cow [OF e]
  have st: "cow_inv {1, 2} one_page" "gapless (pages one_page) 1 0" "gapless (pages one_page) 1 1"
  proof -
    have im: "sel_of one_page ` {0, 1} = {1, 2}" using one_page_state(2,3) by simp
    show "cow_inv {1, 2} one_page" using cow_stateD(1) [OF one_page_state(1)] unfolding im .
    show "gapless (pages one_page) 1 0" "gapless (pages one_page) 1 1"
      using cow_stateD(5) [OF one_page_state(1), of 0 0] cow_stateD(5) [OF one_page_state(1), of 0 1] one_page_state(2) by simp_all
  qed
  have f: "nextPid forking = 1" "schedMx forking \<noteq> 1" "fork_cost forking = 0" "sel_of forking 0 = 1"
    by (simp_all add: forking_def one_page_def power_on_def Let_def fork_cost_def sel_of_def)
  have c: "scan (\<lambda>i. p_state (procs forking i) = PROC_STATE_NONE) 0 MAXPROC = Some 1" by (simp add: forking_def)
  have n: "mmu_get_free_selector forking = Some 2" by (simp add: mmu_get_free_selector_def forking_def)
  have emp: "pages forking (2, pg, d) = None" if "(2, pg, d) \<in> tabs {1, 2}" for pg d
    using one_page_entries(1) [OF tabs_ok [OF that]] unfolding t(2) by (simp add: pages_None)
  have tt: "(2, 0, 0) \<in> tabs {1, 2}" by (simp add: tabs_def ent_ok_def)
  have p0: "p_state (procs forking 0) \<noteq> PROC_STATE_NONE" "p_pid (procs forking 0) \<noteq> 0" by (simp_all add: forking_def)
  obtain s' where s': "do_fork 0 False forking = Some (Some 1, s')" "procs s' = (procs forking)(1 := child_of 0 2 forking)"
    "\<forall>x \<in> tabs {1, 2}. pages s' x = (case x of (y, pg, d) \<Rightarrow> if y = 2 then pages forking (sel_of forking 0, pg, d) else pages forking x)"
    "(\<forall>q. p_state (procs forking q) \<noteq> PROC_STATE_NONE \<longrightarrow> p_pid (procs forking q) \<noteq> nextPid forking + 1) \<longrightarrow>
      findProcByPid (nextPid forking + 1) s' = Some 1 \<and> (\<forall>k. k \<noteq> nextPid forking + 1 \<longrightarrow> findProcByPid k s' = findProcByPid k forking)"
    using fork_child [OF f(2) c n, where p = 0 and S = "{1, 2}"] st f(3,4) t(1,2) emp p0 by auto
  have "pages s' (2, 0, 0) = pages forking (1, 0, 0)" using s'(3) tt f(4) by auto
  moreover have "nextPid forking + 1 = 2" using f(1) by simp
  moreover have "p_pid (procs forking q) \<noteq> 2" for q by (simp add: forking_def)
  moreover have "findProcByPid 1 forking = Some 0" by (simp add: findProcByPid_def forking_def)
  ultimately show ?thesis using s'(1,2,4) by (auto simp: child_of_def)
qed

text \<open>A thread that ends gives back none of the references to files that its creation has counted.\<close>

lemma thread_exit_keeps_references:
  assumes "findProcByPid (kt_callerPid (kernelTaskQueue s i)) s = Some c" "p_isThread (procs s c) \<noteq> 0" "user_space c s"
  shows "\<exists>s'. do_kernel_task_exit i s = Some s' \<and> openFiles s' = openFiles s"
proof -
  let ?a = "kt_args (kernelTaskQueue s i)"
  obtain s1 where g: "ugets c ?a 0 14 2 False s = Some (uwords c s ?a 2, s1)" "viewed c s s1"
    using ugets_ok [OF assms(3), of ?a 2 False] by auto
  note vf = viewed_frame [OF g(2)]
  show ?thesis
    using assms(1,2) g(1) vf by (simp add: do_kernel_task_exit_def get_req_def Let_def finish_task_def task_upd_def)
qed

end
