(* ===== verification/Loading.thy ===== *)
theory Loading
  imports Args Lifecycle Files
begin

text \<open>
  Exec.  One turn of the loading loops takes a free frame, maps it for the process and for the kernel, and reads a
  piece of the file into it; the loops fill the tables of the process with the program's code and data, and
  \<^verbatim>\<open>do_execve\<close> gives the process a memory with the program, its data and the old arguments.
\<close>

section \<open>What loading leaves alone\<close>

definition exec_only :: "kst \<Rightarrow> kst \<Rightarrow> bool" where
  "exec_only s s' \<longleftrightarrow> s' = s\<lparr>hw_hdd := hw_hdd s', hw_mmu := hw_mmu s', hw_ram := hw_ram s', blockCache := blockCache s',
     openFiles := openFiles s', pageMap := pageMap s'\<rparr>"

lemma exec_onlyD:
  assumes "exec_only s s'"
  shows "procs s' = procs s" "cProc s' = cProc s" "uninit s' = uninit s" "enable_copy_on_write s' = enable_copy_on_write s"
    "blkdrivers s' = blkdrivers s" "mtab s' = mtab s" "selectorMap s' = selectorMap s" "fs_root s' = fs_root s"
    "kernelTaskQueue s' = kernelTaskQueue s"
  by (subst assms [unfolded exec_only_def], simp)+

lemma exec_only_trans: "exec_only s t \<Longrightarrow> exec_only t u \<Longrightarrow> exec_only s u"
proof -
  assume st: "exec_only s t" and tu: "exec_only t u"
  show "exec_only s u"
    unfolding exec_only_def
    by (rule trans [OF tu [unfolded exec_only_def]], subst st [unfolded exec_only_def]) simp
qed

lemma exec_only_refl: "exec_only s s" by (simp add: exec_only_def)

lemma exec_only_files: "files_only s s' \<Longrightarrow> exec_only s s'"
  unfolding exec_only_def by (subst (asm) files_only_def, erule ssubst) simp

lemma exec_only_tables: "tables_only s s' \<Longrightarrow> exec_only s s'"
  unfolding exec_only_def by (subst (asm) tables_only_def, erule ssubst) simp

text \<open>The file system does not see the page tables.\<close>

lemma tables_view:
  assumes t: "tables_only s s'"
  shows "bview s' = bview s" "pins s' = pins s" "file_at fd s' = file_at fd s" "openFiles s' = openFiles s" "readable dops fd d N s' = readable dops fd d N s"
    "disk_ok dops s' = disk_ok dops s" "hw_hdd s' = hw_hdd s" "same_slots r s' = same_slots r s"
proof -
  have e: "s' = s\<lparr>hw_mmu := hw_mmu s', hw_ram := hw_ram s', pageMap := pageMap s'\<rparr>" using t unfolding tables_only_def .
  have h: "hw_hdd s' = hw_hdd s" "blockCache s' = blockCache s" "blkdrivers s' = blkdrivers s" "openFiles s' = openFiles s"
    by (subst e, simp)+
  show "hw_hdd s' = hw_hdd s" "openFiles s' = openFiles s" by (fact h)+
  have c: "cached s' = cached s" by (intro ext) (simp add: cached_def h)
  show v: "bview s' = bview s" by (intro ext) (simp add: cview_def c h split: option.split)
  show p: "pins s' = pins s" by (intro ext) (simp add: pins_def c h split: option.split)
  show f: "file_at fd s' = file_at fd s" for fd by (simp add: file_at_def h)
  show ok: "disk_ok dops s' = disk_ok dops s"
    by (simp add: disk_ok_def cache_inv_def uniq_def served_def getBlkDriver_def getDriverEntry_def h)
  show "same_slots r s' = same_slots r s" by (simp add: same_slots_def h)
  show "readable dops fd d N s' = readable dops fd d N s"
    by (simp add: readable_def ok v f h regular_def room_cong [OF p])
qed

section \<open>One page\<close>

definition same_file :: "nat \<Rightarrow> kst \<Rightarrow> kst \<Rightarrow> bool" where
  "same_file fd s s' \<longleftrightarrow> bview s' = bview s \<and> pins s' = pins s \<and> same_slots s s' \<and>
     f_size (file_at fd s') = f_size (file_at fd s) \<and> f_refcnt (file_at fd s') = f_refcnt (file_at fd s)"

lemma same_file_trans: "same_file fd s t \<Longrightarrow> same_file fd t u \<Longrightarrow> same_file fd s u"
  by (simp add: same_file_def same_slots_def)

lemma same_file_refl: "same_file fd s s"
  by (simp add: same_file_def same_slots_def)

lemma fill_page_once:
  assumes "readable dops fd d N s" "0 < n" "n \<le> 4096" "f_pos (file_at fd s) + n \<le> f_size (file_at fd s)"
  shows "\<exists>s1. fill_page dops fd n 0 s =
      Some (ram_upd (frame_of 14 s) (\<lambda>b. blit b 0 (take n (drop (f_pos (file_at fd s)) (file_contents (bview s) d N)))) s1) \<and>
    files_only s s1 \<and> readable dops fd d N s1 \<and> same_file fd s s1 \<and> f_pos (file_at fd s1) = f_pos (file_at fd s) + n"
proof -
  let ?ws = "take n (drop (f_pos (file_at fd s)) (file_contents (bview s) d N))"
  obtain s1 where r: "k_read dops fd n s = Some (?ws, s1)" "readable dops fd d N s1" "bview s1 = bview s" "pins s1 = pins s"
    "f_pos (file_at fd s1) = f_pos (file_at fd s) + min n (f_size (file_at fd s) - f_pos (file_at fd s))"
    "f_size (file_at fd s1) = f_size (file_at fd s)" "f_refcnt (file_at fd s1) = f_refcnt (file_at fd s)" "same_slots s s1" "files_only s s1"
    using k_read_readable [OF assms(1), of n] assms(3) by auto
  have l: "length ?ws = n" using assms(1,4) unfolding readable_def by simp
  have f: "frame_of 14 s1 = frame_of 14 s" by (simp add: frame_of_def mmu_tables files_onlyD(2) [OF r(9)])
  have "fill_page dops fd n 0 s = fill_page dops fd n n (ram_upd (frame_of 14 s) (\<lambda>b. blit b 0 ?ws) s1)"
    using r(1) assms(2,3) l f by (subst fill_page.simps) simp
  also have "\<dots> = Some (ram_upd (frame_of 14 s) (\<lambda>b. blit b 0 ?ws) s1)" by (subst fill_page.simps) simp
  finally show ?thesis using r assms(4) by (auto simp: same_file_def)
qed

lemma new_entry_fresh:
  assumes d: "ent_ok d" and t: "unat t < pageMapSize"
    and m: "hw_mmu s' = (hw_mmu s)(pte 0 14 0 := v, cell d := t) \<or> hw_mmu s' = (hw_mmu s)(cell d := t)"
    and p: "pageMap s' = (pageMap s)(unat t := 1)" and r: "\<And>g. g \<noteq> unat t \<Longrightarrow> hw_ram s' g = hw_ram s g"
  shows "fresh_entry d t s s'"
  using m d r frame_mask [OF t] and_masks [of t] unfolding fresh_entry_def fr_def fl_def p by (auto simp: t)

text \<open>What one page adds: the entry \<open>d\<close> shows a page that starts with the words \<open>ws\<close>.\<close>

definition page_added :: "u16 set \<Rightarrow> entry \<Rightarrow> u16 list \<Rightarrow> kst \<Rightarrow> kst \<Rightarrow> bool" where
  "page_added S d ws s s' \<longleftrightarrow> cow_inv S s' \<and> balanced S s s' \<and> free_frames s \<le> Suc (free_frames s') \<and>
     (\<exists>r. pages s' d = Some (ws @ r)) \<and> (\<forall>x \<in> tabs S. x \<noteq> d \<longrightarrow> pages s' x = pages s x) \<and>
     (\<forall>x \<in> tabs S. fl x s' = (if x = d then 0 else fl x s))"

lemma fresh_page_added:
  assumes "cow_inv S s" and fe: "fresh_entry d t s s'" and d: "d \<in> tabs S" "fr d s = FREE_PAGE_MARK"
    and t: "pageMap s (unat t) = 0" "unat t < pageMapSize" and ws: "length ws \<le> 4096" "slice (hw_ram s' (unat t)) 0 (length ws) = ws"
  shows "page_added S d ws s s'"
proof -
  note f = fresh_entry_ok [OF assms(1) fe d t]
  have "slice (hw_ram s' (unat t)) 0 4096 = ws @ slice (hw_ram s' (unat t)) (length ws) (4096 - length ws)"
    using slice_add [of "hw_ram s' (unat t)" 0 "length ws" "4096 - length ws"] ws by simp
  then have "\<exists>r. pages s' d = Some (ws @ r)" using f(2) [OF d(1)] by auto
  moreover have "fl x s' = (if x = d then 0 else fl x s)" if "x \<in> tabs S" for x
    using fe tabs_ok [OF that] unfolding fresh_entry_def by blast
  ultimately show ?thesis using f unfolding page_added_def by simp
qed

lemma load_page:
  assumes rd: "readable dops fd d N s" and inv: "cow_inv S s" and e: "(y, of_nat pageno, c) \<in> tabs S" "fr (y, of_nat pageno, c) s = FREE_PAGE_MARK"
    and fr: "0 < free_frames s" and n: "0 < n" "n \<le> 4096" "f_pos (file_at fd s) + n \<le> f_size (file_at fd s)"
  obtains t s1 s2 where "mmu_get_free_page s = Some t" "mmu_mark_page t 1 s = Some s1"
    "fill_page dops fd n 0 (mmu_write_table y (of_nat pageno) c t (mmu_write_table 0 14 0 t s1)) = Some s2"
    "page_added S (y, of_nat pageno, c) (take n (drop (f_pos (file_at fd s)) (file_contents (bview s) d N))) s s2"
    "readable dops fd d N s2" "exec_only s s2" "same_file fd s s2" "f_pos (file_at fd s2) = f_pos (file_at fd s) + n" "procs s1 = procs s"
proof -
  let ?d = "(y, of_nat pageno, c)" and ?ws = "take n (drop (f_pos (file_at fd s)) (file_contents (bview s) d N))"
  obtain t where t: "mmu_get_free_page s = Some t" using free_frames_some [OF fr] by auto
  note tt = mmu_get_free_pageD [OF t]
  define s1 where "s1 = s\<lparr>pageMap := (pageMap s)(unat t := 1)\<rparr>"
  have m: "mmu_mark_page t 1 s = Some s1" using tt by (simp add: mmu_mark_page_def page_upd_def s1_def)
  define s3 where "s3 = mmu_write_table y (of_nat pageno) c t (mmu_write_table 0 14 0 t s1)"
  have e3: "hw_mmu s3 = (hw_mmu s)(pte 0 14 0 := t, cell ?d := t)" "pageMap s3 = (pageMap s)(unat t := 1)" "hw_ram s3 = hw_ram s"
    by (simp_all add: s3_def s1_def mmu_tables cell_def)
  have o3: "tables_only s s3" by (simp add: tables_only_def s3_def s1_def mmu_tables)
  note v = tables_view [OF o3]
  have w: "frame_of 14 s3 = unat t"
    using cell_window(1) [OF tabs_ok [OF e(1)]] frame_mask tt by (simp add: frame_of_def mmu_tables e3)
  have rd3: "readable dops fd d N s3" using rd v(5) by simp
  obtain s4 where s4: "fill_page dops fd n 0 s3 = Some (ram_upd (unat t) (\<lambda>b. blit b 0 ?ws) s4)" "files_only s3 s4" "readable dops fd d N s4"
    "same_file fd s3 s4" "f_pos (file_at fd s4) = f_pos (file_at fd s) + n"
    using fill_page_once [OF rd3 n(1,2)] n(3) unfolding v(1,3) w by auto
  let ?s = "ram_upd (unat t) (\<lambda>b. blit b 0 ?ws) s4"
  have o4: "tables_only s4 ?s" by (simp add: tables_only_def ram_upd_def)
  have l: "length ?ws = n" using rd n(3) unfolding readable_def by simp
  have "fresh_entry ?d t s ?s"
    by (rule new_entry_fresh [OF tabs_ok [OF e(1)]]) (use tt e3 files_onlyD [OF s4(2)] in \<open>auto simp: ram_upd_def\<close>)
  from fresh_page_added [OF inv this e] have pa: "page_added S ?d ?ws s ?s"
    using tt n(2) slice_blit [of "hw_ram s4 (unat t)" 0 ?ws] l by simp
  have "exec_only s ?s"
    by (rule exec_only_trans [OF exec_only_tables [OF o3] exec_only_trans [OF exec_only_files [OF s4(2)] exec_only_tables [OF o4]]])
  moreover have "readable dops fd d N ?s" using s4(3) tables_view(5) [OF o4] by simp
  moreover have "same_file fd s ?s"
    using s4(4) tables_view [OF o4] v unfolding same_file_def by (simp add: same_slots_def)
  moreover have "f_pos (file_at fd ?s) = f_pos (file_at fd s) + n" using s4(5) tables_view(3) [OF o4] by simp
  moreover have "procs s1 = procs s" by (simp add: s1_def)
  ultimately show thesis using that [OF t m, of ?s] s4(1) pa unfolding s3_def by blast
qed

section \<open>A segment\<close>

definition npages :: "nat \<Rightarrow> nat" where
  "npages n = (n + 4095) div 4096"

lemma npages_less: "q < npages n \<longleftrightarrow> q * 4096 < n"
  unfolding npages_def by (simp add: less_eq_div_iff_mult_less_eq flip: Suc_le_eq)

lemma npages_le: "npages n \<le> q \<longleftrightarrow> n \<le> q * 4096"
  using npages_less [of q n] by linarith

definition file_rest :: "nat \<Rightarrow> u16 \<Rightarrow> u16 \<Rightarrow> kst \<Rightarrow> u16 list" where
  "file_rest fd d N s = drop (f_pos (file_at fd s)) (file_contents (bview s) d N)"

text \<open>The pages from \<open>lo\<close> to \<open>hi\<close> of table \<open>c\<close> of selector \<open>y\<close> are new and show the words \<open>xs\<close>; the others are as before.\<close>

definition segment_in :: "u16 set \<Rightarrow> u16 \<Rightarrow> u16 \<Rightarrow> nat \<Rightarrow> nat \<Rightarrow> u16 list \<Rightarrow> kst \<Rightarrow> kst \<Rightarrow> bool" where
  "segment_in S y c lo hi xs s s' \<longleftrightarrow> cow_inv S s' \<and> balanced S s s' \<and> free_frames s \<le> free_frames s' + (hi - lo) \<and>
     (\<forall>x pg b. (x, pg, b) \<in> tabs S \<and> \<not> (x = y \<and> b = c \<and> lo \<le> unat pg \<and> unat pg < hi) \<longrightarrow>
        pages s' (x, pg, b) = pages s (x, pg, b) \<and> fl (x, pg, b) s' = fl (x, pg, b) s) \<and>
     (\<forall>q. lo \<le> q \<and> q < hi \<longrightarrow> fl (y, of_nat q, c) s' = 0 \<and>
        (\<exists>r. pages s' (y, of_nat q, c) = Some (take 4096 (drop ((q - lo) * 4096) xs) @ r)))"

text \<open>A page followed by the pages behind it.\<close>

lemma segment_in_page:
  assumes pa: "page_added S (y, of_nat lo, c) (take 4096 xs) s t" and si: "segment_in S y c (Suc lo) hi (drop 4096 xs) t s'"
    and d: "(y, of_nat lo, c) \<in> tabs S" "unat (of_nat lo :: u16) = lo" and lo: "lo < hi"
  shows "segment_in S y c lo hi xs s s'"
  unfolding segment_in_def
proof (intro conjI allI impI)
  let ?d = "(y, of_nat lo :: u16, c)"
  note p = pa [unfolded page_added_def] and q = si [unfolded segment_in_def]
  show "cow_inv S s'" "balanced S s s'" using p q balanced_trans by blast+
  show "free_frames s \<le> free_frames s' + (hi - lo)" using p q lo by linarith
  fix x pg b
  assume a: "(x, pg, b) \<in> tabs S \<and> \<not> (x = y \<and> b = c \<and> lo \<le> unat pg \<and> unat pg < hi)"
  have nd: "(x, pg, b) \<noteq> ?d" using a lo d(2) by auto
  have "pages s' (x, pg, b) = pages t (x, pg, b) \<and> fl (x, pg, b) s' = fl (x, pg, b) t"
    using q a by (meson Suc_leD)
  moreover have "pages t (x, pg, b) = pages s (x, pg, b) \<and> fl (x, pg, b) t = fl (x, pg, b) s"
    using p a nd by (simp del: prod.inject)
  ultimately show "pages s' (x, pg, b) = pages s (x, pg, b)" "fl (x, pg, b) s' = fl (x, pg, b) s" by simp_all
next
  let ?d = "(y, of_nat lo :: u16, c)"
  note p = pa [unfolded page_added_def] and q = si [unfolded segment_in_def]
  fix n assume n: "lo \<le> n \<and> n < hi"
  have "fl (y, of_nat n, c) s' = 0 \<and> (\<exists>w. pages s' (y, of_nat n, c) = Some (take 4096 (drop ((n - lo) * 4096) xs) @ w))"
  proof (cases "n = lo")
    case True
    have "pages s' ?d = pages t ?d \<and> fl ?d s' = fl ?d t" using q d by auto
    then show ?thesis using p d(1) True by auto
  next
    case False
    then have l: "Suc lo \<le> n" using n by simp
    then have "(n - lo) * 4096 = 4096 + (n - Suc lo) * 4096" by (simp add: diff_mult_distrib)
    then have "drop ((n - Suc lo) * 4096) (drop 4096 xs) = drop ((n - lo) * 4096) xs" by (simp add: add.commute)
    moreover have "fl (y, of_nat n, c) s' = 0 \<and>
        (\<exists>w. pages s' (y, of_nat n, c) = Some (take 4096 (drop ((n - Suc lo) * 4096) (drop 4096 xs)) @ w))"
      using q l n by blast
    ultimately show ?thesis by simp
  qed
  then show "fl (y, of_nat n, c) s' = 0" "\<exists>w. pages s' (y, of_nat n, c) = Some (take 4096 (drop ((n - lo) * 4096) xs) @ w)" by blast+
qed

lemma load_segment_ok:
  assumes "readable dops fd d N s" "cow_inv S s" "sel_of s p = y" "y \<in> S" "0 < unat y" "unat y < 16" "c = 0 \<or> c = 1"
    "cnt = min (pageno * 4096) tot" "tot \<le> table_len c * 4096"
    "\<forall>q. pageno \<le> q \<and> q < table_len c \<longrightarrow> pages s (y, of_nat q, c) = None"
    "npages tot - pageno \<le> free_frames s" "f_pos (file_at fd s) + (tot - cnt) \<le> f_size (file_at fd s)"
  shows "\<exists>s'. load_segment dops p fd c tot cnt pageno s = Some (max pageno (npages tot), s') \<and>
    segment_in S y c pageno (npages tot) (take (tot - cnt) (file_rest fd d N s)) s s' \<and>
    readable dops fd d N s' \<and> exec_only s s' \<and> same_file fd s s' \<and> f_pos (file_at fd s') = f_pos (file_at fd s) + (tot - cnt)"
  using assms
proof (induction "tot - cnt" arbitrary: cnt pageno s rule: less_induct)
  case less
  show ?case
  proof (cases "cnt < tot")
    case False
    then have "npages tot \<le> pageno" using less.prems(8) by (simp add: npages_le)
    moreover have "load_segment dops p fd c tot cnt pageno s = Some (pageno, s)" using False by (subst load_segment.simps) simp
    ultimately show ?thesis using less.prems(1,2) False
      by (auto simp: segment_in_def balanced_refl exec_only_refl same_file_refl)
  next
    case True
    then have c: "cnt = pageno * 4096" and pl: "pageno < npages tot" using less.prems(8) by (simp_all add: npages_less)
    have pt: "pageno < table_len c" using True c less.prems(9) by simp
    have tl: "table_len c \<le> 128" by (simp add: table_len_def)
    define r where "r = min (tot - cnt) 4096"
    have r: "0 < r" "r \<le> 4096" "r \<le> tot - cnt" using True by (simp_all add: r_def)
    let ?d = "(y, of_nat pageno, c)" and ?xs = "take (tot - cnt) (file_rest fd d N s)"
    have u: "unat (of_nat q :: u16) = q" if "q < table_len c" for q using that tl by (intro unat_of_nat_u16_small) linarith
    have et: "(y, of_nat q, c) \<in> tabs S" if "q < table_len c" for q
      using in_tabs [OF less.prems(4-7)] u [OF that] that by simp
    have e: "fr ?d s = FREE_PAGE_MARK" using less.prems(10) pt pages_None [of s ?d] by simp
    have ff: "0 < free_frames s" using less.prems(11) pl by linarith
    have rl: "f_pos (file_at fd s) + r \<le> f_size (file_at fd s)" using less.prems(12) r(3) by linarith
    obtain t s1 s2 where l: "mmu_get_free_page s = Some t" "mmu_mark_page t 1 s = Some s1"
      "fill_page dops fd r 0 (mmu_write_table y (of_nat pageno) c t (mmu_write_table 0 14 0 t s1)) = Some s2"
      "page_added S ?d (take r (drop (f_pos (file_at fd s)) (file_contents (bview s) d N))) s s2"
      "readable dops fd d N s2" "exec_only s s2" "same_file fd s s2" "f_pos (file_at fd s2) = f_pos (file_at fd s) + r" "procs s1 = procs s"
      by (rule load_page [OF less.prems(1,2) et [OF pt] e ff r(1,2) rl])
    note pa = l(4) [unfolded page_added_def]
    have y: "p_mmuSelector (procs s1 p) = y" using less.prems(3) l(9) by (simp add: sel_of_def)
    have pr: "procs (mmu_write_table 0 14 0 t s1) = procs s1" by (simp add: mmu_tables)
    have oa: "off_add cnt r = cnt + r"
      using r(3) less.prems(9) tl True unfolding off_add_def by (intro mod_less) linarith
    have step: "load_segment dops p fd c tot cnt pageno s = load_segment dops p fd c tot (cnt + r) (Suc pageno) s2"
      using True l(1-3) y pr oa by (subst load_segment.simps) (simp add: Let_def r_def)
    have m: "tot - (cnt + r) < tot - cnt" using r(1,3) by linarith
    have "cnt + min (tot - cnt) 4096 = min (4096 + cnt) tot" using True unfolding min_def by presburger
    then have mn: "cnt + r = min (Suc pageno * 4096) tot" unfolding r_def c mult_Suc .
    have nx: "pages s2 (y, of_nat q, c) = None" if "Suc pageno \<le> q" "q < table_len c" for q
    proof -
      have "(of_nat q :: u16) \<noteq> of_nat pageno" using u [OF that(2)] u [OF pt] that(1) by auto
      then show ?thesis using pa et [OF that(2)] less.prems(10) that by auto
    qed
    have fz: "f_size (file_at fd s2) = f_size (file_at fd s)" using l(7) by (simp add: same_file_def)
    have vw: "file_rest fd d N s2 = drop r (file_rest fd d N s)"
      using l(7,8) by (simp add: file_rest_def same_file_def add.commute)
    have fr2: "npages tot - Suc pageno \<le> free_frames s2" using pa less.prems(11) pl by linarith
    have f2: "f_pos (file_at fd s2) + (tot - (cnt + r)) \<le> f_size (file_at fd s2)" using l(8) fz less.prems(12) r(3) by linarith
    have sy: "sel_of s2 p = y" using less.prems(3) exec_onlyD(1) [OF l(6)] by (simp add: sel_of_def)
    have cv: "cow_inv S s2" using pa by blast
    obtain s' where ih: "load_segment dops p fd c tot (cnt + r) (Suc pageno) s2 = Some (max (Suc pageno) (npages tot), s')"
      "segment_in S y c (Suc pageno) (npages tot) (take (tot - (cnt + r)) (file_rest fd d N s2)) s2 s'"
      "readable dops fd d N s'" "exec_only s2 s'" "same_file fd s2 s'" "f_pos (file_at fd s') = f_pos (file_at fd s2) + (tot - (cnt + r))"
      using less.hyps [OF m l(5) cv sy less.prems(4-7) mn less.prems(9) _ fr2 f2] nx by blast
    have xs: "take 4096 ?xs = take r (file_rest fd d N s)" "drop 4096 ?xs = take (tot - (cnt + r)) (file_rest fd d N s2)"
      unfolding vw by (auto simp: r_def min_def drop_take drop_drop)
    have seg: "segment_in S y c pageno (npages tot) ?xs s s'"
      by (rule segment_in_page [OF _ _ et [OF pt] u [OF pt] pl], unfold xs) (use l(4) ih(2) in \<open>simp_all add: file_rest_def\<close>)
    have "f_pos (file_at fd s') = f_pos (file_at fd s) + (tot - cnt)" using ih(6) l(8) r(3) by simp
    then show ?thesis
      using step ih(1,3) seg exec_only_trans [OF l(6) ih(4)] same_file_trans [OF l(7) ih(5)] pl by (auto simp: max_def)
  qed
qed

text \<open>The pages without contents behind the data.\<close>

lemma alloc_data_pages_ok:
  assumes "cow_inv S s" "sel_of s p = y" "y \<in> S" "0 < unat y" "unat y < 16" "n + k \<le> 16"
    "\<forall>q. n \<le> q \<and> q < n + k \<longrightarrow> pages s (y, of_nat q, 0) = None" "k \<le> free_frames s"
  shows "\<exists>s'. alloc_data_pages p n k s = Some s' \<and> segment_in S y 0 n (n + k) [] s s' \<and> tables_only s s'"
  using assms
proof (induction k arbitrary: n s)
  case 0
  then show ?case by (auto simp: segment_in_def balanced_refl tables_only_refl)
next
  case (Suc k)
  let ?d = "(y, of_nat n, 0)"
  have u: "unat (of_nat q :: u16) = q" if "q < 16" for q using that by (intro unat_of_nat_u16_small) linarith
  have et: "(y, of_nat q, 0) \<in> tabs S" if "q < 16" for q
    using in_tabs [OF Suc.prems(3-5), of 0 "of_nat q"] u [OF that] that by (simp add: table_len_def)
  have n: "n < 16" using Suc.prems(6) by simp
  obtain t where t: "mmu_get_free_page s = Some t" using free_frames_some [of s] Suc.prems(8) by auto
  note tt = mmu_get_free_pageD [OF t]
  let ?s = "mmu_write_table y (of_nat n) 0 t (s\<lparr>pageMap := (pageMap s)(unat t := 1)\<rparr>)"
  have "fresh_entry ?d t s ?s"
    by (rule new_entry_fresh [OF tabs_ok [OF et [OF n]]]) (use tt in \<open>auto simp: mmu_tables cell_def\<close>)
  from fresh_page_added [OF Suc.prems(1) this et [OF n], of "[]"] have pa: "page_added S ?d [] s ?s"
    using tt Suc.prems(7) [rule_format, of n] pages_None [of s ?d] by (simp add: slice_def)
  note p = pa [unfolded page_added_def]
  have o: "tables_only s ?s" by (simp add: tables_only_def mmu_tables)
  have "sel_of ?s p = y" using Suc.prems(2) by (simp add: sel_of_def mmu_tables)
  moreover have "\<forall>q. Suc n \<le> q \<and> q < Suc n + k \<longrightarrow> pages ?s (y, of_nat q, 0) = None"
  proof (intro allI impI)
    fix q assume q: "Suc n \<le> q \<and> q < Suc n + k"
    then have q16: "q < 16" using Suc.prems(6) by simp
    have "(of_nat q :: u16) \<noteq> of_nat n" using u [OF q16] u [OF n] q by auto
    then show "pages ?s (y, of_nat q, 0) = None" using p et [OF q16] Suc.prems(7) q by auto
  qed
  ultimately obtain s' where ih: "alloc_data_pages p (Suc n) k ?s = Some s'" "segment_in S y 0 (Suc n) (Suc n + k) [] ?s s'" "tables_only ?s s'"
    using Suc.IH [of ?s "Suc n"] p Suc.prems(3-6,8) by auto
  have "segment_in S y 0 n (n + Suc k) [] s s'"
    by (rule segment_in_page [OF _ _ et [OF n] u [OF n]]) (use pa ih(2) in simp_all)
  moreover have "alloc_data_pages p n (Suc k) s = Some s'"
    using t tt ih(1) Suc.prems(2) by (simp add: mmu_mark_page_def page_upd_def sel_of_def)
  ultimately show ?case using tables_only_trans [OF o ih(3)] by auto
qed

end
