(* ===== verification/Program.thy ===== *)
theory Program
  imports Loading
begin

text \<open>
  The tables of a process that has loaded a program: its code pages, and sixteen writable data pages that start with
  its data.  Both loops of exec together, between the release of the old pages and the allocation of the rest, fill
  them (\<open>fill_tables_ok\<close>).
\<close>

section \<open>The memory of a loaded program\<close>

lemma page_parts: "page_offset a = unat a mod 4096" "unat (drop_bit 12 a) = unat (a :: u16) div 4096"
proof -
  have m: "(0xfff :: u16) = mask 12" by (simp add: mask_eq_exp_minus_1)
  show "page_offset a = unat a mod 4096" unfolding page_offset_def m
    by (simp add: take_bit_eq_mask [symmetric] unsigned_take_bit_eq) (simp add: take_bit_eq_mod)
  show "unat (drop_bit 12 a) = unat a div 4096" by (simp add: drop_bit_eq_div unat_div_distrib)
qed

lemma pages_word: "pages s e = Some xs \<Longrightarrow> k < 4096 \<Longrightarrow> hw_ram s (unat (fr e s)) k = xs ! k"
  by (auto simp: pages_def split: if_splits)

text \<open>The code of a process as a function of the position in its code pages.\<close>

definition ucode :: "nat \<Rightarrow> kst \<Rightarrow> nat \<Rightarrow> u16" where
  "ucode p s i = hw_ram s (unat (mmu_read_table (p_mmuSelector (procs s p)) (of_nat (i div 4096)) 1 s)) (i mod 4096)"

text \<open>
  What the loading part of exec leaves in the tables of the selector \<open>y\<close>: the pages of the code \<open>T\<close> and
  sixteen writable data pages that start with \<open>D\<close>; the tables of other selectors are untouched.
\<close>

definition program_in :: "u16 set \<Rightarrow> u16 \<Rightarrow> u16 list \<Rightarrow> u16 list \<Rightarrow> kst \<Rightarrow> kst \<Rightarrow> bool" where
  "program_in S y T D s s' \<longleftrightarrow> cow_inv S s' \<and> balanced S s s' \<and>
     (\<forall>x pg b. (x, pg, b) \<in> tabs S \<and> x \<noteq> y \<longrightarrow> pages s' (x, pg, b) = pages s (x, pg, b)) \<and>
     (\<forall>q < 128. if q < npages (length T) then \<exists>r. pages s' (y, of_nat q, 1) = Some (take 4096 (drop (q * 4096) T) @ r)
        else pages s' (y, of_nat q, 1) = None) \<and>
     (\<forall>q < 16. fl (y, of_nat q, 0) s' = 0 \<and> (\<exists>r. pages s' (y, of_nat q, 0) = Some (take 4096 (drop (q * 4096) D) @ r)))"

lemma piece_nth: "i < length xs \<Longrightarrow> (take 4096 (drop (i div 4096 * 4096) xs) @ r) ! (i mod 4096) = xs ! i"
proof -
  assume i: "i < length xs"
  note e = div_mult_mod_eq [of i 4096]
  have m: "i mod 4096 < 4096" by simp
  have "i mod 4096 < length xs - i div 4096 * 4096" using i e by linarith
  then have "i mod 4096 < length (take 4096 (drop (i div 4096 * 4096) xs))" using m by simp
  then have "(take 4096 (drop (i div 4096 * 4096) xs) @ r) ! (i mod 4096) = xs ! (i div 4096 * 4096 + i mod 4096)"
    by (simp add: nth_append)
  then show ?thesis using e by simp
qed

lemma program_words:
  assumes pr: "program_in S (sel_of s' p) T D s s'" and y: "sel_of s' p \<in> S" "0 < unat (sel_of s' p)" "unat (sel_of s' p) < 16"
    and T: "length T \<le> 128 * 4096" and D: "length D \<le> 65536"
  shows "user_space p s'" "i < length T \<Longrightarrow> ucode p s' i = T ! i" "i < length D \<Longrightarrow> umem p s' (of_nat i) = D ! i"
    "c = 0 \<or> c = 1 \<Longrightarrow> gapless (pages s') (sel_of s' p) c"
proof -
  let ?y = "sel_of s' p"
  note a = pr [unfolded program_in_def]
  have d: "fl (?y, pg, 0) s' = 0" "\<exists>r. pages s' (?y, pg, 0) = Some (take 4096 (drop (unat pg * 4096) D) @ r)" if "unat pg < 16" for pg
    using a [THEN conjunct2, THEN conjunct2, THEN conjunct2, THEN conjunct2, rule_format, of "unat pg"] that by simp_all
  have t: "(?y, pg, 0) \<in> tabs S" if "unat pg < 16" for pg using in_tabs [OF y, of 0 pg] that by (simp add: table_len_def)
  show "user_space p s'"
    unfolding user_space_def Let_def sel_of_def [symmetric] fr_fl
  proof (intro conjI allI impI)
    show "0 < unat ?y" "unat ?y < 16" by (fact y)+
    show "fl (?y, pg, 0) s' = 0" if "unat pg < 16" for pg using d(1) that .
    fix pg pg' assume e: "unat pg < 16 \<and> unat pg' < 16 \<and> fr (?y, pg, 0) s' = fr (?y, pg', 0) s'"
    have nf: "fr (?y, pg, 0) s' \<noteq> FREE_PAGE_MARK" using d(2) [of pg] e by (auto simp: pages_def split: if_splits)
    have inv: "cow_inv S s'" using a by blast
    have "fl (?y, pg, 0) s' \<noteq> PAGE_FLAG_READ_ONLY" using d(1) [of pg] e by simp
    then have "card (users S (fr (?y, pg, 0) s') s') = 1" using cow_invD(3) [OF inv t nf] e by blast
    then obtain u where u: "users S (fr (?y, pg, 0) s') s' = {u}" by (auto simp: card_1_singleton_iff)
    have "(?y, pg, 0) \<in> {u}" "(?y, pg', 0) \<in> {u}" unfolding u [symmetric] users_def using t e by simp_all
    then show "pg = pg'" by auto
  qed
  show "ucode p s' i = T ! i" if i: "i < length T"
  proof -
    have q: "i div 4096 < npages (length T)" "i div 4096 < 128" using i T by (auto simp: npages_less div_less_iff_less_mult) 
    then obtain r where r: "pages s' (?y, of_nat (i div 4096), 1) = Some (take 4096 (drop (i div 4096 * 4096) T) @ r)" using a by metis
    show ?thesis using pages_word [OF r, of "i mod 4096"] piece_nth [OF i] by (simp add: ucode_def sel_of_def [symmetric] fr_fl)
  qed
  show "umem p s' (of_nat i) = D ! i" if i: "i < length D"
  proof -
    have u: "unat (of_nat i :: u16) = i" using i D by (intro unat_of_nat_u16_small) linarith
    have pg: "unat (drop_bit 12 (of_nat i :: u16)) = i div 4096" "unat (drop_bit 12 (of_nat i :: u16)) < 16"
      using page_parts(2) [of "of_nat i"] u addr_page [of "of_nat i"] by (simp_all only:)
    obtain r where r: "pages s' (?y, drop_bit 12 (of_nat i), 0) = Some (take 4096 (drop (i div 4096 * 4096) D) @ r)"
      using d(2) [OF pg(2)] unfolding pg(1) by blast
    show ?thesis using pages_word [OF r, of "i mod 4096"] piece_nth [OF i]
      by (simp add: umem_def getPage_def sel_of_def [symmetric] fr_fl page_parts(1) u)
  qed
  show "gapless (pages s') ?y c" if c: "c = 0 \<or> c = 1"
    unfolding gapless_def
  proof (intro allI impI)
    fix pg pg' :: u16 assume g: "unat pg < table_len c \<and> unat pg' < unat pg \<and> pages s' (?y, pg, c) \<noteq> None"
    show "pages s' (?y, pg', c) \<noteq> None"
    proof (cases "c = 0")
      case True
      then show ?thesis using d(2) [of pg'] g by (auto simp: table_len_def)
    next
      case False
      then have c1: "c = 1" "unat pg < 128" "unat pg' < 128" using c g by (auto simp: table_len_def)
      have e: "of_nat (unat pg) = pg" "of_nat (unat pg') = pg'" by simp_all
      have p1: "if unat pg < npages (length T) then \<exists>r. pages s' (?y, pg, 1) = Some (take 4096 (drop (unat pg * 4096) T) @ r)
        else pages s' (?y, pg, 1) = None" using a c1(2) e(1) by metis
      have p2: "if unat pg' < npages (length T) then \<exists>r. pages s' (?y, pg', 1) = Some (take 4096 (drop (unat pg' * 4096) T) @ r)
        else pages s' (?y, pg', 1) = None" using a c1(3) e(2) by metis
      show ?thesis using p1 p2 g c1(1) by (auto split: if_splits)
    qed
  qed
qed

section \<open>Filling the tables\<close>

lemma freeProcessPages_only:
  assumes "freeProcessPages p s = Some s'" "0 < unat (sel_of s p)" "unat (sel_of s p) < 16"
  shows "tables_only s s'"
proof -
  have e: "s' = s\<lparr>hw_mmu := hw_mmu s', pageMap := pageMap s'\<rparr>" using freeProcessPages_released [OF assms] unfolding released_def by blast
  show ?thesis unfolding tables_only_def by (subst (1 2) e) simp
qed

text \<open>Segments of different tables, and consecutive ones of the same table.\<close>

lemma segment_inD:
  assumes "segment_in S y c lo hi xs s s'"
  shows "cow_inv S s'" "balanced S s s'" "free_frames s \<le> free_frames s' + (hi - lo)"
    "(x, pg, b) \<in> tabs S \<Longrightarrow> x \<noteq> y \<or> b \<noteq> c \<or> unat pg < lo \<or> hi \<le> unat pg \<Longrightarrow>
       pages s' (x, pg, b) = pages s (x, pg, b) \<and> fl (x, pg, b) s' = fl (x, pg, b) s"
    "lo \<le> q \<Longrightarrow> q < hi \<Longrightarrow> fl (y, of_nat q, c) s' = 0 \<and>
       (\<exists>r. pages s' (y, of_nat q, c) = Some (take 4096 (drop ((q - lo) * 4096) xs) @ r))"
  using assms unfolding segment_in_def by (blast, blast, blast, (meson not_le)+)

lemma segments_program:
  assumes y: "y \<in> S" "0 < unat y" "unat y < 16"
    and t: "segment_in S y 1 0 (npages (length T)) T s0 s1" and d: "segment_in S y 0 0 (npages (length D)) D s1 s2"
    and a: "segment_in S y 0 (npages (length D)) 16 [] s2 s3"
    and b: "balanced S s s0" "\<And>x pg b. (x, pg, b) \<in> tabs S \<Longrightarrow> pages s0 (x, pg, b) = (if x = y then None else pages s (x, pg, b))"
  shows "program_in S y T D s s3"
  unfolding program_in_def
proof (intro conjI allI impI)
  note t = segment_inD [OF t] and d = segment_inD [OF d] and a = segment_inD [OF a]
  show "cow_inv S s3" by (rule a(1))
  show "balanced S s s3" by (rule balanced_trans [OF b(1) balanced_trans [OF t(2) balanced_trans [OF d(2) a(2)]]])
  have u: "unat (of_nat q :: u16) = q" if "q < 128" for q using that by (intro unat_of_nat_u16_small) linarith
  show "pages s3 (x, pg, b) = pages s (x, pg, b)" if "(x, pg, b) \<in> tabs S \<and> x \<noteq> y" for x pg b
    using t(4) d(4) a(4) b(2) that by metis
  show "if q < npages (length T) then \<exists>r. pages s3 (y, of_nat q, 1) = Some (take 4096 (drop (q * 4096) T) @ r)
      else pages s3 (y, of_nat q, 1) = None" if q: "q < 128" for q
  proof -
    have e: "(y, of_nat q, 1) \<in> tabs S" using in_tabs [OF y, of 1 "of_nat q"] u [OF q] q by (simp add: table_len_def)
    have s3: "pages s3 (y, of_nat q, 1) = pages s1 (y, of_nat q, 1)" using d(4) [OF e] a(4) [OF e] by simp
    show ?thesis
    proof (cases "q < npages (length T)")
      case True
      then show ?thesis using t(5) [of q] s3 by simp
    next
      case False
      then show ?thesis using t(4) [OF e] u [OF q] s3 b(2) [OF e] by simp
    qed
  qed
  fix q :: nat assume q: "q < 16"
  have e: "(y, of_nat q, 0) \<in> tabs S" using in_tabs [OF y, of 0 "of_nat q"] u [of q] q by (simp add: table_len_def)
  have "fl (y, of_nat q, 0) s3 = 0 \<and> (\<exists>r. pages s3 (y, of_nat q, 0) = Some (take 4096 (drop (q * 4096) D) @ r))"
  proof (cases "q < npages (length D)")
    case True
    then show ?thesis using d(5) [of q] a(4) [OF e] u [of q] q by simp
  next
    case False
    then have "drop (q * 4096) D = []" by (simp add: npages_less)
    then show ?thesis using a(5) [of q] False q by simp
  qed
  then show "fl (y, of_nat q, 0) s3 = 0" "\<exists>r. pages s3 (y, of_nat q, 0) = Some (take 4096 (drop (q * 4096) D) @ r)" by blast+
qed

lemma fill_tables_ok:
  assumes rd: "readable dops fd d N s" and inv: "cow_inv S s" "\<And>c. c = 0 \<or> c = 1 \<Longrightarrow> gapless (pages s) y c"
    and y: "sel_of s p = y" "y \<in> S" "0 < unat y" "unat y < 16"
    and nt: "nt \<le> 128 * 4096" "nd \<le> 65536" "f_pos (file_at fd s) + nt + nd \<le> f_size (file_at fd s)"
    and frames: "npages nt + 16 \<le> free_frames s"
  shows "\<exists>s0 s1 s2 s3. freeProcessPages p s = Some s0 \<and> load_segment dops p fd 1 nt 0 0 s0 = Some (npages nt, s1) \<and>
    load_segment dops p fd 0 nd 0 0 s1 = Some (npages nd, s2) \<and> alloc_data_pages p (npages nd) (16 - npages nd) s2 = Some s3 \<and>
    program_in S y (take nt (file_rest fd d N s)) (take nd (drop nt (file_rest fd d N s))) s s3 \<and>
    readable dops fd d N s3 \<and> same_file fd s s3 \<and> exec_only s s3"
proof -
  let ?F = "file_rest fd d N s"
  obtain s0 where s0: "freeProcessPages p s = Some s0" "cow_inv S s0" "balanced S s s0" "free_frames s \<le> free_frames s0"
    "\<forall>x \<in> tabs S. pages s0 x = (if fst x = y then None else pages s x)"
    using freeProcessPages_ok [OF inv(1), of p] inv(2) y unfolding y(1) by auto
  have o0: "tables_only s s0" by (rule freeProcessPages_only [OF s0(1)]) (use y in simp_all)
  note v0 = tables_view [OF o0]
  have r0: "readable dops fd d N s0" "file_rest fd d N s0 = ?F" "same_file fd s s0" using rd v0 by (simp_all add: file_rest_def same_file_def same_slots_def)
  have u: "unat (of_nat q :: u16) = q" if "q < 128" for q using that by (intro unat_of_nat_u16_small) linarith
  have e1: "(y, of_nat q, 1) \<in> tabs S" if "q < 128" for q using in_tabs [OF y(2-4), of 1 "of_nat q"] u [OF that] that by (simp add: table_len_def)
  have e0: "(y, of_nat q, 0) \<in> tabs S" if "q < 16" for q using in_tabs [OF y(2-4), of 0 "of_nat q"] u [of q] that by (simp add: table_len_def)
  have n0: "\<forall>q. 0 \<le> q \<and> q < table_len 1 \<longrightarrow> pages s0 (y, of_nat q, 1) = None" using s0(5) e1 by (auto simp: table_len_def)
  have y0: "sel_of s0 p = y" using y(1) exec_onlyD(1) [OF exec_only_tables [OF o0]] by (simp add: sel_of_def)
  obtain s1 where s1: "load_segment dops p fd 1 nt 0 0 s0 = Some (npages nt, s1)" "segment_in S y 1 0 (npages nt) (take nt ?F) s0 s1"
    "readable dops fd d N s1" "exec_only s0 s1" "same_file fd s0 s1" "f_pos (file_at fd s1) = f_pos (file_at fd s) + nt"
    using load_segment_ok [OF r0(1) s0(2) y0 y(2-4) _ _ _ n0, of 0 nt] nt frames s0(4) v0(3) unfolding r0(2) by (auto simp: table_len_def)
  have y1: "sel_of s1 p = y" using y0 exec_onlyD(1) [OF s1(4)] by (simp add: sel_of_def)
  have f1: "f_size (file_at fd s1) = f_size (file_at fd s)" using s1(5) v0(3) by (simp add: same_file_def)
  have F1: "file_rest fd d N s1 = drop nt ?F" using s1(5,6) v0(1) by (simp add: same_file_def file_rest_def add.commute)
  note g1 = segment_inD [OF s1(2)]
  have n1: "\<forall>q. 0 \<le> q \<and> q < table_len 0 \<longrightarrow> pages s1 (y, of_nat q, 0) = None"
    using g1(4) [OF e0] s0(5) e0 by (auto simp: table_len_def)
  have np: "npages nd \<le> 16" using nt(2) by (simp add: npages_le)
  obtain s2 where s2: "load_segment dops p fd 0 nd 0 0 s1 = Some (npages nd, s2)" "segment_in S y 0 0 (npages nd) (take nd (drop nt ?F)) s1 s2"
    "readable dops fd d N s2" "exec_only s1 s2" "same_file fd s1 s2"
    using load_segment_ok [OF s1(3) g1(1) y1 y(2-4) _ _ _ n1, of 0 nd] nt frames s0(4) g1(3) f1 s1(6) np unfolding F1 by (auto simp: table_len_def)
  have y2: "sel_of s2 p = y" using y1 exec_onlyD(1) [OF s2(4)] by (simp add: sel_of_def)
  note g2 = segment_inD [OF s2(2)]
  have n2: "\<forall>q. npages nd \<le> q \<and> q < npages nd + (16 - npages nd) \<longrightarrow> pages s2 (y, of_nat q, 0) = None"
  proof (intro allI impI)
    fix q assume q: "npages nd \<le> q \<and> q < npages nd + (16 - npages nd)"
    then have "q < 16" using np by linarith
    then show "pages s2 (y, of_nat q, 0) = None" using g2(4) [OF e0 [of q]] n1 u [of q] q by (simp add: table_len_def)
  qed
  have fr2: "16 - npages nd \<le> free_frames s2" using frames s0(4) g1(3) g2(3) np by linarith
  obtain s3 where s3: "alloc_data_pages p (npages nd) (16 - npages nd) s2 = Some s3" "segment_in S y 0 (npages nd) 16 [] s2 s3" "tables_only s2 s3"
    using alloc_data_pages_ok [OF g2(1) y2 y(2-4) _ n2 fr2] np by auto
  note v3 = tables_view [OF s3(3)]
  have len: "length (take nt ?F) = nt" "length (take nd (drop nt ?F)) = nd"
    using rd nt(3) by (simp_all add: file_rest_def readable_def)
  have "program_in S y (take nt ?F) (take nd (drop nt ?F)) s s3"
  proof (rule segments_program [OF y(2-4)])
    show "segment_in S y 1 0 (npages (length (take nt ?F))) (take nt ?F) s0 s1"
      "segment_in S y 0 0 (npages (length (take nd (drop nt ?F)))) (take nd (drop nt ?F)) s1 s2"
      "segment_in S y 0 (npages (length (take nd (drop nt ?F)))) 16 [] s2 s3" unfolding len by (fact s1(2) s2(2) s3(2))+
    show "pages s0 (x, pg, b) = (if x = y then None else pages s (x, pg, b))" if "(x, pg, b) \<in> tabs S" for x pg b using s0(5) that by auto
  qed (rule s0(3))
  moreover have "same_file fd s s3"
    using same_file_trans [OF r0(3) same_file_trans [OF s1(5) s2(5)]] v3 by (simp add: same_file_def same_slots_def)
  moreover have "exec_only s s3"
    by (rule exec_only_trans [OF exec_only_tables [OF o0] exec_only_trans [OF s1(4) exec_only_trans [OF s2(4) exec_only_tables [OF s3(3)]]]])
  ultimately show ?thesis using s0(1) s1(1) s2(1) s3(1) s2(3) v3(5) by blast
qed

end
