(* ===== verification/Execute.thy ===== *)
theory Execute
  imports Program
begin

text \<open>
  \<^verbatim>\<open>do_execve\<close> as a whole: opening the file and reading its header, the arguments, the new memory
  and the block of arguments behind the data.
\<close>

section \<open>Storing the argument block\<close>

lemma viewed_entries:
  assumes v: "viewed p t t'" and e: "ent_ok e"
  shows "fr e t' = fr e t" "fl e t' = fl e t" "pages t' e = None \<longleftrightarrow> pages t e = None"
  using viewed_same(2) [OF v e] by (simp_all add: fr_def fl_def pages_None)

lemma viewed_cow:
  assumes v: "viewed p t t'"
  shows "cow_inv S t' = cow_inv S t" "0 < unat x \<Longrightarrow> unat x < 16 \<Longrightarrow> c = 0 \<or> c = 1 \<Longrightarrow> gapless (pages t') x c = gapless (pages t) x c"
proof -
  have f: "fr e t' = fr e t" "fl e t' = fl e t" if "e \<in> tabs S" for e using viewed_entries [OF v tabs_ok [OF that]] by simp_all
  have u: "users S g t' = users S g t" for g unfolding users_def using f by auto
  show "cow_inv S t' = cow_inv S t"
    unfolding cow_inv_def by (rule ball_cong [OF refl]) (use f u viewed_same(1) [OF v] in simp)
  assume x: "0 < unat x" "unat x < 16" "c = 0 \<or> c = 1"
  have e: "ent_ok (x, pg, c)" if "unat pg < table_len c" for pg using x that by (auto simp: ent_ok_def table_len_def)
  show "gapless (pages t') x c = gapless (pages t) x c"
    unfolding gapless_def using viewed_entries(3) [OF v e] by (meson less_trans)
qed

text \<open>Pages that are not data pages of the process: no frame of theirs is written.\<close>

lemma viewed_pages:
  assumes v: "viewed p t t'" and inv: "cow_inv S t" and y: "sel_of t p = y" "y \<in> S" "0 < unat y" "unat y < 16"
    and d: "\<forall>pg. unat pg < 16 \<longrightarrow> fl (y, pg, 0) t = 0" and e: "(x, pg, b) \<in> tabs S" "x \<noteq> y \<or> b \<noteq> 0"
  shows "pages t' (x, pg, b) = pages t (x, pg, b)"
proof (cases "fr (x, pg, b) t = FREE_PAGE_MARK")
  case True
  then show ?thesis using viewed_entries [OF v tabs_ok [OF e(1)]] by (simp add: pages_def)
next
  case False
  have "unat (fr (x, pg, b) t) \<noteq> unat (getPage p a t)" for a
  proof
    assume "unat (fr (x, pg, b) t) = unat (getPage p a t)"
    moreover have "getPage p a t = fr (y, drop_bit 12 a, 0) t" using y(1) by (simp add: getPage_def sel_of_def fr_fl)
    ultimately have g: "fr (x, pg, b) t = fr (y, drop_bit 12 a, 0) t" by (simp add: word_unat_eq_iff)
    have td: "(y, drop_bit 12 a, 0) \<in> tabs S" using in_tabs [OF y(2-4), of 0] addr_page [of a] by (simp add: table_len_def)
    have "fl (y, drop_bit 12 a, 0) t \<noteq> PAGE_FLAG_READ_ONLY" using d addr_page [of a] by simp
    then have "card (users S (fr (x, pg, b) t) t) = 1" using cow_invD(3) [OF inv td] False g by auto
    then obtain u where u: "users S (fr (x, pg, b) t) t = {u}" by (auto simp: card_1_singleton_iff)
    have "(x, pg, b) \<in> {u}" "(y, drop_bit 12 a, 0) \<in> {u}" unfolding u [symmetric] users_def using td e g by simp_all
    then show False using e(2) by auto
  qed
  then have "hw_ram t' (unat (fr (x, pg, b) t)) = hw_ram t (unat (fr (x, pg, b) t))" using v unfolding viewed_def by blast
  then show ?thesis using viewed_entries [OF v tabs_ok [OF e(1)]] by (simp add: pages_def)
qed

lemma far_words: "i < n \<Longrightarrow> n + m \<le> 65536 \<Longrightarrow> j < m \<Longrightarrow> (of_nat i :: u16) \<noteq> of_nat n + of_nat j"
proof
  assume a: "i < n" "n + m \<le> 65536" "j < m" and e: "(of_nat i :: u16) = of_nat n + of_nat j"
  have "unat (of_nat i :: u16) = unat (of_nat (n + j) :: u16)" using e by simp
  then show False using a by (subst (asm) (1 2) unat_of_nat_u16_small) linarith+
qed

lemma block_stored:
  assumes pr: "program_in S (sel_of t p) T D s t" and y: "sel_of t p \<in> S" "0 < unat (sel_of t p)" "unat (sel_of t p) < 16"
    and T: "length T \<le> 128 * 4096" and D: "length D + 256 \<le> 65536" and n: "n \<le> 256"
  shows "\<exists>k t'. uputs p (of_nat (length D)) 0 14 n False (slice b 0 n) t = Some (k, t') \<and> viewed p t t' \<and> user_space p t' \<and>
    (\<forall>i < length T. ucode p t' i = T ! i) \<and> (\<forall>i < length D. umem p t' (of_nat i) = D ! i) \<and>
    (\<forall>x < n. umem p t' (of_nat (length D) + of_nat x) = b x) \<and>
    (\<forall>x pg c. (x, pg, c) \<in> tabs S \<and> x \<noteq> sel_of t p \<longrightarrow> pages t' (x, pg, c) = pages s (x, pg, c))"
proof -
  let ?y = "sel_of t p" and ?B = "of_nat (length D) :: u16"
  note pw = program_words [OF pr y T] and a = pr [unfolded program_in_def]
  have us: "user_space p t" using pw(1) D by simp
  obtain t' where u: "uputs p ?B 0 14 n False (slice b 0 n) t = Some (n, t')" "viewed p t t'" "umem p t' = uput (slice b 0 n) ?B (umem p t)"
    using uputs_ok [OF us, of n "slice b 0 n" ?B False] by auto
  have fl0: "\<forall>pg. unat pg < 16 \<longrightarrow> fl (?y, pg, 0) t = 0"
    using us by (simp add: user_space_def Let_def sel_of_def [symmetric] fr_fl)
  have inv: "cow_inv S t" using a by blast
  note vp = viewed_pages [OF u(2) inv refl y fl0]
  have "ucode p t' i = T ! i" if i: "i < length T" for i
  proof -
    have q: "i div 4096 < 128" using i T by (simp add: div_less_iff_less_mult)
    have qu: "unat (of_nat (i div 4096) :: u16) = i div 4096" using q by (intro unat_of_nat_u16_small) linarith
    let ?e = "(?y, of_nat (i div 4096) :: u16, 1 :: u16)"
    have e: "?e \<in> tabs S" using in_tabs [OF y, of 1 "of_nat (i div 4096)"] q qu by (simp add: table_len_def)
    have sl: "sel_of t' p = ?y" using viewed_frame(1) [OF u(2)] by (simp add: sel_of_def)
    have f: "fr ?e t' = fr ?e t" by (rule viewed_entries(1) [OF u(2) tabs_ok [OF e]])
    have m: "i mod 4096 < 4096" by simp
    have np: "i div 4096 < npages (length T)" using i by (simp add: npages_less)
    then obtain r where r: "pages t ?e = Some (take 4096 (drop (i div 4096 * 4096) T) @ r)" using a q by metis
    have r': "pages t' ?e = Some (take 4096 (drop (i div 4096 * 4096) T) @ r)" using vp [OF e] r by simp
    show ?thesis using pages_word [OF r' m] piece_nth [OF i] sl by (simp add: ucode_def sel_of_def [symmetric] fr_fl)
  qed
  moreover have "umem p t' (of_nat i) = D ! i" if i: "i < length D" for i
  proof -
    have "umem p t' (of_nat i) = umem p t (of_nat i)" unfolding u(3)
      by (rule uput_other) (use far_words [OF i D] n in simp)
    then show ?thesis using pw(3) [OF _ i] D by simp
  qed
  moreover have "umem p t' (?B + of_nat x) = b x" if "x < n" for x
    unfolding u(3) by (subst uput_nth) (use that n in simp_all)
  moreover have "pages t' (x, pg, c) = pages s (x, pg, c)" if "(x, pg, c) \<in> tabs S" "x \<noteq> ?y" for x pg c
    using vp [OF that(1)] a that by auto
  ultimately show ?thesis using u(1,2) viewed_getPage(1) [OF u(2) us] by blast
qed


section \<open>Opening the file\<close>

text \<open>A program file: the magic word, sizes of code and data, and words enough.\<close>

definition text_len :: "u16 list \<Rightarrow> nat" where
  "text_len X = long_of (X ! 6) (X ! 5)"

definition data_len :: "u16 list \<Rightarrow> nat" where
  "data_len X = unat (X ! 8)"

definition program_file :: "u16 list \<Rightarrow> bool" where
  "program_file X \<longleftrightarrow> take 4 X = kstr ''REXE'' \<and> 9 < length X \<and> 9 + text_len X + data_len X \<le> length X \<and>
     text_len X \<le> 128 * 4096 \<and> data_len X + 256 \<le> 65536"

lemma memcmp_magic: "take 4 X = kstr ''REXE'' \<Longrightarrow> 9 < length X \<Longrightarrow> memcmp (take 9 X) (kstr ''REXE'') 4 = Some 0"
  using memcmp_loop_eq [of 4 "take 9 X" "kstr ''REXE''"] by (auto simp: memcmp_def min_def)

lemma read_header_ok:
  assumes "readable dops fd d N s" "f_pos (file_at fd s) = 0" "9 < length (file_contents (bview s) d N)"
  shows "\<exists>s1. read_header dops fd [] s = Some (Some (take 9 (file_contents (bview s) d N)), s1) \<and> readable dops fd d N s1 \<and>
    files_only s s1 \<and> same_file fd s s1 \<and> f_pos (file_at fd s1) = 9"
proof -
  let ?X = "file_contents (bview s) d N"
  have z: "f_size (file_at fd s) = length ?X" using assms(1) by (simp add: readable_def)
  obtain s1 where r: "k_read dops fd 9 s = Some (take 9 ?X, s1)" "readable dops fd d N s1" "bview s1 = bview s" "pins s1 = pins s"
    "f_pos (file_at fd s1) = 9" "f_size (file_at fd s1) = length ?X" "f_refcnt (file_at fd s1) = f_refcnt (file_at fd s)" "same_slots s s1" "files_only s s1"
    using k_read_readable [OF assms(1), of 9] assms(2,3) z by auto
  have l: "length (take 9 ?X) = 9" using assms(3) by simp
  have "\<not> k_isEOF fd s1" using r(5,6) assms(3) by (simp add: k_isEOF_def)
  then have "read_header dops fd [] s = read_header dops fd (take 9 ?X) s1"
    using r(1) l by (subst read_header.simps) (simp del: length_take)
  also have "\<dots> = Some (Some (take 9 ?X), s1)" using l by (subst read_header.simps) (simp del: length_take)
  finally show ?thesis using r z by (auto simp: same_file_def)
qed

text \<open>What the disk operations see of a state.\<close>

lemma disk_view:
  assumes h: "hw_hdd s' = hw_hdd s" "blockCache s' = blockCache s" "blkdrivers s' = blkdrivers s"
  shows "bview s' = bview s" "pins s' = pins s" "room k s' = room k s" "disk_ok dops s' = disk_ok dops s"
proof -
  have c: "cached s' = cached s" by (intro ext) (simp add: cached_def h)
  show "bview s' = bview s" by (intro ext) (simp add: cview_def c h split: option.split)
  show p: "pins s' = pins s" by (intro ext) (simp add: pins_def c h split: option.split)
  show "room k s' = room k s" by (rule room_cong [OF p])
  show "disk_ok dops s' = disk_ok dops s"
    by (simp add: disk_ok_def cache_inv_def uniq_def served_def getBlkDriver_def getDriverEntry_def h)
qed

lemma names_file_cong:
  assumes "hw_hdd s' = hw_hdd s" "blockCache s' = blockCache s" "blkdrivers s' = blkdrivers s"
    and "mtab s' = mtab s" "fs_root s' = fs_root s" "cProc s' = cProc s" "\<And>c. p_cwd (procs s' c) = p_cwd (procs s c)"
  shows "names_file w d N s' = names_file w d N s"
proof -
  have "start_dir w s' = start_dir w s" by (simp add: start_dir_def assms)
  then show ?thesis unfolding names_file_def disk_view [OF assms(1-3)] assms(1,4) by (rule arg_cong)
qed

text \<open>A state whose tables differ in the window only.\<close>

definition window_only :: "kst \<Rightarrow> kst \<Rightarrow> bool" where
  "window_only s s' \<longleftrightarrow> exec_only s s' \<and> hw_ram s' = hw_ram s \<and> pageMap s' = pageMap s \<and>
     hw_mmu s' = (hw_mmu s)(pte 0 14 0 := hw_mmu s' (pte 0 14 0))"

lemma window_only_trans: "window_only s t \<Longrightarrow> window_only t u \<Longrightarrow> window_only s u"
proof -
  assume a: "window_only s t" "window_only t u"
  have "hw_mmu u = (hw_mmu s)(pte 0 14 0 := hw_mmu u (pte 0 14 0))"
    using a unfolding window_only_def by (metis fun_upd_upd)
  then show "window_only s u" using a exec_only_trans [of s t u] by (simp add: window_only_def)
qed

lemma window_only_files: "files_only s s' \<Longrightarrow> window_only s s'"
  using exec_only_files files_onlyD [of s s'] by (simp add: window_only_def)

lemma window_only_win: "window_only s (win_upd v s)"
  by (simp add: window_only_def win_upd_def exec_only_def)

lemma exec_header_ok:
  assumes ok: "disk_ok dops s" "room 2 s" "set_inv (openFiles s)" "set_size (openFiles s) < set_capacity (openFiles s)"
    and name: "has_selector p s" "ustring (umem p s) a w" "length w < 100" "names_file w d N s"
    and X: "X = file_contents (bview s) d N" "9 < length X"
  shows "\<exists>s1 fd s2 s3. ugets p a 0 14 100 True s = Some (w @ [0], s1) \<and>
    k_open dops ((w @ [0]) @ slice (uninit s1) 0 (100 - length (w @ [0]))) 114 s1 = Some (Some fd, s2) \<and>
    read_header dops fd [] s2 = Some (Some (take 9 X), s3) \<and> readable dops fd d N s3 \<and> f_pos (file_at fd s3) = 9 \<and>
    f_refcnt (file_at fd s3) = 1 \<and> fd < set_capacity (openFiles s3) \<and> set_live (openFiles s3) - {fd} = set_live (openFiles s) \<and>
    bview s3 = bview s \<and> pins s3 = pins s \<and> window_only s s3"
proof -
  obtain v where g: "ugets p a 0 14 100 True s = Some (w @ [0], win_upd v s)"
    using ugets_view [OF name(1), of a 100 True] ustring_words [OF name(2,3)] by auto
  let ?s1 = "win_upd v s"
  have h: "hw_hdd ?s1 = hw_hdd s" "blockCache ?s1 = blockCache s" "blkdrivers ?s1 = blkdrivers s" "openFiles ?s1 = openFiles s" "mtab ?s1 = mtab s"
    "fs_root ?s1 = fs_root s" by (simp_all add: win_upd_def)
  note v1 = disk_view [OF h(1-3)]
  have nf: "names_file w d N ?s1" using name(4) names_file_cong [of ?s1 s w d N] h by (simp add: win_upd_def)
  obtain fd s2 where o: "k_open dops (w @ 0 # slice (uninit ?s1) 0 (100 - length (w @ [0]))) 114 ?s1 = Some (Some fd, s2)"
    "readable dops fd d N s2" "f_pos (file_at fd s2) = 0" "f_refcnt (file_at fd s2) = 1" "bview s2 = bview s" "pins s2 = pins s"
    "files_only ?s1 s2" "fd < set_capacity (openFiles s2)" "fd \<notin> set_live (openFiles s)" "set_live (openFiles s2) = insert fd (set_live (openFiles s))"
    using k_open_regular [OF _ _ nf, of dops] ok unfolding v1 h(4) by blast
  have l: "9 < length (file_contents (bview s2) d N)" using X o(5) by simp
  obtain s3 where r: "read_header dops fd [] s2 = Some (Some (take 9 (file_contents (bview s2) d N)), s3)" "readable dops fd d N s3"
    "files_only s2 s3" "same_file fd s2 s3" "f_pos (file_at fd s3) = 9"
    using read_header_ok [OF o(2,3) l] by blast
  have sl: "set_live (openFiles s3) = set_live (openFiles s2)" "set_capacity (openFiles s3) = set_capacity (openFiles s2)"
    using r(4) by (simp_all add: same_file_def same_slots_def set_live_def)
  have wo: "window_only s s3"
    by (rule window_only_trans [OF window_only_win window_only_trans [OF window_only_files [OF o(7)] window_only_files [OF r(3)]]])
  have k: "bview s3 = bview s" "pins s3 = pins s" "f_refcnt (file_at fd s3) = 1" using r(4) o(4-6) by (simp_all add: same_file_def)
  have o1: "k_open dops ((w @ [0]) @ slice (uninit ?s1) 0 (100 - length (w @ [0]))) 114 ?s1 = Some (Some fd, s2)" using o(1) by simp
  have r1: "read_header dops fd [] s2 = Some (Some (take 9 X), s3)" using r(1) unfolding o(5) X(1) .
  have lv: "set_live (openFiles s3) - {fd} = set_live (openFiles s)" "fd < set_capacity (openFiles s3)" using sl o(8-10) by auto
  show ?thesis using g o1 r1 r(2,5) k lv wo by blast
qed

section \<open>Exec\<close>

text \<open>From the release of the old pages to the stored argument block.\<close>

lemma exec_body_ok:
  assumes rd: "readable dops fd d N s" "f_pos (file_at fd s) = 9" "f_refcnt (file_at fd s) = 1" "fd < set_capacity (openFiles s)"
    and X: "file_contents (bview s) d N = X" "program_file X"
    and c: "cow_state P s" "p \<in> P" "npages (text_len X) + 16 \<le> free_frames s" and n: "n \<le> 256"
  shows "\<exists>s5 s6 s7 s8 s9 k s10. freeProcessPages p s = Some s5 \<and> load_segment dops p fd 1 (text_len X) 0 0 s5 = Some (npages (text_len X), s6) \<and>
    load_segment dops p fd 0 (data_len X) 0 0 s6 = Some (npages (data_len X), s7) \<and>
    alloc_data_pages p (npages (data_len X)) (16 - npages (data_len X)) s7 = Some s8 \<and> k_close fd s8 = Some s9 \<and>
    uputs p (X ! 8) 0 14 n False (slice b 0 n) s9 = Some (k, s10) \<and> user_space p s10 \<and>
    (\<forall>i < text_len X. ucode p s10 i = X ! (9 + i)) \<and> (\<forall>i < data_len X. umem p s10 (of_nat i) = X ! (9 + text_len X + i)) \<and>
    (\<forall>x < n. umem p s10 (X ! 8 + of_nat x) = b x) \<and> cow_state P s10 \<and>
    (\<forall>x pg b. x \<noteq> sel_of s p \<longrightarrow> mem_of P s10 (x, pg, b) = mem_of P s (x, pg, b)) \<and>
    bview s10 = bview s \<and> pins s10 = pins s \<and> procs s10 = procs s \<and> set_live (openFiles s10) = set_live (openFiles s) - {fd}"
proof -
  let ?S = "sel_of s ` P" and ?y = "sel_of s p" and ?T = "take (text_len X) (drop 9 X)" and ?D = "take (data_len X) (drop (text_len X) (drop 9 X))"
  note x = X(2) [unfolded program_file_def]
  have y: "?y \<in> ?S" "0 < unat ?y" "unat ?y < 16" using c(2) cow_stateD(3,4) [OF c(1,2)] by simp_all
  have z: "f_size (file_at fd s) = length X" using rd(1) X(1) by (simp add: readable_def flip: length_contents)
  have F: "file_rest fd d N s = drop 9 X" using rd(2) X(1) by (simp add: file_rest_def)
  obtain s5 s6 s7 s8 where l: "freeProcessPages p s = Some s5" "load_segment dops p fd 1 (text_len X) 0 0 s5 = Some (npages (text_len X), s6)"
    "load_segment dops p fd 0 (data_len X) 0 0 s6 = Some (npages (data_len X), s7)"
    "alloc_data_pages p (npages (data_len X)) (16 - npages (data_len X)) s7 = Some s8" "program_in ?S ?y ?T ?D s s8"
    "readable dops fd d N s8" "same_file fd s s8" "exec_only s s8"
    using fill_tables_ok [OF rd(1) cow_stateD(1) [OF c(1)] cow_stateD(5) [OF c(1,2)] refl y, of "text_len X" "data_len X"] x rd(2) z c(3)
    unfolding F by auto
  note sf = l(7) [unfolded same_file_def same_slots_def]
  obtain s9 where cl: "k_close fd s8 = Some s9" "files_only s8 s9" "bview s9 = bview s8" "pins s9 = pins s8" "disk_ok dops s9"
    "set_live (openFiles s9) = set_live (openFiles s8) - {fd}"
    using k_close_last [OF l(6)] sf rd(3,4) by auto
  have pr9: "procs s9 = procs s" "sel_of s9 = sel_of s" using exec_onlyD(1) [OF l(8)] files_onlyD(1) [OF cl(2)] by (simp_all add: sel_of_def fun_eq_iff)
  note st = same_tables_cow [OF files_onlyD(2-4) [OF cl(2)]]
  have fl9: "fl e s9 = fl e s8" for e using files_onlyD(2) [OF cl(2)] by (simp add: fl_def)
  have p9: "program_in ?S (sel_of s9 p) ?T ?D s s9"
    using l(5) balanced_trans [OF _ st(5)] unfolding program_in_def st(1,2) fl9 pr9(2) by blast
  have len: "length ?T = text_len X" "length ?D = data_len X" using x unfolding length_take length_drop by linarith+
  have B: "of_nat (data_len X) = X ! 8" by (simp add: data_len_def)
  obtain k s10 where u: "uputs p (X ! 8) 0 14 n False (slice b 0 n) s9 = Some (k, s10)" "viewed p s9 s10" "user_space p s10"
    "\<forall>i < text_len X. ucode p s10 i = ?T ! i" "\<forall>i < data_len X. umem p s10 (of_nat i) = ?D ! i" "\<forall>x < n. umem p s10 (X ! 8 + of_nat x) = b x"
    "\<forall>x pg c. (x, pg, c) \<in> tabs ?S \<and> x \<noteq> ?y \<longrightarrow> pages s10 (x, pg, c) = pages s (x, pg, c)"
    using block_stored [OF p9, of n b] y x n unfolding len B pr9(2) by auto
  have sl10: "procs s10 = procs s" "sel_of s10 = sel_of s" using viewed_frame(1) [OF u(2)] pr9 by (simp_all add: sel_of_def fun_eq_iff)
  have e10: "s10 = s9\<lparr>hw_mmu := (hw_mmu s9)(pte 0 14 0 := hw_mmu s10 (pte 0 14 0)), hw_ram := hw_ram s10\<rparr>" using u(2) unfolding viewed_def by blast
  have v10: "bview s10 = bview s9" "pins s10 = pins s9" "openFiles s10 = openFiles s9" by (rule disk_view; subst e10, simp)+ (subst e10, simp)
  have mo: "mem_of P s10 (x, pg, b) = mem_of P s (x, pg, b)" if "x \<noteq> ?y" for x pg b using u(7) that by (simp add: mem_of_def sl10(2))
  have "gapless (pages s10) (sel_of s q) b" if q: "q \<in> P" "b = 0 \<or> b = 1" for q b
  proof (cases "sel_of s q = ?y")
    case True
    have "gapless (pages s9) ?y b" using program_words(4) [OF p9, of b] y q(2) len x unfolding pr9(2) by simp
    then show ?thesis using viewed_cow(2) [OF u(2) y(2,3) q(2)] True by simp
  next
    case False
    show ?thesis
      by (rule gapless_cong [OF _ cow_stateD(5) [OF c(1) q]]) (use u(7) False cow_tabs [OF c(1) q(1) _ q(2)] in simp)
  qed
  moreover have "cow_inv ?S s10" using p9 viewed_cow(1) [OF u(2)] unfolding program_in_def by simp
  ultimately have cs: "cow_state P s10" using c(1) unfolding cow_state_def sl10 by blast
  have uw: "\<forall>i < text_len X. ucode p s10 i = X ! (9 + i)" "\<forall>i < data_len X. umem p s10 (of_nat i) = X ! (9 + text_len X + i)"
    using u(4,5) x by (simp_all add: ac_simps)
  have "set_live (openFiles s8) = set_live (openFiles s)" using sf by (simp add: set_live_def)
  then have dk: "bview s10 = bview s" "pins s10 = pins s" "set_live (openFiles s10) = set_live (openFiles s) - {fd}"
    using v10 cl(3,4,6) sf by simp_all
  have mo1: "\<forall>x pg b. x \<noteq> ?y \<longrightarrow> mem_of P s10 (x, pg, b) = mem_of P s (x, pg, b)" using mo by blast
  show ?thesis using l(1-4) cl(1) u(1,3,6) uw cs mo1 dk sl10(1) by blast
qed

lemma window_cow:
  assumes w: "window_only s s'"
  shows "cow_state P s' = cow_state P s" "mem_of P s' = mem_of P s" "free_frames s' = free_frames s" "has_selector p s' = has_selector p s"
    "has_selector p s \<Longrightarrow> umem p s' = umem p s" "procs s' = procs s" "sel_of s' = sel_of s"
proof -
  note a = w [unfolded window_only_def]
  show pr: "procs s' = procs s" using a exec_onlyD(1) by blast
  have m: "hw_mmu s' e = hw_mmu s e" if "e \<noteq> pte 0 14 0" for e using a that by (metis fun_upd_other)
  show "cow_state P s' = cow_state P s" "mem_of P s' = mem_of P s"
    using cow_state_cong(1,2) [of s' s P] a m pr by simp_all
  show "free_frames s' = free_frames s" using a free_frames_cong by blast
  show "has_selector p s' = has_selector p s" "sel_of s' = sel_of s" by (simp_all add: has_selector_def pr sel_of_def fun_eq_iff)
  assume hs: "has_selector p s"
  have e: "mmu_read_table (p_mmuSelector (procs s p)) pg 0 s' = mmu_read_table (p_mmuSelector (procs s p)) pg 0 s" if "unat pg < 16" for pg
    using hs that pte_window [of "p_mmuSelector (procs s p)" pg] by (simp add: mmu_tables has_selector_def m)
  then show "umem p s' = umem p s" using a by (simp add: fun_eq_iff umem_def getPage_def pr addr_page)
qed

lemma proc_upd_cow:
  assumes "\<And>q. p_pid (f q) = p_pid q" "\<And>q. p_mmuSelector (f q) = p_mmuSelector q"
  shows "cow_state P (proc_upd p f s) = cow_state P s" "mem_of P (proc_upd p f s) = mem_of P s" "sel_of (proc_upd p f s) = sel_of s"
    "free_frames (proc_upd p f s) = free_frames s" "has_selector q (proc_upd p f s) = has_selector q s" "umem q (proc_upd p f s) = umem q s"
    "ucode q (proc_upd p f s) = ucode q s" "user_space q (proc_upd p f s) = user_space q s"
proof -
  have ps: "p_pid (procs (proc_upd p f s) q) = p_pid (procs s q)" "p_mmuSelector (procs (proc_upd p f s) q) = p_mmuSelector (procs s q)" for q
    by (simp_all add: assms)
  have h: "hw_mmu (proc_upd p f s) = hw_mmu s" "hw_ram (proc_upd p f s) = hw_ram s" "pageMap (proc_upd p f s) = pageMap s" by (simp_all add: proc_upd_def)
  show "cow_state P (proc_upd p f s) = cow_state P s" "mem_of P (proc_upd p f s) = mem_of P s"
    using cow_state_cong(1,2) [of "proc_upd p f s" s P] ps h by simp_all
  show "sel_of (proc_upd p f s) = sel_of s" by (simp only: fun_eq_iff sel_of_def ps) simp
  show "free_frames (proc_upd p f s) = free_frames s" by (rule free_frames_cong [OF h(3)])
  show "has_selector q (proc_upd p f s) = has_selector q s" by (simp only: has_selector_def ps)
  show "umem q (proc_upd p f s) = umem q s" "ucode q (proc_upd p f s) = ucode q s"
    by (simp_all only: fun_eq_iff umem_def ucode_def getPage_def mmu_tables ps h simp_thms)
  show "user_space q (proc_upd p f s) = user_space q s" by (simp only: user_space_def mmu_tables ps h)
qed

lemma args_in_block:
  assumes lo: "laid_out b B 0 ARGV_ENTRIES ws" "b (ARGV_PTRS + length ws) = 0" "b 1 = of_nat ARGV_PTRS + B"
    and m: "\<And>x. x < ARGV_ENTRIES + room_of ws \<Longrightarrow> m (B + of_nat x) = b x" "unat B + 256 \<le> 65536"
    and len: "ARGV_ENTRIES + room_of ws \<le> ARGV_BUFFER_SIZE" "length ws < 15" "\<forall>w \<in> set ws. 0 \<notin> set w"
  shows "user_args m (m (B + 1)) ws"
proof -
  have l: "unat B + (ARGV_ENTRIES + room_of ws) \<le> 65536" "ARGV_PTRS + 0 + length ws < ARGV_ENTRIES + room_of ws" using m(2) len by linarith+
  have "user_args m (B + of_nat (ARGV_PTRS + 0)) ws"
    by (rule laid_out_args [OF m(1) l(1) lo(1) len(3) order_refl _ l(2)]) (use lo(2) in simp_all)
  moreover have "m (B + 1) = B + of_nat (ARGV_PTRS + 0)" using m(1) [of 1] lo(3) by (simp add: add.commute)
  ultimately show ?thesis by simp
qed

lemma exec_start_ok:
  assumes disk: "disk_ok dops s" "room 2 s" "set_inv (openFiles s)" "set_size (openFiles s) < set_capacity (openFiles s)"
    and hs: "has_selector p s" and name: "ustring (umem p s) (req ! 1) w" "length w < 100" "names_file w d N s"
    and X: "file_contents (bview s) d N = X" "9 < length X"
    and args: "if req ! 2 = 0 then ws = [] else user_args (umem p s) (req ! 2) ws" "173 + room_of ws \<le> 256" "length ws < 15"
  shows "\<exists>s1 fd s2 s3 b s4. ugets p (req ! 1) 0 14 100 True s = Some (w @ [0], s1) \<and>
    k_open dops ((w @ [0]) @ slice (uninit s1) 0 (100 - length (w @ [0]))) 114 s1 = Some (Some fd, s2) \<and>
    read_header dops fd [] s2 = Some (Some (take 9 X), s3) \<and>
    parseArgs (req ! 2) (req ! 3) (uninit s3) (X ! 8) p s3 = Some (173 + room_of ws, b, s4) \<and>
    laid_out b (X ! 8) 0 ARGV_ENTRIES ws \<and> b 0 = of_nat (length ws) \<and> b 1 = of_nat ARGV_PTRS + X ! 8 \<and> b (ARGV_PTRS + length ws) = 0 \<and>
    readable dops fd d N s4 \<and> f_pos (file_at fd s4) = 9 \<and> f_refcnt (file_at fd s4) = 1 \<and> fd < set_capacity (openFiles s4) \<and>
    set_live (openFiles s4) - {fd} = set_live (openFiles s) \<and> bview s4 = bview s \<and> pins s4 = pins s \<and> window_only s s4"
proof -
  obtain s1 fd s2 s3 where o: "ugets p (req ! 1) 0 14 100 True s = Some (w @ [0], s1)"
    "k_open dops ((w @ [0]) @ slice (uninit s1) 0 (100 - length (w @ [0]))) 114 s1 = Some (Some fd, s2)"
    "read_header dops fd [] s2 = Some (Some (take 9 X), s3)" "readable dops fd d N s3" "f_pos (file_at fd s3) = 9"
    "f_refcnt (file_at fd s3) = 1" "fd < set_capacity (openFiles s3)" "set_live (openFiles s3) - {fd} = set_live (openFiles s)"
    "bview s3 = bview s" "pins s3 = pins s" "window_only s s3"
    using exec_header_ok [OF disk hs name X(1) [symmetric] X(2)] by blast
  note w3 = window_cow [OF o(11)]
  have a3: "if req ! 2 = 0 then ws = [] else user_args (umem p s3) (req ! 2) ws" using args(1) w3(5) [OF hs] by simp
  have hs3: "has_selector p s3" using hs w3(4) by simp
  have room: "ARGV_ENTRIES + room_of ws \<le> ARGV_BUFFER_SIZE" by (rule args(2))
  obtain v b where pa: "parseArgs (req ! 2) (req ! 3) (uninit s3) (X ! 8) p s3 = Some (173 + room_of ws, b, win_upd v s3)"
    "laid_out b (X ! 8) 0 ARGV_ENTRIES ws" "b 0 = of_nat (length ws)" "b 1 = of_nat ARGV_PTRS + X ! 8" "b (ARGV_PTRS + length ws) = 0"
    using parseArgs_ok [OF hs3 a3 room args(3)] by blast
  have "tables_only s3 (win_upd v s3)" by (simp add: tables_only_def win_upd_def)
  note tv = tables_view [OF this]
  have "window_only s (win_upd v s3)" by (rule window_only_trans [OF o(11) window_only_win])
  moreover have "readable dops fd d N (win_upd v s3)" "f_pos (file_at fd (win_upd v s3)) = 9" "f_refcnt (file_at fd (win_upd v s3)) = 1"
    "fd < set_capacity (openFiles (win_upd v s3))" "set_live (openFiles (win_upd v s3)) - {fd} = set_live (openFiles s)"
    "bview (win_upd v s3) = bview s" "pins (win_upd v s3) = pins s"
    using o(4-10) unfolding tv by - assumption+
  ultimately show ?thesis using o(1-3) pa by blast
qed

text \<open>
  C3. \<^verbatim>\<open>do_execve\<close> of a program file replaces the memory of the process by the program: afterwards its code pages hold the words
  of the code, its data memory the words of the data from address 0 on, and behind them it finds the arguments it was called with; it
  starts with the frame for a new program.  The file is closed again, no disk block has changed, and neither the
  record nor a page of any other process.
\<close>

theorem exec_loads_program:
  assumes disk: "disk_ok dops s" "room 2 s" "set_inv (openFiles s)" "set_size (openFiles s) < set_capacity (openFiles s)"
    and name: "ustring (umem p s) (req ! 1) w" "length w < 100" "names_file w d N s"
    and X: "file_contents (bview s) d N = X" "program_file X"
    and args: "if req ! 2 = 0 then ws = [] else user_args (umem p s) (req ! 2) ws" "173 + room_of ws \<le> 256" "length ws < 15"
    and mem: "cow_state P s" "p \<in> P" "npages (text_len X) + 16 \<le> free_frames s"
  shows "\<exists>s'. do_execve dops p req s = Some (0, s') \<and>
    (\<forall>i < text_len X. ucode p s' i = X ! (9 + i)) \<and> (\<forall>i < data_len X. umem p s' (of_nat i) = X ! (9 + text_len X + i)) \<and>
    umem p s' (X ! 8) = of_nat (length ws) \<and> user_args (umem p s') (umem p s' (X ! 8 + 1)) ws \<and> user_space p s' \<and>
    p_state (procs s' p) = PROC_STATE_NEW \<and>
    p_intFrame (procs s' p) = user_frame (sel_of s p) (X ! 8 + of_nat (173 + room_of ws)) (X ! 8) (p_intFrame (procs s p)) \<and>
    cow_state P s' \<and> (\<forall>x pg b. x \<noteq> sel_of s p \<longrightarrow> mem_of P s' (x, pg, b) = mem_of P s (x, pg, b)) \<and>
    (\<forall>q. q \<noteq> p \<longrightarrow> procs s' q = procs s q) \<and> bview s' = bview s \<and> pins s' = pins s \<and> set_live (openFiles s') = set_live (openFiles s)"
proof -
  note x = X(2) [unfolded program_file_def]
  define s0 where "s0 = proc_upd p (p_state_update (\<lambda>_. PROC_STATE_CONSTRUCT)) s"
  have h0: "hw_hdd s0 = hw_hdd s" "blockCache s0 = blockCache s" "blkdrivers s0 = blkdrivers s" "mtab s0 = mtab s" "fs_root s0 = fs_root s"
    "cProc s0 = cProc s" "openFiles s0 = openFiles s" "\<And>c. p_cwd (procs s0 c) = p_cwd (procs s c)" by (simp_all add: s0_def proc_upd_def)
  note v0 = disk_view [OF h0(1-3)] and nf = names_file_cong [OF h0(1-6,8)]
  have c0: "cow_state P s0 = cow_state P s" "mem_of P s0 = mem_of P s" "sel_of s0 = sel_of s" "free_frames s0 = free_frames s"
    "has_selector p s0 = has_selector p s" "umem p s0 = umem p s" unfolding s0_def by (rule proc_upd_cow; simp)+
  have hs: "has_selector p s" using cow_stateD(3,4) [OF mem(1,2)] by (simp add: has_selector_def sel_of_def)
  have l9: "9 < length X" using x by blast
  obtain s1 fd s2 s3 b s4 where o: "ugets p (req ! 1) 0 14 100 True s0 = Some (w @ [0], s1)"
    "k_open dops ((w @ [0]) @ slice (uninit s1) 0 (100 - length (w @ [0]))) 114 s1 = Some (Some fd, s2)"
    "read_header dops fd [] s2 = Some (Some (take 9 X), s3)"
    "parseArgs (req ! 2) (req ! 3) (uninit s3) (X ! 8) p s3 = Some (173 + room_of ws, b, s4)"
    "laid_out b (X ! 8) 0 ARGV_ENTRIES ws" "b 0 = of_nat (length ws)" "b 1 = of_nat ARGV_PTRS + X ! 8" "b (ARGV_PTRS + length ws) = 0"
    "readable dops fd d N s4" "f_pos (file_at fd s4) = 9" "f_refcnt (file_at fd s4) = 1" "fd < set_capacity (openFiles s4)"
    "set_live (openFiles s4) - {fd} = set_live (openFiles s)" "bview s4 = bview s" "pins s4 = pins s" "window_only s0 s4"
    using exec_start_ok [of dops s0 p req w d N X ws, unfolded v0 h0(7) c0(5,6) nf, OF disk hs name X(1) l9 args] by blast
  note w4 = window_cow [OF o(16)]
  let ?n = "173 + room_of ws"
  have "cow_state P s4" "npages (text_len X) + 16 \<le> free_frames s4" using mem(1,3) unfolding w4 c0 by - assumption+
  from exec_body_ok [OF o(9-12) X(1) [folded o(14)] X(2) this(1) mem(2) this(2) args(2), of b] obtain s5 s6 s7 s8 s9 k s10 where
    l: "freeProcessPages p s4 = Some s5" "load_segment dops p fd 1 (text_len X) 0 0 s5 = Some (npages (text_len X), s6)"
    "load_segment dops p fd 0 (data_len X) 0 0 s6 = Some (npages (data_len X), s7)"
    "alloc_data_pages p (npages (data_len X)) (16 - npages (data_len X)) s7 = Some s8" "k_close fd s8 = Some s9"
    "uputs p (X ! 8) 0 14 ?n False (slice b 0 ?n) s9 = Some (k, s10)" "user_space p s10"
    "\<forall>i < text_len X. ucode p s10 i = X ! (9 + i)" "\<forall>i < data_len X. umem p s10 (of_nat i) = X ! (9 + text_len X + i)"
    "\<forall>i < ?n. umem p s10 (X ! 8 + of_nat i) = b i" "cow_state P s10"
    "\<forall>y pg c. y \<noteq> sel_of s p \<longrightarrow> mem_of P s10 (y, pg, c) = mem_of P s (y, pg, c)" "bview s10 = bview s" "pins s10 = pins s"
    "procs s10 = procs s0" "set_live (openFiles s10) = set_live (openFiles s)"
    unfolding w4 c0 o(13-15) by blast
  let ?f = "\<lambda>q. q\<lparr>p_intFrame := user_frame (p_mmuSelector q) (X ! 8 + of_nat ?n) (X ! 8) (p_intFrame q),
    p_cmd := blit (p_cmd q) 0 (take 32 ((w @ [0]) @ slice (uninit s1) 0 (100 - length (w @ [0])))), p_state := PROC_STATE_NEW\<rparr>"
  let ?s = "proc_upd p ?f s10"
  have nth: "take 9 X ! 5 = X ! 5" "take 9 X ! 6 = X ! 6" "take 9 X ! 8 = X ! 8" by simp_all
  have run: "do_execve dops p req s = Some (0, ?s)"
    unfolding do_execve_def Let_def s0_def [symmetric]
    using o(1-4) l(1-6) args(2) memcmp_magic [of X] x by (simp add: nth text_len_def data_len_def)
  have ua: "user_args (umem p s10) (umem p s10 (X ! 8 + 1)) ws"
    by (rule args_in_block [OF o(5,8,7) _ _ args(2,3)]) (use l(10) x args in \<open>auto simp: data_len_def user_args_def ustring_def in_set_conv_nth split: if_splits\<close>)
  have ac: "umem p s10 (X ! 8) = of_nat (length ws)" using l(10) o(6) by (auto dest: spec [of _ 0])
  have c: "cow_state P ?s = cow_state P s10" "mem_of P ?s = mem_of P s10" "umem p ?s = umem p s10" "ucode p ?s = ucode p s10"
    "user_space p ?s = user_space p s10" by (rule proc_upd_cow; simp)+
  have dk: "bview ?s = bview s10" "pins ?s = pins s10" by (rule disk_view; simp add: proc_upd_def)+
  have pr: "p_state (procs ?s p) = PROC_STATE_NEW" "\<forall>q. q \<noteq> p \<longrightarrow> procs ?s q = procs s q" "openFiles ?s = openFiles s10"
    "p_intFrame (procs ?s p) = user_frame (sel_of s p) (X ! 8 + of_nat ?n) (X ! 8) (p_intFrame (procs s p))"
    by (simp_all add: l(15) s0_def proc_upd_def sel_of_def)
  show ?thesis
    by (rule exI [of _ ?s], unfold c dk pr(3)) (use run l(7-9,11-14,16) ua ac pr(1,2,4) in blast)
qed

text \<open>
  A program of one word of code and two of data in the file \<^verbatim>\<open>/a\<close>, and a process with one page that calls it with
  the argument \<^verbatim>\<open>a\<close>: the name is at address 16, the vector at 32.
\<close>

definition exe_words :: "u16 list" where
  "exe_words = [82, 69, 88, 69, 0, 0, 1, 0, 2, 119, 5, 6]"

definition exe_tree :: "nat \<Rightarrow> nat \<Rightarrow> u16" where
  "exe_tree n k = (if n = 36 \<and> k = 1 then 12 else if n = 37 then (if k < 12 then exe_words ! k else 0) else tree n k)"

definition exe_page :: buf where
  "exe_page k = (if k = 16 then 47 else if k = 17 then 97 else if k = 32 then 48 else if k = 48 then 97 else 0)"

definition exe_state :: kst where
  "exe_state = (power_on (disk_words exe_tree))\<lparr>fs_root := \<lparr>fn_dev = 0, fn_idx = 34\<rparr>,
     openFiles := set_create_static 8 (openFiles one_page), hw_ram := (\<lambda>_. exe_page), hw_mmu := hw_mmu one_page, pageMap := pageMap one_page,
     procs := procs one_page\<rparr>"

lemma cow_state_tables:
  assumes "hw_mmu s' = hw_mmu s" "pageMap s' = pageMap s" "procs s' = procs s"
  shows "cow_state P s' = cow_state P s"
proof -
  have f: "fr e s' = fr e s" "fl e s' = fl e s" for e using assms(1) by (simp_all add: fr_def fl_def)
  have u: "users S g s' = users S g s" for S g unfolding users_def f ..
  show ?thesis unfolding cow_state_def cow_inv_def gapless_def pages_None sel_of_def f u assms(2,3) ..
qed

lemma exe_state_file:
  "disk_ok (\<lambda>_. ataGetDriver) exe_state" "room 2 exe_state" "set_inv (openFiles exe_state)"
  "set_size (openFiles exe_state) < set_capacity (openFiles exe_state)"
  "names_file [47, 97] 0 36 exe_state" "file_contents (bview exe_state) 0 36 = exe_words"
proof -
  have h: "hw_hdd exe_state = disk_words exe_tree" by (simp add: exe_state_def power_on_def Let_def)
  have same: "blockCache exe_state = blockCache (power_on (disk_words exe_tree))" "blkdrivers exe_state = blkdrivers (power_on (disk_words exe_tree))"
    "mtab exe_state = mtab (power_on (disk_words exe_tree))" "fs_root exe_state = \<lparr>fn_dev = 0, fn_idx = 34\<rparr>"
    by (simp_all add: exe_state_def)
  note f = fresh_disk [OF h same(1,2)]
  show "disk_ok (\<lambda>_. ataGetDriver) exe_state" "room 2 exe_state" using f(1) f(4) [of 2] by simp_all
  show "set_inv (openFiles exe_state)" "set_size (openFiles exe_state) < set_capacity (openFiles exe_state)"
    unfolding exe_state_def by (simp_all add: set_create_inv) (simp add: set_create_static_def set_clear_def)
  have z: "node_size (bview exe_state 0 36) = 12" "bview exe_state 0 36 0 = S_IFREG"
    by (simp_all add: f(2) node_size_def trunc_def exe_tree_def tree_def long_of_def)
  have d: "fdata (bview exe_state) 0 36 k = exe_words ! k" if "k < 12" for k
    using that by (simp add: f(2) fdata_def slot_def trunc_def exe_tree_def tree_def)
  then have "file_contents (bview exe_state) 0 36 = map (\<lambda>k. exe_words ! k) [0 ..< 12]" by (simp add: file_contents_def z)
  also have "\<dots> = exe_words" by (simp add: exe_words_def upt_rec_numeral numeral_eq_Suc)
  finally show "file_contents (bview exe_state) 0 36 = exe_words" .
  have "slot (bview exe_state) 0 36 k \<noteq> 0" if "k * 256 < 12" for k
    using that by (simp add: slot_def f(2) trunc_def exe_tree_def tree_def)
  then have "file_mapped (bview exe_state) 0 36" by (simp add: file_mapped_def z)
  moreover have "exe_tree 34 = tree 34" "exe_tree 35 = tree 35" by (simp_all add: exe_tree_def fun_eq_iff)
  ultimately show "names_file [47, 97] 0 36 exe_state"
    using tree_names [of exe_tree exe_state, OF _ _ h f(2) same(3,4)] z by blast
qed

lemma exe_state_memory:
  "cow_state {0, 1} exe_state" "sel_of exe_state 0 = 1" "17 \<le> free_frames exe_state"
  "unat a < 4096 \<Longrightarrow> umem 0 exe_state a = exe_page (unat a)"
proof -
  have t: "hw_mmu exe_state = hw_mmu one_page" "pageMap exe_state = pageMap one_page" "procs exe_state = procs one_page"
    by (simp_all add: exe_state_def)
  show "cow_state {0, 1} exe_state" using one_page_state(1) cow_state_tables [OF t] by blast
  show sl: "sel_of exe_state 0 = 1" using one_page_state(2) t(3) by (simp add: sel_of_def)
  have "{17 ..< 34} \<subseteq> {i. i < pageMapSize \<and> pageMap exe_state i = 0}" by (auto simp: t(2) one_page_def)
  then have "card {17 ..< 34 :: nat} \<le> free_frames exe_state" unfolding free_frames_def by (intro card_mono) auto
  then show "17 \<le> free_frames exe_state" by simp
  show "umem 0 exe_state a = exe_page (unat a)" if "unat a < 4096"
    using that by (simp add: umem_def page_parts) (simp add: exe_state_def)
qed

theorem exec_loads_program_witness:
  "\<exists>s'. do_execve (\<lambda>_. ataGetDriver) 0 [0, 16, 32, 0] exe_state = Some (0, s') \<and> ucode 0 s' 0 = 119 \<and> umem 0 s' 1 = 6 \<and>
     umem 0 s' 2 = 1 \<and> user_args (umem 0 s') (umem 0 s' 3) [[97]]"
proof -
  note m = exe_state_memory(4)
  have w: "ustring (umem 0 exe_state) ([0, 16, 32, 0] ! 1) [47, 97]" "[0, 16, 32, 0 :: u16] ! 2 \<noteq> 0"
    "user_args (umem 0 exe_state) ([0, 16, 32, 0] ! 2) [[97]]"
    by (simp_all add: ustring_Cons user_args_Cons) (simp_all add: ustring_def user_args_def m exe_page_def)
  have x: "text_len exe_words = 1" "data_len exe_words = 2" "exe_words ! 8 = 2" "exe_words ! 9 = 119" "exe_words ! 11 = 6"
    by (simp_all add: text_len_def data_len_def exe_words_def long_of_def)
  have pf: "program_file exe_words" by (simp add: program_file_def x) (simp add: exe_words_def)
  have np: "npages (text_len exe_words) + 16 \<le> free_frames exe_state" using exe_state_memory(3) by (simp add: x npages_def)
  obtain s' where s': "do_execve (\<lambda>_. ataGetDriver) 0 [0, 16, 32, 0] exe_state = Some (0, s')"
    "\<forall>i < 1. ucode 0 s' i = exe_words ! (9 + i)" "\<forall>i < 2. umem 0 s' (of_nat i) = exe_words ! (10 + i)"
    "umem 0 s' 2 = 1" "user_args (umem 0 s') (umem 0 s' 3) [[97]]"
    using exec_loads_program [OF exe_state_file(1-4) w(1) _ exe_state_file(5,6) pf, of "[[97]]" "{0, 1}"] w(2,3) exe_state_memory(1) np
    unfolding x by (auto simp: room_of_def)
  have "ucode 0 s' 0 = 119" "umem 0 s' 1 = 6" using s'(2) [rule_format, of 0] s'(3) [rule_format, of 1] x(4,5) by simp_all
  then show ?thesis using s'(1,4,5) by blast
qed

end
