(* ===== verification/Malloc.thy ===== *)
theory Malloc
  imports KPrelude
begin

text \<open>
  The allocator of the user-space library (\<^verbatim>\<open>libc/c/malloc.c\<close>): a doubly linked list of blocks, each
  behind a header of four words, \<^verbatim>\<open>struct Marker\<close>, in the memory of the process.  \<^verbatim>\<open>malloc\<close> takes the
  first free block and splits it, \<^verbatim>\<open>free\<close> joins the block with its free neighbours.

  The list is represented by the sequence of the sizes of its blocks, with the headers, and whether
  they are free; \<open>heap_ok\<close> says that the memory holds such a sequence, and the operations are shown to
  act on it as \<open>alloc_spec\<close> and \<open>release_spec\<close> do, without touching the words of the blocks in use.
  \<^verbatim>\<open>dumpList\<close> and \<^verbatim>\<open>malloc_sanity_check\<close> only print.
\<close>

section \<open>The program\<close>

text \<open>The memory of the process, and the global \<^verbatim>\<open>malloc_head\<close>.\<close>

record heap =
  h_mem :: "u16 \<Rightarrow> u16"
  malloc_head :: u16

text \<open>The words of a \<^verbatim>\<open>struct Marker\<close>.\<close>

abbreviation MARKER :: u16 where "MARKER \<equiv> 4"

definition m_next :: "heap \<Rightarrow> u16 \<Rightarrow> u16" where "m_next h p = h_mem h p"
definition m_prev :: "heap \<Rightarrow> u16 \<Rightarrow> u16" where "m_prev h p = h_mem h (p + 1)"
definition m_size :: "heap \<Rightarrow> u16 \<Rightarrow> u16" where "m_size h p = h_mem h (p + 2)"
definition m_isFree :: "heap \<Rightarrow> u16 \<Rightarrow> u16" where "m_isFree h p = h_mem h (p + 3)"

definition set_next :: "u16 \<Rightarrow> u16 \<Rightarrow> heap \<Rightarrow> heap" where "set_next p v h = h\<lparr>h_mem := (h_mem h)(p := v)\<rparr>"
definition set_prev :: "u16 \<Rightarrow> u16 \<Rightarrow> heap \<Rightarrow> heap" where "set_prev p v h = h\<lparr>h_mem := (h_mem h)(p + 1 := v)\<rparr>"
definition set_msize :: "u16 \<Rightarrow> u16 \<Rightarrow> heap \<Rightarrow> heap" where "set_msize p v h = h\<lparr>h_mem := (h_mem h)(p + 2 := v)\<rparr>"
definition set_isFree :: "u16 \<Rightarrow> u16 \<Rightarrow> heap \<Rightarrow> heap" where "set_isFree p v h = h\<lparr>h_mem := (h_mem h)(p + 3 := v)\<rparr>"

definition malloc_init :: "u16 \<Rightarrow> u16 \<Rightarrow> heap \<Rightarrow> heap" where
  "malloc_init begin end' h =
     (let h = h\<lparr>malloc_head := begin\<rparr>;
          h = set_next begin 0 h;
          h = set_prev begin 0 h;
          h = set_msize begin (end' - begin) h
      in set_isFree begin 1 h)"

text \<open>The heap of a program lies between its data, with room for the stack, and the last page's end.\<close>

definition malloc_init_auto :: "u16 \<Rightarrow> heap \<Rightarrow> heap" where
  "malloc_init_auto data_end = malloc_init (data_end + 0x2000) 0xFF00"

text \<open>A block larger than asked for is split: the rest becomes a free block behind it.\<close>

definition split_block :: "u16 \<Rightarrow> u16 \<Rightarrow> heap \<Rightarrow> heap" where
  "split_block sz iter h =
     (let newEntry = iter + sz + MARKER;
          h = set_prev newEntry iter h;
          h = set_next newEntry (m_next h iter) h;
          h = (if m_next h newEntry \<noteq> 0 then set_prev (m_next h newEntry) newEntry h else h);
          h = set_msize newEntry (m_size h iter - sz - MARKER) h;
          h = set_isFree newEntry 1 h;
          h = set_next iter newEntry h;
          h = set_msize iter (sz + MARKER) h
      in set_isFree iter 0 h)"

text \<open>The search from \<open>iter\<close> on; the first free block decides, whatever its size.\<close>

partial_function (option) malloc_from :: "u16 \<Rightarrow> u16 \<Rightarrow> heap \<Rightarrow> (u16 \<times> heap) option" where
  "malloc_from sz iter h =
     (if iter = 0 then Some (0, h)
      else if m_isFree h iter \<noteq> 0 then
        Some (if m_size h iter > sz + 2 * MARKER then (iter + MARKER, split_block sz iter h)
              else if m_size h iter \<ge> sz + MARKER then (iter + MARKER, h)
              else (0, h))
      else malloc_from sz (m_next h iter) h)"

definition malloc :: "u16 \<Rightarrow> heap \<Rightarrow> (u16 \<times> heap) option" where
  "malloc sz h = malloc_from sz (malloc_head h) h"

definition merge_forward :: "u16 \<Rightarrow> heap \<Rightarrow> heap" where
  "merge_forward it h =
     (if m_next h it \<noteq> 0 \<and> m_isFree h (m_next h it) \<noteq> 0 then
        (let h = set_msize it (m_size h it + m_size h (m_next h it)) h;
             h = set_next it (m_next h (m_next h it)) h
         in if m_next h it \<noteq> 0 then set_prev (m_next h it) it h else h)
      else h)"

definition merge_backward :: "u16 \<Rightarrow> heap \<Rightarrow> heap" where
  "merge_backward it h =
     (if m_prev h it \<noteq> 0 \<and> m_isFree h (m_prev h it) \<noteq> 0 then
        (let h = set_msize (m_prev h it) (m_size h (m_prev h it) + m_size h it) h;
             h = set_next (m_prev h it) (m_next h it) h
         in if m_next h it \<noteq> 0 then set_prev (m_next h it) (m_prev h it) h else h)
      else h)"

definition free :: "u16 \<Rightarrow> heap \<Rightarrow> heap" where
  "free ptr h =
     (let it = ptr - MARKER
      in merge_backward it (merge_forward it (set_isFree it 1 h)))"

text \<open>\<^verbatim>\<open>memcpy\<close> copies upwards word by word until the source reaches its end (\<^verbatim>\<open>libc/s/memcpy.s\<close>).\<close>

primrec memcpy_words :: "nat \<Rightarrow> u16 \<Rightarrow> u16 \<Rightarrow> heap \<Rightarrow> heap" where
  "memcpy_words 0 dst src h = h"
| "memcpy_words (Suc n) dst src h = memcpy_words n (dst + 1) (src + 1) (h\<lparr>h_mem := (h_mem h)(dst := h_mem h src)\<rparr>)"

definition realloc :: "u16 \<Rightarrow> u16 \<Rightarrow> heap \<Rightarrow> (u16 \<times> heap) option" where
  "realloc ptr sz h =
     (if sz = 0 then Some (0, free ptr h)
      else if ptr = 0 then malloc sz h
      else do {
        let header = ptr - MARKER;
        let sz = m_size h header;
        (newPtr, h) \<leftarrow> malloc sz h;
        let copySize = (if m_size h header > sz then sz else m_size h header);
        Some (newPtr, free ptr (memcpy_words (unat copySize) newPtr ptr h))
      })"

definition calloc :: "u16 \<Rightarrow> u16 \<Rightarrow> heap \<Rightarrow> (u16 \<times> heap) option" where
  "calloc elm sz h =
     do {
       let v = elm * sz;
       (ptr, h) \<leftarrow> malloc v h;
       Some (ptr, if ptr \<noteq> 0 then h\<lparr>h_mem := (\<lambda>a. if unat (a - ptr) < unat v then 0 else h_mem h a)\<rparr> else h)
     }"

section \<open>The list of blocks\<close>

text \<open>A block is its size, header included, and whether it is free; the blocks follow each other.\<close>

type_synonym blocks = "(nat \<times> bool) list"

abbreviation ad :: "nat \<Rightarrow> u16" where "ad a \<equiv> of_nat a"

definition total_size :: "blocks \<Rightarrow> nat" where "total_size bs = sum_list (map fst bs)"

lemma total_size_simps [simp]:
  "total_size [] = 0" "total_size (b # bs) = fst b + total_size bs" "total_size (xs @ ys) = total_size xs + total_size ys"
  by (simp_all add: total_size_def)

text \<open>The addresses of the headers.\<close>

primrec headers :: "nat \<Rightarrow> blocks \<Rightarrow> nat set" where
  "headers a [] = {}"
| "headers a (b # bs) = insert a (headers (a + fst b) bs)"

lemma headers_append: "headers a (xs @ ys) = headers a xs \<union> headers (a + total_size xs) ys"
  by (induction xs arbitrary: a) (simp_all add: add.assoc)

text \<open>The list from address \<open>a\<close> on, whose first header points back to \<open>q\<close> and whose last one points to \<open>z\<close>.\<close>

primrec chain :: "heap \<Rightarrow> u16 \<Rightarrow> nat \<Rightarrow> blocks \<Rightarrow> u16 \<Rightarrow> bool" where
  "chain h q a [] z = True"
| "chain h q a (b # bs) z =
     (m_next h (ad a) = (if bs = [] then z else ad (a + fst b)) \<and> m_prev h (ad a) = q \<and>
      m_size h (ad a) = of_nat (fst b) \<and> (m_isFree h (ad a) \<noteq> 0) = snd b \<and> 4 \<le> fst b \<and>
      chain h (ad a) (a + fst b) bs z)"

text \<open>No two neighbours are free: \<^verbatim>\<open>free\<close> joins them.\<close>

definition joined :: "blocks \<Rightarrow> bool" where
  "joined = successively (\<lambda>b c. \<not> (snd b \<and> snd c))"

definition heap_ok :: "nat \<Rightarrow> blocks \<Rightarrow> heap \<Rightarrow> bool" where
  "heap_ok a bs h \<longleftrightarrow> malloc_head h = ad a \<and> 0 < a \<and> bs \<noteq> [] \<and> a + total_size bs < 65536 \<and> joined bs \<and> chain h 0 a bs 0"

text \<open>What \<^verbatim>\<open>malloc\<close> does to the list: pointer (0 when there is none) and new list.\<close>

fun alloc_spec :: "nat \<Rightarrow> nat \<Rightarrow> blocks \<Rightarrow> nat \<times> blocks" where
  "alloc_spec n a [] = (0, [])"
| "alloc_spec n a ((s, False) # bs) = (let (p, bs') = alloc_spec n (a + s) bs in (p, (s, False) # bs'))"
| "alloc_spec n a ((s, True) # bs) =
     (if s > n + 8 then (a + 4, (n + 4, False) # (s - n - 4, True) # bs)
      else (if s \<ge> n + 4 then a + 4 else 0, (s, True) # bs))"

text \<open>What \<^verbatim>\<open>free\<close> does: the block is free, and neighbouring free blocks become one.\<close>

fun mark_free :: "nat \<Rightarrow> nat \<Rightarrow> blocks \<Rightarrow> blocks" where
  "mark_free p a [] = []"
| "mark_free p a ((s, f) # bs) = (if p = a + 4 then (s, True) # bs else (s, f) # mark_free p (a + s) bs)"

fun join :: "blocks \<Rightarrow> blocks" where
  "join [] = []"
| "join ((s, True) # (t, True) # bs) = join ((s + t, True) # bs)"
| "join (b # bs) = b # join bs"

definition release_spec :: "nat \<Rightarrow> nat \<Rightarrow> blocks \<Rightarrow> blocks" where
  "release_spec p a bs = join (mark_free p a bs)"

text \<open>The number of words of the block in use that a pointer points to.\<close>

fun in_use :: "nat \<Rightarrow> nat \<Rightarrow> blocks \<Rightarrow> nat option" where
  "in_use p a [] = None"
| "in_use p a ((s, f) # bs) = (if p = a + 4 \<and> \<not> f then Some (s - 4) else in_use p (a + s) bs)"

section \<open>Headers as separate cells\<close>

lemma ad_eq: "a < 65536 \<Longrightarrow> b < 65536 \<Longrightarrow> (ad a :: u16) = ad b \<longleftrightarrow> a = b"
  by (metis unat_of_nat_u16_small)

definition hdr :: "nat \<Rightarrow> nat \<Rightarrow> bool" where
  "hdr a b \<longleftrightarrow> a + 4 \<le> 65536 \<and> b + 4 \<le> 65536 \<and> (a = b \<or> a + 4 \<le> b \<or> b + 4 \<le> a)"

lemma h_mem_set:
  "h_mem (set_next p v h) = (h_mem h)(p := v)" "h_mem (set_prev p v h) = (h_mem h)(p + 1 := v)"
  "h_mem (set_msize p v h) = (h_mem h)(p + 2 := v)" "h_mem (set_isFree p v h) = (h_mem h)(p + 3 := v)"
  by (simp_all add: set_next_def set_prev_def set_msize_def set_isFree_def)

lemma field_set:
  assumes "hdr a b"
  shows "m_next (set_next (ad a) v h) (ad b) = (if a = b then v else m_next h (ad b))"
    "m_next (set_prev (ad a) v h) (ad b) = m_next h (ad b)"
    "m_next (set_msize (ad a) v h) (ad b) = m_next h (ad b)"
    "m_next (set_isFree (ad a) v h) (ad b) = m_next h (ad b)"
    "m_prev (set_next (ad a) v h) (ad b) = m_prev h (ad b)"
    "m_prev (set_prev (ad a) v h) (ad b) = (if a = b then v else m_prev h (ad b))"
    "m_prev (set_msize (ad a) v h) (ad b) = m_prev h (ad b)"
    "m_prev (set_isFree (ad a) v h) (ad b) = m_prev h (ad b)"
    "m_size (set_next (ad a) v h) (ad b) = m_size h (ad b)"
    "m_size (set_prev (ad a) v h) (ad b) = m_size h (ad b)"
    "m_size (set_msize (ad a) v h) (ad b) = (if a = b then v else m_size h (ad b))"
    "m_size (set_isFree (ad a) v h) (ad b) = m_size h (ad b)"
    "m_isFree (set_next (ad a) v h) (ad b) = m_isFree h (ad b)"
    "m_isFree (set_prev (ad a) v h) (ad b) = m_isFree h (ad b)"
    "m_isFree (set_msize (ad a) v h) (ad b) = m_isFree h (ad b)"
    "m_isFree (set_isFree (ad a) v h) (ad b) = (if a = b then v else m_isFree h (ad b))"
proof -
  have b: "a + 4 \<le> 65536" "b + 4 \<le> 65536" "a = b \<or> a + 4 \<le> b \<or> b + 4 \<le> a" using assms by (auto simp: hdr_def)
  have s: "(ad b = (ad a :: u16)) = (a = b)" "(ad b + of_nat j = (ad a + of_nat j :: u16)) = (a = b)" for j
    using ad_eq [of b a] b by auto
  have "ad b + of_nat j \<noteq> (ad a + of_nat i :: u16)" if "i \<noteq> j" "i < 4" "j < 4" for i j
    unfolding of_nat_add [symmetric] using that b ad_eq [of "b + j" "a + i"] by auto
  note n = this [of 0 1] this [of 0 2] this [of 0 3] this [of 1 0] this [of 1 2] this [of 1 3]
    this [of 2 0] this [of 2 1] this [of 2 3] this [of 3 0] this [of 3 1] this [of 3 2]
  have ne: "(ad b = (ad a + 1 :: u16)) = False" "(ad b = (ad a + 2 :: u16)) = False" "(ad b = (ad a + 3 :: u16)) = False"
    "(ad b + 1 = (ad a :: u16)) = False" "(ad b + 1 = (ad a + 2 :: u16)) = False" "(ad b + 1 = (ad a + 3 :: u16)) = False"
    "(ad b + 2 = (ad a :: u16)) = False" "(ad b + 2 = (ad a + 1 :: u16)) = False" "(ad b + 2 = (ad a + 3 :: u16)) = False"
    "(ad b + 3 = (ad a :: u16)) = False" "(ad b + 3 = (ad a + 1 :: u16)) = False" "(ad b + 3 = (ad a + 2 :: u16)) = False"
    using n by simp_all
  note cells = m_next_def m_prev_def m_size_def m_isFree_def h_mem_set fun_upd_apply ne s(1) s(2) [of 1, unfolded of_nat_1]
    s(2) [of 2, unfolded of_nat_numeral] s(2) [of 3, unfolded of_nat_numeral] if_False
  show "m_next (set_next (ad a) v h) (ad b) = (if a = b then v else m_next h (ad b))"
    "m_next (set_prev (ad a) v h) (ad b) = m_next h (ad b)"
    "m_next (set_msize (ad a) v h) (ad b) = m_next h (ad b)"
    "m_next (set_isFree (ad a) v h) (ad b) = m_next h (ad b)"
    "m_prev (set_next (ad a) v h) (ad b) = m_prev h (ad b)"
    "m_prev (set_prev (ad a) v h) (ad b) = (if a = b then v else m_prev h (ad b))"
    "m_prev (set_msize (ad a) v h) (ad b) = m_prev h (ad b)"
    "m_prev (set_isFree (ad a) v h) (ad b) = m_prev h (ad b)"
    "m_size (set_next (ad a) v h) (ad b) = m_size h (ad b)"
    "m_size (set_prev (ad a) v h) (ad b) = m_size h (ad b)"
    "m_size (set_msize (ad a) v h) (ad b) = (if a = b then v else m_size h (ad b))"
    "m_size (set_isFree (ad a) v h) (ad b) = m_size h (ad b)"
    "m_isFree (set_next (ad a) v h) (ad b) = m_isFree h (ad b)"
    "m_isFree (set_prev (ad a) v h) (ad b) = m_isFree h (ad b)"
    "m_isFree (set_msize (ad a) v h) (ad b) = m_isFree h (ad b)"
    "m_isFree (set_isFree (ad a) v h) (ad b) = (if a = b then v else m_isFree h (ad b))"
    by (simp_all only: cells)
qed

lemma head_set [simp]:
  "malloc_head (set_next p v h) = malloc_head h" "malloc_head (set_prev p v h) = malloc_head h"
  "malloc_head (set_msize p v h) = malloc_head h" "malloc_head (set_isFree p v h) = malloc_head h"
  by (simp_all add: set_next_def set_prev_def set_msize_def set_isFree_def)

text \<open>The headers agree at an address; only words of the headers at some addresses change.\<close>

definition same_hdr :: "heap \<Rightarrow> heap \<Rightarrow> nat \<Rightarrow> bool" where
  "same_hdr h h' b \<longleftrightarrow> m_next h' (ad b) = m_next h (ad b) \<and> m_prev h' (ad b) = m_prev h (ad b) \<and>
     m_size h' (ad b) = m_size h (ad b) \<and> m_isFree h' (ad b) = m_isFree h (ad b)"

definition only_headers :: "nat set \<Rightarrow> heap \<Rightarrow> heap \<Rightarrow> bool" where
  "only_headers S h h' \<longleftrightarrow> (\<forall>x. (\<forall>b\<in>S. \<forall>k<4. x \<noteq> ad (b + k)) \<longrightarrow> h_mem h' x = h_mem h x)"

lemma only_headers_refl [simp]: "only_headers S h h"
  by (simp add: only_headers_def)

lemma only_headers_trans: "only_headers S h h' \<Longrightarrow> only_headers S h' h'' \<Longrightarrow> only_headers S h h''"
  by (simp add: only_headers_def)

lemma only_headers_mono: "only_headers S h h' \<Longrightarrow> S \<subseteq> T \<Longrightarrow> only_headers T h h'"
  unfolding only_headers_def by blast

lemma only_headers_set:
  assumes "b \<in> S"
  shows "only_headers S h (set_next (ad b) v h)" "only_headers S h (set_prev (ad b) v h)"
    "only_headers S h (set_msize (ad b) v h)" "only_headers S h (set_isFree (ad b) v h)"
proof -
  have k: "x \<noteq> ad b + of_nat k" if "\<forall>b\<in>S. \<forall>k<4. x \<noteq> ad (b + k)" "k < 4" for x k
    using that assms by (metis of_nat_add)
  have "x \<noteq> ad b \<and> x \<noteq> ad b + 1 \<and> x \<noteq> ad b + 2 \<and> x \<noteq> ad b + 3" if "\<forall>b\<in>S. \<forall>k<4. x \<noteq> ad (b + k)" for x
    using k [OF that, of 0] k [OF that, of 1] k [OF that, of 2] k [OF that, of 3] by simp
  then show "only_headers S h (set_next (ad b) v h)" "only_headers S h (set_prev (ad b) v h)"
    "only_headers S h (set_msize (ad b) v h)" "only_headers S h (set_isFree (ad b) v h)"
    unfolding only_headers_def set_next_def set_prev_def set_msize_def set_isFree_def by simp_all
qed

section \<open>Cutting and relinking the list\<close>

text \<open>Addresses stay sums of natural numbers from here on.\<close>

declare of_nat_add [simp del]

lemma chain_sizes: "chain h q a bs z \<Longrightarrow> b \<in> headers a bs \<Longrightarrow> a \<le> b \<and> b + 4 \<le> a + total_size bs"
proof (induction bs arbitrary: a q)
  case (Cons x bs)
  show ?case
  proof (cases "b = a")
    case False
    then have "b \<in> headers (a + fst x) bs" using Cons.prems(2) by simp
    then show ?thesis using Cons.IH [of "ad a" "a + fst x"] Cons.prems(1) by auto
  qed (use Cons.prems(1) in auto)
qed simp

lemma chain_cong:
  assumes "chain h q a bs z" "\<And>b. b \<in> headers a bs \<Longrightarrow> same_hdr h h' b"
  shows "chain h' q a bs z"
  using assms
proof (induction bs arbitrary: a q)
  case (Cons x bs)
  have "same_hdr h h' a" using Cons.prems(2) by simp
  then show ?case using Cons.prems(1) Cons.IH [of "ad a" "a + fst x"] Cons.prems(2) by (simp add: same_hdr_def)
qed simp

lemma chain_append:
  "chain h q a (xs @ ys) z \<longleftrightarrow>
     chain h q a xs (if ys = [] then z else ad (a + total_size xs)) \<and>
     chain h (if xs = [] then q else ad (a + total_size (butlast xs))) (a + total_size xs) ys z"
proof (induction xs arbitrary: q a)
  case (Cons x xs)
  show ?case by (cases "xs = []") (auto simp: Cons.IH add.assoc)
qed simp

text \<open>The header of a list's first block gets a new predecessor, the others stay.\<close>

lemma chain_new_prev:
  assumes "chain h q b ys z" "ys \<noteq> []" "m_prev h' (ad b) = q'" "m_next h' (ad b) = m_next h (ad b)"
    "m_size h' (ad b) = m_size h (ad b)" "m_isFree h' (ad b) = m_isFree h (ad b)"
    "\<And>c. c \<in> headers b ys \<Longrightarrow> c \<noteq> b \<Longrightarrow> same_hdr h h' c"
  shows "chain h' q' b ys z"
proof (cases ys)
  case (Cons y ys')
  have c: "chain h (ad b) (b + fst y) ys' z" "4 \<le> fst y" using assms(1) Cons by simp_all
  have "c \<noteq> b" if "c \<in> headers (b + fst y) ys'" for c using chain_sizes [OF c(1) that] c(2) by simp
  then have "chain h' (ad b) (b + fst y) ys' z" using assms(7) Cons by (intro chain_cong [OF c(1)]) auto
  then show ?thesis using assms Cons by simp
qed (use assms(2) in simp)

lemma m_next_chain: "chain h q a (b # bs) 0 \<Longrightarrow> 0 < a \<Longrightarrow> a + total_size (b # bs) < 65536 \<Longrightarrow>
    (m_next h (ad a) \<noteq> 0) = (bs \<noteq> [])"
  using ad_eq [of "a + fst b" 0] by auto

text \<open>A free block and its successor become one.\<close>

lemma merge_forward_two:
  assumes c: "chain h q p ((s, f) # (t, True) # ys) 0" and p: "0 < p" "p + s + t + total_size ys < 65536"
  shows "chain (merge_forward (ad p) h) q p ((s + t, f) # ys) 0"
    "\<And>b. b + 4 \<le> p \<Longrightarrow> same_hdr h (merge_forward (ad p) h) b"
    "only_headers (headers p ((s, f) # (t, True) # ys)) h (merge_forward (ad p) h)"
    "malloc_head (merge_forward (ad p) h) = malloc_head h"
proof -
  let ?n = "p + s" and ?r = "p + s + t"
  let ?h2 = "set_next (ad p) (m_next h (ad ?n)) (set_msize (ad p) (of_nat s + of_nat t) h)"
  have st: "4 \<le> s" "4 \<le> t" using c by simp_all
  have y: "chain h (ad ?n) ?r ys 0" using c by simp
  have hn: "hdr p ?n" "hdr p p" using st p by (auto simp: hdr_def)
  have r: "?r + 4 \<le> 65536" if "ys \<noteq> []" using that y p by (cases ys) auto
  have n0: "ad ?n \<noteq> (0 :: u16)" using ad_eq [of ?n 0] p st by simp
  have r0: "ad ?r \<noteq> (0 :: u16)" if "ys \<noteq> []" using ad_eq [of ?r 0] r [OF that] p st by simp
  have f: "m_next h (ad p) = ad ?n" "m_isFree h (ad ?n) \<noteq> 0" "m_size h (ad p) = of_nat s" "m_size h (ad ?n) = of_nat t"
    "m_next h (ad ?n) = (if ys = [] then 0 else ad ?r)" "m_prev h (ad p) = q" "(m_isFree h (ad p) \<noteq> 0) = f"
    using c by (simp_all add: add.assoc)
  have m: "merge_forward (ad p) h = (if ys = [] then ?h2 else set_prev (ad ?r) (ad p) ?h2)"
    using n0 r0 f(5) unfolding merge_forward_def f(1,3,4) Let_def field_set [OF hn(1)] field_set [OF hn(2)] if_True
    by (simp add: f(1,2) field_set [OF hn(1)])
  have hb: "hdr p b" if "b + 4 \<le> p \<or> b \<in> headers ?r ys" for b
    using that chain_sizes [OF y] st p by (fastforce simp: hdr_def)
  have hr: "hdr ?r b" if "ys \<noteq> []" "b + 4 \<le> p \<or> b \<in> headers ?r ys \<and> b \<noteq> ?r" for b
  proof (cases "b + 4 \<le> p")
    case False
    then have b: "b \<in> headers ?r ys" "b \<noteq> ?r" using that by auto
    obtain u us where u: "ys = u # us" using \<open>ys \<noteq> []\<close> by (cases ys) auto
    then have "b \<in> headers (?r + fst u) us" "chain h (ad ?r) (?r + fst u) us 0" "4 \<le> fst u" using b y by simp_all
    then show ?thesis using chain_sizes [of h "ad ?r" "?r + fst u" us 0 b] p u by (auto simp: hdr_def)
  qed (use r [OF \<open>ys \<noteq> []\<close>] st in \<open>auto simp: hdr_def\<close>)
  have same: "same_hdr h (merge_forward (ad p) h) b" if "b + 4 \<le> p \<or> b \<in> headers ?r ys \<and> (b \<noteq> ?r)" for b
  proof -
    have "p \<noteq> b" using that chain_sizes [OF y, of b] st by auto
    then show ?thesis using that hb [of b] hr [of b] unfolding m same_hdr_def by (auto simp: field_set)
  qed
  show "same_hdr h (merge_forward (ad p) h) b" if "b + 4 \<le> p" for b using same that by simp
  have rp: "hdr ?r p" "hdr p ?r" "hdr ?r ?r" if "ys \<noteq> []" using r [OF that] st by (auto simp: hdr_def)
  have ysok: "chain (merge_forward (ad p) h) (ad p) ?r ys 0"
  proof (cases "ys = []")
    case False
    show ?thesis
      by (rule chain_new_prev [OF y False]) (use same False rp [OF False] st in \<open>auto simp: m field_set\<close>)
  qed simp
  show "chain (merge_forward (ad p) h) q p ((s + t, f) # ys) 0"
    using ysok rp hn st f(5-7) by (cases "ys = []") (auto simp: m field_set add.assoc of_nat_add [of s t])
  have "?r \<in> headers ?r ys" if "ys \<noteq> []" using that by (cases ys) simp_all
  then have in_h: "p \<in> headers p ((s, f) # (t, True) # ys)" "ys \<noteq> [] \<Longrightarrow> ?r \<in> headers p ((s, f) # (t, True) # ys)"
    by (simp_all only: headers.simps fst_conv insert_iff refl simp_thms)
  show "only_headers (headers p ((s, f) # (t, True) # ys)) h (merge_forward (ad p) h)"
  proof -
    let ?S = "headers p ((s, f) # (t, True) # ys)"
    have h2: "only_headers ?S h ?h2"
      by (rule only_headers_trans [OF only_headers_set(3) [OF in_h(1)] only_headers_set(1) [OF in_h(1)]])
    show ?thesis
    proof (cases "ys = []")
      case False
      then show ?thesis unfolding m using only_headers_trans [OF h2 only_headers_set(2) [OF in_h(2) [OF False]]] by simp
    qed (use h2 in \<open>simp add: m\<close>)
  qed
  show "malloc_head (merge_forward (ad p) h) = malloc_head h" unfolding m by simp
qed

text \<open>The same in the middle of the list.\<close>

lemma chain_middle:
  assumes c: "chain h q a (xs @ ys) 0" and ys: "ys \<noteq> []" "ys' \<noteq> []"
    and t: "chain h' (if xs = [] then q else ad (a + total_size (butlast xs))) (a + total_size xs) ys' 0"
    and same: "\<And>b. b + 4 \<le> a + total_size xs \<Longrightarrow> same_hdr h h' b"
  shows "chain h' q a (xs @ ys') 0"
proof -
  have "chain h q a xs (ad (a + total_size xs))" using c ys unfolding chain_append by simp
  then have "chain h' q a xs (ad (a + total_size xs))" using chain_sizes same by (blast intro: chain_cong)
  then show ?thesis using t ys unfolding chain_append by simp
qed

lemma merge_forward_at:
  assumes c: "chain h q a (xs @ (s, f) # (t, True) # ys) 0" and a: "0 < a" "a + total_size (xs @ (s, f) # (t, True) # ys) < 65536"
    and p: "p = a + total_size xs"
  shows "chain (merge_forward (ad p) h) q a (xs @ (s + t, f) # ys) 0"
    "only_headers (headers a (xs @ (s, f) # (t, True) # ys)) h (merge_forward (ad p) h)"
    "malloc_head (merge_forward (ad p) h) = malloc_head h"
proof -
  have t: "chain h (if xs = [] then q else ad (a + total_size (butlast xs))) p ((s, f) # (t, True) # ys) 0"
    using c unfolding chain_append p by simp
  have b: "0 < p" "p + s + t + total_size ys < 65536" using a p by simp_all
  note m = merge_forward_two [OF t b]
  show "chain (merge_forward (ad p) h) q a (xs @ (s + t, f) # ys) 0"
    using m(1,2) by (intro chain_middle [OF c]) (simp_all add: p)
  show "only_headers (headers a (xs @ (s, f) # (t, True) # ys)) h (merge_forward (ad p) h)"
    by (rule only_headers_mono [OF m(3)]) (auto simp: headers_append p)
  show "malloc_head (merge_forward (ad p) h) = malloc_head h" by (rule m(4))
qed

lemma merge_forward_none:
  assumes c: "chain h q p ((s, f) # ys) 0" and y: "ys = [] \<or> \<not> snd (hd ys)"
  shows "merge_forward (ad p) h = h"
proof (cases ys)
  case (Cons y us)
  then have "m_isFree h (m_next h (ad p)) = 0" using c y by simp
  then show ?thesis unfolding merge_forward_def by simp
qed (use c in \<open>simp add: merge_forward_def\<close>)

text \<open>Joining with the predecessor is the predecessor joining with its successor.\<close>

lemma merge_backward_at:
  assumes c: "chain h q a (xs @ (t, True) # (s, True) # ys) 0" and a: "0 < a" "a + total_size (xs @ (t, True) # (s, True) # ys) < 65536"
    and p: "p = a + total_size xs + t"
  shows "merge_backward (ad p) h = merge_forward (ad (a + total_size xs)) h"
proof -
  let ?o = "a + total_size xs"
  have f: "m_prev h (ad p) = ad ?o" "m_next h (ad ?o) = ad p" "m_isFree h (ad ?o) \<noteq> 0" "m_isFree h (ad p) \<noteq> 0" "4 \<le> t" "4 \<le> s"
    using c unfolding chain_append p by simp_all
  have n: "ad ?o \<noteq> (0 :: u16)" "ad p \<noteq> (0 :: u16)" using ad_eq [of ?o 0] ad_eq [of p 0] a p by simp_all
  have d: "hdr ?o p" "hdr ?o ?o" "?o \<noteq> p" using a p f(5,6) by (auto simp: hdr_def)
  show ?thesis
    using n f(3,4) d(3) unfolding merge_backward_def merge_forward_def f(1) Let_def field_set [OF d(1)] field_set [OF d(2)]
    by (simp add: f(1,2) field_set [OF d(1)] field_set [OF d(2)])
qed

lemma merge_backward_none:
  assumes c: "chain h 0 a (xs @ (s, f) # ys) 0" and a: "p = a + total_size xs" and x: "xs = [] \<or> \<not> snd (last xs)"
  shows "merge_backward (ad p) h = h"
proof (cases "xs = []")
  case False
  then obtain us u where u: "xs = us @ [u]" by (cases xs rule: rev_cases) auto
  then have "m_prev h (ad p) = ad (a + total_size us)" "(m_isFree h (ad (a + total_size us)) \<noteq> 0) = snd u"
    using c a unfolding chain_append by (simp_all add: chain_append add.assoc)
  then show ?thesis using x u unfolding merge_backward_def by simp
qed (use c a in \<open>simp add: merge_backward_def\<close>)

text \<open>A block is cut in two.\<close>

lemma split_two:
  assumes c: "chain h q p ((s, f) # ys) 0" and p: "0 < p" "p + s + total_size ys < 65536" and n: "n + 8 < s"
  shows "chain (split_block (of_nat n) (ad p) h) q p ((n + 4, False) # (s - n - 4, True) # ys) 0"
    "\<And>b. b + 4 \<le> p \<Longrightarrow> same_hdr h (split_block (of_nat n) (ad p) h) b"
    "only_headers (headers p ((n + 4, False) # (s - n - 4, True) # ys)) h (split_block (of_nat n) (ad p) h)"
    "malloc_head (split_block (of_nat n) (ad p) h) = malloc_head h"
proof -
  let ?m = "p + n + 4" and ?r = "p + s"
  let ?h2 = "set_next (ad ?m) (if ys = [] then 0 else ad ?r) (set_prev (ad ?m) (ad p) h)"
  let ?h3 = "if ys = [] then ?h2 else set_prev (ad ?r) (ad ?m) ?h2"
  let ?h = "set_isFree (ad p) 0 (set_msize (ad p) (of_nat (n + 4)) (set_next (ad p) (ad ?m)
    (set_isFree (ad ?m) 1 (set_msize (ad ?m) (of_nat (s - n - 4)) ?h3))))"
  have y: "chain h (ad p) ?r ys 0" using c by simp
  have r: "?r + 4 \<le> 65536" if "ys \<noteq> []" using that y p by (cases ys) auto
  have r0: "ad ?r \<noteq> (0 :: u16)" if "ys \<noteq> []" using ad_eq [of ?r 0] r [OF that] p by simp
  have d: "hdr ?m p" "hdr ?m ?m" "hdr p p" "hdr p ?m" "p \<noteq> ?m" using n p by (auto simp: hdr_def)
  have dr: "hdr ?r p" "hdr p ?r" "hdr ?r ?m" "hdr ?m ?r" "hdr ?r ?r" "?r \<noteq> ?m" "?r \<noteq> p" if "ys \<noteq> []"
    using r [OF that] n p by (auto simp: hdr_def)
  have f: "m_next h (ad p) = (if ys = [] then 0 else ad ?r)" "m_size h (ad p) = of_nat s" "m_prev h (ad p) = q"
    using c by simp_all
  have a: "ad p + of_nat n + 4 = ad ?m" "of_nat n + 4 = (of_nat (n + 4) :: u16)" by (simp_all add: of_nat_add)
  have "of_nat s = (of_nat (s - n - 4) + of_nat n + 4 :: u16)"
  proof -
    have "s = (s - n - 4) + n + 4" using n by simp
    then have "(of_nat s :: u16) = of_nat ((s - n - 4) + n + 4)" by (rule arg_cong)
    then show ?thesis by (simp add: of_nat_add)
  qed
  then have z: "of_nat s - of_nat n - 4 = (of_nat (s - n - 4) :: u16)" by (simp only: algebra_simps)
  have m: "split_block (of_nat n) (ad p) h = ?h"
  proof (cases "ys = []")
    case True
    then show ?thesis
      unfolding split_block_def a Let_def by (simp add: field_set [OF d(1)] field_set [OF d(2)] f z del: of_nat_numeral)
  next
    case False
    then show ?thesis
      unfolding split_block_def a Let_def
      by (simp add: field_set [OF d(1)] field_set [OF d(2)] field_set [OF dr(1)] dr(6,7) f z r0 del: of_nat_numeral)
  qed
  have hb: "hdr p b" "hdr ?m b" "b \<noteq> p" "b \<noteq> ?m" if "b + 4 \<le> p \<or> b \<in> headers ?r ys" for b
    using that chain_sizes [OF y, of b] n p by (auto simp: hdr_def)
  have hr: "hdr ?r b" "b \<noteq> ?r" if "ys \<noteq> []" "b + 4 \<le> p \<or> b \<in> headers ?r ys \<and> b \<noteq> ?r" for b
  proof -
    obtain u us where u: "ys = u # us" using \<open>ys \<noteq> []\<close> by (cases ys) auto
    then have "chain h (ad ?r) (?r + fst u) us 0" "4 \<le> fst u" using y by simp_all
    then show "hdr ?r b" "b \<noteq> ?r"
      using chain_sizes [of h "ad ?r" "?r + fst u" us 0 b] that(2) r [OF that(1)] p u n by (auto simp: hdr_def)
  qed
  have same: "same_hdr h (split_block (of_nat n) (ad p) h) b" if "b + 4 \<le> p \<or> b \<in> headers ?r ys \<and> b \<noteq> ?r" for b
    using that hb [of b] hr [of b] unfolding m same_hdr_def by (auto simp: field_set)
  show "same_hdr h (split_block (of_nat n) (ad p) h) b" if "b + 4 \<le> p" for b using same that by simp
  have ysok: "chain (split_block (of_nat n) (ad p) h) (ad ?m) ?r ys 0"
  proof (cases "ys = []")
    case False
    show ?thesis
      by (rule chain_new_prev [OF y False]) (use same False dr [OF False] in \<open>auto simp: m field_set\<close>)
  qed simp
  have e: "p + (n + 4) = ?m" "?m + (s - n - 4) = ?r" using n by simp_all
  show "chain (split_block (of_nat n) (ad p) h) q p ((n + 4, False) # (s - n - 4, True) # ys) 0"
    using ysok d dr n f(3) unfolding chain.simps fst_conv snd_conv e
    by (cases "ys = []") (auto simp: m field_set)
  have S: "p \<in> headers p ((n + 4, False) # (s - n - 4, True) # ys)" "?m \<in> headers p ((n + 4, False) # (s - n - 4, True) # ys)"
    "ys \<noteq> [] \<Longrightarrow> ?r \<in> headers p ((n + 4, False) # (s - n - 4, True) # ys)"
    unfolding headers.simps fst_conv e by (auto simp: neq_Nil_conv)
  show "only_headers (headers p ((n + 4, False) # (s - n - 4, True) # ys)) h (split_block (of_nat n) (ad p) h)"
  proof -
    let ?S = "headers p ((n + 4, False) # (s - n - 4, True) # ys)"
    note t = only_headers_trans
    have h2: "only_headers ?S h ?h2" by (rule t [OF only_headers_set(2) [OF S(2)] only_headers_set(1) [OF S(2)]])
    have "only_headers ?S h ?h3"
      using h2 t [OF h2 only_headers_set(2) [OF S(3)]] by (cases "ys = []") (simp_all only: if_True if_False refl simp_thms)
    from t [OF t [OF t [OF t [OF t [OF this only_headers_set(3) [OF S(2)]] only_headers_set(4) [OF S(2)]]
        only_headers_set(1) [OF S(1)]] only_headers_set(3) [OF S(1)]] only_headers_set(4) [OF S(1)]]
    show ?thesis unfolding m .
  qed
  show "malloc_head (split_block (of_nat n) (ad p) h) = malloc_head h" unfolding m by simp
qed

section \<open>The operations on the list\<close>

lemma chain_sized: "chain h q a bs z \<Longrightarrow> b \<in> set bs \<Longrightarrow> 4 \<le> fst b"
  by (induction bs arbitrary: q a) auto

lemma word_bounds:
  assumes "s < 65536" "n + 8 < 65536"
  shows "(of_nat s > (of_nat n + 2 * MARKER :: u16)) = (s > n + 8)" "(of_nat s \<ge> (of_nat n + MARKER :: u16)) = (s \<ge> n + 4)"
proof -
  have e: "of_nat n + 2 * MARKER = (of_nat (n + 8) :: u16)" "of_nat n + MARKER = (of_nat (n + 4) :: u16)"
    by (simp_all add: of_nat_add)
  have u: "unat (of_nat (n + 8) :: u16) = n + 8" "unat (of_nat (n + 4) :: u16) = n + 4" "unat (of_nat s :: u16) = s"
    using assms by (simp_all only: unat_of_nat_u16) simp_all
  show "(of_nat s > (of_nat n + 2 * MARKER :: u16)) = (s > n + 8)" "(of_nat s \<ge> (of_nat n + MARKER :: u16)) = (s \<ge> n + 4)"
    unfolding e word_less_nat_alt word_le_nat_alt u by (rule refl)+
qed

lemma malloc_from_refines:
  assumes "chain h q a (xs @ bs) 0" "0 < a" "a + total_size (xs @ bs) < 65536" "n + 8 < 65536" "p = a + total_size xs"
    "alloc_spec n p bs = (r, bs')"
  shows "\<exists>h'. malloc_from (of_nat n) (if bs = [] then 0 else ad p) h = Some (ad r, h') \<and> chain h' q a (xs @ bs') 0 \<and>
    only_headers (headers a (xs @ bs')) h h' \<and> malloc_head h' = malloc_head h"
  using assms
proof (induction bs arbitrary: xs p r bs')
  case Nil
  then show ?case by (subst malloc_from.simps) simp
next
  case (Cons b bs)
  obtain s f where b: "b = (s, f)" by fastforce
  have c: "chain h (if xs = [] then q else ad (a + total_size (butlast xs))) p ((s, f) # bs) 0"
    using Cons.prems(1,5) b unfolding chain_append by simp
  have p0: "ad p \<noteq> (0 :: u16)" using ad_eq [of p 0] Cons.prems(2,3,5) by simp
  have s: "s < 65536" "p + s + total_size bs < 65536" "0 < p" using Cons.prems(2,3,5) b by simp_all
  have sz: "m_size h (ad p) = of_nat s" "(m_isFree h (ad p) \<noteq> 0) = f" "m_next h (ad p) = (if bs = [] then 0 else ad (p + s))"
    using c by simp_all
  have p4: "ad p + MARKER = ad (p + 4)" by (simp add: of_nat_add)
  show ?case
  proof (cases f)
    case False
    obtain bs2 where q: "alloc_spec n (p + s) bs = (r, bs2)" "bs' = (s, f) # bs2"
      using Cons.prems(6) b False by (auto split: prod.splits)
    show ?thesis
      using Cons.IH [of "xs @ [(s, f)]", OF _ Cons.prems(2) _ Cons.prems(4) _ q(1)] Cons.prems(1,3,5) b q(2) False p0 sz
      by (subst malloc_from.simps) (simp add: add.assoc)
  next
    case True
    show ?thesis
    proof (cases "s > n + 8")
      case True
      note m = split_two [OF c s(3,2) True]
      have e: "bs' = (n + 4, False) # (s - n - 4, True) # bs" "r = p + 4" using Cons.prems(6) b True \<open>f\<close> by auto
      have "chain (split_block (of_nat n) (ad p) h) q a (xs @ bs') 0"
        using m(1,2) Cons.prems(5) e(1) by (intro chain_middle [OF Cons.prems(1)]) simp_all
      moreover have "only_headers (headers a (xs @ bs')) h (split_block (of_nat n) (ad p) h)"
        by (rule only_headers_mono [OF m(3)]) (auto simp: headers_append e(1) Cons.prems(5))
      ultimately show ?thesis
        using sz p0 \<open>f\<close> True word_bounds [OF s(1) Cons.prems(4)] m(4) e(2)
        by (subst malloc_from.simps) (simp add: p4 del: of_nat_numeral)
    next
      case False
      have e: "bs' = (s, f) # bs" "r = (if s \<ge> n + 4 then p + 4 else 0)" using Cons.prems(6) b False \<open>f\<close> by (auto split: if_splits)
      then show ?thesis
        using sz p0 \<open>f\<close> False word_bounds [OF s(1) Cons.prems(4)] Cons.prems(1) b
        by (subst malloc_from.simps) (simp add: p4)
    qed
  qed
qed

lemma alloc_spec_total: "alloc_spec n a bs = (r, bs') \<Longrightarrow> total_size bs' = total_size bs \<and> (bs' = []) = (bs = [])"
  by (induction n a bs arbitrary: r bs' rule: alloc_spec.induct) (auto split: prod.splits if_splits)

lemma joined_Nil [simp]: "joined []"
  by (simp add: joined_def)

lemma joined_Cons: "joined (b # bs) \<longleftrightarrow> (bs = [] \<or> \<not> (snd b \<and> snd (hd bs))) \<and> joined bs"
  by (cases bs) (auto simp: joined_def)

lemma alloc_spec_head: "alloc_spec n a bs = (r, bs') \<Longrightarrow> bs \<noteq> [] \<Longrightarrow> snd (hd bs') \<Longrightarrow> snd (hd bs)"
  by (induction n a bs arbitrary: r bs' rule: alloc_spec.induct) (auto split: prod.splits if_splits)

lemma alloc_spec_joined: "alloc_spec n a bs = (r, bs') \<Longrightarrow> joined bs \<Longrightarrow> joined bs'"
proof (induction n a bs arbitrary: r bs' rule: alloc_spec.induct)
  case (2 n a s bs)
  then show ?case by (auto simp: joined_Cons split: prod.splits)
qed (auto simp: joined_Cons split: if_splits)

lemma in_use_ge: "in_use p a bs = Some m \<Longrightarrow> a + 4 \<le> p"
  by (induction p a bs rule: in_use.induct) (auto split: if_splits)

lemma alloc_spec_in_use: "alloc_spec n a bs = (r, bs') \<Longrightarrow> in_use p a bs = Some m \<Longrightarrow> in_use p a bs' = Some m"
proof (induction n a bs arbitrary: r bs' rule: alloc_spec.induct)
  case (3 n a s bs)
  then have "a + s + 4 \<le> p" using in_use_ge [of p "a + s" bs m] by simp
  then show ?case using 3 by (auto split: if_splits)
qed (auto split: prod.splits if_splits)

lemma in_use_append: "in_use p a (xs @ ys) = (case in_use p a xs of None \<Rightarrow> in_use p (a + total_size xs) ys | Some m \<Rightarrow> Some m)"
  by (induction p a xs rule: in_use.induct) (auto simp: add.assoc split: option.splits)

lemma in_use_split:
  assumes "in_use p a bs = Some m" "\<forall>b\<in>set bs. 4 \<le> fst b"
  obtains xs ys where "bs = xs @ (m + 4, False) # ys" "p = a + total_size xs + 4"
  using assms
proof (induction p a bs arbitrary: thesis rule: in_use.induct)
  case (2 p a s f bs)
  show ?case
  proof (cases "p = a + 4 \<and> \<not> f")
    case True
    then have "s = m + 4" using 2(3,4) by auto
    then show ?thesis using 2(2) [of "[]" bs] True by simp
  next
    case False
    obtain xs ys where "bs = xs @ (m + 4, False) # ys" "p = a + s + total_size xs + 4" using 2(1) [OF False] 2(3,4) False by auto
    then show ?thesis using 2(2) [of "(s, f) # xs" ys] by simp
  qed
qed simp

text \<open>The words of a block in use are apart from all headers, and from those of the other blocks in use.\<close>

lemma header_apart:
  assumes "in_use p a bs = Some m" "\<forall>b\<in>set bs. 4 \<le> fst b" "b \<in> headers a bs"
  shows "b + 4 \<le> p \<or> p + m \<le> b"
proof -
  obtain xs ys where s: "bs = xs @ (m + 4, False) # ys" "p = a + total_size xs + 4" using in_use_split assms(1,2) by blast
  have lo: "b' + 4 \<le> a' + total_size bs'" if "b' \<in> headers a' bs'" "\<forall>b\<in>set bs'. 4 \<le> fst b" for b' a' bs'
    using that by (induction bs' arbitrary: a') (force simp: add.assoc)+
  have hi: "a' \<le> b'" if "b' \<in> headers a' bs'" for b' a' bs'
    using that by (induction bs' arbitrary: a') force+
  have "b \<in> headers a xs \<or> b = a + total_size xs \<or> b \<in> headers (p + m) ys"
    using assms(3) s by (simp add: headers_append ac_simps)
  then show ?thesis using assms(2) s lo [of b a xs] hi [of b "p + m" ys] by auto
qed

lemma in_use_bound: "in_use p a bs = Some m \<Longrightarrow> \<forall>b\<in>set bs. 4 \<le> fst b \<Longrightarrow> p + m \<le> a + total_size bs"
  by (erule in_use_split) auto

lemma in_use_apart:
  assumes "in_use p a bs = Some m" "in_use p' a bs = Some m'" "\<forall>b\<in>set bs. 4 \<le> fst b" "p \<noteq> p'"
  shows "p + m \<le> p' \<or> p' + m' \<le> p"
proof -
  have h: "q - 4 \<in> headers a bs \<and> 4 \<le> q" if q: "in_use q a bs = Some k" for q k
  proof -
    obtain xs ys where "bs = xs @ (k + 4, False) # ys" "q = a + total_size xs + 4" using in_use_split [OF q assms(3)] by blast
    then show ?thesis by (simp add: headers_append)
  qed
  show ?thesis
    using header_apart [OF assms(1,3), of "p' - 4"] header_apart [OF assms(2,3), of "p - 4"] h [OF assms(1)] h [OF assms(2)] assms(4)
    by auto
qed

lemma data_kept:
  assumes "only_headers S h h'" "in_use p a bs = Some m" "k < m" "p + m \<le> 65536"
    "\<And>b. b \<in> S \<Longrightarrow> b + 4 \<le> p \<or> p + m \<le> b" "\<And>b. b \<in> S \<Longrightarrow> b + 4 \<le> 65536"
  shows "h_mem h' (ad (p + k)) = h_mem h (ad (p + k))"
proof -
  have "ad (p + k) \<noteq> (ad (b + j) :: u16)" if "b \<in> S" "j < 4" for b j
    using assms(3,4) assms(5,6) [OF that(1)] that(2) ad_eq [of "p + k" "b + j"] by auto
  then show ?thesis using assms(1) unfolding only_headers_def by blast
qed

section \<open>Releasing a block\<close>

lemma mark_free_at:
  "\<forall>b\<in>set xs. 4 \<le> fst b \<Longrightarrow> p = a + total_size xs + 4 \<Longrightarrow> mark_free p a (xs @ (s, f) # ys) = xs @ (s, True) # ys"
proof (induction xs arbitrary: a)
  case (Cons x xs)
  then show ?case by (cases x) (simp add: add.assoc)
qed simp

lemma join_joined: "joined bs \<Longrightarrow> join bs = bs"
  by (induction bs rule: join.induct) (auto simp: joined_Cons)

lemma joined_append: "joined (xs @ ys) \<longleftrightarrow> joined xs \<and> joined ys \<and> (xs = [] \<or> ys = [] \<or> \<not> (snd (last xs) \<and> snd (hd ys)))"
  by (auto simp: joined_def successively_append_iff)

lemma join_append: "joined xs \<Longrightarrow> xs = [] \<or> \<not> snd (last xs) \<Longrightarrow> join (xs @ ys) = xs @ join ys"
  by (induction xs rule: join.induct) (auto simp: joined_Cons split: if_splits)

lemma join_free:
  "joined ((s, True) # ys) \<Longrightarrow> join ((s, True) # ys) = (s, True) # ys"
  "joined ((t, True) # ys) \<Longrightarrow> join ((s, True) # (t, True) # ys) = (s + t, True) # ys"
  by (rule join_joined, simp) (simp add: join_joined joined_Cons)

lemma join_total: "total_size (join bs) = total_size bs" "(join bs = []) = (bs = [])"
  by (induction bs rule: join.induct) auto

lemma mark_free_total: "total_size (mark_free p a bs) = total_size bs" "(mark_free p a bs = []) = (bs = [])"
  by (induction p a bs rule: mark_free.induct) auto

lemma join_head: "join ((s, f) # bs) = b # bs' \<Longrightarrow> snd b = f"
  by (induction "(s, f) # bs" arbitrary: s f bs rule: join.induct) auto

lemma joined_join: "joined (join bs)"
  by (induction bs rule: join.induct) (auto simp: joined_Cons neq_Nil_conv dest: join_head)

text \<open>\<^verbatim>\<open>free\<close> marks the block and joins it with its neighbours.\<close>

lemma set_isFree_at:
  assumes c: "chain h q a (xs @ (s, f) # ys) 0" and a: "a + total_size (xs @ (s, f) # ys) < 65536" and p: "p = a + total_size xs"
  shows "chain (set_isFree (ad p) 1 h) q a (xs @ (s, True) # ys) 0"
proof (rule chain_middle [OF c])
  have t: "chain h (if xs = [] then q else ad (a + total_size (butlast xs))) p ((s, f) # ys) 0"
    using c unfolding chain_append p by simp
  have y: "chain h (ad p) (p + s) ys 0" and s: "4 \<le> s" using t by simp_all
  have same: "same_hdr h (set_isFree (ad p) 1 h) b" if "b + 4 \<le> p \<or> b \<in> headers (p + s) ys" for b
  proof -
    have "hdr p b" "b \<noteq> p" using that chain_sizes [OF y, of b] s a p by (auto simp: hdr_def)
    then show ?thesis by (simp add: same_hdr_def field_set)
  qed
  show "\<And>b. b + 4 \<le> a + total_size xs \<Longrightarrow> same_hdr h (set_isFree (ad p) 1 h) b" using same p by simp
  have "chain (set_isFree (ad p) 1 h) (ad p) (p + s) ys 0" using same by (intro chain_cong [OF y]) simp
  moreover have "hdr p p" using s a p by (simp add: hdr_def)
  ultimately show "chain (set_isFree (ad p) 1 h) (if xs = [] then q else ad (a + total_size (butlast xs))) (a + total_size xs) ((s, True) # ys) 0"
    using t by (simp add: field_set flip: p)
qed simp_all

lemma free_at:
  assumes c: "chain h 0 a (xs @ (s, False) # ys) 0" and a: "0 < a" "a + total_size (xs @ (s, False) # ys) < 65536"
    and p: "p = a + total_size xs" and j: "joined (xs @ (s, False) # ys)"
  shows "chain (free (ad (p + 4)) h) 0 a (join (xs @ (s, True) # ys)) 0"
    "only_headers (headers a (xs @ (s, False) # ys)) h (free (ad (p + 4)) h)"
    "malloc_head (free (ad (p + 4)) h) = malloc_head h"
proof -
  let ?S = "headers a (xs @ (s, False) # ys)"
  define h1 where "h1 = set_isFree (ad p) 1 h"
  define h2 where "h2 = merge_forward (ad p) h1"
  define h3 where "h3 = merge_backward (ad p) h2"
  have fr: "free (ad (p + 4)) h = h3" by (simp add: free_def Let_def h1_def h2_def h3_def of_nat_add)
  have jx: "joined xs" and jy: "joined ys" using j by (auto simp: joined_append joined_Cons)
  have pS: "p \<in> ?S" by (simp add: headers_append p)
  have c1: "chain h1 0 a (xs @ (s, True) # ys) 0" using set_isFree_at [OF c a(2) p] by (simp add: h1_def)
  have o1: "only_headers ?S h h1" "malloc_head h1 = malloc_head h" using only_headers_set(4) [OF pS] by (simp_all add: h1_def)
  have p1: "chain h1 (if xs = [] then 0 else ad (a + total_size (butlast xs))) p ((s, True) # ys) 0"
    using c1 unfolding chain_append p by simp
  obtain t zs where c2: "chain h2 0 a (xs @ (t, True) # zs) 0" "join ((s, True) # ys) = (t, True) # zs" "t + total_size zs = s + total_size ys"
    and o2: "only_headers ?S h1 h2" "malloc_head h2 = malloc_head h1" "headers a (xs @ (t, True) # zs) \<subseteq> ?S"
  proof (cases "ys = [] \<or> \<not> snd (hd ys)")
    case True
    have "joined ((s, True) # ys)" using jy True by (auto simp: joined_Cons)
    then show ?thesis using that [of s ys] c1 merge_forward_none [OF p1 True] join_free(1) by (simp add: h2_def headers_append)
  next
    case False
    then obtain t us where ys: "ys = (t, True) # us" by (cases ys) auto
    note m = merge_forward_at [of h1 0 a xs s True t us p, OF _ a(1) _ p]
    have "a + total_size (xs @ (s, True) # (t, True) # us) < 65536" using a(2) ys by simp
    note m = m [OF c1 [unfolded ys] this]
    have "headers a (xs @ (s + t, True) # us) \<subseteq> ?S" "headers a (xs @ (s, True) # (t, True) # us) \<subseteq> ?S"
      using ys by (auto simp: headers_append add.assoc)
    then show ?thesis
      using that [of "s + t" us] m jy only_headers_mono [OF m(2)] join_free(2) [of t us s] ys by (simp add: h2_def)
  qed
  have tot: "a + total_size (xs @ (t, True) # zs) < 65536" using a(2) c2(3) by simp
  have jz: "joined ((t, True) # zs)" using joined_join [of "(s, True) # ys"] c2(2) by simp
  have "chain h3 0 a (join (xs @ (s, True) # ys)) 0 \<and> only_headers ?S h2 h3 \<and> malloc_head h3 = malloc_head h2"
  proof (cases "xs = [] \<or> \<not> snd (last xs)")
    case True
    then show ?thesis using merge_backward_none [OF c2(1) p True] join_append [OF jx True] c2 by (simp add: h3_def)
  next
    case False
    then obtain us u where xs: "xs = us @ [(u, True)]" by (cases xs rule: rev_cases) auto
    then have c': "chain h2 0 a (us @ (u, True) # (t, True) # zs) 0" "a + total_size (us @ (u, True) # (t, True) # zs) < 65536"
      "p = a + total_size us + u" using c2(1) tot p by simp_all
    have b: "h3 = merge_forward (ad (a + total_size us)) h2" unfolding h3_def by (rule merge_backward_at [OF c'(1) a(1) c'(2,3)])
    note m = merge_forward_at [OF c'(1) a(1) c'(2) refl]
    have ju: "joined us" "us = [] \<or> \<not> snd (last us)" using jx xs by (auto simp: joined_append joined_Cons)
    have "join (xs @ (s, True) # ys) = us @ join ((u, True) # (s, True) # ys)" using join_append [OF ju] xs by simp
    also have "join ((u, True) # (s, True) # ys) = (u + t, True) # zs"
    proof (cases "ys = [] \<or> \<not> snd (hd ys)")
      case True
      then have "joined ((s, True) # ys)" using jy by (auto simp: joined_Cons)
      then show ?thesis using join_free c2(2) by auto
    next
      case False
      then obtain v vs where ys: "ys = (v, True) # vs" by (cases ys) auto
      then show ?thesis using c2(2) jy join_free(1) [of "s + v" vs] join_free(1) [of "u + (s + v)" vs] by (simp add: joined_Cons add.assoc)
    qed
    finally have e: "join (xs @ (s, True) # ys) = us @ (u + t, True) # zs" .
    have "only_headers ?S h2 h3" unfolding b using o2(3) xs by (intro only_headers_mono [OF m(2)]) simp
    then show ?thesis using m e b by simp
  qed
  then show "chain (free (ad (p + 4)) h) 0 a (join (xs @ (s, True) # ys)) 0"
    "only_headers (headers a (xs @ (s, False) # ys)) h (free (ad (p + 4)) h)"
    "malloc_head (free (ad (p + 4)) h) = malloc_head h"
    unfolding fr using o1 o2 by (auto intro: only_headers_trans)
qed

section \<open>The allocator as a whole\<close>

lemma heap_okD:
  assumes "heap_ok a bs h"
  shows "malloc_head h = ad a" "0 < a" "bs \<noteq> []" "a + total_size bs < 65536" "joined bs" "chain h 0 a bs 0"
    "\<forall>b\<in>set bs. 4 \<le> fst b" "\<And>b. b \<in> headers a bs \<Longrightarrow> b + 4 \<le> 65536"
  using assms chain_sized [of h 0 a bs 0] chain_sizes [of h 0 a bs 0] by (force simp: heap_ok_def)+

lemma malloc_ok:
  assumes h: "heap_ok a bs h" and n: "n + 8 < 65536" and r: "alloc_spec n a bs = (r, bs')"
  shows "\<exists>h'. malloc (of_nat n) h = Some (ad r, h') \<and> heap_ok a bs' h' \<and> only_headers (headers a bs') h h'"
proof -
  note d = heap_okD [OF h]
  have l: "chain h 0 a ([] @ bs) 0" "a + total_size ([] @ bs) < 65536" using d by simp_all
  obtain h' where "malloc_from (of_nat n) (if bs = [] then 0 else ad a) h = Some (ad r, h')" "chain h' 0 a ([] @ bs') 0"
      "only_headers (headers a ([] @ bs')) h h'" "malloc_head h' = malloc_head h"
    using malloc_from_refines [OF l(1) d(2) l(2) n _ r] by auto
  then show ?thesis
    using d(1-5) alloc_spec_total [OF r] alloc_spec_joined [OF r d(5)] by (simp add: malloc_def heap_ok_def)
qed

lemma free_ok:
  assumes h: "heap_ok a bs h" and p: "in_use p a bs = Some m"
  shows "heap_ok a (release_spec p a bs) (free (ad p) h)" "only_headers (headers a bs) h (free (ad p) h)"
proof -
  note d = heap_okD [OF h]
  obtain xs ys where s: "bs = xs @ (m + 4, False) # ys" "p = a + total_size xs + 4" using in_use_split [OF p d(7)] by blast
  have e: "release_spec p a bs = join (xs @ (m + 4, True) # ys)"
    unfolding release_spec_def s(1) using d(7) s by (subst mark_free_at) auto
  note f = free_at [OF d(6) [unfolded s(1)] d(2) d(4) [unfolded s(1)] refl d(5) [unfolded s(1)], folded s]
  show "heap_ok a (release_spec p a bs) (free (ad p) h)"
    unfolding heap_ok_def e using f(1,3) d(1,2,4) s(1) joined_join join_total by simp
  show "only_headers (headers a bs) h (free (ad p) h)" by (rule f(2))
qed

lemma malloc_init_ok:
  assumes "b \<noteq> 0" "unat b + 4 \<le> unat e"
  shows "heap_ok (unat b) [(unat e - unat b, True)] (malloc_init b e h)"
proof -
  have u: "ad (unat b) = b" by simp
  have "unat e < 65536" by simp
  then have d: "hdr (unat b) (unat b)" unfolding hdr_def using assms(2) by linarith
  have "ad (unat (e - b)) = e - b" by simp
  then have s: "ad (unat e - unat b) = e - b" using assms(2) by (simp add: unat_sub word_le_nat_alt)
  have f: "m_next (malloc_init b e h) b = 0" "m_prev (malloc_init b e h) b = 0" "m_size (malloc_init b e h) b = e - b"
    "m_isFree (malloc_init b e h) b = 1" "malloc_head (malloc_init b e h) = b"
    using field_set [OF d] unfolding u malloc_init_def Let_def by simp_all
  have "0 < unat b" using assms(1) by (simp add: unat_gt_0)
  then show ?thesis using assms(2) \<open>unat e < 65536\<close> f s unfolding heap_ok_def by (simp add: joined_def)
qed

text \<open>A client's requests: space for a number of words, or the release of a block it has.\<close>

datatype heap_op = Alloc nat | Release nat

fun heap_exec :: "heap_op \<Rightarrow> heap \<Rightarrow> (u16 \<times> heap) option" where
  "heap_exec (Alloc n) h = malloc (of_nat n) h"
| "heap_exec (Release p) h = Some (0, free (of_nat p) h)"

fun spec_exec :: "nat \<Rightarrow> heap_op \<Rightarrow> blocks \<Rightarrow> (nat \<times> blocks) option" where
  "spec_exec a (Alloc n) bs = (if n + 8 < 65536 then Some (alloc_spec n a bs) else None)"
| "spec_exec a (Release p) bs = (if in_use p a bs = None then None else Some (0, release_spec p a bs))"

primrec heap_run :: "heap_op list \<Rightarrow> heap \<Rightarrow> (u16 list \<times> heap) option" where
  "heap_run [] h = Some ([], h)"
| "heap_run (r # rs) h = do { (p, h) \<leftarrow> heap_exec r h; (ps, h) \<leftarrow> heap_run rs h; Some (p # ps, h) }"

primrec spec_run :: "nat \<Rightarrow> heap_op list \<Rightarrow> blocks \<Rightarrow> (nat list \<times> blocks) option" where
  "spec_run a [] bs = Some ([], bs)"
| "spec_run a (r # rs) bs = do { (p, bs) \<leftarrow> spec_exec a r bs; (ps, bs) \<leftarrow> spec_run a rs bs; Some (p # ps, bs) }"

lemma heap_exec_ok:
  assumes "heap_ok a bs h" "spec_exec a r bs = Some (p, bs')"
  shows "\<exists>h'. heap_exec r h = Some (ad p, h') \<and> heap_ok a bs' h'"
proof (cases r)
  case (Alloc n)
  then have "n + 8 < 65536" "alloc_spec n a bs = (p, bs')" using assms(2) by (auto split: if_splits)
  then show ?thesis using malloc_ok [OF assms(1)] Alloc by fastforce
next
  case (Release q)
  then show ?thesis using free_ok(1) [OF assms(1)] assms(2) by (auto split: if_splits)
qed

lemma heap_run_ok:
  "heap_ok a bs h \<Longrightarrow> spec_run a rs bs = Some (ps, bs') \<Longrightarrow> \<exists>h'. heap_run rs h = Some (map ad ps, h') \<and> heap_ok a bs' h'"
proof (induction rs arbitrary: bs h ps)
  case (Cons r rs)
  obtain p bs1 ps1 where s: "spec_exec a r bs = Some (p, bs1)" "spec_run a rs bs1 = Some (ps1, bs')" "ps = p # ps1"
    using Cons.prems(2) by (auto split: bind_splits)
  obtain h1 where "heap_exec r h = Some (ad p, h1)" "heap_ok a bs1 h1" using heap_exec_ok [OF Cons.prems(1) s(1)] by blast
  then show ?case using Cons.IH [OF _ s(2)] s(3) by fastforce
qed simp

text \<open>The first free block: its address and its size.\<close>

fun first_free :: "nat \<Rightarrow> blocks \<Rightarrow> (nat \<times> nat) option" where
  "first_free a [] = None"
| "first_free a ((s, f) # bs) = (if f then Some (a, s) else first_free (a + s) bs)"

lemma alloc_spec_first:
  "first_free a bs = Some (b, s) \<Longrightarrow> s > n + 8 \<Longrightarrow> fst (alloc_spec n a bs) = b + 4"
  "first_free a bs = Some (b, s) \<Longrightarrow> \<not> s > n + 8 \<Longrightarrow> alloc_spec n a bs = (if s \<ge> n + 4 then b + 4 else 0, bs)"
  "first_free a bs = None \<Longrightarrow> alloc_spec n a bs = (0, bs)"
  by (induction a bs rule: first_free.induct) (auto split: if_splits prod.splits)

lemma alloc_spec_fresh:
  "first_free a bs = Some (b, s) \<Longrightarrow> s > n + 8 \<Longrightarrow> alloc_spec n a bs = (r, bs') \<Longrightarrow> \<forall>b\<in>set bs. 4 \<le> fst b \<Longrightarrow>
    in_use r a bs' = Some n \<and> in_use r a bs = None"
proof (induction a bs arbitrary: r bs' rule: first_free.induct)
  case (2 a t f bs)
  show ?case
  proof (cases f)
    case True
    then show ?thesis using 2 in_use_ge [of "a + 4" "a + t" bs] by (cases "in_use (a + 4) (a + t) bs") auto
  next
    case False
    obtain bs2 where q: "alloc_spec n (a + t) bs = (r, bs2)" "bs' = (t, False) # bs2" using 2(4) False by (auto split: prod.splits)
    have u: "in_use r (a + t) bs2 = Some n" "in_use r (a + t) bs = None" using 2(1) [OF False _ 2(3) q(1)] 2(2,5) False by auto
    have "a + t + 4 \<le> r" by (rule in_use_ge [OF u(1)])
    then show ?thesis using u q(2) 2(5) by simp
  qed
qed simp

lemma release_fresh:
  "first_free a bs = Some (b, s) \<Longrightarrow> s > n + 8 \<Longrightarrow> alloc_spec n a bs = (r, bs') \<Longrightarrow> \<forall>b\<in>set bs. 4 \<le> fst b \<Longrightarrow>
    joined bs \<Longrightarrow> release_spec r a bs' = bs"
proof (induction a bs arbitrary: r bs' rule: first_free.induct)
  case (2 a t f bs)
  show ?case
  proof (cases f)
    case True
    then have "t = s" "b = a" using 2(2) by auto
    then have "release_spec r a bs' = join ((s, True) # bs)" using 2(3,4) True by (auto simp: release_spec_def)
    then show ?thesis using join_joined [OF 2(6)] True \<open>t = s\<close> by simp
  next
    case False
    obtain bs2 where q: "alloc_spec n (a + t) bs = (r, bs2)" "bs' = (t, False) # bs2" using 2(4) False by (auto split: prod.splits)
    have o: "first_free (a + t) bs = Some (b, s)" "\<forall>b\<in>set bs. 4 \<le> fst b" "joined bs" using 2(2,5,6) False by (auto simp: joined_Cons)
    have "a + t + 4 \<le> r" using in_use_ge alloc_spec_fresh [OF o(1) 2(3) q(1) o(2)] by blast
    then show ?thesis using 2(1) [OF False o(1) 2(3) q(1) o(2,3)] False q(2) 2(5) by (auto simp: release_spec_def)
  qed
qed simp

section \<open>Properties\<close>

text \<open>
  C19. The allocator is its specification on the list of blocks: from a fresh heap, any sequence of
  allocations and releases of blocks in use returns the pointers the specification gives, always
  returns, and leaves a well-formed list that holds the blocks of the specification, which fill the
  heap without gaps and of which no two neighbours are free.
\<close>

theorem heap_refines:
  assumes "b \<noteq> 0" "unat b + 4 \<le> unat e" "spec_run (unat b) rs [(unat e - unat b, True)] = Some (ps, bs)"
  shows "\<exists>h'. heap_run rs (malloc_init b e h) = Some (map ad ps, h') \<and> heap_ok (unat b) bs h'"
  using heap_run_ok [OF malloc_init_ok [OF assms(1,2)] assms(3)] .

text \<open>Three blocks are allocated, the middle one and then the first are released, and their space is given out again.\<close>

abbreviation empty_heap :: heap where "empty_heap \<equiv> \<lparr>h_mem = (\<lambda>_. 0), malloc_head = 0\<rparr>"

theorem heap_refines_witness:
  "\<exists>h'. heap_run [Alloc 10, Alloc 20, Alloc 30, Release 1018, Release 1004, Alloc 25] (malloc_init 1000 2000 empty_heap) =
       Some ([1004, 1018, 1042, 0, 0, 1004], h') \<and>
     heap_ok 1000 [(29, False), (9, True), (34, False), (928, True)] h'"
  using heap_refines [of 1000 2000 "[Alloc 10, Alloc 20, Alloc 30, Release 1018, Release 1004, Alloc 25]"
      "[1004, 1018, 1042, 0, 0, 1004]" "[(29, False), (9, True), (34, False), (928, True)]" empty_heap]
  by (simp add: release_spec_def)

text \<open>
  C20. An allocation served from a block with room to spare for another header gives a block of its
  own: it was not in use, the \<open>n\<close> words behind the pointer overlap no block in use, and the words of
  all blocks in use keep their contents.
\<close>

theorem malloc_fresh:
  assumes h: "heap_ok a bs h" and f: "first_free a bs = Some (b, s)" "n + 8 < s"
  shows "\<exists>h' bs'. malloc (of_nat n) h = Some (ad (b + 4), h') \<and> heap_ok a bs' h' \<and> in_use (b + 4) a bs = None \<and>
    in_use (b + 4) a bs' = Some n \<and>
    (\<forall>p m. in_use p a bs = Some m \<longrightarrow> in_use p a bs' = Some m \<and> (p + m \<le> b + 4 \<or> b + 4 + n \<le> p) \<and>
       (\<forall>k<m. h_mem h' (ad (p + k)) = h_mem h (ad (p + k))))"
proof -
  note d = heap_okD [OF h]
  obtain r bs' where r: "alloc_spec n a bs = (r, bs')" by fastforce
  have rb: "r = b + 4" using alloc_spec_first(1) [OF f] r by simp
  have s: "s \<le> total_size bs" using f(1) by (induction a bs rule: first_free.induct) (auto split: if_splits)
  then have "n + 8 < 65536" using f(2) d(4) by simp
  then obtain h' where h': "malloc (of_nat n) h = Some (ad r, h')" "heap_ok a bs' h'" "only_headers (headers a bs') h h'"
    using malloc_ok [OF h _ r] by blast
  note d' = heap_okD [OF h'(2)]
  have u: "in_use r a bs' = Some n" "in_use r a bs = None" using alloc_spec_fresh [OF f r d(7)] by simp_all
  have old: "in_use p a bs' = Some m \<and> (p + m \<le> r \<or> r + n \<le> p) \<and> (\<forall>k<m. h_mem h' (ad (p + k)) = h_mem h (ad (p + k)))"
    if p: "in_use p a bs = Some m" for p m
  proof -
    have p': "in_use p a bs' = Some m" by (rule alloc_spec_in_use [OF r p])
    have "p \<noteq> r" using p u(2) by auto
    moreover have "h_mem h' (ad (p + k)) = h_mem h (ad (p + k))" if "k < m" for k
      using data_kept [OF h'(3) p' that _ header_apart [OF p' d'(7)] d'(8)] in_use_bound [OF p' d'(7)] d'(4) by simp
    ultimately show ?thesis using in_use_apart [OF p' u(1) d'(7)] p' by blast
  qed
  show ?thesis using h' u old unfolding rb by blast
qed

theorem malloc_fresh_witness:
  "\<exists>h h'. malloc 10 (malloc_init 1000 2000 empty_heap) = Some (1004, h) \<and> malloc 20 h = Some (1018, h') \<and>
     h_mem h' 1004 = h_mem h 1004"
proof -
  have i: "heap_ok 1000 [(1000, True)] (malloc_init 1000 2000 empty_heap)" using malloc_init_ok [of 1000 2000 empty_heap] by simp
  obtain h where h: "malloc 10 (malloc_init 1000 2000 empty_heap) = Some (1004, h)" "heap_ok 1000 [(14, False), (986, True)] h"
    using malloc_ok [OF i, of 10] by auto
  have u: "in_use 1004 1000 [(14, False), (986, True)] = Some 10" by simp
  obtain h' where "malloc 20 h = Some (1018, h')" "h_mem h' 1004 = h_mem h 1004"
    using malloc_fresh [OF h(2), of 1014 986 20] u by fastforce
  then show ?thesis using h(1) by blast
qed

text \<open>
  C27. Releasing a block just allocated with room to spare gives back the list of blocks there was
  before the allocation.
\<close>

theorem malloc_free_roundtrip:
  assumes h: "heap_ok a bs h" and f: "first_free a bs = Some (b, s)" "n + 8 < s"
  shows "\<exists>h'. malloc (of_nat n) h = Some (ad (b + 4), h') \<and> heap_ok a bs (free (ad (b + 4)) h')"
proof -
  note d = heap_okD [OF h]
  obtain r bs' where r: "alloc_spec n a bs = (r, bs')" by fastforce
  have rb: "r = b + 4" using alloc_spec_first(1) [OF f] r by simp
  have s: "s \<le> total_size bs" using f(1) by (induction a bs rule: first_free.induct) (auto split: if_splits)
  then have "n + 8 < 65536" using f(2) d(4) by simp
  then obtain h' where h': "malloc (of_nat n) h = Some (ad r, h')" "heap_ok a bs' h'" using malloc_ok [OF h _ r] by blast
  have "in_use r a bs' = Some n" using alloc_spec_fresh [OF f r d(7)] by simp
  from free_ok(1) [OF h'(2) this] show ?thesis using h'(1) release_fresh [OF f r d(7,5)] unfolding rb by auto
qed

theorem malloc_free_roundtrip_witness:
  "\<exists>h'. malloc 30 (malloc_init 1000 2000 empty_heap) = Some (1004, h') \<and> heap_ok 1000 [(1000, True)] (free 1004 h')"
  using malloc_free_roundtrip [of 1000 "[(1000, True)]" "malloc_init 1000 2000 empty_heap" 1000 1000 30]
    malloc_init_ok [of 1000 2000 empty_heap] by simp

lemma malloc_from_first:
  "chain h q a bs 0 \<Longrightarrow> 0 < a \<Longrightarrow> a + total_size bs < 65536 \<Longrightarrow> first_free a bs = Some (b, s) \<Longrightarrow>
    malloc_from sz (ad a) h = malloc_from sz (ad b) h \<and> ad b \<noteq> (0 :: u16) \<and> s < 65536 \<and>
    m_isFree h (ad b) \<noteq> 0 \<and> m_size h (ad b) = of_nat s"
proof (induction a bs arbitrary: q rule: first_free.induct)
  case (2 a t f bs)
  have a0: "ad a \<noteq> (0 :: u16)" using ad_eq [of a 0] 2(3,4) by simp
  show ?case
  proof (cases f)
    case True
    then show ?thesis using 2(2,4,5) a0 by simp
  next
    case False
    then have bs: "bs \<noteq> []" using 2(5) by auto
    have "malloc_from sz (ad a) h = malloc_from sz (ad (a + t)) h"
      using 2(2) False bs a0 by (subst malloc_from.simps) simp
    then show ?thesis using 2(1) [OF False, of "ad a"] 2(2-5) False by (simp add: add.assoc)
  qed
qed simp

text \<open>
  C37. Where the first free block fits without room for another header, \<^verbatim>\<open>malloc\<close> returns it but leaves
  it marked free, so the next request of that size is given the same words again; and where the first
  free block is too small the request fails, whatever the blocks behind it.
\<close>

theorem malloc_exact_fit:
  assumes h: "heap_ok a bs h" and f: "first_free a bs = Some (b, s)" "s \<le> n + 8" "n + 8 < 65536"
  shows "malloc (of_nat n) h = Some (if n + 4 \<le> s then ad (b + 4) else 0, h)"
proof -
  note d = heap_okD [OF h]
  have m: "malloc_from (of_nat n) (ad a) h = malloc_from (of_nat n) (ad b) h" "ad b \<noteq> (0 :: u16)" "s < 65536"
    "m_isFree h (ad b) \<noteq> 0" "m_size h (ad b) = of_nat s"
    using malloc_from_first [OF d(6,2,4) f(1)] by blast+
  have "ad b + MARKER = ad (b + 4)" by (simp add: of_nat_add)
  then show ?thesis
    using m(2,4,5) word_bounds [OF m(3) f(3)] f(2) unfolding malloc_def d(1) m(1) by (subst malloc_from.simps) simp
qed

text \<open>A heap of a thousand words hands out the same block twice when asked for all of it.\<close>

theorem malloc_exact_fit_witness:
  "malloc 996 (malloc_init 1000 2000 empty_heap) = Some (1004, malloc_init 1000 2000 empty_heap)"
  using malloc_exact_fit [of 1000 "[(1000, True)]" "malloc_init 1000 2000 empty_heap" 1000 1000 996]
    malloc_init_ok [of 1000 2000 empty_heap] by simp

text \<open>\<^verbatim>\<open>realloc\<close> replaces the size asked for by the old one: it never grows or shrinks a block.\<close>

lemma realloc_ignores_size: "ptr \<noteq> 0 \<Longrightarrow> n \<noteq> 0 \<Longrightarrow> m \<noteq> 0 \<Longrightarrow> realloc ptr n h = realloc ptr m h"
  by (simp add: realloc_def Let_def)

end
