(* ===== verification/Stdio.thy ===== *)
theory Stdio
  imports KPrelude
begin

text \<open>
  The buffered streams of the C library, \<^verbatim>\<open>libc/c/stdio.c\<close>.  The pointers of a \<^verbatim>\<open>FILE\<close> are
  offsets from the start of its buffer.  The system calls and the results of \<^verbatim>\<open>malloc\<close> are arguments of the functions that use
  them: \<open>wr\<close> is \<^verbatim>\<open>actual_write\<close>, \<open>rd\<close> is \<^verbatim>\<open>read\<close>, \<open>op\<close> and \<open>cl\<close> are \<^verbatim>\<open>open\<close> and \<^verbatim>\<open>close\<close>, on a
  state \<open>'s\<close> of the rest of the system; \<^verbatim>\<open>write\<close> is that of \<^verbatim>\<open>libc/c/syscalls.c\<close>.  The \<^verbatim>\<open>lseek\<close> of
  \<^verbatim>\<open>libc/c/lseek.c\<close> is a stub that prints a message and returns 0; the message is left out.  \<^verbatim>\<open>__MODE_IOTRAN\<close> is 0,
  so the code it guards is not compiled.  Flushing all streams at once and \<^verbatim>\<open>freopen\<close> are not modelled.
\<close>

abbreviation IOLBF :: u16 where "IOLBF \<equiv> 0x01"
abbreviation IONBF :: u16 where "IONBF \<equiv> 0x02"
abbreviation MODE_BUF :: u16 where "MODE_BUF \<equiv> 0x03"
abbreviation MODE_FREEBUF :: u16 where "MODE_FREEBUF \<equiv> 0x04"
abbreviation MODE_FREEFIL :: u16 where "MODE_FREEFIL \<equiv> 0x08"
abbreviation MODE_READ :: u16 where "MODE_READ \<equiv> 0x10"
abbreviation MODE_WRITE :: u16 where "MODE_WRITE \<equiv> 0x20"
abbreviation MODE_READING :: u16 where "MODE_READING \<equiv> 0x40"
abbreviation MODE_WRITING :: u16 where "MODE_WRITING \<equiv> 0x80"
abbreviation MODE_EOF :: u16 where "MODE_EOF \<equiv> 0x100"
abbreviation MODE_ERR :: u16 where "MODE_ERR \<equiv> 0x200"
abbreviation MODE_UNGOT :: u16 where "MODE_UNGOT \<equiv> 0x400"
abbreviation EOF :: u16 where "EOF \<equiv> - 1"
abbreviation BUFSIZ :: nat where "BUFSIZ \<equiv> 256"
abbreviation UNBUF_SIZE :: nat where "UNBUF_SIZE \<equiv> 8"
abbreviation EINTR :: u16 where "EINTR \<equiv> 4"

record stream =
  bufpos :: nat
  bufread :: nat
  bufwrite :: nat
  bufend :: nat
  sfd :: u16
  smode :: u16
  sbuf :: buf

text \<open>
  A program: its streams by pointer, \<^verbatim>\<open>stdin\<close>, \<^verbatim>\<open>stdout\<close> and \<^verbatim>\<open>stderr\<close> at 0, 1 and 2, those of
  \<^verbatim>\<open>__IO_list\<close>, \<^verbatim>\<open>errno\<close>, and the system.
\<close>

record 's prog =
  streams :: "nat \<Rightarrow> stream"
  errno :: u16
  io_list :: "nat list"
  os :: 's

abbreviation stdin :: nat where "stdin \<equiv> 0"
abbreviation stdout :: nat where "stdout \<equiv> 1"
abbreviation stderr :: nat where "stderr \<equiv> 2"

type_synonym 's write_call = "u16 \<Rightarrow> u16 list \<Rightarrow> u16 \<Rightarrow> 's \<Rightarrow> (u16 \<times> 's) option"
type_synonym 's read_call = "u16 \<Rightarrow> u16 \<Rightarrow> 's \<Rightarrow> (u16 list \<times> 's) option"

definition has :: "u16 \<Rightarrow> u16 \<Rightarrow> bool" where
  "has m f \<longleftrightarrow> m AND f \<noteq> 0"

text \<open>The test \<^verbatim>\<open>(v & (want | EOF | ERR)) == want\<close> of a stream that must not be at its end or in error.\<close>

definition can :: "u16 \<Rightarrow> u16 \<Rightarrow> bool" where
  "can want v \<longleftrightarrow> v AND (want OR MODE_EOF OR MODE_ERR) = want"

text \<open>The modes after a flush and after the buffer has been filled.\<close>

definition flushed :: "u16 \<Rightarrow> u16" where
  "flushed m = m AND NOT (MODE_READING OR MODE_WRITING OR MODE_EOF OR MODE_UNGOT)"

definition filled :: "u16 \<Rightarrow> u16" where
  "filled m = (m OR MODE_READING) AND NOT MODE_UNGOT"

definition stream_upd :: "nat \<Rightarrow> (stream \<Rightarrow> stream) \<Rightarrow> 's prog \<Rightarrow> 's prog" where
  "stream_upd fp g u = u\<lparr>streams := (streams u)(fp := g (streams u fp))\<rparr>"

section \<open>Calls of the system\<close>

text \<open>The loop of \<^verbatim>\<open>write\<close> on the words still to be written and their number; the result is that number in the end.\<close>

partial_function (option) write_loop :: "'s write_call \<Rightarrow> u16 \<Rightarrow> u16 list \<Rightarrow> u16 \<Rightarrow> 's \<Rightarrow> (u16 \<times> 's) option" where
  "write_loop wr fd ws n s =
     (if n \<noteq> 0 then do {
        (write_now, s1) \<leftarrow> wr fd ws n s;
        if write_now = 0 then Some (n, s1)
        else write_loop wr fd (drop (unat write_now) ws) (n - write_now) s1 }
      else Some (n, s))"

definition libc_write :: "'s write_call \<Rightarrow> u16 \<Rightarrow> u16 list \<Rightarrow> u16 \<Rightarrow> 's \<Rightarrow> (u16 \<times> 's) option" where
  "libc_write wr fd ws count s = do { (n, s1) \<leftarrow> write_loop wr fd ws count s; Some (count - n, s1) }"

definition lseek :: "u16 \<Rightarrow> int \<Rightarrow> u16 \<Rightarrow> int" where
  "lseek fd offset mode = 0"

section \<open>Flushing\<close>

text \<open>The loop over a full buffer; the result is the number of words left.\<close>

partial_function (option) flush_loop :: "'s write_call \<Rightarrow> u16 \<Rightarrow> u16 \<Rightarrow> u16 list \<Rightarrow> u16 \<Rightarrow> 's \<Rightarrow> (u16 \<times> 's) option" where
  "flush_loop wr err fd ws len s = do {
     (cc, s1) \<leftarrow> libc_write wr fd ws len s;
     let ws1 = (if 0 < sint cc then drop (unat cc) ws else ws);
     let len1 = (if 0 < sint cc then len - cc else len);
     if 0 < sint len1 \<and> (0 < sint cc \<or> cc = - 1 \<and> err = EINTR) then flush_loop wr err fd ws1 len1 s1
     else Some (len1, s1) }"

definition fflush :: "'s write_call \<Rightarrow> nat \<Rightarrow> 's prog \<Rightarrow> (u16 \<times> 's prog) option" where
  "fflush wr fp u = do {
     let f = streams u fp;
     let len = (of_nat (bufpos f) :: u16);
     (rv, m, s) \<leftarrow> (if has (smode f) MODE_WRITING \<and> len \<noteq> 0 then do {
         (left, s) \<leftarrow> flush_loop wr (errno u) (sfd f) (slice (sbuf f) 0 (bufpos f)) len (os u);
         Some (if left \<noteq> 0 then (EOF, smode f OR MODE_ERR, s) else (0, smode f, s)) }
       else Some (0, smode f, os u));
     Some (rv, (stream_upd fp (\<lambda>f. f\<lparr>
       smode := flushed m, bufread := 0, bufwrite := 0, bufpos := 0\<rparr>) u)\<lparr>os := s\<rparr>) }"

section \<open>Writing\<close>

definition fputc :: "'s write_call \<Rightarrow> u16 \<Rightarrow> nat \<Rightarrow> 's prog \<Rightarrow> (u16 \<times> 's prog) option" where
  "fputc wr ch fp u = do {
     (r0, u0) \<leftarrow> (if has (smode (streams u fp)) MODE_READING then fflush wr fp u else Some (0, u));
     let v = smode (streams u0 fp);
     if r0 \<noteq> 0 \<or> \<not> can MODE_WRITE v then Some (EOF, u0)
     else do {
       (r1, u1) \<leftarrow> (if bufend (streams u0 fp) \<le> bufpos (streams u0 fp) then fflush wr fp u0 else Some (0, u0));
       if r1 \<noteq> 0 then Some (EOF, u1)
       else do {
         require (bufpos (streams u1 fp) < bufend (streams u1 fp));
         let u2 = stream_upd fp (\<lambda>f. f\<lparr>sbuf := (sbuf f)(bufpos f := ch), bufpos := bufpos f + 1, smode := smode f OR MODE_WRITING\<rparr>) u1;
         (r2, u3) \<leftarrow> (if ch = 10 \<and> has v IOLBF \<or> has v IONBF then fflush wr fp u2 else Some (0, u2));
         if r2 \<noteq> 0 then Some (EOF, u3)
         else Some (ch, stream_upd fp (\<lambda>f. f\<lparr>bufwrite := (if has v (IOLBF OR IONBF) then 0 else bufend f)\<rparr>) u3) } } }"

definition putc :: "'s write_call \<Rightarrow> u16 \<Rightarrow> nat \<Rightarrow> 's prog \<Rightarrow> (u16 \<times> 's prog) option" where
  "putc wr c fp u =
     (if bufwrite (streams u fp) \<le> bufpos (streams u fp) then fputc wr c fp u
      else Some (c, stream_upd fp (\<lambda>f. f\<lparr>sbuf := (sbuf f)(bufpos f := c), bufpos := bufpos f + 1\<rparr>) u))"

fun fputs_loop :: "'s write_call \<Rightarrow> u16 list \<Rightarrow> nat \<Rightarrow> u16 \<Rightarrow> 's prog \<Rightarrow> (u16 \<times> 's prog) option" where
  "fputs_loop wr [] fp n u = None"
| "fputs_loop wr (c # str) fp n u =
     (if c = 0 then Some (n, u)
      else do {
        (r, u1) \<leftarrow> putc wr c fp u;
        if r = EOF then Some (EOF, u1) else fputs_loop wr str fp (n + 1) u1 })"

definition fputs :: "'s write_call \<Rightarrow> u16 list \<Rightarrow> nat \<Rightarrow> 's prog \<Rightarrow> (u16 \<times> 's prog) option" where
  "fputs wr str fp u = fputs_loop wr str fp 0 u"

definition puts :: "'s write_call \<Rightarrow> u16 list \<Rightarrow> 's prog \<Rightarrow> (u16 \<times> 's prog) option" where
  "puts wr str u = do {
     (n, u1) \<leftarrow> fputs wr str stdout u;
     if n = EOF then Some (EOF, u1)
     else do {
       (r, u2) \<leftarrow> putc wr 10 stdout u1;
       Some (if r = EOF then EOF else n + 1, u2) } }"

text \<open>The loop of \<^verbatim>\<open>fwrite\<close> for words that do not fit into the buffer; the result is the number left.\<close>

partial_function (option) fwrite_loop :: "'s write_call \<Rightarrow> u16 \<Rightarrow> u16 \<Rightarrow> u16 list \<Rightarrow> u16 \<Rightarrow> 's \<Rightarrow> (u16 \<times> u16 \<times> 's) option" where
  "fwrite_loop wr err fd ws bytes s = do {
     (len, s1) \<leftarrow> libc_write wr fd ws bytes s;
     if 0 < sint len then fwrite_loop wr err fd (drop (unat len) ws) (bytes - len) s1
     else if len = - 1 \<and> err = EINTR then fwrite_loop wr err fd ws bytes s1
     else Some (len, bytes, s1) }"

definition fwrite :: "'s write_call \<Rightarrow> u16 list \<Rightarrow> u16 \<Rightarrow> u16 \<Rightarrow> nat \<Rightarrow> 's prog \<Rightarrow> (u16 \<times> 's prog) option" where
  "fwrite wr ws sz nelm fp u = do {
     (r0, u0) \<leftarrow> (if has (smode (streams u fp)) MODE_READING then fflush wr fp u else Some (0, u));
     let v = smode (streams u0 fp);
     let bytes = sz * nelm;
     if r0 \<noteq> 0 \<or> \<not> can MODE_WRITE v then Some (0, u0)
     else do {
       let len = (of_nat (bufend (streams u0 fp) - bufpos (streams u0 fp)) :: u16);
       (r1, u1) \<leftarrow> (if len < bytes then fflush wr fp u0 else Some (0, u0));
       if r1 \<noteq> 0 then Some (0, u1)
       else do {
         let len = (of_nat (bufend (streams u1 fp) - bufpos (streams u1 fp)) :: u16);
         require (unat bytes \<le> length ws);
         if bytes \<le> len then do {
           let xs = take (unat bytes) ws;
           let u2 = stream_upd fp (\<lambda>f. f\<lparr>smode := smode f OR MODE_WRITING, sbuf := blit (sbuf f) (bufpos f) xs,
             bufpos := bufpos f + unat bytes\<rparr>) u1;
           (r2, u3) \<leftarrow> (if has v IOLBF \<and> 10 \<in> set xs \<or> has v IONBF then fflush wr fp u2 else Some (0, u2));
           Some (nelm, u3) }
         else do {
           (len, left, s) \<leftarrow> fwrite_loop wr (errno u1) (sfd (streams u1 fp)) ws bytes (os u1);
           let u2 = (if sint len < 0 then stream_upd fp (\<lambda>f. f\<lparr>smode := smode f OR MODE_ERR\<rparr>) u1 else u1);
           require (sz \<noteq> 0);
           Some ((bytes - left) div sz, u2\<lparr>os := s\<rparr>) } } } }"

section \<open>Reading\<close>

text \<open>\<^verbatim>\<open>fread\<close> also returns the words it has stored into the buffer of the caller.\<close>

definition fread :: "'s write_call \<Rightarrow> 's read_call \<Rightarrow> u16 \<Rightarrow> u16 \<Rightarrow> nat \<Rightarrow> 's prog \<Rightarrow> (u16 \<times> u16 list \<times> 's prog) option" where
  "fread wr rd sz nelm fp u = do {
     let v = smode (streams u fp);
     (r0, u0) \<leftarrow> (if has v MODE_WRITING then fflush wr fp u else Some (0, u));
     if \<not> can MODE_READ v then Some (0, [], u0)
     else do {
       let bytes = sz * nelm;
       let f = streams u0 fp;
       let len = (of_nat (bufread f) - of_nat (bufpos f) :: u16);
       if bytes \<le> len then
         Some (nelm, slice (sbuf f) (bufpos f) (unat bytes), stream_upd fp (\<lambda>f. f\<lparr>bufpos := bufpos f + unat bytes\<rparr>) u0)
       else do {
         let got = (if 0 < sint len then unat len else 0);
         (ws, s) \<leftarrow> rd (sfd f) (bytes - of_nat got) (os u0);
         let n = (of_nat (length ws) :: u16);
         let m = (if sint n < 0 then MODE_ERR else if n = 0 then MODE_EOF else 0);
         require (sz \<noteq> 0);
         Some ((of_nat got + (if sint n < 0 then 0 else n)) div sz, slice (sbuf f) (bufpos f) got @ ws,
           (stream_upd fp (\<lambda>f. f\<lparr>bufpos := bufpos f + got, smode := smode f OR m\<rparr>) u0)\<lparr>os := s\<rparr>) } } }"

definition fgetc :: "'s write_call \<Rightarrow> 's read_call \<Rightarrow> nat \<Rightarrow> 's prog \<Rightarrow> (u16 \<times> 's prog) option" where
  "fgetc wr rd fp u = do {
     (r0, u0) \<leftarrow> (if has (smode (streams u fp)) MODE_WRITING then fflush wr fp u else Some (0, u));
     if \<not> can MODE_READ (smode (streams u0 fp)) then Some (EOF, u0)
     else do {
       (more, u1) \<leftarrow> (if bufread (streams u0 fp) \<le> bufpos (streams u0 fp) then do {
           (r1, u1) \<leftarrow> (if fp = stdin \<and> 0 \<le> sint (sfd (streams u0 stdout)) \<and> has (smode (streams u0 stdout)) IOLBF
                        then fflush wr stdout u0 else Some (0, u0));
           (ch, ws, u2) \<leftarrow> fread wr rd 1 (of_nat (bufend (streams u1 fp))) fp
             (stream_upd fp (\<lambda>f. f\<lparr>bufpos := 0, bufread := 0\<rparr>) u1);
           let u3 = stream_upd fp (\<lambda>f. f\<lparr>sbuf := blit (sbuf f) 0 ws\<rparr>) u2;
           Some (if ch = 0 then (False, u3)
             else (True, stream_upd fp (\<lambda>f. f\<lparr>bufread := bufread f + unat ch,
               smode := filled (smode f)\<rparr>) u3)) }
         else Some (True, u0));
       if more then Some (sbuf (streams u1 fp) (bufpos (streams u1 fp)), stream_upd fp (\<lambda>f. f\<lparr>bufpos := bufpos f + 1\<rparr>) u1)
       else Some (EOF, u1) } }"

definition getc :: "'s write_call \<Rightarrow> 's read_call \<Rightarrow> nat \<Rightarrow> 's prog \<Rightarrow> (u16 \<times> 's prog) option" where
  "getc wr rd fp u =
     (let f = streams u fp in
      if bufread f \<le> bufpos f then fgetc wr rd fp u
      else Some (sbuf f (bufpos f), stream_upd fp (\<lambda>f. f\<lparr>bufpos := bufpos f + 1\<rparr>) u))"

text \<open>The loop of \<^verbatim>\<open>fgets\<close>: \<open>i\<close> words may still be stored behind those of \<open>acc\<close>; \<open>None\<close> is the null pointer.\<close>

primrec fgets_loop :: "'s write_call \<Rightarrow> 's read_call \<Rightarrow> nat \<Rightarrow> nat \<Rightarrow> u16 list \<Rightarrow> 's prog \<Rightarrow> (u16 list option \<times> 's prog) option" where
  "fgets_loop wr rd fp 0 acc u = Some (Some acc, u)"
| "fgets_loop wr rd fp (Suc i) acc u = do {
     (ch, u1) \<leftarrow> getc wr rd fp u;
     if ch = EOF then Some (if acc = [] then None else Some acc, u1)
     else if ch = 10 then Some (Some (acc @ [ch]), u1)
     else fgets_loop wr rd fp i (acc @ [ch]) u1 }"

definition fgets :: "'s write_call \<Rightarrow> 's read_call \<Rightarrow> u16 \<Rightarrow> nat \<Rightarrow> 's prog \<Rightarrow> (u16 list option \<times> 's prog) option" where
  "fgets wr rd count fp u = do {
     (r, u1) \<leftarrow> fgets_loop wr rd fp (unat (count - 1)) [] u;
     Some (case r of None \<Rightarrow> None | Some acc \<Rightarrow> if has (smode (streams u1 fp)) MODE_ERR then None else Some (acc @ [0]), u1) }"

definition ungetc :: "'s write_call \<Rightarrow> u16 \<Rightarrow> nat \<Rightarrow> 's prog \<Rightarrow> (u16 \<times> 's prog) option" where
  "ungetc wr c fp u = do {
     (r0, u0) \<leftarrow> (if has (smode (streams u fp)) MODE_WRITING then fflush wr fp u else Some (0, u));
     let f = streams u0 fp;
     if smode f AND (MODE_READ OR MODE_ERR) \<noteq> MODE_READ then Some (EOF, u0)
     else Some (if 0 < bufpos f then (c, stream_upd fp (\<lambda>f. f\<lparr>smode := smode f OR MODE_UNGOT, bufpos := bufpos f - 1,
           sbuf := (sbuf f)(bufpos f - 1 := c)\<rparr>) u0)
       else if bufread f = 0 then (c, stream_upd fp (\<lambda>f. f\<lparr>smode := smode f OR MODE_UNGOT, bufread := 1, sbuf := (sbuf f)(0 := c)\<rparr>) u0)
       else (EOF, stream_upd fp (\<lambda>f. f\<lparr>smode := smode f OR MODE_UNGOT\<rparr>) u0)) }"

section \<open>Positioning and buffers\<close>

abbreviation SEEK_SET :: u16 where "SEEK_SET \<equiv> 0"
abbreviation SEEK_CUR :: u16 where "SEEK_CUR \<equiv> 1"

definition fseek :: "'s write_call \<Rightarrow> nat \<Rightarrow> int \<Rightarrow> u16 \<Rightarrow> 's prog \<Rightarrow> (u16 \<times> 's prog) option" where
  "fseek wr fp offset ref u =
     (let f = streams u fp; fpos = lseek (sfd f) 0 SEEK_CUR;
          fast = smode f AND (MODE_READING OR MODE_UNGOT) = MODE_READING \<and> (ref = SEEK_SET \<or> ref = SEEK_CUR);
          offset' = (if fast \<and> ref = SEEK_CUR then fpos + offset + int (bufpos f) - int (bufread f) else offset);
          ref' = (if fast then SEEK_SET else ref) in
      if fast \<and> fpos = - 1 then Some (EOF, u)
      else if fast \<and> offset' < fpos \<and> fpos - int (bufread f) \<le> offset' then
        Some (0, stream_upd fp (\<lambda>f. f\<lparr>bufpos := nat (offset' - fpos + int (bufread f))\<rparr>) u)
      else do {
        (r, u1) \<leftarrow> fflush wr fp u;
        Some (if r = EOF \<or> lseek (sfd f) offset' ref' < 0 then EOF else 0, u1) })"

definition ftell :: "'s write_call \<Rightarrow> nat \<Rightarrow> 's prog \<Rightarrow> (int \<times> 's prog) option" where
  "ftell wr fp u = do {
     (r, u1) \<leftarrow> fflush wr fp u;
     Some (if r = EOF then - 1 else lseek (sfd (streams u1 fp)) 0 SEEK_CUR, u1) }"

definition rewind :: "'s write_call \<Rightarrow> nat \<Rightarrow> 's prog \<Rightarrow> 's prog option" where
  "rewind wr fp u = do {
     (r, u1) \<leftarrow> fseek wr fp 0 SEEK_SET u;
     Some (stream_upd fp (\<lambda>f. f\<lparr>smode := smode f AND NOT (MODE_EOF OR MODE_ERR)\<rparr>) u1) }"

section \<open>Opening and closing\<close>

definition std_stream :: "u16 \<Rightarrow> u16 \<Rightarrow> stream" where
  "std_stream fd m = \<lparr>bufpos = 0, bufread = 0, bufwrite = 0, bufend = BUFSIZ, sfd = fd, smode = m, sbuf = (\<lambda>_. 0)\<rparr>"

definition stdio_init_stdstreams :: "'s prog \<Rightarrow> 's prog" where
  "stdio_init_stdstreams u = u\<lparr>streams := (streams u)(stdin := std_stream 0 (IONBF OR MODE_READ),
     stdout := std_stream 1 (IOLBF OR MODE_WRITE), stderr := std_stream 2 (IOLBF OR MODE_WRITE))\<rparr>"

abbreviation O_ACCESS_RDWR :: u16 where "O_ACCESS_RDWR \<equiv> 2"
abbreviation O_ACCESS_WR :: u16 where "O_ACCESS_WR \<equiv> 1"
abbreviation O_ON_END :: u16 where "O_ON_END \<equiv> 4"
abbreviation O_ON_CREATE :: u16 where "O_ON_CREATE \<equiv> 256"
abbreviation O_ON_TRUNC :: u16 where "O_ON_TRUNC \<equiv> 1024"

text \<open>The letters of the mode: the mode of the stream and the flags for \<^verbatim>\<open>open\<close>.\<close>

fun fopen_modes :: "u16 list \<Rightarrow> u16 \<Rightarrow> u16 \<Rightarrow> (u16 \<times> u16) option" where
  "fopen_modes [] m k = None"
| "fopen_modes (c # cs) m k =
     (if c = 0 then Some (m, k)
      else if c = 114 then fopen_modes cs (m OR MODE_READ) k
      else if c = 119 then fopen_modes cs (m OR MODE_WRITE) (O_ON_CREATE OR O_ON_TRUNC)
      else if c = 97 then fopen_modes cs (m OR MODE_WRITE) (O_ON_CREATE OR O_ON_END)
      else if c = 43 then fopen_modes cs (m OR (MODE_READ OR MODE_WRITE)) k
      else fopen_modes cs m k)"

definition open_flags :: "u16 \<Rightarrow> u16 \<Rightarrow> u16 option" where
  "open_flags m k =
     (let a = m AND (MODE_READ OR MODE_WRITE) in
      if a = 0 then None else Some (k OR (if a = MODE_READ then 0 else if a = MODE_WRITE then O_ACCESS_WR else O_ACCESS_RDWR)))"

definition isatty :: "u16 \<Rightarrow> bool" where
  "isatty fd = False"

type_synonym 's open_call = "u16 list \<Rightarrow> u16 \<Rightarrow> 's \<Rightarrow> (u16 \<times> 's) option"
type_synonym 's close_call = "u16 \<Rightarrow> 's \<Rightarrow> (u16 \<times> 's) option"

text \<open>\<open>nfp\<close> is the new stream, \<open>has_buf\<close> tells whether there was memory for its buffer.\<close>

definition fopen :: "'s open_call \<Rightarrow> nat option \<Rightarrow> bool \<Rightarrow> u16 list \<Rightarrow> u16 list \<Rightarrow> 's prog \<Rightarrow> (nat option \<times> 's prog) option" where
  "fopen op nfp has_buf fname mode u = do {
     (m, k) \<leftarrow> fopen_modes mode 0 0;
     case open_flags m k of None \<Rightarrow> Some (None, u)
     | Some flags \<Rightarrow>
         (case nfp of None \<Rightarrow> Some (None, u)
          | Some fp \<Rightarrow> do {
              (fd, s) \<leftarrow> op fname flags (os u);
              if sint fd < 0 then Some (None, u\<lparr>os := s\<rparr>)
              else Some (Some fp, (stream_upd fp (\<lambda>f. f\<lparr>bufpos := 0, bufread := 0, bufwrite := 0,
                bufend := (if has_buf then BUFSIZ else UNBUF_SIZE), sfd := fd,
                smode := MODE_FREEFIL OR (if isatty fd then IOLBF else 0) OR (if has_buf then MODE_FREEBUF else 0) OR m\<rparr>) u)
                \<lparr>os := s, io_list := fp # io_list u\<rparr>) }) }"

text \<open>
  Taking a stream off the list: the pointer to the stream before it is never set, so the streams in front of it are
  taken off with it.
\<close>

definition io_unlink :: "nat \<Rightarrow> nat list \<Rightarrow> nat list" where
  "io_unlink fp l = (if fp \<in> set l then tl (dropWhile (\<lambda>q. q \<noteq> fp) l) else l)"

definition fclose :: "'s write_call \<Rightarrow> 's close_call \<Rightarrow> nat \<Rightarrow> 's prog \<Rightarrow> (u16 \<times> 's prog) option" where
  "fclose wr cl fp u = do {
     (res, u1) \<leftarrow> (if sfd (streams u fp) \<noteq> - 1 then do {
         (r, u1) \<leftarrow> fflush wr fp u;
         if r \<noteq> 0 then Some (None, u1)
         else do {
           (c, s) \<leftarrow> cl (sfd (streams u1 fp)) (os u1);
           Some (Some (if c \<noteq> 0 then EOF else 0), (stream_upd fp (\<lambda>f. f\<lparr>sfd := - 1\<rparr>) u1)\<lparr>os := s\<rparr>) } }
       else Some (Some 0, u));
     case res of None \<Rightarrow> Some (EOF, u1)
     | Some rv \<Rightarrow>
         (let m = smode (streams u1 fp);
              u2 = (if has m MODE_FREEBUF then stream_upd fp (\<lambda>f. f\<lparr>bufend := 0\<rparr>) u1 else u1);
              u3 = (if has m MODE_FREEFIL then u2\<lparr>io_list := io_unlink fp (io_list u2)\<rparr> else u2) in
          Some (rv, stream_upd fp (\<lambda>f. f\<lparr>smode := 0\<rparr>) u3)) }"

text \<open>The buffer given to \<^verbatim>\<open>setbuffer\<close> is its words and its size; that of \<^verbatim>\<open>setvbuf\<close> may come from \<^verbatim>\<open>malloc\<close>.\<close>

definition setbuffer :: "'s write_call \<Rightarrow> nat \<Rightarrow> (buf \<times> nat) option \<Rightarrow> 's prog \<Rightarrow> 's prog option" where
  "setbuffer wr fp b u = do {
     (r, u1) \<leftarrow> fflush wr fp u;
     Some (stream_upd fp (\<lambda>f. let m = smode f AND NOT (MODE_FREEBUF OR MODE_BUF) in
       (case b of None \<Rightarrow> f\<lparr>bufend := UNBUF_SIZE, smode := m OR IONBF\<rparr>
        | Some (ws, n) \<Rightarrow> f\<lparr>sbuf := ws, bufend := n, smode := m\<rparr>)\<lparr>bufpos := 0, bufread := 0, bufwrite := 0\<rparr>) u1) }"

definition setvbuf :: "'s write_call \<Rightarrow> nat \<Rightarrow> buf option \<Rightarrow> buf option \<Rightarrow> u16 \<Rightarrow> nat \<Rightarrow> 's prog \<Rightarrow> (u16 \<times> 's prog) option" where
  "setvbuf wr fp b new mode n u = do {
     (r, u1) \<leftarrow> fflush wr fp u;
     let n' = (if n = 0 then BUFSIZ else n);
     let chosen = (if mode = 0 \<or> mode = IOLBF then (case b of Some ws \<Rightarrow> Some (ws, 0) | None \<Rightarrow> map_option (\<lambda>ws. (ws, MODE_FREEBUF)) new) else None);
     let rv = (if (mode = 0 \<or> mode = IOLBF) \<and> chosen = None then EOF else 0);
     Some (rv, stream_upd fp (\<lambda>f. let m = smode f AND NOT (MODE_FREEBUF OR MODE_BUF) in
       (case chosen of None \<Rightarrow> f\<lparr>bufend := UNBUF_SIZE, smode := m OR IONBF\<rparr>
        | Some (ws, fl) \<Rightarrow> f\<lparr>sbuf := ws, bufend := n', smode := m OR fl OR mode\<rparr>)\<lparr>bufpos := 0, bufread := 0, bufwrite := 0\<rparr>) u1) }"

end
