(* ===== verification/Buffering.thy ===== *)
theory Buffering
  imports Stdio
begin

text \<open>
  The streams of the C library as what they stand for.  An output stream is the words written to its descriptor followed by
  those in its buffer, an input stream the words in its buffer followed by those still to be read.  The locales
  \<open>sink\<close> and \<open>source\<close> are what the library needs of the system calls on a descriptor.
\<close>

section \<open>Flags\<close>

lemma flag_bits:
  "bit (0x01 :: u16) n \<longleftrightarrow> n = 0" "bit (0x02 :: u16) n \<longleftrightarrow> n = 1" "bit (0x10 :: u16) n \<longleftrightarrow> n = 4" "bit (0x20 :: u16) n \<longleftrightarrow> n = 5"
  "bit (0x40 :: u16) n \<longleftrightarrow> n = 6" "bit (0x80 :: u16) n \<longleftrightarrow> n = 7" "bit (0x100 :: u16) n \<longleftrightarrow> n = 8" "bit (0x200 :: u16) n \<longleftrightarrow> n = 9"
  "bit (0x400 :: u16) n \<longleftrightarrow> n = 10"
proof -
  have e: "bit (2 ^ k :: u16) n \<longleftrightarrow> n = k" if "k < 16" for k using that by (auto simp: bit_exp_iff)
  show "bit (0x01 :: u16) n \<longleftrightarrow> n = 0" "bit (0x02 :: u16) n \<longleftrightarrow> n = 1" "bit (0x10 :: u16) n \<longleftrightarrow> n = 4" "bit (0x20 :: u16) n \<longleftrightarrow> n = 5"
    "bit (0x40 :: u16) n \<longleftrightarrow> n = 6" "bit (0x80 :: u16) n \<longleftrightarrow> n = 7" "bit (0x100 :: u16) n \<longleftrightarrow> n = 8" "bit (0x200 :: u16) n \<longleftrightarrow> n = 9"
    "bit (0x400 :: u16) n \<longleftrightarrow> n = 10"
    using e [of 0] e [of 1] e [of 4] e [of 5] e [of 6] e [of 7] e [of 8] e [of 9] e [of 10] by simp_all
qed

lemma has_bits:
  "has m IOLBF \<longleftrightarrow> bit m 0" "has m IONBF \<longleftrightarrow> bit m 1" "has m MODE_READING \<longleftrightarrow> bit m 6" "has m MODE_WRITING \<longleftrightarrow> bit m 7"
  "has m MODE_EOF \<longleftrightarrow> bit m 8" "has m MODE_ERR \<longleftrightarrow> bit m 9"
proof -
  have e: "m AND 2 ^ k \<noteq> 0 \<longleftrightarrow> bit m k" for k by (simp add: and_exp_eq_0_iff_not_bit)
  show "has m IOLBF \<longleftrightarrow> bit m 0" "has m IONBF \<longleftrightarrow> bit m 1" "has m MODE_READING \<longleftrightarrow> bit m 6" "has m MODE_WRITING \<longleftrightarrow> bit m 7"
    "has m MODE_EOF \<longleftrightarrow> bit m 8" "has m MODE_ERR \<longleftrightarrow> bit m 9"
    unfolding has_def using e [of 0] e [of 1] e [of 6] e [of 7] e [of 8] e [of 9] by simp_all
qed

lemma has_buf: "has m (IOLBF OR IONBF) \<longleftrightarrow> bit m 0 \<or> bit m 1"
proof -
  have b: "bit (m AND (IOLBF OR IONBF)) n \<longleftrightarrow> bit m n \<and> (n = 0 \<or> n = 1)" for n by (simp only: bit_and_iff bit_or_iff flag_bits)
  have "m AND (IOLBF OR IONBF) = 0 \<longleftrightarrow> (\<forall>n. \<not> bit (m AND (IOLBF OR IONBF)) n)" by (metis bit_0_eq bit_eqI bot_apply bot_bool_def)
  then show ?thesis unfolding has_def b by blast
qed

lemma can_bits: "can MODE_WRITE m \<longleftrightarrow> bit m 5 \<and> \<not> bit m 8 \<and> \<not> bit m 9" "can MODE_READ m \<longleftrightarrow> bit m 4 \<and> \<not> bit m 8 \<and> \<not> bit m 9"
proof -
  have b: "bit (m AND (MODE_WRITE OR MODE_EOF OR MODE_ERR)) n \<longleftrightarrow> bit m n \<and> (n = 5 \<or> n = 8 \<or> n = 9)"
    "bit (m AND (MODE_READ OR MODE_EOF OR MODE_ERR)) n \<longleftrightarrow> bit m n \<and> (n = 4 \<or> n = 8 \<or> n = 9)" for n
    by (simp_all only: bit_and_iff bit_or_iff flag_bits)
  show "can MODE_WRITE m \<longleftrightarrow> bit m 5 \<and> \<not> bit m 8 \<and> \<not> bit m 9"
    unfolding can_def bit_eq_iff [of "m AND _"] b flag_bits
    by (rule iffI, frule spec [of _ 5], frule spec [of _ 8], drule spec [of _ 9]) auto
  show "can MODE_READ m \<longleftrightarrow> bit m 4 \<and> \<not> bit m 8 \<and> \<not> bit m 9"
    unfolding can_def bit_eq_iff [of "m AND _"] b flag_bits
    by (rule iffI, frule spec [of _ 4], frule spec [of _ 8], drule spec [of _ 9]) auto
qed

lemma mode_bits:
  "bit (m OR MODE_WRITING) k \<longleftrightarrow> bit m k \<or> k = 7" "bit (m OR MODE_EOF) k \<longleftrightarrow> bit m k \<or> k = 8"
  "bit (flushed m) k \<longleftrightarrow> bit m k \<and> k \<noteq> 6 \<and> k \<noteq> 7 \<and> k \<noteq> 8 \<and> k \<noteq> 10"
  "bit (filled m) k \<longleftrightarrow> (bit m k \<or> k = 6) \<and> k \<noteq> 10"
  using bit_imp_le_length [of m k] by (simp_all only: flushed_def filled_def bit_and_iff bit_or_iff bit_not_iff flag_bits possible_bit_word) auto

section \<open>Output\<close>

text \<open>
  What \<^verbatim>\<open>write\<close> needs of the system call: as long as there is room it takes a non-empty prefix of the words,
  which are then behind those written before; \<open>lim\<close> is the largest request it serves.
\<close>

locale sink =
  fixes wr :: "'s write_call" and fd :: u16 and lim :: nat and room :: "nat \<Rightarrow> 's \<Rightarrow> bool" and written :: "'s \<Rightarrow> u16 list"
  assumes wr_some: "room k s \<Longrightarrow> n \<noteq> 0 \<Longrightarrow> unat n \<le> k \<Longrightarrow> unat n \<le> length ws \<Longrightarrow> unat n \<le> lim \<Longrightarrow>
      \<exists>j s'. wr fd ws n s = Some (j, s') \<and> 0 < unat j \<and> unat j \<le> unat n \<and> room (k - unat j) s' \<and> written s' = written s @ take (unat j) ws"
    and lim: "lim < 32768"

text \<open>An output stream on descriptor \<open>d\<close> and the words it stands for; \<open>w\<close> are those written.\<close>

definition writer :: "u16 \<Rightarrow> nat \<Rightarrow> stream \<Rightarrow> bool" where
  "writer d lim f \<longleftrightarrow> sfd f = d \<and> can MODE_WRITE (smode f) \<and> \<not> has (smode f) MODE_READING \<and> bufpos f \<le> bufend f \<and> 0 < bufend f \<and>
     bufend f \<le> lim \<and> (0 < bufpos f \<longrightarrow> has (smode f) MODE_WRITING) \<and>
     (bufpos f < bufwrite f \<longrightarrow> bufwrite f = bufend f \<and> has (smode f) MODE_WRITING)"

definition outgoing :: "('s \<Rightarrow> u16 list) \<Rightarrow> nat \<Rightarrow> 's prog \<Rightarrow> u16 list" where
  "outgoing w fp u = w (os u) @ slice (sbuf (streams u fp)) 0 (bufpos (streams u fp))"

lemma stream_upd_simps [simp]:
  "streams (stream_upd fp g u) = (streams u)(fp := g (streams u fp))" "os (stream_upd fp g u) = os u" "errno (stream_upd fp g u) = errno u"
  by (simp_all add: stream_upd_def)

context sink
begin

lemma write_loop_all:
  "room k s \<Longrightarrow> unat n \<le> k \<Longrightarrow> unat n \<le> length ws \<Longrightarrow> unat n \<le> lim \<Longrightarrow>
   \<exists>s'. write_loop wr fd ws n s = Some (0, s') \<and> room (k - unat n) s' \<and> written s' = written s @ take (unat n) ws"
proof (induction "unat n" arbitrary: n ws k s rule: less_induct)
  case less
  show ?case
  proof (cases "n = 0")
    case True
    then show ?thesis using less.prems(1) by (subst write_loop.simps) simp
  next
    case False
    obtain j s1 where j: "wr fd ws n s = Some (j, s1)" "0 < unat j" "unat j \<le> unat n" "room (k - unat j) s1"
      "written s1 = written s @ take (unat j) ws" using wr_some [OF less.prems(1) False less.prems(2-4)] by blast
    have u: "unat (n - j) = unat n - unat j" using j(3) by (simp add: unat_sub word_le_nat_alt)
    have l: "unat (n - j) < unat n" "unat (n - j) \<le> k - unat j" "unat (n - j) \<le> length (drop (unat j) ws)" "unat (n - j) \<le> lim"
      using u j(2,3) less.prems(2-4) by auto
    obtain s' where s': "write_loop wr fd (drop (unat j) ws) (n - j) s1 = Some (0, s')" "room (k - unat j - unat (n - j)) s'"
      "written s' = written s1 @ take (unat (n - j)) (drop (unat j) ws)" using less.hyps [OF l(1) j(4) l(2-4)] by blast
    have "take (unat j) ws @ take (unat (n - j)) (drop (unat j) ws) = take (unat n) ws"
      using take_add [of "unat j" "unat n - unat j" ws] j(3) by (simp add: u)
    moreover have "k - unat j - unat (n - j) = k - unat n" using j(3) by (simp add: u)
    ultimately show ?thesis using False j s' by (subst write_loop.simps) (auto simp: unat_eq_0)
  qed
qed

lemma libc_write_all:
  assumes "room k s" "unat n \<le> k" "unat n \<le> length ws" "unat n \<le> lim"
  shows "\<exists>s'. libc_write wr fd ws n s = Some (n, s') \<and> room (k - unat n) s' \<and> written s' = written s @ take (unat n) ws"
  using write_loop_all [OF assms] by (auto simp: libc_write_def)

lemma flush_loop_all:
  assumes "room k s" "unat n \<le> k" "unat n \<le> length ws" "unat n \<le> lim" "n \<noteq> 0"
  shows "\<exists>s'. flush_loop wr err fd ws n s = Some (0, s') \<and> room (k - unat n) s' \<and> written s' = written s @ take (unat n) ws"
proof -
  obtain s' where s': "libc_write wr fd ws n s = Some (n, s')" "room (k - unat n) s'" "written s' = written s @ take (unat n) ws"
    using libc_write_all [OF assms(1-4)] by blast
  have "sint n = int (unat n)" using assms(4) lim by (subst sint_u16) auto
  moreover have "0 < unat n" using assms(5) by (simp add: unat_gt_0)
  ultimately have "0 < sint n" by linarith
  then show ?thesis using s' by (subst flush_loop.simps) simp
qed

text \<open>A flush writes the words of the buffer.\<close>

lemma fflush_writer:
  assumes f: "writer fd lim (streams u fp)" and r: "room (bufpos (streams u fp) + k) (os u)"
  shows "\<exists>u'. fflush wr fp u = Some (0, u') \<and> writer fd lim (streams u' fp) \<and> bufpos (streams u' fp) = 0 \<and> bufend (streams u' fp) = bufend (streams u fp) \<and>
    (\<forall>i < 2. bit (smode (streams u' fp)) i = bit (smode (streams u fp)) i) \<and> room k (os u') \<and> written (os u') = outgoing written fp u \<and>
    (\<forall>q. q \<noteq> fp \<longrightarrow> streams u' q = streams u q)"
proof -
  let ?f = "streams u fp" and ?n = "of_nat (bufpos (streams u fp)) :: u16"
  note w = f [unfolded writer_def]
  have n: "unat ?n = bufpos ?f" using w lim by (intro unat_of_nat_u16_small) linarith
  have "\<exists>s. (if has (smode ?f) MODE_WRITING \<and> ?n \<noteq> 0 then do {
         (left, s) \<leftarrow> flush_loop wr (errno u) (sfd ?f) (slice (sbuf ?f) 0 (bufpos ?f)) ?n (os u);
         Some (if left \<noteq> 0 then (EOF, smode ?f OR MODE_ERR, s) else (0, smode ?f, s)) }
       else Some (0, smode ?f, os u)) = Some (0, smode ?f, s) \<and> room k s \<and> written s = outgoing written fp u"
  proof (cases "?n = 0")
    case True
    then have "bufpos ?f = 0" using n by simp
    then show ?thesis using r by (simp add: outgoing_def)
  next
    case False
    then have wm: "has (smode ?f) MODE_WRITING" using w n unat_gt_0 [of ?n] by auto
    obtain s where "flush_loop wr (errno u) fd (slice (sbuf ?f) 0 (bufpos ?f)) ?n (os u) = Some (0, s)" "room (bufpos ?f + k - unat ?n) s"
      "written s = written (os u) @ take (unat ?n) (slice (sbuf ?f) 0 (bufpos ?f))"
      using flush_loop_all [OF r, of ?n "slice (sbuf ?f) 0 (bufpos ?f)" "errno u"] w n False by auto
    then show ?thesis using False wm w n by (simp add: outgoing_def)
  qed
  then obtain s where s: "(if has (smode ?f) MODE_WRITING \<and> ?n \<noteq> 0 then do {
         (left, s) \<leftarrow> flush_loop wr (errno u) (sfd ?f) (slice (sbuf ?f) 0 (bufpos ?f)) ?n (os u);
         Some (if left \<noteq> 0 then (EOF, smode ?f OR MODE_ERR, s) else (0, smode ?f, s)) }
       else Some (0, smode ?f, os u)) = Some (0, smode ?f, s)" "room k s" "written s = outgoing written fp u" by blast
  let ?g = "\<lambda>f. f\<lparr>smode := flushed (smode ?f), bufread := 0, bufwrite := 0, bufpos := 0\<rparr>"
  let ?u = "(stream_upd fp ?g u)\<lparr>os := s\<rparr>"
  have "fflush wr fp u = Some (0, ?u)" unfolding fflush_def Let_def s(1) by simp
  moreover have "writer fd lim (streams ?u fp)" using w unfolding writer_def can_bits has_bits by (simp add: mode_bits)
  ultimately show ?thesis using s(2,3) by (intro exI [of _ ?u]) (simp add: mode_bits)
qed

lemma fputc_writer:
  assumes f: "writer fd lim (streams u fp)" and r: "room (bufpos (streams u fp) + Suc k) (os u)"
  shows "\<exists>u'. fputc wr c fp u = Some (c, u') \<and> writer fd lim (streams u' fp) \<and> room (bufpos (streams u' fp) + k) (os u') \<and>
    outgoing written fp u' = outgoing written fp u @ [c] \<and> (\<forall>q. q \<noteq> fp \<longrightarrow> streams u' q = streams u q)"
proof -
  note w = f [unfolded writer_def]
  let ?v = "smode (streams u fp)"
  have "\<exists>u1. (if bufend (streams u fp) \<le> bufpos (streams u fp) then fflush wr fp u else Some (0, u)) = Some (0, u1) \<and>
    writer fd lim (streams u1 fp) \<and> bufpos (streams u1 fp) < bufend (streams u1 fp) \<and> room (bufpos (streams u1 fp) + Suc k) (os u1) \<and>
    outgoing written fp u1 = outgoing written fp u \<and> (\<forall>i < 2. bit (smode (streams u1 fp)) i = bit ?v i) \<and> (\<forall>q. q \<noteq> fp \<longrightarrow> streams u1 q = streams u q)"
  proof (cases "bufend (streams u fp) \<le> bufpos (streams u fp)")
    case True
    then show ?thesis using fflush_writer [OF f r] w by (auto simp: outgoing_def)
  next
    case False
    then show ?thesis using f r by auto
  qed
  then obtain u1 where u1: "(if bufend (streams u fp) \<le> bufpos (streams u fp) then fflush wr fp u else Some (0, u)) = Some (0, u1)"
    "writer fd lim (streams u1 fp)" "bufpos (streams u1 fp) < bufend (streams u1 fp)" "room (bufpos (streams u1 fp) + Suc k) (os u1)"
    "outgoing written fp u1 = outgoing written fp u" "\<forall>i < 2. bit (smode (streams u1 fp)) i = bit ?v i" "\<forall>q. q \<noteq> fp \<longrightarrow> streams u1 q = streams u q" by blast
  define u2 where "u2 = stream_upd fp (\<lambda>f. f\<lparr>sbuf := (sbuf f)(bufpos f := c), bufpos := bufpos f + 1, smode := smode f OR MODE_WRITING\<rparr>) u1"
  note w1 = u1(2) [unfolded writer_def]
  have w2: "writer fd lim (streams u2 fp)" using w1 u1(3) unfolding writer_def can_bits has_bits u2_def by (simp add: mode_bits)
  have "slice ((sbuf (streams u1 fp))(bufpos (streams u1 fp) := c)) 0 (Suc (bufpos (streams u1 fp))) = slice (sbuf (streams u1 fp)) 0 (bufpos (streams u1 fp)) @ [c]"
    by (simp add: slice_def)
  then have o2: "outgoing written fp u2 = outgoing written fp u @ [c]" using u1(5) by (simp add: outgoing_def u2_def)
  have r2: "room (bufpos (streams u2 fp) + k) (os u2)" using u1(4) by (simp add: u2_def)
  have s2: "\<forall>q. q \<noteq> fp \<longrightarrow> streams u2 q = streams u q" "has (smode (streams u2 fp)) MODE_WRITING" using u1(7) by (simp_all add: u2_def has_bits mode_bits)
  let ?fl = "c = 10 \<and> has ?v IOLBF \<or> has ?v IONBF"
  obtain u3 where u3: "(if ?fl then fflush wr fp u2 else Some (0, u2)) = Some (0, u3)" "writer fd lim (streams u3 fp)"
    "room (bufpos (streams u3 fp) + k) (os u3)" "outgoing written fp u3 = outgoing written fp u @ [c]" "\<forall>q. q \<noteq> fp \<longrightarrow> streams u3 q = streams u q"
    "\<not> has ?v (IOLBF OR IONBF) \<longrightarrow> has (smode (streams u3 fp)) MODE_WRITING"
  proof (cases ?fl)
    case True
    then have lb: "has ?v (IOLBF OR IONBF)" unfolding has_buf has_bits by blast
    show thesis using fflush_writer [OF w2 r2] True that lb o2 s2(1) by (auto simp: outgoing_def)
  next
    case False
    show thesis by (rule that [of u2]) (use False w2 r2 o2 s2 in auto)
  qed
  define u4 where "u4 = stream_upd fp (\<lambda>f. f\<lparr>bufwrite := (if has ?v (IOLBF OR IONBF) then 0 else bufend f)\<rparr>) u3"
  have nr: "\<not> has ?v MODE_READING" "can MODE_WRITE ?v" "bufpos (streams u1 fp) < bufend (streams u1 fp)" using w u1(3) by blast+
  have "fputc wr c fp u = Some (c, u4)"
    by (simp only: fputc_def Let_def nr u1(1) u3(1) Option.bind.simps prod.case simp_thms if_True if_False require_def
      u2_def [symmetric] u4_def [symmetric])
  moreover have "writer fd lim (streams u4 fp)" using u3(2,6) unfolding writer_def u4_def by simp
  moreover have "outgoing written fp u4 = outgoing written fp u3" "room (bufpos (streams u4 fp) + k) (os u4)" "\<forall>q. q \<noteq> fp \<longrightarrow> streams u4 q = streams u q"
    using u3(3,5) by (simp_all add: outgoing_def u4_def)
  ultimately show ?thesis using u3(4) by (intro exI [of _ u4]) simp
qed

lemma putc_writer:
  assumes f: "writer fd lim (streams u fp)" and r: "room (bufpos (streams u fp) + Suc k) (os u)"
  shows "\<exists>u'. putc wr c fp u = Some (c, u') \<and> writer fd lim (streams u' fp) \<and> room (bufpos (streams u' fp) + k) (os u') \<and>
    outgoing written fp u' = outgoing written fp u @ [c] \<and> (\<forall>q. q \<noteq> fp \<longrightarrow> streams u' q = streams u q)"
proof (cases "bufwrite (streams u fp) \<le> bufpos (streams u fp)")
  case True
  then show ?thesis using fputc_writer [OF f r, of c] by (simp add: putc_def)
next
  case False
  let ?u = "stream_upd fp (\<lambda>f. f\<lparr>sbuf := (sbuf f)(bufpos f := c), bufpos := bufpos f + 1\<rparr>) u"
  note w = f [unfolded writer_def]
  have "slice ((sbuf (streams u fp))(bufpos (streams u fp) := c)) 0 (Suc (bufpos (streams u fp))) = slice (sbuf (streams u fp)) 0 (bufpos (streams u fp)) @ [c]"
    by (simp add: slice_def)
  then have "outgoing written fp ?u = outgoing written fp u @ [c]" by (simp add: outgoing_def)
  moreover have "writer fd lim (streams ?u fp)" using w False unfolding writer_def by auto
  ultimately show ?thesis using r False by (intro exI [of _ ?u]) (simp add: putc_def)
qed

lemma fputs_loop_writer:
  "writer fd lim (streams u fp) \<Longrightarrow> room (bufpos (streams u fp) + (length w + k)) (os u) \<Longrightarrow> 0 \<notin> set w \<Longrightarrow> EOF \<notin> set w \<Longrightarrow>
   \<exists>u'. fputs_loop wr (w @ 0 # r) fp n u = Some (n + of_nat (length w), u') \<and> writer fd lim (streams u' fp) \<and>
     room (bufpos (streams u' fp) + k) (os u') \<and> outgoing written fp u' = outgoing written fp u @ w \<and> (\<forall>q. q \<noteq> fp \<longrightarrow> streams u' q = streams u q)"
proof (induction w arbitrary: u n)
  case Nil
  then show ?case by simp
next
  case (Cons c w)
  obtain u1 where u1: "putc wr c fp u = Some (c, u1)" "writer fd lim (streams u1 fp)" "room (bufpos (streams u1 fp) + (length w + k)) (os u1)"
    "outgoing written fp u1 = outgoing written fp u @ [c]" "\<forall>q. q \<noteq> fp \<longrightarrow> streams u1 q = streams u q"
    using putc_writer [OF Cons.prems(1), of "length w + k" c] Cons.prems(2) by auto
  show ?case using Cons.IH [OF u1(2,3), of "n + 1"] Cons.prems(3,4) u1 by (auto simp: add.assoc)
qed

text \<open>A string put into a stream and flushed is written behind all that was put there before.\<close>

lemma fputs_fflush:
  assumes "writer fd lim (streams u fp)" "room (bufpos (streams u fp) + (length w + k)) (os u)" "0 \<notin> set w" "EOF \<notin> set w"
  shows "\<exists>u1 u2. fputs wr (w @ 0 # r) fp u = Some (of_nat (length w), u1) \<and> fflush wr fp u1 = Some (0, u2) \<and>
    written (os u2) = outgoing written fp u @ w \<and> room k (os u2)"
proof -
  obtain u1 where u1: "fputs_loop wr (w @ 0 # r) fp 0 u = Some (of_nat (length w), u1)" "writer fd lim (streams u1 fp)"
    "room (bufpos (streams u1 fp) + k) (os u1)" "outgoing written fp u1 = outgoing written fp u @ w"
    using fputs_loop_writer [OF assms, of r 0] by auto
  then show ?thesis using fflush_writer [OF u1(2,3)] by (auto simp: fputs_def)
qed

end

section \<open>Input\<close>

text \<open>What the library needs of \<^verbatim>\<open>read\<close>: it returns the next words, as many as are asked for and left.\<close>

locale source =
  fixes rd :: "'s read_call" and fd :: u16 and lim :: nat and ok :: "'s \<Rightarrow> bool" and rest :: "'s \<Rightarrow> u16 list"
  assumes rd_some: "ok s \<Longrightarrow> unat n \<le> lim \<Longrightarrow> \<exists>s'. rd fd n s = Some (take (unat n) (rest s), s') \<and> ok s' \<and> rest s' = drop (unat n) (rest s)"
    and lim: "lim < 32768"

definition reader :: "u16 \<Rightarrow> nat \<Rightarrow> stream \<Rightarrow> bool" where
  "reader d lim f \<longleftrightarrow> sfd f = d \<and> can MODE_READ (smode f) \<and> \<not> has (smode f) MODE_WRITING \<and> bufpos f \<le> bufread f \<and> bufread f \<le> bufend f \<and>
     0 < bufend f \<and> bufend f \<le> lim"

definition incoming :: "('s \<Rightarrow> u16 list) \<Rightarrow> nat \<Rightarrow> 's prog \<Rightarrow> u16 list" where
  "incoming rest fp u = slice (sbuf (streams u fp)) (bufpos (streams u fp)) (bufread (streams u fp) - bufpos (streams u fp)) @ rest (os u)"

section \<open>New streams\<close>

lemma stdio_init_streams:
  "reader 0 1024 (streams (stdio_init_stdstreams u) stdin)" "writer 1 1024 (streams (stdio_init_stdstreams u) stdout)"
  "writer 2 1024 (streams (stdio_init_stdstreams u) stderr)"
  by (simp_all add: stdio_init_stdstreams_def std_stream_def reader_def writer_def can_def has_def)

text \<open>A stream opened with mode \<^verbatim>\<open>w\<close> or \<^verbatim>\<open>a\<close> is an output stream, one with mode \<^verbatim>\<open>r\<close> an input stream, with or without a buffer of its own.\<close>

lemma fopen_writer:
  assumes "op fname k (os u) = Some (d, s)" "0 \<le> sint d"
    and "c = 119 \<and> k = O_ON_CREATE OR O_ON_TRUNC OR O_ACCESS_WR \<or> c = 97 \<and> k = O_ON_CREATE OR O_ON_END OR O_ACCESS_WR"
  shows "\<exists>u'. fopen op (Some fp) hb fname [c, 0] u = Some (Some fp, u') \<and> os u' = s \<and> writer d 1024 (streams u' fp) \<and> outgoing w fp u' = w s"
  using assms
  by (auto simp: fopen_def open_flags_def Let_def isatty_def outgoing_def slice_def writer_def can_def has_def)

lemma fopen_reader:
  assumes "op fname 0 (os u) = Some (d, s)" "0 \<le> sint d"
  shows "\<exists>u'. fopen op (Some fp) hb fname [114, 0] u = Some (Some fp, u') \<and> os u' = s \<and> reader d 1024 (streams u' fp) \<and> incoming rest fp u' = rest s"
  using assms
  by (auto simp: fopen_def open_flags_def Let_def isatty_def incoming_def slice_def reader_def can_def has_def)

text \<open>Closing a stream takes the streams opened after it off the list of those that are flushed at exit.\<close>

lemma io_unlink_forgets: "fp \<notin> set xs \<Longrightarrow> io_unlink fp (xs @ fp # ys) = ys"
  by (induction xs) (auto simp: io_unlink_def)

text \<open>The words \<^verbatim>\<open>fgets\<close> returns: up to \<open>n\<close>, the first newline or the end.\<close>

fun line_of :: "nat \<Rightarrow> u16 list \<Rightarrow> u16 list" where
  "line_of 0 xs = []"
| "line_of (Suc n) [] = []"
| "line_of (Suc n) (c # cs) = (if c = 10 then [c] else c # line_of n cs)"

lemma slice_blit_tl: "ws \<noteq> [] \<Longrightarrow> slice (blit b 0 ws) 1 (length ws - 1) = tl ws"
  by (rule nth_equalityI) (auto simp: nth_tl blit_inside)

context source
begin

text \<open>Filling the buffer.\<close>

lemma fread_fill:
  assumes f: "reader fd lim (streams u fp)" "bufpos (streams u fp) = 0" "bufread (streams u fp) = 0" and ok: "ok (os u)"
  shows "\<exists>s. fread wr rd 1 (of_nat (bufend (streams u fp))) fp u =
      Some (of_nat (length (take (bufend (streams u fp)) (rest (os u)))), take (bufend (streams u fp)) (rest (os u)),
        (stream_upd fp (\<lambda>f. f\<lparr>smode := smode f OR (if rest (os u) = [] then MODE_EOF else 0)\<rparr>) u)\<lparr>os := s\<rparr>) \<and>
    ok s \<and> rest s = drop (bufend (streams u fp)) (rest (os u))"
proof -
  let ?f = "streams u fp" and ?e = "of_nat (bufend (streams u fp)) :: u16"
  note r = f(1) [unfolded reader_def]
  have e: "unat ?e = bufend ?f" using r lim by (intro unat_of_nat_u16_small) linarith
  obtain s where s: "rd fd ?e (os u) = Some (take (bufend ?f) (rest (os u)), s)" "ok s" "rest s = drop (bufend ?f) (rest (os u))"
    using rd_some [OF ok, of ?e] e r by auto
  define ws where "ws = take (bufend ?f) (rest (os u))"
  have l: "length ws < 32768" using r lim unfolding ws_def length_take by linarith
  have n: "unat (of_nat (length ws) :: u16) = length ws" using l by (intro unat_of_nat_u16_small) linarith
  have sn: "\<not> sint (of_nat (length ws) :: u16) < 0" using l by (subst sint_u16, unfold n) simp
  have n0: "(of_nat (length ws) :: u16) = 0 \<longleftrightarrow> ws = []" unfolding unat_eq_0 [symmetric] n by simp
  have w0: "ws = [] \<longleftrightarrow> rest (os u) = []" using r by (auto simp: ws_def)
  have e0: "\<not> ?e \<le> 0" using e r by (auto simp: word_le_nat_alt)
  have fb: "streams u fp\<lparr>bufpos := 0\<rparr> = streams u fp" using f(2) by (cases "streams u fp") simp
  have "fread wr rd 1 ?e fp u = Some (of_nat (length ws), ws,
      (stream_upd fp (\<lambda>f. f\<lparr>smode := smode f OR (if rest (os u) = [] then MODE_EOF else 0)\<rparr>) u)\<lparr>os := s\<rparr>)"
    using r f(2,3) s(1) sn n0 w0 e0 by (simp add: fread_def Let_def stream_upd_def ws_def [symmetric] fb)
  then show ?thesis using s(2,3) unfolding ws_def by blast
qed

lemma fgetc_reader:
  assumes f: "reader fd lim (streams u fp)" "bufread (streams u fp) \<le> bufpos (streams u fp)" and fp: "fp \<noteq> stdin" and ok: "ok (os u)"
  shows "rest (os u) = c # cs \<Longrightarrow> \<exists>u'. fgetc wr rd fp u = Some (c, u') \<and> reader fd lim (streams u' fp) \<and> ok (os u') \<and> incoming rest fp u' = cs \<and>
      (\<forall>q. q \<noteq> fp \<longrightarrow> streams u' q = streams u q)"
    "rest (os u) = [] \<Longrightarrow> \<exists>u'. fgetc wr rd fp u = Some (EOF, u') \<and> ok (os u') \<and> incoming rest fp u' = [] \<and>
      \<not> has (smode (streams u' fp)) MODE_ERR \<and> has (smode (streams u' fp)) MODE_EOF"
proof -
  let ?f = "streams u fp"
  note r = f(1) [unfolded reader_def]
  define u1 where "u1 = stream_upd fp (\<lambda>f. f\<lparr>bufpos := 0, bufread := 0\<rparr>) u"
  have f1: "streams u1 fp = ?f\<lparr>bufpos := 0, bufread := 0\<rparr>" "os u1 = os u" by (simp_all add: u1_def)
  have r1: "reader fd lim (streams u1 fp)" using r by (simp add: reader_def f1)
  let ?xs = "rest (os u)" and ?n = "bufend ?f"
  obtain s where s: "fread wr rd 1 (of_nat ?n) fp u1 = Some (of_nat (length (take ?n ?xs)), take ?n ?xs,
      (stream_upd fp (\<lambda>f. f\<lparr>smode := smode f OR (if ?xs = [] then MODE_EOF else 0)\<rparr>) u1)\<lparr>os := s\<rparr>)" "ok s" "rest s = drop ?n ?xs"
    using fread_fill [OF r1, of wr] ok f1 by auto
  have e1: "(if bufread ?f \<le> bufpos ?f then A else B) = A" for A B :: "'b option" using f(2) by simp
  show "\<exists>u'. fgetc wr rd fp u = Some (EOF, u') \<and> ok (os u') \<and> incoming rest fp u' = [] \<and>
      \<not> has (smode (streams u' fp)) MODE_ERR \<and> has (smode (streams u' fp)) MODE_EOF" if x: "?xs = []"
  proof -
    let ?u = "(stream_upd fp (\<lambda>f. f\<lparr>smode := smode f OR MODE_EOF\<rparr>) u1)\<lparr>os := s\<rparr>"
    have "fgetc wr rd fp u = Some (EOF, stream_upd fp (\<lambda>f. f\<lparr>sbuf := blit (sbuf f) 0 []\<rparr>) ?u)"
      using r s(1) fp f(2) x by (simp add: fgetc_def u1_def [symmetric])
    then show ?thesis using s(2,3) x r by (simp add: incoming_def f1 has_bits mode_bits can_bits)
  qed
  assume x: "?xs = c # cs"
  let ?ws = "take ?n ?xs"
  have ne: "?ws \<noteq> []" using r x by simp
  have l0: "length ?ws \<le> ?n" by simp
  then have "length ?ws < 32768" using r lim by linarith
  moreover have "0 < length ?ws" using ne by (rule length_greater_0_conv [THEN iffD2])
  ultimately have len: "length ?ws < 32768" "0 < length ?ws" "length ?ws \<le> ?n" using l0 by blast+
  have un: "unat (of_nat (length ?ws) :: u16) = length ?ws" using len(1) by (intro unat_of_nat_u16_small) linarith
  then have nz: "(of_nat (length ?ws) :: u16) \<noteq> 0" using len(2) unat_0 less_irrefl by metis
  let ?u = "stream_upd fp (\<lambda>f. f\<lparr>sbuf := blit (sbuf f) 0 ?ws, bufread := length ?ws, smode := filled (smode f), bufpos := 1\<rparr>) (u1\<lparr>os := s\<rparr>)"
  have c0: "blit (sbuf ?f) 0 ?ws 0 = c" using len(2,3) x r by (simp add: blit_def nth_append)
  have "fgetc wr rd fp u = Some (c, ?u)"
    using r s(1) fp f(2) x nz un c0 by (simp add: fgetc_def u1_def [symmetric] del: length_take) (simp add: stream_upd_def f1)
  moreover have "slice (blit (sbuf ?f) 0 ?ws) 1 (length ?ws - 1) @ drop ?n ?xs = cs"
  proof -
    have "cs = tl (?ws @ drop ?n ?xs)" using x by simp
    then show ?thesis unfolding slice_blit_tl [OF ne] tl_append2 [OF ne] by (rule sym)
  qed
  moreover have "reader fd lim (streams ?u fp)" using r len(2,3) by (auto simp: Suc_le_eq reader_def f1 has_bits can_bits mode_bits)
  ultimately show "\<exists>u'. fgetc wr rd fp u = Some (c, u') \<and> reader fd lim (streams u' fp) \<and> ok (os u') \<and> incoming rest fp u' = cs \<and>
      (\<forall>q. q \<noteq> fp \<longrightarrow> streams u' q = streams u q)"
    using s(2,3) by (intro exI [of _ ?u]) (simp add: incoming_def f1 u1_def)
qed

lemma getc_reader:
  assumes f: "reader fd lim (streams u fp)" and fp: "fp \<noteq> stdin" and ok: "ok (os u)"
  shows "incoming rest fp u = c # cs \<Longrightarrow> \<exists>u'. getc wr rd fp u = Some (c, u') \<and> reader fd lim (streams u' fp) \<and> ok (os u') \<and>
      incoming rest fp u' = cs"
    "incoming rest fp u = [] \<Longrightarrow> \<exists>u'. getc wr rd fp u = Some (EOF, u') \<and> ok (os u') \<and> incoming rest fp u' = [] \<and>
      \<not> has (smode (streams u' fp)) MODE_ERR"
proof -
  let ?f = "streams u fp"
  show "\<exists>u'. getc wr rd fp u = Some (EOF, u') \<and> ok (os u') \<and> incoming rest fp u' = [] \<and> \<not> has (smode (streams u' fp)) MODE_ERR"
    if "incoming rest fp u = []"
  proof -
    have "bufread ?f \<le> bufpos ?f" "rest (os u) = []" using that by (auto simp: incoming_def slice_def)
    then show ?thesis using fgetc_reader(2) [OF f _ fp ok] by (auto simp: getc_def)
  qed
  assume x: "incoming rest fp u = c # cs"
  show "\<exists>u'. getc wr rd fp u = Some (c, u') \<and> reader fd lim (streams u' fp) \<and> ok (os u') \<and> incoming rest fp u' = cs"
  proof (cases "bufread ?f \<le> bufpos ?f")
    case True
    then have "rest (os u) = c # cs" using x by (simp add: incoming_def slice_def)
    then show ?thesis using fgetc_reader(1) [OF f True fp ok, of c cs wr] True by (auto simp: getc_def)
  next
    case False
    let ?u = "stream_upd fp (\<lambda>f. f\<lparr>bufpos := bufpos f + 1\<rparr>) u"
    obtain m where m: "bufread ?f - bufpos ?f = Suc m" using False by (cases "bufread ?f - bufpos ?f") auto
    then have "slice (sbuf ?f) (bufpos ?f) (Suc m) = sbuf ?f (bufpos ?f) # slice (sbuf ?f) (bufpos ?f + 1) m"
      by (simp add: slice_def upt_conv_Cons del: upt_Suc)
    moreover have "bufread ?f - (bufpos ?f + 1) = m" using m by simp
    ultimately have "c = sbuf ?f (bufpos ?f)" "incoming rest fp ?u = cs" using x m by (simp_all add: incoming_def)
    then show ?thesis using f ok False by (intro exI [of _ ?u]) (auto simp: getc_def reader_def Let_def)
  qed
qed

text \<open>The loop of \<^verbatim>\<open>fgets\<close> reads a line.\<close>

lemma fgets_loop_line:
  assumes fp: "fp \<noteq> stdin"
  shows "reader fd lim (streams u fp) \<Longrightarrow> ok (os u) \<Longrightarrow> EOF \<notin> set (incoming rest fp u) \<Longrightarrow> \<not> has (smode (streams u fp)) MODE_ERR \<Longrightarrow>
   \<exists>u'. fgets_loop wr rd fp n acc u = Some (if n \<noteq> 0 \<and> acc = [] \<and> incoming rest fp u = [] then None else Some (acc @ line_of n (incoming rest fp u)), u') \<and>
     ok (os u') \<and> incoming rest fp u' = drop (length (line_of n (incoming rest fp u))) (incoming rest fp u) \<and> \<not> has (smode (streams u' fp)) MODE_ERR \<and>
     (incoming rest fp u' = [] \<or> reader fd lim (streams u' fp))"
proof (induction n arbitrary: acc u)
  case 0
  then show ?case by simp
next
  case (Suc n)
  show ?case
  proof (cases "incoming rest fp u")
    case Nil
    obtain u1 where "getc wr rd fp u = Some (EOF, u1)" "ok (os u1)" "incoming rest fp u1 = []" "\<not> has (smode (streams u1 fp)) MODE_ERR"
      using getc_reader(2) [OF Suc.prems(1) fp Suc.prems(2) Nil] by blast
    then show ?thesis using Nil by simp
  next
    case (Cons c cs)
    obtain u1 where u1: "getc wr rd fp u = Some (c, u1)" "reader fd lim (streams u1 fp)" "ok (os u1)" "incoming rest fp u1 = cs"
      using getc_reader(1) [OF Suc.prems(1) fp Suc.prems(2) Cons] by blast
    have e: "\<not> has (smode (streams u1 fp)) MODE_ERR" using u1(2) by (simp add: reader_def can_bits has_bits)
    have c: "c \<noteq> EOF" "EOF \<notin> set (incoming rest fp u1)" using Suc.prems(3) Cons u1(4) by auto
    show ?thesis using Suc.IH [OF u1(2,3) c(2) e, of "acc @ [c]"] u1 e c(1) Cons by auto
  qed
qed

lemma fgets_line:
  assumes "reader fd lim (streams u fp)" "fp \<noteq> stdin" "ok (os u)" "EOF \<notin> set (incoming rest fp u)" "1 < unat count"
  shows "\<exists>u'. fgets wr rd count fp u = Some (if incoming rest fp u = [] then None else Some (line_of (unat count - 1) (incoming rest fp u) @ [0]), u') \<and>
     ok (os u') \<and> incoming rest fp u' = drop (length (line_of (unat count - 1) (incoming rest fp u))) (incoming rest fp u) \<and>
     (incoming rest fp u' = [] \<or> reader fd lim (streams u' fp))"
proof -
  have e: "\<not> has (smode (streams u fp)) MODE_ERR" using assms(1) by (simp add: reader_def can_bits has_bits)
  have n: "unat (count - 1) = unat count - 1" using assms(5) by (simp add: unat_sub word_le_nat_alt)
  show ?thesis using fgets_loop_line [OF assms(2,1,3,4) e, of wr "unat (count - 1)" "[]"] assms(5) by (auto simp: fgets_def n)
qed

end

end
