(* ===== verification/Syscalls.thy ===== *)
theory Syscalls
  imports Sys Execute
begin

text \<open>
  The \<^verbatim>\<open>read\<close> and \<^verbatim>\<open>write\<close> system calls on regular files, from the request in the memory of the caller to the
  words of the file and back: the layers of memory, files, file system and cache composed; and the two calls on
  pipes of which an end is closed.
\<close>

section \<open>Views of a kernel state\<close>

lemma viewed_tables: "viewed p s s' \<Longrightarrow> tables_only s s'"
  unfolding viewed_def tables_only_def by (erule conjE, erule ssubst) (simp add: fun_upd_def)

lemma files_same: "files_only s s' \<Longrightarrow> same_tables p s s'"
  using files_onlyD [of s s'] by (simp add: same_tables_def)

lemma files_only_blocks: "files_only s s' \<Longrightarrow> blockRequest s' = blockRequest s"
  by (subst (asm) files_only_def, erule ssubst) simp

section \<open>Files that can be written\<close>

text \<open>An open file into which \<open>k\<close> more words can be written at its position.\<close>

definition writable :: "dops \<Rightarrow> nat \<Rightarrow> u16 \<Rightarrow> u16 \<Rightarrow> nat \<Rightarrow> kst \<Rightarrow> bool" where
  "writable dops fd d N k s \<longleftrightarrow> disk_ok dops s \<and> dev_present (hw_hdd s) d \<and> room 3 s \<and> regular fd d N s \<and>
     f_pos (file_at fd s) \<le> node_size (bview s d N) \<and> f_pos (file_at fd s) + k < 38400 \<and>
     (\<exists>nb. direct_file (bview s) d N nb \<and> node_size (bview s d N) \<le> nb * 256 \<and>
        (f_pos (file_at fd s) + k) div 256 < nb + nfree (bview s) d)"

lemma wrote_nfree: "wrote V V' d N nb nb' ofs xs \<Longrightarrow> nfree V d + nb \<le> nfree V' d + nb'"
proof (elim wroteE)
  fix W assume W: "wstep V W d N nb nb'" and e: "V' = (if ofs + length xs > node_size (V d N) then put_size d N (ofs + length xs) W else W)"
  have N: "16 < unat N" using direct_fileD(2) [OF wstepD(1) [OF W]] by simp
  have "{m. m < 65536 \<and> \<not> used V' d m} = {m. m < 65536 \<and> \<not> used W d m}" unfolding e using put_size_used [OF N] by auto
  then show ?thesis using wstepD(8) [OF W] by (simp add: nfree_def)
qed

lemma k_write_writable:
  assumes w: "writable dops fd d N k s" and n: "n \<le> k" "n \<le> length buf"
  shows "\<exists>s1. k_write dops fd buf n s = Some (n, s1) \<and> writable dops fd d N (k - n) s1 \<and>
    file_contents (bview s1) d N = write_at (file_contents (bview s) d N) (f_pos (file_at fd s)) (take n buf) \<and>
    f_pos (file_at fd s1) = f_pos (file_at fd s) + n \<and> files_only s s1 \<and> same_slots s s1 \<and> pins s1 = pins s"
proof -
  let ?p = "f_pos (file_at fd s)"
  note a = w [unfolded writable_def]
  obtain nb where nb: "direct_file (bview s) d N nb" "node_size (bview s d N) \<le> nb * 256" "(?p + k) div 256 < nb + nfree (bview s) d"
    using a by blast
  have lim: "?p + n < 38400" "(?p + n) div 256 < nb + nfree (bview s) d"
    using a nb(3) n(1) div_le_mono [of "?p + n" "?p + k" 256] by linarith+
  obtain V' nb' t where t: "k_write dops fd buf n s = Some (n, file_upd fd (f_pos_update (\<lambda>p. p + n)) t)"
    "fx dops s t V' (pins s) (dirty s)" "wrote (bview s) V' d N nb nb' ?p (take n buf)"
    using k_write_ok [OF _ _ _ nb(1,2) _ n(2) lim, of dops] a by blast
  let ?s = "file_upd fd (f_pos_update (\<lambda>p. p + n)) t"
  note e = fxD [OF t(2)] and f = fx_files [OF t(2)]
  have l: "length (take n buf) = n" using n(2) by simp
  have small: "?p + length (take n buf) < 4294967296" using lim(1) l by linarith
  have sz: "node_size (V' d N) = max (node_size (bview s d N)) (?p + n)" using wrote_size [OF t(3) small] l by simp
  have fc: "file_contents V' d N = write_at (file_contents (bview s) d N) ?p (take n buf)"
    using wrote_contents [OF t(3) small nb(2)] a by blast
  have pk: "?p + n + (k - n) = ?p + k" using n(1) by simp
  have "writable dops fd d N (k - n) ?s"
    unfolding writable_def
  proof (intro conjI exI [of _ nb'])
    show "disk_ok dops ?s" using e(1) by simp
    show "dev_present (hw_hdd ?s) d" using a dev_present_fx [OF t(2)] by simp
    show "room 3 ?s" using a room_cong [OF e(3)] by simp
    show "regular fd d N ?s" using a f(1) by (simp add: regular_def)
    show "f_pos (file_at fd ?s) \<le> node_size (bview ?s d N)" using sz e(2) f(1) by simp
    show "f_pos (file_at fd ?s) + (k - n) < 38400" using a pk f(1) by simp
    show "direct_file (bview ?s) d N nb'" using wrote_direct [OF t(3)] e(2) by simp
    show "node_size (bview ?s d N) \<le> nb' * 256" using wrote_bound [OF t(3) small nb(2)] e(2) by simp
    show "(f_pos (file_at fd ?s) + (k - n)) div 256 < nb' + nfree (bview ?s) d"
      using wrote_nfree [OF t(3)] nb(3) pk e(2) f(1) by simp
  qed
  moreover have "files_only s ?s" by (rule files_only_fx(1) [OF t(2)])
  ultimately show ?thesis using t(1) fc e(2,3) f(1) same_slots_fx [OF t(2)] by auto
qed

section \<open>The calls\<close>

text \<open>The current process, which has the file under a descriptor, and the file its request names.\<close>

definition opens :: "nat \<Rightarrow> u16 \<Rightarrow> nat \<Rightarrow> kst \<Rightarrow> bool" where
  "opens c desc fd s \<longleftrightarrow> cProc s = Some c \<and> user_space c s \<and> findProcByPid (p_pid (procs s c)) s = Some c \<and> blockRequest s = 0 \<and>
     unat desc < MAX_FILES_PER_PROC \<and> p_openFiles (procs s c) (unat desc) = Some fd"

definition caller :: "nat \<Rightarrow> u16 \<Rightarrow> nat \<Rightarrow> kst \<Rightarrow> bool" where
  "caller c scall fd s \<longleftrightarrow> opens c (umem c s (scall + 1)) fd s"

lemma viewed_cProc: "viewed p s s' \<Longrightarrow> cProc s' = cProc s"
  by (frule viewed_tables, subst (asm) tables_only_def, erule ssubst) simp

lemma opens_cong:
  assumes "opens c desc fd s" "user_space c s'" "procs s' = procs s" "cProc s' = cProc s" "blockRequest s' = blockRequest s"
  shows "opens c desc fd s'"
  using assms find_procs_cong(1) [OF assms(3)] unfolding opens_def by simp

lemma opens_viewed: "opens c desc fd s \<Longrightarrow> viewed c s s' \<Longrightarrow> opens c desc fd s'"
  by (rule opens_cong, assumption) (auto simp: opens_def viewed_getPage viewed_frame viewed_cProc)

lemma read_file_ok:
  assumes rd: "readable dops fd d N s" and us: "user_space p s" and pid: "findProcByPid q s = Some p" and nb: "blockRequest s = 0"
    and n: "unat n \<le> 1024"
  shows "\<exists>s'. try_k_read dops fd dest n q scall s = Some (length (take (unat n) (file_rest fd d N s)), s') \<and>
    umem p s' = (uput (take (unat n) (file_rest fd d N s)) dest (umem p s))(scall + 2 := of_nat (length (take (unat n) (file_rest fd d N s)))) \<and>
    user_space p s' \<and> readable dops fd d N s' \<and> file_rest fd d N s' = drop (unat n) (file_rest fd d N s) \<and>
    bview s' = bview s \<and> pins s' = pins s \<and> procs s' = procs s \<and> cProc s' = cProc s \<and> blockRequest s' = blockRequest s"
proof -
  let ?p = "f_pos (file_at fd s)"
  define ws where "ws = take (unat n) (file_rest fd d N s)"
  obtain s1 where r: "k_read dops fd (unat n) s = Some (ws, s1)" "readable dops fd d N s1" "bview s1 = bview s" "pins s1 = pins s"
    "f_pos (file_at fd s1) = ?p + min (unat n) (f_size (file_at fd s) - ?p)" "files_only s s1"
    using k_read_readable [OF rd, of "unat n"] n unfolding file_rest_def ws_def by auto
  have z: "f_size (file_at fd s) = length (file_contents (bview s) d N)" using rd by (simp add: readable_def)
  have fr: "file_rest fd d N s1 = drop (unat n) (file_rest fd d N s)"
    unfolding file_rest_def r(3,5) z by (simp add: add.commute min_def)
  have st: "same_tables p s s1" by (rule files_same [OF r(6)])
  note u1 = same_tablesD [OF st]
  have us1: "user_space p s1" using us u1(2) by simp
  obtain s2 where u: "uputs p dest 0 14 (length ws) False ws s1 = Some (length ws, s2)" "viewed p s1 s2" "umem p s2 = uput ws dest (umem p s1)"
    using uputs_ok [OF us1, of "length ws" ws dest False] by auto
  have us2: "user_space p s2" by (rule viewed_getPage(1) [OF u(2) us1])
  obtain s3 where g: "put_result p scall (length ws) s2 = Some s3" "viewed p s2 s3" "umem p s3 = (umem p s2)(scall + 2 := of_nat (length ws))"
    using put_result_ok [OF us2] by blast
  have b: "blockRequest s2 = 0" using viewed_frame(6) [OF u(2)] files_only_blocks [OF r(6)] nb by simp
  have len: "length ws \<le> IOBUF_SIZE" using n by (simp add: ws_def)
  have "try_k_read dops fd dest n q scall s = Some (length ws, s3)"
    using pid r(1) u(1) g(1) b len by (simp add: try_k_read_def)
  moreover note tv = tables_view [OF viewed_tables [OF u(2)]] tables_view [OF viewed_tables [OF g(2)]]
  moreover have "user_space p s3" by (rule viewed_getPage(1) [OF g(2) us2])
  moreover have "umem p s3 = (uput ws dest (umem p s))(scall + 2 := of_nat (length ws))" using g(3) u(3) u1(1) by simp
  moreover have "procs s3 = procs s" using viewed_frame(1) u(2) g(2) files_onlyD(1) [OF r(6)] by metis
  moreover have "cProc s3 = cProc s" using viewed_cProc [OF u(2)] viewed_cProc [OF g(2)] files_onlyD(5) [OF r(6)] by simp
  moreover have "blockRequest s3 = blockRequest s" using viewed_frame(6) [OF u(2)] viewed_frame(6) [OF g(2)] files_only_blocks [OF r(6)] by simp
  ultimately show ?thesis unfolding ws_def [symmetric] using r(2-4) fr by (auto simp: file_rest_def)
qed

lemma write_file_ok:
  assumes wr: "writable dops fd d N k s" and us: "user_space p s" and pid: "findProcByPid q s = Some p" and nb: "blockRequest s = 0"
    and n: "unat n \<le> 1024" "unat n \<le> k"
  shows "\<exists>s'. try_k_write dops fd src n q scall s = Some (unat n, s') \<and>
    file_contents (bview s') d N = write_at (file_contents (bview s) d N) (f_pos (file_at fd s)) (uwords p s src (unat n)) \<and>
    f_pos (file_at fd s') = f_pos (file_at fd s) + unat n \<and> writable dops fd d N (k - unat n) s' \<and>
    umem p s' = (umem p s)(scall + 2 := n) \<and> user_space p s' \<and> pins s' = pins s \<and> procs s' = procs s \<and>
    cProc s' = cProc s \<and> blockRequest s' = blockRequest s"
proof -
  let ?ws = "uwords p s src (unat n)"
  obtain s1 where g: "ugets p src 0 14 (unat n) False s = Some (?ws, s1)" "viewed p s s1" "hw_ram s1 = hw_ram s"
    using ugets_ok [OF us, of src "unat n" False] by auto
  note t1 = tables_view [OF viewed_tables [OF g(2)]]
  have us1: "user_space p s1" "umem p s1 = umem p s" using viewed_getPage(1) [OF g(2) us] umem_viewed [OF g(2) us g(3)] by simp_all
  have h1: "hw_hdd s1 = hw_hdd s" "room 3 s1 = room 3 s" "regular fd d N s1 = regular fd d N s"
    using t1 room_cong [OF t1(2)] by (simp_all add: regular_def)
  have w1: "writable dops fd d N k s1" using wr unfolding writable_def t1(1,3,6) h1 by blast
  have l: "length ?ws = unat n" by (simp add: uwords_def)
  obtain s2 where w: "k_write dops fd ?ws (unat n) s1 = Some (unat n, s2)" "writable dops fd d N (k - unat n) s2"
    "file_contents (bview s2) d N = write_at (file_contents (bview s1) d N) (f_pos (file_at fd s1)) (take (unat n) ?ws)"
    "f_pos (file_at fd s2) = f_pos (file_at fd s1) + unat n" "files_only s1 s2" "pins s2 = pins s1"
    using k_write_writable [OF w1 n(2), of ?ws] l by auto
  have us2: "user_space p s2" "umem p s2 = umem p s" using same_tablesD [OF files_same [OF w(5), of p]] us1 by simp_all
  obtain s3 where r: "put_result p scall (unat n) s2 = Some s3" "viewed p s2 s3" "umem p s3 = (umem p s2)(scall + 2 := of_nat (unat n))"
    using put_result_ok [OF us2(1)] by blast
  note t3 = tables_view [OF viewed_tables [OF r(2)]]
  have b: "blockRequest s2 = 0" using viewed_frame(6) [OF g(2)] files_only_blocks [OF w(5)] nb by simp
  have "try_k_write dops fd src n q scall s = Some (unat n, s3)"
    using pid n(1) g(1) w(1) r(1) b by (simp add: try_k_write_def)
  moreover have "writable dops fd d N (k - unat n) s3"
    using w(2) unfolding writable_def t3(1,3,6) by (simp add: t3(7) room_cong [OF t3(2)] regular_def t3(3))
  moreover have "procs s3 = procs s" using viewed_frame(1) g(2) r(2) files_onlyD(1) [OF w(5)] by metis
  moreover have "cProc s3 = cProc s" using viewed_cProc [OF g(2)] viewed_cProc [OF r(2)] files_onlyD(5) [OF w(5)] by simp
  moreover have "blockRequest s3 = blockRequest s" using viewed_frame(6) [OF g(2)] viewed_frame(6) [OF r(2)] files_only_blocks [OF w(5)] by simp
  moreover have "user_space p s3" by (rule viewed_getPage(1) [OF r(2) us2(1)])
  ultimately show ?thesis using w(3,4,6) r(3) us2(2) t1(1-3) t3(1-3) l by auto
qed

lemma cur_req_ok:
  assumes "opens c (umem c s (scall + 1)) fd s"
  obtains s1 where "cur_req scall 4 s = Some (c, uwords c s scall 4, s1)" "viewed c s s1" "umem c s1 = umem c s"
    "opens c (umem c s (scall + 1)) fd s1" "fd_get c (uwords c s scall 4 ! 1) s1 = Some (Some fd)" "procs s1 = procs s"
proof -
  note a = assms [unfolded opens_def]
  have us: "user_space c s" using a by blast
  obtain s1 where g: "ugets c scall 0 14 4 False s = Some (uwords c s scall 4, s1)" "viewed c s s1" "hw_ram s1 = hw_ram s"
    using ugets_ok [OF us, of scall 4 False] by auto
  note v = viewed_frame [OF g(2)]
  have "fd_get c (uwords c s scall 4 ! 1) s1 = Some (Some fd)" using a v(1) by (simp add: fd_get_def request_words)
  moreover have "cur_req scall 4 s = Some (c, uwords c s scall 4, s1)" using a g(1) by (simp add: cur_req_def get_req_def)
  ultimately show thesis using that g(2) umem_viewed [OF g(2) us g(3)] opens_viewed [OF assms g(2)] v(1) by blast
qed

text \<open>What the two calls do; the caller still has the file open.\<close>

lemma sys_read_ok:
  assumes c: "opens c (umem c s (scall + 1)) fd s" and rd: "readable dops fd d N s" and n: "unat (umem c s (scall + 2)) \<le> 1024"
    and ws: "ws = take (unat (umem c s (scall + 2))) (file_rest fd d N s)"
  shows "\<exists>s'. sys_read dops scall s = Some s' \<and>
    umem c s' = (uput ws (umem c s (scall + 3)) (umem c s))(scall + 2 := of_nat (length ws)) \<and>
    readable dops fd d N s' \<and> file_rest fd d N s' = drop (unat (umem c s (scall + 2))) (file_rest fd d N s) \<and>
    bview s' = bview s \<and> pins s' = pins s \<and> procs s' = procs s \<and> opens c (umem c s (scall + 1)) fd s'"
proof -
  obtain s1 where r: "cur_req scall 4 s = Some (c, uwords c s scall 4, s1)" "viewed c s s1" "umem c s1 = umem c s"
    "opens c (umem c s (scall + 1)) fd s1" "fd_get c (uwords c s scall 4 ! 1) s1 = Some (Some fd)" "procs s1 = procs s" by (rule cur_req_ok [OF c])
  note t = tables_view [OF viewed_tables [OF r(2)]]
  have f: "file_rest fd d N s1 = file_rest fd d N s" by (simp add: file_rest_def t)
  have a: "user_space c s1" "findProcByPid (p_pid (procs s1 c)) s1 = Some c" "blockRequest s1 = 0" "readable dops fd d N s1"
    using r(4) rd t(5) unfolding opens_def by simp_all
  obtain s' where s': "try_k_read dops fd (umem c s (scall + 3)) (umem c s (scall + 2)) (p_pid (procs s1 c)) scall s1 = Some (length ws, s')"
    "umem c s' = (uput ws (umem c s (scall + 3)) (umem c s))(scall + 2 := of_nat (length ws))" "readable dops fd d N s'"
    "file_rest fd d N s' = drop (unat (umem c s (scall + 2))) (file_rest fd d N s)" "bview s' = bview s" "pins s' = pins s" "procs s' = procs s1"
    "user_space c s'" "cProc s' = cProc s1" "blockRequest s' = blockRequest s1"
    using read_file_ok [OF a(4,1,2,3) n, of "umem c s (scall + 3)" scall] unfolding f r(3) t(1,2) ws by blast
  have "sys_read dops scall s = Some s'" using r(1,5) s'(1) by (simp add: sys_read_def request_words)
  then show ?thesis using s'(2-7) opens_cong [OF r(4) s'(8,7,9,10)] r(6) by auto
qed

lemma sys_write_ok:
  assumes c: "opens c (umem c s (scall + 1)) fd s" and n: "n = unat (umem c s (scall + 2))" "n \<le> 1024" "n \<le> k" and wr: "writable dops fd d N k s"
  shows "\<exists>s'. sys_write dops scall s = Some s' \<and>
    file_contents (bview s') d N = write_at (file_contents (bview s) d N) (f_pos (file_at fd s)) (uwords c s (umem c s (scall + 3)) n) \<and>
    f_pos (file_at fd s') = f_pos (file_at fd s) + n \<and> umem c s' = umem c s \<and> writable dops fd d N (k - n) s' \<and> pins s' = pins s \<and>
    procs s' = procs s \<and> opens c (umem c s (scall + 1)) fd s'"
proof -
  obtain s1 where r: "cur_req scall 4 s = Some (c, uwords c s scall 4, s1)" "viewed c s s1" "umem c s1 = umem c s"
    "opens c (umem c s (scall + 1)) fd s1" "fd_get c (uwords c s scall 4 ! 1) s1 = Some (Some fd)" "procs s1 = procs s" by (rule cur_req_ok [OF c])
  note t = tables_view [OF viewed_tables [OF r(2)]]
  have w1: "writable dops fd d N k s1"
    using wr unfolding writable_def t(1,3,6,7) by (simp add: room_cong [OF t(2)] regular_def t(3))
  have a: "user_space c s1" "findProcByPid (p_pid (procs s1 c)) s1 = Some c" "blockRequest s1 = 0" using r(4) unfolding opens_def by simp_all
  let ?n = "umem c s (scall + 2)"
  have "unat ?n \<le> 1024" "unat ?n \<le> k" using n by simp_all
  from write_file_ok [OF w1 a this, of "umem c s (scall + 3)" scall] obtain s' where
    s': "try_k_write dops fd (umem c s (scall + 3)) ?n (p_pid (procs s1 c)) scall s1 = Some (unat ?n, s')"
    "file_contents (bview s') d N = write_at (file_contents (bview s) d N) (f_pos (file_at fd s)) (uwords c s1 (umem c s (scall + 3)) (unat ?n))"
    "f_pos (file_at fd s') = f_pos (file_at fd s) + unat ?n" "writable dops fd d N (k - unat ?n) s'"
    "umem c s' = (umem c s)(scall + 2 := ?n)" "pins s' = pins s" "procs s' = procs s1"
    "user_space c s'" "cProc s' = cProc s1" "blockRequest s' = blockRequest s1"
    unfolding r(3) t(1-3) by blast
  have "uwords c s1 = uwords c s" using uwords_cong [OF r(3)] by (simp add: fun_eq_iff)
  moreover have "(umem c s)(scall + 2 := ?n) = umem c s" by (simp only: fun_upd_triv)
  moreover have "sys_write dops scall s = Some s'" using r(1,5) s'(1) by (simp add: sys_write_def request_words)
  ultimately show ?thesis using s'(2-7) n(1) opens_cong [OF r(4) s'(8,7,9,10)] r(6) by simp
qed

text \<open>
  A \<^verbatim>\<open>read\<close> system call on a regular file returns at once: the words at the position of the file, as many as the
  request asks for and are left, are in the memory of the caller at the address the request gives, their number is
  in the request, the rest of the file is still to be read, and nothing else in the memory of the caller and no disk
  block has changed.
\<close>

theorem sys_read_delivers:
  assumes c: "caller c scall fd s" and rd: "readable dops fd d N s" and n: "unat (umem c s (scall + 2)) \<le> 1024"
    and ws: "ws = take (unat (umem c s (scall + 2))) (file_rest fd d N s)"
  shows "\<exists>s'. sys_read dops scall s = Some s' \<and>
    umem c s' = (uput ws (umem c s (scall + 3)) (umem c s))(scall + 2 := of_nat (length ws)) \<and>
    readable dops fd d N s' \<and> file_rest fd d N s' = drop (length ws) (file_rest fd d N s) \<and> bview s' = bview s \<and> pins s' = pins s \<and> procs s' = procs s"
proof -
  let ?n = "unat (umem c s (scall + 2))"
  have l: "drop ?n (file_rest fd d N s) = drop (length ws) (file_rest fd d N s)" unfolding ws by (simp add: min_def)
  show ?thesis using sys_read_ok [OF c [unfolded caller_def] rd n ws] unfolding l by blast
qed

text \<open>
  A \<^verbatim>\<open>write\<close> system call on a regular file takes the words from the memory of the caller, stores all of them
  in the file at its position, over old words and beyond the end, advances the position and puts their number into the request.
\<close>

theorem sys_write_stores:
  assumes c: "caller c scall fd s" and n: "n = unat (umem c s (scall + 2))" "n \<le> 1024" "n \<le> k" and wr: "writable dops fd d N k s"
  shows "\<exists>s'. sys_write dops scall s = Some s' \<and>
    file_contents (bview s') d N = write_at (file_contents (bview s) d N) (f_pos (file_at fd s)) (uwords c s (umem c s (scall + 3)) n) \<and>
    f_pos (file_at fd s') = f_pos (file_at fd s) + n \<and> umem c s' = umem c s \<and> writable dops fd d N (k - n) s' \<and> pins s' = pins s \<and> procs s' = procs s"
  using sys_write_ok [OF c [unfolded caller_def] n wr] by blast

lemma new_file_writable:
  "writable (\<lambda>_. ataGetDriver) 0 0 35 3 new_file" "node_size (bview new_file 0 35) = 0" "f_pos (file_at 0 new_file) = 0"
proof -
  have hd: "hw_hdd new_file = disk_words image" by (simp add: new_file_def power_on_def Let_def)
  have same: "blockCache new_file = blockCache (power_on (disk_words image))" "blkdrivers new_file = blkdrivers (power_on (disk_words image))"
    by (simp_all add: new_file_def)
  note f = fresh_disk [OF hd same]
  have v: "bview new_file = bview imaged" by (simp add: f(2) fun_eq_iff)
  show z: "node_size (bview new_file 0 35) = 0" unfolding v by (rule image_size)
  show p: "f_pos (file_at 0 new_file) = 0" by (simp add: file_at_def new_file_def)
  have "regular 0 0 35 new_file" by (simp add: regular_def file_at_def new_file_def S_ISCHR_def S_ISBLK_def)
  moreover have "direct_file (bview new_file) 0 35 0" "0 < nfree (bview new_file) 0"
    unfolding v using image_direct(2) [of 0] image_nfree [of 0] by simp_all
  moreover have "dev_present (hw_hdd new_file) 0" unfolding hd by simp
  ultimately show "writable (\<lambda>_. ataGetDriver) 0 0 35 3 new_file"
    using f(1) f(4) [of 3] z p unfolding writable_def by auto
qed

section \<open>A process and its request\<close>

text \<open>
  A process whose memory starts with a request at address 100 and the words of \<open>xs\<close> at 200; its descriptor 3 is
  the open file 0.
\<close>

definition calling :: "u16 list \<Rightarrow> u16 list \<Rightarrow> kst \<Rightarrow> kst" where
  "calling req xs s = s\<lparr>hw_mmu := hw_mmu user_state, hw_ram := (\<lambda>_. blit (blit (\<lambda>_. 0) 100 req) 200 xs), cProc := Some 0, blockRequest := 0,
     procs := (\<lambda>_. zero_proc)(0 := zero_proc\<lparr>p_mmuSelector := 1, p_pid := 1, p_state := PROC_STATE_RUN, p_openFiles := (\<lambda>_. None)(3 := Some 0)\<rparr>)\<rparr>"

lemma calling_caller:
  assumes "length req = 4" "req ! 1 = 3"
  shows "caller 0 100 0 (calling req xs s)" "umem 0 (calling req xs s) a = blit (blit (\<lambda>_. 0) 100 req) 200 xs (page_offset a)"
proof -
  let ?s = "calling req xs s"
  show m: "umem 0 ?s a = blit (blit (\<lambda>_. 0) 100 req) 200 xs (page_offset a)" for a by (simp add: umem_def calling_def)
  have "hw_mmu ?s = hw_mmu user_state" "p_mmuSelector (procs ?s 0) = p_mmuSelector (procs user_state 0)"
    by (simp_all add: calling_def user_state_def)
  then have "user_space 0 ?s" using user_space_user_state by (simp only: user_space_def mmu_tables)
  moreover have "findProcByPid 1 ?s = Some 0" by (simp add: findProcByPid_def calling_def)
  moreover have "umem 0 ?s 101 = 3" using assms unfolding m by (simp add: page_parts(1) blit_def)
  ultimately show "caller 0 100 0 ?s" by (simp add: caller_def opens_def) (simp add: calling_def)
qed

lemma calling_disk:
  "bview (calling req xs s) = bview s" "pins (calling req xs s) = pins s" "room k (calling req xs s) = room k s"
  "disk_ok dops (calling req xs s) = disk_ok dops s" "hw_hdd (calling req xs s) = hw_hdd s" "file_at fd (calling req xs s) = file_at fd s"
  "regular fd d N (calling req xs s) = regular fd d N s"
  by (rule disk_view, simp_all add: calling_def)+ (simp_all add: calling_def file_at_def regular_def)

text \<open>Reading up to five words of the file \<^verbatim>\<open>/a\<close> of the small tree, which has three.\<close>

definition tree_open :: kst where
  "tree_open = tree_state\<lparr>openFiles := \<lparr>set_capacity = 8, set_size = 1, set_used = (\<lambda>i. i = 0),
     set_el = (\<lambda>_. \<lparr>f_mode = 114, f_node = \<lparr>fn_dev = 0, fn_idx = 36\<rparr>, f_size = 3, f_pos = 0, f_device = 0, f_flags = S_IFREG, f_refcnt = 1\<rparr>)\<rparr>\<rparr>"

lemma tree_open_readable: "readable (\<lambda>_. ataGetDriver) 0 0 36 tree_open" "file_rest 0 0 36 tree_open = [65, 66, 67]"
proof -
  have h: "hw_hdd tree_open = hw_hdd tree_state" "blockCache tree_open = blockCache tree_state" "blkdrivers tree_open = blkdrivers tree_state"
    by (simp_all add: tree_open_def)
  have fa: "file_at 0 tree_open = \<lparr>f_mode = 114, f_node = \<lparr>fn_dev = 0, fn_idx = 36\<rparr>, f_size = 3, f_pos = 0, f_device = 0, f_flags = S_IFREG, f_refcnt = 1\<rparr>"
    by (simp add: file_at_def tree_open_def)
  show "readable (\<lambda>_. ataGetDriver) 0 0 36 tree_open"
    using tree_state_disk(1,3) tree_file(2,3) by (simp add: readable_def disk_view [OF h] h(1) regular_def fa S_ISCHR_def S_ISBLK_def tree_state_disk(4))
  show "file_rest 0 0 36 tree_open = [65, 66, 67]" by (simp add: file_rest_def fa disk_view [OF h] tree_file(1))
qed

theorem sys_read_delivers_witness:
  "\<exists>s'. sys_read (\<lambda>_. ataGetDriver) 100 (calling [4, 3, 5, 300] [] tree_open) = Some s' \<and>
     umem 0 s' 300 = 65 \<and> umem 0 s' 302 = 67 \<and> umem 0 s' 102 = 3"
proof -
  let ?s = "calling [4, 3, 5, 300] [] tree_open"
  have l: "length [4, 3, 5, 300 :: u16] = 4" "[4, 3, 5, 300 :: u16] ! 1 = 3" by simp_all
  note c = calling_caller [OF l, of "[]" tree_open] and k = calling_disk [where req = "[4, 3, 5, 300]" and xs = "[]" and s = tree_open]
  have r: "readable (\<lambda>_. ataGetDriver) 0 0 36 ?s" using tree_open_readable(1) unfolding readable_def k .
  have fr: "file_rest 0 0 36 ?s = [65, 66, 67]" using tree_open_readable(2) by (simp only: file_rest_def k)
  have m: "umem 0 ?s (100 + 2) = 5" "umem 0 ?s (100 + 3) = 300" by (simp_all add: c(2) page_parts(1) blit_def)
  have ws: "[65, 66, 67] = take (unat (umem 0 ?s (100 + 2))) (file_rest 0 0 36 ?s)" "unat (umem 0 ?s (100 + 2)) \<le> 1024"
    unfolding m fr by simp_all
  obtain s' where s': "sys_read (\<lambda>_. ataGetDriver) 100 ?s = Some s'"
    "umem 0 s' = (uput [65, 66, 67] 300 (umem 0 ?s))(100 + 2 := of_nat (length [65, 66, 67 :: u16]))"
    using sys_read_delivers [OF c(1) r ws(2,1)] unfolding m(2) by blast
  have "umem 0 s' 300 = 65" "umem 0 s' 302 = 67" "umem 0 s' 102 = 3" unfolding s'(2) by simp_all
  then show ?thesis using s'(1) by blast
qed

text \<open>Writing three words to the empty file.\<close>

theorem sys_write_stores_witness:
  "\<exists>s'. sys_write (\<lambda>_. ataGetDriver) 100 (calling [5, 3, 3, 200] [7, 8, 9] new_file) = Some s' \<and> file_contents (bview s') 0 35 = [7, 8, 9]"
proof -
  let ?s = "calling [5, 3, 3, 200] [7, 8, 9] new_file"
  have l: "length [5, 3, 3, 200 :: u16] = 4" "[5, 3, 3, 200 :: u16] ! 1 = 3" by simp_all
  note c = calling_caller [OF l, of "[7, 8, 9]" new_file] and k = calling_disk [where req = "[5, 3, 3, 200]" and xs = "[7, 8, 9]" and s = new_file]
  note w = new_file_writable
  have wr: "writable (\<lambda>_. ataGetDriver) 0 0 35 3 ?s" using w(1) unfolding writable_def k .
  have m: "umem 0 ?s (100 + 2) = 3" "umem 0 ?s (100 + 3) = 200" by (simp_all add: c(2) page_parts(1) blit_def)
  have u: "uwords 0 ?s 200 3 = [7, 8, 9]"
    unfolding numeral_3_eq_3 uwords_Suc by (simp add: uwords_def c(2) page_parts(1) blit_def)
  have fc: "file_contents (bview ?s) 0 35 = []" "f_pos (file_at 0 ?s) = 0" using w(2,3) by (simp_all add: k file_contents_def)
  have n: "3 = unat (umem 0 ?s (100 + 2))" unfolding m by simp
  obtain s' where s': "sys_write (\<lambda>_. ataGetDriver) 100 ?s = Some s'" "file_contents (bview s') 0 35 = write_at [] 0 [7, 8, 9]"
    using sys_write_stores [OF c(1) n _ _ wr] unfolding m(2) u fc by fastforce
  have "write_at [] 0 [7, 8, 9] = [7, 8, 9 :: u16]" by (simp add: write_at_def)
  then show ?thesis using s' by metis
qed

section \<open>Pipes with a closed end\<close>

text \<open>An open file of a pipe device that is written; \<^const>\<open>pipe_file\<close> is one that is read.\<close>

definition pipe_sink :: "kst \<Rightarrow> nat \<Rightarrow> u16 \<Rightarrow> bool" where
  "pipe_sink s fd minor \<longleftrightarrow> (let f = file_at fd s; m = DEV_MAJOR (f_device f) in
     \<not> S_ISBLK (f_flags f) \<and> S_ISCHR (f_flags f) \<and> m < MAX_DEVS \<and> dv_write (devList s m) = Some Piper_write \<and>
     dev_minor (f_device f) = minor)"

lemma k_write_pipe: "pipe_sink s fd minor \<Longrightarrow> k_write dops fd ws n s = piper_write minor ws n s"
  by (simp add: k_write_def pipe_sink_def call_write_def Let_def dev_entry_def)

lemma pipe_sink_viewed: "viewed p s s' \<Longrightarrow> pipe_sink s' fd minor = pipe_sink s fd minor"
proof -
  assume "viewed p s s'"
  then have e: "s' = s\<lparr>hw_mmu := (hw_mmu s)(pte 0 14 0 := hw_mmu s' (pte 0 14 0)), hw_ram := hw_ram s'\<rparr>" by (simp add: viewed_def)
  show ?thesis by (subst e) (simp add: pipe_sink_def file_at_def)
qed

lemma viewed_mx: "viewed p s s' \<Longrightarrow> schedMx s' = schedMx s"
  by (frule viewed_tables, subst (asm) tables_only_def, erule ssubst) simp

text \<open>The process with \<^verbatim>\<open>SIGPIPE\<close> pending and blocked.\<close>

definition sigpiped :: "proc \<Rightarrow> proc" where
  "sigpiped q = q\<lparr>p_signalsPending := p_signalsPending q OR push_bit SIGPIPE 1, p_state := PROC_STATE_BLOCKED\<rparr>"

lemma sigpiped_update: "(p_signalsPending_update (\<lambda>m. m OR push_bit SIGPIPE 1) q)\<lparr>p_state := PROC_STATE_BLOCKED\<rparr> = sigpiped q"
  by (cases q) (simp add: sigpiped_def)

text \<open>A write to a pipe that nobody reads, up to the point where the caller gives up the processor.\<close>

lemma try_k_write_closed:
  assumes p: "findProcByPid pid s = Some p" "user_space p s" "cProc s = Some c" "schedMx s \<noteq> 1"
    and f: "pipe_sink s fd minor" "unat minor < MAX_PIPES" "pf_readClosed (pipes s (unat minor)) \<noteq> 0" and n: "unat n \<le> IOBUF_SIZE"
  shows "\<exists>t. procs t = (procs s)(p := sigpiped (procs s p)) \<and> pipes t = pipes s \<and> waitq t = waitq s \<and> blockRequest t = 2 \<and>
    umem p t = umem p s \<and> user_space p t \<and>
    try_k_write dops fd src n pid scall s = do {
      t1 \<leftarrow> (if p_pid (procs s c) = pid then resched System_interrupt_stack t else Some t);
      t2 \<leftarrow> put_result p scall 0 t1;
      Some (0, t2) }"
proof -
  obtain s1 where g: "ugets p src 0 14 (unat n) False s = Some (uwords p s src (unat n), s1)" "viewed p s s1" "hw_ram s1 = hw_ram s"
    using ugets_ok [OF p(2), of src "unat n" False] by auto
  note v = viewed_frame [OF g(2)]
  have us: "user_space p s1" "umem p s1 = umem p s" using viewed_getPage(1) [OF g(2) p(2)] umem_viewed [OF g(2) p(2) g(3)] by simp_all
  have k: "k_write dops fd (uwords p s src (unat n)) (unat n) s1 = Some (0, s1\<lparr>blockRequest := 2\<rparr>)"
    using k_write_pipe [of s1 fd minor] f pipe_sink_viewed [OF g(2)] v(4) by (simp add: piper_write_def)
  have fp: "findProcByPid pid s1 = Some p" using p(1) find_procs_cong(1) [OF v(1)] by simp
  define t where "t = s1\<lparr>blockRequest := 2, schedMx := 0, procs := (procs s)(p := sigpiped (procs s p))\<rparr>"
  have "findProcByPid pid (s1\<lparr>blockRequest := 2, schedMx := 1\<rparr>) = Some p" using fp by (simp add: findProcByPid_def del: scan_numeral)
  then have sg: "sendSig pid (of_nat SIGPIPE) (s1\<lparr>blockRequest := 2\<rparr>) =
      Some (unlock_sched (proc_upd p (p_signalsPending_update (\<lambda>m. m OR push_bit SIGPIPE 1)) (s1\<lparr>blockRequest := 2, schedMx := 1\<rparr>)))"
    using lock_sched_iff [of "s1\<lparr>blockRequest := 2\<rparr>" "s1\<lparr>blockRequest := 2, schedMx := 1\<rparr>"] viewed_mx [OF g(2)] p(4)
    by (simp add: sendSig_def)
  have tt: "proc_upd p (p_state_update (\<lambda>_. PROC_STATE_BLOCKED))
      (unlock_sched (proc_upd p (p_signalsPending_update (\<lambda>m. m OR push_bit SIGPIPE 1)) (s1\<lparr>blockRequest := 2, schedMx := 1\<rparr>))) = t"
    using v(1) by (simp only: proc_upd_def unlock_sched_def spinlock_unlock_def t_def) (simp flip: sigpiped_update)
  have ct: "cProc t = Some c" "p_pid (procs t c) = p_pid (procs s c)"
    using p(3) viewed_cProc [OF g(2)] by (simp_all add: t_def sigpiped_def)
  have bc: "block_caller p pid (unlock_sched (proc_upd p (p_signalsPending_update (\<lambda>m. m OR push_bit SIGPIPE 1)) (s1\<lparr>blockRequest := 2, schedMx := 1\<rparr>))) =
      (if p_pid (procs s c) = pid then resched System_interrupt_stack t else Some t)"
    unfolding block_caller_def Let_def tt by (simp add: ct)
  have "try_k_write dops fd src n pid scall s = do {
      t1 \<leftarrow> (if p_pid (procs s c) = pid then resched System_interrupt_stack t else Some t);
      t2 \<leftarrow> put_result p scall 0 t1;
      Some (0, t2) }"
    using p(1) n g(1) k sg bc by (simp add: try_k_write_def)
  moreover have "same_tables p s1 t" by (simp add: same_tables_def t_def v(1) sigpiped_def)
  then have "umem p t = umem p s" "user_space p t" using same_tablesD us by simp_all
  ultimately show ?thesis using v by (intro exI [of _ t]) (simp add: t_def)
qed

text \<open>
  C30. Pipes with a closed end, on the way of the system calls.  A \<^verbatim>\<open>write\<close> to a pipe whose reading end is closed places nothing: the
  pid has \<^verbatim>\<open>SIGPIPE\<close> pending and is blocked, is not put on the wait queue, and gives up the processor if it has it; retried by the kernel
  worker the call ends there, with the result 0 in the request of the caller; \<^verbatim>\<open>blockRequest\<close> keeps the value 2 in either case.  A \<^verbatim>\<open>read\<close> of an empty pipe whose writing end is closed
  does not block and stores the result 0, the end of the file.
\<close>

theorem closed_pipe_calls:
  assumes p: "findProcByPid pid s = Some p" "user_space p s" "cProc s = Some c" "schedMx s \<noteq> 1"
    and m: "unat minor < MAX_PIPES" and n: "unat n \<le> IOBUF_SIZE"
  shows "(pipe_sink s fd minor \<and> pf_readClosed (pipes s (unat minor)) \<noteq> 0 \<longrightarrow>
      (\<exists>t. procs t = (procs s)(p := sigpiped (procs s p)) \<and> pipes t = pipes s \<and> waitq t = waitq s \<and> blockRequest t = 2 \<and> umem p t = umem p s \<and>
        (if p_pid (procs s c) = pid
         then try_k_write dops fd src n pid scall s =
           do { t1 \<leftarrow> resched System_interrupt_stack t; t2 \<leftarrow> put_result p scall 0 t1; Some (0, t2) }
         else \<exists>s'. try_k_write dops fd src n pid scall s = Some (0, s') \<and> procs s' = procs t \<and> pipes s' = pipes s \<and>
           waitq s' = waitq s \<and> blockRequest s' = 2 \<and> umem p s' = (umem p s)(scall + 2 := 0)))) \<and>
    (pipe_file s fd minor \<and> cb_inv (pf_cb (pipes s (unat minor))) \<and> cb_inv (waitqPending s) \<and> blockRequest s = 0 \<and>
      pipe_data s (unat minor) = [] \<and> pf_writeClosed (pipes s (unat minor)) \<noteq> 0 \<longrightarrow>
      (\<exists>s'. try_k_read dops fd dest n pid scall s = Some (0, s') \<and> procs s' = procs s \<and> waitq s' = waitq s \<and>
        umem p s' = (umem p s)(scall + 2 := 0)))"
proof (intro conjI impI)
  assume f: "pipe_sink s fd minor \<and> pf_readClosed (pipes s (unat minor)) \<noteq> 0"
  obtain t where t: "procs t = (procs s)(p := sigpiped (procs s p))" "pipes t = pipes s" "waitq t = waitq s" "umem p t = umem p s" "user_space p t"
    "blockRequest t = 2"
    "try_k_write dops fd src n pid scall s = do {
      t1 \<leftarrow> (if p_pid (procs s c) = pid then resched System_interrupt_stack t else Some t);
      t2 \<leftarrow> put_result p scall 0 t1;
      Some (0, t2) }"
    using try_k_write_closed [OF p _ m _ n] f by blast
  obtain s' where "put_result p scall 0 t = Some s'" "viewed p t s'" "umem p s' = (umem p s)(scall + 2 := 0)"
    using put_result_ok [OF t(5), of scall 0] t(4) by auto
  then show "\<exists>t. procs t = (procs s)(p := sigpiped (procs s p)) \<and> pipes t = pipes s \<and> waitq t = waitq s \<and> blockRequest t = 2 \<and> umem p t = umem p s \<and>
        (if p_pid (procs s c) = pid
         then try_k_write dops fd src n pid scall s =
           do { t1 \<leftarrow> resched System_interrupt_stack t; t2 \<leftarrow> put_result p scall 0 t1; Some (0, t2) }
         else \<exists>s'. try_k_write dops fd src n pid scall s = Some (0, s') \<and> procs s' = procs t \<and> pipes s' = pipes s \<and>
           waitq s' = waitq s \<and> blockRequest s' = 2 \<and> umem p s' = (umem p s)(scall + 2 := 0))"
    using t(1-4,6,7) viewed_frame [of p t s'] by (intro exI [of _ t]) auto
next
  assume a: "pipe_file s fd minor \<and> cb_inv (pf_cb (pipes s (unat minor))) \<and> cb_inv (waitqPending s) \<and> blockRequest s = 0 \<and>
      pipe_data s (unat minor) = [] \<and> pf_writeClosed (pipes s (unat minor)) \<noteq> 0"
  then have z: "cb_size (pf_cb (pipes s (unat minor))) = 0" "0 < cb_capacity (pf_cb (pipes s (unat minor)))"
    by (auto simp: cb_inv_def simp flip: length_0_conv)
  then obtain s1 where r: "piper_read minor (unat n) s = Some ([], s1)" "blockRequest s1 = 0"
    using a m by (simp add: piper_read_def Let_def case_prod_beta)
  have fr: "procs s1 = procs s" "waitq s1 = waitq s" "same_tables p s s1" using piper_read_frame [OF r(1), of p] a by blast+
  have us: "user_space p s1" "umem p s1 = umem p s" using same_tablesD [OF fr(3)] p(2) by simp_all
  obtain s2 where u: "uputs p dest 0 14 0 False [] s1 = Some (0, s2)" "viewed p s1 s2" "umem p s2 = umem p s1"
    using uputs_ok [OF us(1), of 0 "[]" dest False] by auto
  obtain s' where g: "put_result p scall 0 s2 = Some s'" "viewed p s2 s'" "umem p s' = (umem p s2)(scall + 2 := 0)"
    using put_result_ok [OF viewed_getPage(1) [OF u(2) us(1)], of scall 0] by auto
  have "try_k_read dops fd dest n pid scall s = Some (0, s')"
    using p(1) r u(1) g(1) a viewed_frame(6) [OF u(2)] by (simp add: try_k_read_def k_read_pipe [of s fd minor])
  then show "\<exists>s'. try_k_read dops fd dest n pid scall s = Some (0, s') \<and> procs s' = procs s \<and> waitq s' = waitq s \<and>
        umem p s' = (umem p s)(scall + 2 := 0)"
    using g(3) u(3) us(2) fr viewed_frame(1,2) [OF u(2)] viewed_frame(1,2) [OF g(2)] by auto
qed

text \<open>The worker, process 1 in entry 1, serves process 5; pipe 0 is empty and both its ends have been closed.\<close>

definition closed_pipe :: kst where
  "closed_pipe = resumable\<lparr>cProc := Some 1, pipes := (\<lambda>_. \<lparr>pf_used = 1, pf_readClosed = 1, pf_writeClosed = 1,
     pf_cb = cb_create_static 10 (\<lambda>_. 0), pf_openedAs = Some 0\<rparr>)\<rparr>"

theorem closed_pipe_calls_witness:
  "(\<exists>s'. try_k_write (\<lambda>_. ataGetDriver) 0 100 2 5 200 closed_pipe = Some (0, s') \<and> bit (p_signalsPending (procs s' 0)) SIGPIPE \<and>
     p_state (procs s' 0) = PROC_STATE_BLOCKED \<and> umem 0 s' 202 = 0) \<and>
   (\<exists>s'. try_k_read (\<lambda>_. ataGetDriver) 0 100 2 5 200 closed_pipe = Some (0, s') \<and> procs s' = procs closed_pipe \<and> umem 0 s' 202 = 0)"
proof -
  let ?s = closed_pipe
  have t: "same_tables 0 resumable ?s" by (simp add: same_tables_def closed_pipe_def)
  have us: "user_space 0 ?s" using same_tablesD(2) [OF t] resumable_parts(5) by simp
  have ps: "procs ?s = procs resumable" by (simp add: closed_pipe_def)
  have fp: "findProcByPid 5 ?s = Some 0" using resumable_parts(6) find_procs_cong(1) [OF ps] by simp
  have c: "cProc ?s = Some 1" "schedMx ?s \<noteq> 1" "p_pid (procs ?s 1) \<noteq> 5" "blockRequest ?s = 0" "waitqPending ?s = waitqPending resumable"
    by (simp_all add: closed_pipe_def resumable_def user_state_def power_on_def Let_def)
  have f: "pipe_sink ?s 0 0" "pipe_file ?s 0 0" "pf_readClosed (pipes ?s (unat (0 :: u16))) \<noteq> 0" "pf_writeClosed (pipes ?s (unat (0 :: u16))) \<noteq> 0"
    by (simp_all add: pipe_sink_def pipe_file_def closed_pipe_def resumable_def file_at_def zero_slots_def Let_def S_ISCHR_def S_ISBLK_def
      DEV_MAJOR_def dev_minor_def)
  have cb: "pf_cb (pipes ?s (unat (0 :: u16))) = cb_create_static 10 (\<lambda>_. 0)" by (simp add: closed_pipe_def)
  have "cb_size (cb_create_static 10 (\<lambda>_. 0)) = 0" by (simp add: cb_create_static_def)
  then have e: "cb_inv (pf_cb (pipes ?s (unat (0 :: u16))))" "pipe_data ?s (unat (0 :: u16)) = []"
    unfolding cb by (simp add: cb_create_inv) (simp flip: length_0_conv)
  have m: "unat (0 :: u16) < MAX_PIPES" "unat (2 :: u16) \<le> IOBUF_SIZE" by simp_all
  note both = closed_pipe_calls [OF fp us c(1,2) m, of 0 "\<lambda>_. ataGetDriver" 100 200 100]
  obtain s' where s': "try_k_write (\<lambda>_. ataGetDriver) 0 100 2 5 200 ?s = Some (0, s')"
    "procs s' = (procs ?s)(0 := sigpiped (procs ?s 0))" "umem 0 s' = (umem 0 ?s)(200 + 2 := 0)"
    using both [THEN conjunct1] f c(3) by auto
  obtain r where r: "try_k_read (\<lambda>_. ataGetDriver) 0 100 2 5 200 ?s = Some (0, r)" "procs r = procs ?s" "umem 0 r = (umem 0 ?s)(200 + 2 := 0)"
    using both [THEN conjunct2] f(2,4) c(4,5) e resumable_parts(1) by auto
  have "bit (push_bit SIGPIPE 1 :: u16) SIGPIPE" by (simp add: bit_exp_iff possible_bit_def)
  then have "bit (p_signalsPending (procs s' 0)) SIGPIPE" "p_state (procs s' 0) = PROC_STATE_BLOCKED"
    unfolding s'(2) by (simp_all add: sigpiped_def bit_or_iff)
  then show ?thesis using s'(1,3) r by simp
qed

end
