(* ===== verification/Clib.thy ===== *)
theory Clib
  imports Buffering Syscalls
begin

text \<open>
  The \<^verbatim>\<open>read\<close> and \<^verbatim>\<open>actual_write\<close> of the C library, \<^verbatim>\<open>libc/c/syscalls.c\<close>, on the kernel: the program stores the
  request and the words into its memory, the kernel serves the system call, and the program loads the result.  They
  provide the interfaces \<open>sink\<close> and \<open>source\<close>, so that streams are on the disk what they stand for.
\<close>

section \<open>The calls\<close>

text \<open>Stores of a process through its page table; its data pages are writable.\<close>

primrec user_store :: "nat \<Rightarrow> u16 list \<Rightarrow> u16 \<Rightarrow> kst \<Rightarrow> kst" where
  "user_store c [] a s = s"
| "user_store c (x # xs) a s = user_store c xs (a + 1) (ram_upd (unat (getPage c a s)) (\<lambda>b. b(page_offset a := x)) s)"

text \<open>The request is at \<open>scall\<close>, on the stack, the words are in the buffer at \<open>buf\<close>.\<close>

definition actual_write :: "dops \<Rightarrow> nat \<Rightarrow> u16 \<Rightarrow> u16 \<Rightarrow> kst write_call" where
  "actual_write dops c scall buf desc ws count s = do {
     s1 \<leftarrow> sys_table dops 4 scall (user_store c [4, desc, count, buf] scall (user_store c (take (unat count) ws) buf s));
     Some (umem c s1 (scall + 2), s1) }"

definition libc_read :: "dops \<Rightarrow> nat \<Rightarrow> u16 \<Rightarrow> u16 \<Rightarrow> kst read_call" where
  "libc_read dops c scall buf desc count s = do {
     s1 \<leftarrow> sys_table dops 3 scall (user_store c [3, desc, count, buf] scall s);
     Some (uwords c s1 buf (unat (umem c s1 (scall + 2))), s1) }"

text \<open>A buffer of 1024 words and the four words of the request do not overlap.\<close>

definition apart :: "u16 \<Rightarrow> u16 \<Rightarrow> bool" where
  "apart scall buf \<longleftrightarrow> 1024 \<le> unat (scall - buf) \<and> unat (scall - buf) \<le> 65532"

lemma apartD:
  assumes "apart scall buf" "i < 1024" "j < 4"
  shows "buf + of_nat i \<noteq> scall + of_nat j"
proof
  assume e: "buf + of_nat i = scall + of_nat j"
  have "scall - buf + of_nat j = (scall + of_nat j) - buf" by simp
  then have "scall - buf + of_nat j = of_nat i" unfolding e [symmetric] by simp
  then have "unat (scall - buf + of_nat j) = unat (of_nat i :: u16)" by (rule arg_cong)
  moreover have "unat (of_nat i :: u16) = i" using assms(2) by (intro unat_of_nat_u16_small) linarith
  moreover have "unat (of_nat j :: u16) = j" using assms(3) by (intro unat_of_nat_u16_small) linarith
  then have "unat (scall - buf + of_nat j) = unat (scall - buf) + j"
    using assms(1,3) by (subst unat_add_lem [THEN iffD1]) (auto simp: apart_def)
  ultimately show False using assms unfolding apart_def by linarith
qed

lemma user_store_ok:
  "user_space c s \<Longrightarrow> viewed c s (user_store c xs a s) \<and> umem c (user_store c xs a s) = uput xs a (umem c s)"
proof (induction xs arbitrary: a s)
  case Nil
  then show ?case by (simp add: viewed_refl)
next
  case (Cons x xs)
  let ?s = "ram_upd (unat (getPage c a s)) (\<lambda>b. b(page_offset a := x)) s"
  have v: "viewed c s ?s" unfolding viewed_def by (auto simp: ram_upd_def)
  have m: "umem c ?s = (umem c s)(a := x)"
  proof
    fix b
    show "umem c ?s b = ((umem c s)(a := x)) b"
      using user_space_inj [OF Cons.prems, of b a] addr_eqI [of b a] by (auto simp: umem_def word_unat_eq_iff [symmetric])
  qed
  have us: "user_space c ?s" using Cons.prems by simp
  show ?case using Cons.IH [OF us, of "a + 1"] viewed_trans [OF v _ Cons.prems] unfolding m by (simp add: fun_upd_def)
qed

lemma store_request:
  fixes k n :: u16
  assumes o: "opens c desc fd s" and ap: "apart scall buf" and l: "length ws \<le> 1024"
  defines "t \<equiv> user_store c [k, desc, n, buf] scall (user_store c ws buf s)"
  shows "viewed c s t" "umem c t (scall + 1) = desc" "umem c t (scall + 2) = n" "umem c t (scall + 3) = buf"
    "uwords c t buf (length ws) = ws" "opens c desc fd t"
proof -
  have us: "user_space c s" using o by (simp add: opens_def)
  let ?s = "user_store c ws buf s"
  note a = user_store_ok [OF us, of ws buf]
  have us1: "user_space c ?s" using a us viewed_getPage(1) by blast
  note b = user_store_ok [OF us1, of "[k, desc, n, buf]" scall]
  show v: "viewed c s t" unfolding t_def using viewed_trans [OF _ _ us] a b by blast
  show "opens c desc fd t" by (rule opens_viewed [OF o v])
  have m: "umem c t = (uput ws buf (umem c s))(scall := k, scall + 1 := desc, scall + 2 := n, scall + 3 := buf)"
    using a b unfolding t_def uput_field by simp
  then show "umem c t (scall + 1) = desc" "umem c t (scall + 2) = n" "umem c t (scall + 3) = buf" by simp_all
  have "umem c t (buf + of_nat i) = ws ! i" if "i < length ws" for i
  proof -
    have "buf + of_nat i \<noteq> scall + of_nat j" if "j < 4" for j using apartD [OF ap _ that] \<open>i < length ws\<close> l by simp
    from this [of 0] this [of 1] this [of 2] this [of 3] show ?thesis unfolding m using that l by (simp add: uput_nth)
  qed
  then show "uwords c t buf (length ws) = ws" by (intro nth_equalityI) (simp_all add: uwords_def)
qed

lemma sys_table_rw: "sys_table dops 3 = sys_read dops" "sys_table dops 4 = sys_write dops"
  by (simp_all add: sys_table_def)

section \<open>A file behind a descriptor\<close>

definition file_room :: "dops \<Rightarrow> nat \<Rightarrow> u16 \<Rightarrow> u16 \<Rightarrow> u16 \<Rightarrow> nat \<Rightarrow> u16 \<Rightarrow> u16 \<Rightarrow> nat \<Rightarrow> kst \<Rightarrow> bool" where
  "file_room dops c scall buf desc fd d N k s \<longleftrightarrow> apart scall buf \<and> opens c desc fd s \<and> writable dops fd d N k s"

definition file_ready :: "dops \<Rightarrow> nat \<Rightarrow> u16 \<Rightarrow> u16 \<Rightarrow> u16 \<Rightarrow> nat \<Rightarrow> u16 \<Rightarrow> u16 \<Rightarrow> kst \<Rightarrow> bool" where
  "file_ready dops c scall buf desc fd d N s \<longleftrightarrow> apart scall buf \<and> opens c desc fd s \<and> readable dops fd d N s"

text \<open>The words of a file before its position; \<^const>\<open>file_rest\<close> are those behind it.\<close>

definition file_done :: "nat \<Rightarrow> u16 \<Rightarrow> u16 \<Rightarrow> kst \<Rightarrow> u16 list" where
  "file_done fd d N s = take (f_pos (file_at fd s)) (file_contents (bview s) d N)"

lemma actual_write_all:
  assumes r: "file_room dops c scall buf desc fd d N k s" and n: "unat n \<le> k" "unat n \<le> length ws" "unat n \<le> 1024"
  shows "\<exists>s'. actual_write dops c scall buf desc ws n s = Some (n, s') \<and> file_room dops c scall buf desc fd d N (k - unat n) s' \<and>
    file_done fd d N s' = file_done fd d N s @ take (unat n) ws"
proof -
  let ?ws = "take (unat n) ws"
  define t where "t = user_store c [4, desc, n, buf] scall (user_store c ?ws buf s)"
  have ap: "apart scall buf" and o: "opens c desc fd s" and w: "writable dops fd d N k s" using r by (simp_all add: file_room_def)
  have l: "length ?ws \<le> 1024" "length ?ws = unat n" using n by simp_all
  note q = store_request [OF o ap l(1), of 4 n, folded t_def] and v = tables_view [OF viewed_tables]
  note tv = v [OF q(1)]
  have wt: "writable dops fd d N k t" using w unfolding writable_def tv(1,3,6,7) by (simp add: room_cong [OF tv(2)] regular_def tv(3))
  have ot: "opens c (umem c t (scall + 1)) fd t" using q(2,6) by simp
  obtain s' where s': "sys_write dops scall t = Some s'"
    "file_contents (bview s') d N = write_at (file_contents (bview t) d N) (f_pos (file_at fd t)) (uwords c t buf (unat n))"
    "f_pos (file_at fd s') = f_pos (file_at fd t) + unat n" "umem c s' = umem c t" "writable dops fd d N (k - unat n) s'" "opens c desc fd s'"
    using sys_write_ok [OF ot _ n(3,1) wt] unfolding q(2-4) by blast
  have "actual_write dops c scall buf desc ws n s = Some (n, s')"
    unfolding actual_write_def sys_table_rw t_def [symmetric] s'(1) by (simp add: s'(4) q(3))
  moreover have "f_pos (file_at fd s) \<le> length (file_contents (bview s) d N)" using w by (simp add: writable_def file_contents_def)
  then have "file_done fd d N s' = file_done fd d N s @ ?ws"
    using s'(2,3) q(5) l(2) by (simp add: file_done_def tv write_at_def)
  ultimately show ?thesis using s'(5,6) ap by (auto simp: file_room_def)
qed

lemma libc_read_next:
  assumes r: "file_ready dops c scall buf desc fd d N s" and n: "unat n \<le> 1024"
  shows "\<exists>s'. libc_read dops c scall buf desc n s = Some (take (unat n) (file_rest fd d N s), s') \<and>
    file_ready dops c scall buf desc fd d N s' \<and> file_rest fd d N s' = drop (unat n) (file_rest fd d N s)"
proof -
  define t where "t = user_store c [3, desc, n, buf] scall s"
  have ap: "apart scall buf" and o: "opens c desc fd s" and w: "readable dops fd d N s" using r by (simp_all add: file_ready_def)
  have q': "viewed c s t" "umem c t (scall + 1) = desc" "umem c t (scall + 2) = n" "umem c t (scall + 3) = buf" "opens c desc fd t"
    using store_request [OF o ap, of "[]" 3 n] by (simp_all add: t_def)
  note tv = tables_view [OF viewed_tables [OF q'(1)]]
  define ws where "ws = take (unat n) (file_rest fd d N s)"
  have l: "length ws \<le> 1024" using n by (simp add: ws_def)
  have ot: "opens c (umem c t (scall + 1)) fd t" using q'(2,5) by simp
  have rt: "readable dops fd d N t" and nt: "unat (umem c t (scall + 2)) \<le> 1024" using w n by (simp_all add: tv(5) q'(3))
  have ft: "file_rest fd d N t = file_rest fd d N s" by (simp add: file_rest_def tv)
  obtain s' where s': "sys_read dops scall t = Some s'" "umem c s' = (uput ws buf (umem c t))(scall + 2 := of_nat (length ws))"
    "readable dops fd d N s'" "file_rest fd d N s' = drop (unat n) (file_rest fd d N s)" "opens c desc fd s'"
    using sys_read_ok [OF ot rt nt refl] unfolding q'(2-4) ft ws_def [symmetric] by blast
  have k: "umem c s' (scall + 2) = of_nat (length ws)" by (simp add: s'(2))
  have ul: "unat (of_nat (length ws) :: u16) = length ws" using l by (intro unat_of_nat_u16_small) linarith
  have "umem c s' (buf + of_nat i) = ws ! i" if "i < length ws" for i
    using apartD [OF ap, of i 2] that l unfolding s'(2) by (simp add: uput_nth)
  then have "uwords c s' buf (length ws) = ws" by (intro nth_equalityI) (simp_all add: uwords_def)
  then have "libc_read dops c scall buf desc n s = Some (ws, s')"
    unfolding libc_read_def sys_table_rw t_def [symmetric] s'(1) by (simp add: k ul)
  then show ?thesis using s'(3-5) ap by (auto simp: file_ready_def ws_def)
qed

interpretation file_out: sink "actual_write dops c scall buf" desc 1024 "file_room dops c scall buf desc fd d N" "file_done fd d N"
  for dops c scall buf desc fd d N
proof
  fix k s and n :: u16 and ws :: "u16 list"
  assume r: "file_room dops c scall buf desc fd d N k s" "n \<noteq> 0" "unat n \<le> k" "unat n \<le> length ws" "unat n \<le> 1024"
  then show "\<exists>j s'. actual_write dops c scall buf desc ws n s = Some (j, s') \<and> 0 < unat j \<and> unat j \<le> unat n \<and>
      file_room dops c scall buf desc fd d N (k - unat j) s' \<and> file_done fd d N s' = file_done fd d N s @ take (unat j) ws"
    using actual_write_all [OF r(1,3-5)] by (auto simp: unat_gt_0)
qed simp

interpretation file_in: source "libc_read dops c scall buf" desc 1024 "file_ready dops c scall buf desc fd d N" "file_rest fd d N"
  for dops c scall buf desc fd d N
  by unfold_locales (auto intro: libc_read_next)

section \<open>Streams on files\<close>

text \<open>
  C33. A string put into an output stream on a regular file and flushed is in the file, behind the words written
  before and those that were still in the buffer, whatever the mode of buffering and however often the buffer was full.
\<close>

theorem fputs_stores:
  assumes "apart scall buf" "opens c desc fd (os u)" "writable dops fd d N (bufpos (streams u fp) + length w) (os u)"
    and "writer desc 1024 (streams u fp)" "0 \<notin> set w" "EOF \<notin> set w"
  shows "\<exists>u1 u2. fputs (actual_write dops c scall buf) (w @ 0 # r) fp u = Some (of_nat (length w), u1) \<and>
    fflush (actual_write dops c scall buf) fp u1 = Some (0, u2) \<and>
    file_done fd d N (os u2) = file_done fd d N (os u) @ slice (sbuf (streams u fp)) 0 (bufpos (streams u fp)) @ w"
  using file_out.fputs_fflush [OF assms(4), of dops c scall buf fd d N w 0 r] assms by (simp add: file_room_def outgoing_def) blast

text \<open>
  C28. \<^verbatim>\<open>fgets\<close> on a regular file returns the next line, or as much of it as the caller has room for, terminated,
  and a null pointer at the end; the words after the line come next, whether they are in the buffer or still in the file.
\<close>

theorem fgets_reads:
  assumes "apart scall buf" "opens c desc fd (os u)" "readable dops fd d N (os u)" "reader desc 1024 (streams u fp)" "fp \<noteq> stdin"
    and "xs = incoming (file_rest fd d N) fp u" "EOF \<notin> set xs" "1 < unat count" "l = line_of (unat count - 1) xs"
  shows "\<exists>u'. fgets wr (libc_read dops c scall buf) count fp u = Some (if xs = [] then None else Some (l @ [0]), u') \<and>
    incoming (file_rest fd d N) fp u' = drop (length l) xs \<and> opens c desc fd (os u') \<and> readable dops fd d N (os u') \<and>
    (incoming (file_rest fd d N) fp u' = [] \<or> reader desc 1024 (streams u' fp))"
proof -
  have "file_ready dops c scall buf desc fd d N (os u)" using assms(1-3) by (simp add: file_ready_def)
  from file_in.fgets_line [OF assms(4,5) this assms(7) [unfolded assms(6)] assms(8), of wr] show ?thesis
    unfolding assms(6) [symmetric] assms(9) [symmetric] by (auto simp: file_ready_def)
qed

text \<open>
  \<^verbatim>\<open>fseek\<close> to a place in the file reports success but does not move: the system call under it is a stub.  The
  words that were in the buffer of an input stream are lost, reading goes on behind them, and \<^verbatim>\<open>ftell\<close> returns 0.
\<close>

lemma fseek_stays:
  assumes "0 \<le> offset" "\<not> has (smode (streams u fp)) MODE_WRITING"
  shows "\<exists>u' u''. fseek wr fp offset SEEK_SET u = Some (0, u') \<and> os u' = os u \<and> incoming rest fp u' = rest (os u) \<and>
    ftell wr fp u' = Some (0, u'') \<and> os u'' = os u"
proof -
  have fl: "\<exists>v'. fflush wr fp v = Some (0, v') \<and> os v' = os v \<and> streams v' fp = (streams v fp)\<lparr>smode := flushed (smode (streams v fp)),
      bufread := 0, bufwrite := 0, bufpos := 0\<rparr>" if "\<not> has (smode (streams v fp)) MODE_WRITING" for v
    using that by (simp add: fflush_def)
  obtain u' where u': "fflush wr fp u = Some (0, u')" "os u' = os u" "streams u' fp = (streams u fp)\<lparr>smode := flushed (smode (streams u fp)),
      bufread := 0, bufwrite := 0, bufpos := 0\<rparr>" using fl [OF assms(2)] by blast
  then have "\<not> has (smode (streams u' fp)) MODE_WRITING" by (simp add: has_bits mode_bits)
  from fl [OF this] obtain u'' where u'': "fflush wr fp u' = Some (0, u'')" "os u'' = os u'" by blast
  have "fseek wr fp offset SEEK_SET u = Some (0, u')" using assms(1) u'(1) by (simp add: fseek_def lseek_def Let_def)
  moreover have "ftell wr fp u' = Some (0, u'')" using u''(1) by (simp add: ftell_def lseek_def)
  ultimately show ?thesis using u'(2,3) u''(2) by (auto simp: incoming_def slice_def)
qed

section \<open>Examples\<close>

definition stream_on :: "u16 \<Rightarrow> kst \<Rightarrow> kst prog" where
  "stream_on m s = \<lparr>streams = (\<lambda>_. \<lparr>bufpos = 0, bufread = 0, bufwrite = 0, bufend = 1024, sfd = 3, smode = m, sbuf = (\<lambda>_. 0)\<rparr>),
     errno = 0, io_list = [], os = calling [4, 3, 0, 0] [] s\<rparr>"

lemma stream_on_ok:
  "apart 100 2000" "opens 0 3 0 (os (stream_on m s))" "os (stream_on m s) = calling [4, 3, 0, 0] [] s"
  "writer 3 1024 (streams (stream_on MODE_WRITE s) 5)" "reader 3 1024 (streams (stream_on MODE_READ s) 5)"
  "bufpos (streams (stream_on m s) fp) = 0" "incoming rest fp (stream_on m s) = rest (calling [4, 3, 0, 0] [] s)"
proof -
  have l: "length [4, 3, 0, 0 :: u16] = 4" "[4, 3, 0, 0 :: u16] ! 1 = 3" by simp_all
  note c = calling_caller [OF l, of "[]" s]
  have m: "umem 0 (calling [4, 3, 0, 0] [] s) (100 + 1) = 3" by (simp add: c(2) page_parts(1) blit_def)
  show "opens 0 3 0 (os (stream_on m s))" using c(1) unfolding caller_def m by (simp add: stream_on_def)
qed (simp_all add: apart_def stream_on_def writer_def reader_def can_def has_def incoming_def slice_def)

theorem fputs_stores_witness:
  "\<exists>u1 u2. fputs (actual_write (\<lambda>_. ataGetDriver) 0 100 2000) [72, 105, 10, 0] 5 (stream_on MODE_WRITE new_file) = Some (3, u1) \<and>
     fflush (actual_write (\<lambda>_. ataGetDriver) 0 100 2000) 5 u1 = Some (0, u2) \<and> file_done 0 0 35 (os u2) = [72, 105, 10]"
proof -
  let ?u = "stream_on MODE_WRITE new_file"
  note k = calling_disk [where req = "[4, 3, 0, 0]" and xs = "[]" and s = new_file]
  have l: "0 + length [72, 105, 10 :: u16] = 3" by simp
  have "writable (\<lambda>_. ataGetDriver) 0 0 35 3 (os ?u)" using new_file_writable(1) unfolding stream_on_ok(3) writable_def k .
  then have w: "writable (\<lambda>_. ataGetDriver) 0 0 35 (bufpos (streams ?u 5) + length [72, 105, 10 :: u16]) (os ?u)"
    unfolding stream_on_ok(6) l .
  have d: "file_done 0 0 35 (os ?u) = []" using new_file_writable(3) by (simp add: file_done_def stream_on_ok(3) k)
  show ?thesis
    using fputs_stores [OF stream_on_ok(1,2) w stream_on_ok(4), of "[]"] unfolding d by (simp add: stream_on_ok(6) slice_def)
qed

theorem fgets_reads_witness:
  "\<exists>u'. fgets (actual_write (\<lambda>_. ataGetDriver) 0 100 2000) (libc_read (\<lambda>_. ataGetDriver) 0 100 2000) 3 5 (stream_on MODE_READ tree_open) =
       Some (Some [65, 66, 0], u') \<and> incoming (file_rest 0 0 36) 5 u' = [67]"
proof -
  let ?u = "stream_on MODE_READ tree_open"
  note k = calling_disk [where req = "[4, 3, 0, 0]" and xs = "[]" and s = tree_open]
  have r: "readable (\<lambda>_. ataGetDriver) 0 0 36 (os ?u)" using tree_open_readable(1) unfolding stream_on_ok(3) readable_def k .
  have i: "[65, 66, 67] = incoming (file_rest 0 0 36) 5 ?u" using tree_open_readable(2) by (simp add: stream_on_ok(7) file_rest_def k)
  have e: "EOF \<notin> set [65, 66, 67 :: u16]" "(1::nat) < unat (3 :: u16)" "(5 :: nat) \<noteq> stdin" by simp_all
  have "unat (3 :: u16) - 1 = Suc (Suc 0)" by simp
  then have l: "[65, 66] = line_of (unat (3 :: u16) - 1) [65, 66, 67]" by (simp only: line_of.simps) simp
  show ?thesis
    using fgets_reads [OF stream_on_ok(1,2) r stream_on_ok(5) e(3) i e(1,2) l, of "actual_write (\<lambda>_. ataGetDriver) 0 100 2000"] by auto
qed

end
