(* ===== verification/Spec2Isabelle.thy ===== *)
theory Spec2Isabelle
  imports Sys FsWrite Transparent Files Execute Scheduling Waiting Streams Memory Cow Paths Resume Malloc Lifecycle Clib
begin

text \<open>
  The operating system of the rl_cpu machine, a 16-bit computer with word addressing, in Isabelle/HOL:
  the kernel under \<^verbatim>\<open>src/rl_os/kernel\<close> function by function, the parts of the simulated hardware it
  drives (\<^verbatim>\<open>src/sim/sim.hpp\<close>), and the allocator and the buffered streams of its user-space library (\<^verbatim>\<open>src/rl_os/libc\<close>).

  \<^bold>\<open>The program.\<close>  The kernel is a monolithic, preemptively scheduled Unix-like system.  Interrupts enter
  through assembler stubs that save a frame; the handlers are \<^verbatim>\<open>timer_interrupt\<close> (time slices),
  \<^verbatim>\<open>uart_interrupt\<close> (terminals), \<^verbatim>\<open>mmu_interrupt\<close> (page faults) and \<^verbatim>\<open>system_interrupt\<close> (system calls,
  dispatched by number).  Handlers that are quick run at once on the data of the calling process, which
  they fetch with \<^verbatim>\<open>ugets\<close> and store with \<^verbatim>\<open>uputs\<close> through a window in the kernel's own address space.  Fork,
  clone, exec, wait and exit are queued (\<^verbatim>\<open>addKernelTask\<close>) for one privileged process, the kernel worker,
  which carries them out and then serves the processes blocked on files: a device notifies the wait
  queue (\<^verbatim>\<open>waitqNotify\<close>) and the worker retries the read or write of every waiter.  Files live in a
  Unix-like file system, RLFS3, on sectors of 256 words that go through a cache of sixteen blocks to
  the driver of the device (ATA disks, or a loop device on a file).

  \<^bold>\<open>Conventions.\<close>  A machine word (\<^verbatim>\<open>char\<close>, \<^verbatim>\<open>int\<close>, pointers) is \<open>u16\<close>, arithmetic on it wraps; \<^verbatim>\<open>long\<close> is a pair
  of words.  A C array is a function on indices; an access that the code bounds is modelled as it is, one
  that it does not bound is either shown to stay inside, or reads what the model's array holds there, or
  makes the operation undefined.  A pointer into a table is the index of the entry and \<^verbatim>\<open>NULL\<close> is \<open>None\<close>.
  The kernel's global variables are the fields of the record \<open>kst\<close> (\<open>KState\<close>), which extends the state of
  the file system \<open>fs_st\<close>, which extends that of the block layer \<open>blk_st\<close>, which extends the hardware \<open>hw\<close>; a
  function of a layer is defined on the extensible record of its layer, so that it can be used and
  reasoned about at each of the layers above.  Operations live in the option monad: \<open>None\<close> is an operation that
  does not return (a loop without end, a panic, a spin on a held lock) or whose behaviour the code leaves
  undefined (a null pointer, a table overrun).  Therefore the theorems say that an operation returns by
  stating \<open>\<exists>s'. op s = Some s'\<close>, and that it never returns by stating \<open>op s = None\<close>.  Bounded loops
  are recursion on the number of steps left (\<open>forn\<close>, \<open>fort\<close>, \<open>scan\<close> in \<open>KPrelude\<close>); loops whose end is not evident
  are \<open>partial_function (option)\<close>, so there is no fuel in the model.  The one bound is the index \<open>n\<close> of the
  family \<open>kdops n\<close> in \<open>Kfile\<close>: it resolves the drivers of block devices where loop devices, whose blocks are
  read from files on other devices, may be nested \<open>n\<close> deep; a system with fewer nested loop devices than \<open>n\<close>
  never reaches the bottom of the family.

  \<^bold>\<open>Theories of the model\<close> (one group of definitions for each C file, in the order of the file):

    \<^item> \<open>KPrelude\<close>: words, C strings, arrays, scans and loops, and their rules (\<open>kmonad\<close>).
    \<^item> \<open>Hw\<close>: disks, page table, interrupt vectors, serial lines and ports (\<^verbatim>\<open>sim.hpp\<close>).
    \<^item> \<open>KString\<close>, \<open>Kstdio\<close>: \<^verbatim>\<open>string.c\<close> and the formatted output of \<^verbatim>\<open>kstdio.c\<close>.
    \<^item> \<open>Cb\<close>, \<open>SlotSet\<close>: the circular buffer \<^verbatim>\<open>cb.c\<close> and the element table \<^verbatim>\<open>set.c\<close>.
    \<^item> \<open>Blk\<close>: driver table \<^verbatim>\<open>blkdriver.c\<close>, disk driver \<^verbatim>\<open>ata.c\<close>, block cache \<^verbatim>\<open>blk.c\<close>.
    \<^item> \<open>Rlfs\<close>: \<^verbatim>\<open>rlfs3.c\<close> below paths: formatting, mount table, bitmap, nodes, directories, reading and writing.
    \<^item> \<open>KState\<close>: the records of processes, tasks, waiters, pipes and devices, and \<open>power_on\<close>.
    \<^item> \<open>Sched\<close>: \<^verbatim>\<open>lock.c\<close>, \<^verbatim>\<open>sched.c\<close> and the task queue of \<^verbatim>\<open>kernel_worker.c\<close>.
    \<^item> \<open>Waitq\<close>, \<open>Tty\<close>, \<open>Piper\<close>: \<^verbatim>\<open>waitq.c\<close>, \<^verbatim>\<open>tty.c\<close>, \<^verbatim>\<open>piper.c\<close>.
    \<^item> \<open>Mm\<close>: \<^verbatim>\<open>mm.c\<close>, page tables, frames, page faults and access to user memory.
    \<^item> \<open>Kfile\<close>: \<^verbatim>\<open>rlfs3.c\<close> at the level of paths, open files and device files; \<^verbatim>\<open>loop.c\<close>.
    \<^item> \<open>Exec\<close>, \<open>Worker\<close>: \<^verbatim>\<open>fork.c\<close>, \<^verbatim>\<open>execve.c\<close>, \<^verbatim>\<open>kernel_worker.c\<close>.
    \<^item> \<open>Sys\<close>: \<^verbatim>\<open>sys.c\<close>, \<^verbatim>\<open>sys_fs.c\<close>, \<^verbatim>\<open>sys_proc.c\<close> and \<^verbatim>\<open>kernel_main.c\<close>.
    \<^item> \<open>Malloc\<close>: \<^verbatim>\<open>libc/c/malloc.c\<close>, \<^verbatim>\<open>libc/c/calloc.c\<close>, with their properties.
    \<^item> \<open>Stdio\<close>: the streams of \<^verbatim>\<open>libc/c/stdio.c\<close> on system calls that are arguments; \<open>Clib\<close>: those calls, \<^verbatim>\<open>read\<close> and
      \<^verbatim>\<open>actual_write\<close> of \<^verbatim>\<open>libc/c/syscalls.c\<close>, on the kernel.

  \<^bold>\<open>Theories of the properties\<close>:

    \<^item> \<open>KString\<close> and \<open>Kstdio\<close> also hold the round trip of \<^verbatim>\<open>atoi\<close> and \<^verbatim>\<open>itoa\<close> and the agreement of \<^verbatim>\<open>printf\<close> with it;
      \<open>Cb\<close> and \<open>SlotSet\<close> the refinement of the buffer to a bounded queue (locale \<open>bounded_fifo\<close>) and the invariant
      of the table (locale \<open>slot_table\<close>).
    \<^item> \<open>Cache\<close>: what a reader of the cache sees of a block (\<open>bview\<close>), who holds it (\<open>pins\<close>) and what waits to be
      marked (\<open>dirty\<close>); the locale \<open>sector_driver\<close> is the contract between the cache and a driver, interpreted by the
      ATA driver.  The relation \<open>fx\<close> says what an operation does to these views, and composes; the theories
      above the cache speak of it only.
    \<^item> \<open>FsAlloc\<close>, \<open>FsFile\<close>, \<open>FsWrite\<close>: the bitmap, the words of a file, and writing as the update \<open>write_at\<close> of a list of
      words that leaves every other file alone.
    \<^item> \<open>Transparent\<close>: the reachable states of the cache under arbitrary clients, and the cache as a refinement of the bare disks.
    \<^item> \<open>Paths\<close>, \<open>Files\<close>: lookup as a walk over directory entries and mount points; reading and writing an open file.
    \<^item> \<open>Scheduling\<close>: round robin, time slices, wake-ups, the lock, signals; an inductive step relation
      (\<open>sched_reachable\<close>) for what holds in every state.
    \<^item> \<open>Waiting\<close>, \<open>Streams\<close>, \<open>Resume\<close>: the wait queue, terminals and pipes as streams, and the whole way of a blocked
      reader back to running.
    \<^item> \<open>Memory\<close>, \<open>Cow\<close>, \<open>Lifecycle\<close>: the memory of a process as a function of addresses (\<open>umem\<close>), copy-on-write fork as a
      refinement of copying fork with the accounting of frames (\<open>cow_inv\<close>, \<open>balanced\<close>; the locale \<open>page_loop\<close> is the
      contract shared by the two fork loops), and a process from fork to exit and wait.
    \<^item> \<open>Args\<close>, \<open>Loading\<close>, \<open>Program\<close>, \<open>Execute\<close>: exec, from the argument block and the pages of a segment to the memory of
      a process that has loaded a program.
    \<^item> \<open>Syscalls\<close>: the \<^verbatim>\<open>read\<close> and \<^verbatim>\<open>write\<close> system calls on regular files, from the memory of the caller to the disk, and on a pipe whose other end is closed.
    \<^item> \<open>Buffering\<close>, \<open>Clib\<close>: an output stream as the words written and those in its buffer, an input stream as the words in its
      buffer and those still to be read, for any system calls that keep the contracts \<open>sink\<close> and \<open>source\<close>; the kernel
      keeps them for files, so that what a program puts into a stream is on the disk and the lines it gets are those of the file.

  The theorems that hold only because the code has a defect (a full disk hands out the superblock, a
  reader past the end of a file leaks a cache entry, a notification is lost) state what the code does; the
  text before each says so.

  \<^bold>\<open>Not modelled.\<close>  Diagnostic printing inside operations (it only writes to a terminal) and the functions that
  only print (\<^verbatim>\<open>ps\<close>, \<^verbatim>\<open>dump_blocks\<close>, \<^verbatim>\<open>showTasks\<close>, \<^verbatim>\<open>dumpProcessPages\<close>); the debugging shell \<^verbatim>\<open>sh_builtin.c\<close>; the
  polling terminal input of \<^verbatim>\<open>kstdio.c\<close>.  Interrupt entry and exit are assembler: their effect, a frame on
  the interrupt stack, is the record \<open>iframe\<close> that the handlers read and replace.  The serial line is a list of
  words still to be received: the status port of the UART reports received words while the list is not
  empty, which is the documented meaning of the interrupt flags; transmission always succeeds.  The physical
  memory \<open>hw_ram\<close> holds the frames of processes; the kernel's globals are the fields of the record and do not
  alias it, although on the machine they lie in the frames of the kernel.  Fields of C structures that the kernel never reads are
  left out.  Stores and loads of a program go to its own pages; the buffers of its streams are kept beside its memory and copied to
  the address named in a system call.  The rest of the library and the applications are user programs, mostly imported from other
  projects; simulator CPU, assembler, linker and tools are C++; the compiler is lcc.
\<close>

end
